(* ===== verification/KipDB_Prelude.thy ===== *)
theory KipDB_Prelude
  imports Main "HOL-Library.Word" "HOL-Library.List_Lexorder"
begin

text \<open>
  Vocabulary shared by all components of the KipDB development.

  \<^item> \<open>bytes\<close> and \<open>key_value\<close>: the byte strings of the \<open>bytes\<close> crate, ordered
    lexicographically on unsigned bytes as Rust's \<open>Ord\<close> for slices, and the
    \<open>KeyValue\<close> pairs of \<open>src/src/kernel/lsm/mem_table.rs\<close> (no value is a tombstone);
  \<^item> \<open>kernel_error\<close> and \<open>outcome\<close>: the error enumeration of \<open>src/src/error.rs\<close> and
    the result of a fallible Rust function, with panics as a third outcome;
  \<^item> \<open>bound\<close>, \<open>ordering\<close> and \<open>binary_search_by\<close>: the parts of the Rust standard library
    that the sources use, and \<open>unique_by\<close>, \<open>sorted_by_key\<close>: the iterator adaptors;
  \<^item> generic lemmas on strictly ascending lists and association lists.
\<close>

section \<open>Bytes, results and errors\<close>

type_synonym byte = "8 word"
type_synonym bytes = "byte list"
type_synonym key_value = "bytes \<times> bytes option"

text \<open>\<open>KernelError\<close>; the variants that carry foreign errors are constants here, because no code
  of the kernel inspects the payload.\<close>

datatype kernel_error =
    Io | RecvError | SendCompactTaskError | SendCleanTagError | SerdeBinCode
  | KeyNotFound | DataEmpty | LevelOver | NotMatchCmd | CrcMisMatch
  | CacheSizeOverFlow | CacheShardingNotAlign | FileNotFound | WalLoad
  | UnexpectedCommandType | ProcessExists | ChannelClose | NotSupport string
  | ShardingNotAlign | RepeatedWrite

datatype 'a outcome = Ok 'a | Err kernel_error | Panic

fun and_then :: "'a outcome \<Rightarrow> ('a \<Rightarrow> 'b outcome) \<Rightarrow> 'b outcome" where
  "and_then (Ok x) f = f x"
| "and_then (Err e) f = Err e"
| "and_then Panic f = Panic"

fun map_outcome_ok :: "('a \<Rightarrow> 'b) \<Rightarrow> 'a outcome \<Rightarrow> 'b outcome" where
  "map_outcome_ok f (Ok x) = Ok (f x)"
| "map_outcome_ok f (Err e) = Err e"
| "map_outcome_ok f Panic = Panic"

text \<open>Sequencing of computations that may not return (\<open>None\<close>).\<close>

fun bind_oo :: "'a outcome option \<Rightarrow> ('a \<Rightarrow> 'b outcome option) \<Rightarrow> 'b outcome option" where
  "bind_oo (Some (Ok x)) f = f x"
| "bind_oo (Some (Err e)) f = Some (Err e)"
| "bind_oo (Some Panic) f = Some Panic"
| "bind_oo None f = None"

text \<open>A pair the entry encoding represents: lengths below \<open>2 ^ 32\<close> and no empty value.\<close>

definition kv_storable :: "key_value \<Rightarrow> bool" where
  "kv_storable kv \<longleftrightarrow> length (fst kv) < 2 ^ 32 \<and>
     (case snd kv of None \<Rightarrow> True | Some v \<Rightarrow> v \<noteq> [] \<and> length v < 2 ^ 32)"

section \<open>Machine integers\<close>

text \<open>An \<open>i64\<close> is an \<open>int\<close> in the range below; \<open>wrap_i64\<close> is two's complement wrap-around.\<close>

type_synonym i64 = int

definition i64_MIN :: i64 where "i64_MIN = - (2 ^ 63)"
definition i64_MAX :: i64 where "i64_MAX = 2 ^ 63 - 1"

definition wrap_i64 :: "int \<Rightarrow> i64" where
  "wrap_i64 n = (n + 2 ^ 63) mod 2 ^ 64 - 2 ^ 63"

definition in_i64 :: "i64 \<Rightarrow> bool" where
  "in_i64 n \<longleftrightarrow> i64_MIN \<le> n \<and> n \<le> i64_MAX"

section \<open>Orderings, bounds and binary search of the standard library\<close>

datatype ordering = Less | Equal | Greater

definition cmp :: "'a::linorder \<Rightarrow> 'a \<Rightarrow> ordering" where
  "cmp x y = (if x < y then Less else if x = y then Equal else Greater)"

fun then_with :: "ordering \<Rightarrow> ordering \<Rightarrow> ordering" where
  "then_with Equal o2 = o2"
| "then_with o1 o2 = o1"

fun reverse_ordering :: "ordering \<Rightarrow> ordering" where
  "reverse_ordering Less = Greater"
| "reverse_ordering Equal = Equal"
| "reverse_ordering Greater = Less"

datatype 'a bound = Included 'a | Excluded 'a | Unbounded

fun above :: "'a::linorder bound \<Rightarrow> 'a \<Rightarrow> bool" where
  "above (Included b) x \<longleftrightarrow> b \<le> x"
| "above (Excluded b) x \<longleftrightarrow> b < x"
| "above Unbounded x \<longleftrightarrow> True"

fun below :: "'a::linorder bound \<Rightarrow> 'a \<Rightarrow> bool" where
  "below (Included b) x \<longleftrightarrow> x \<le> b"
| "below (Excluded b) x \<longleftrightarrow> x < b"
| "below Unbounded x \<longleftrightarrow> True"

text \<open>\<open>slice::binary_search_by\<close>: the result is \<open>Found i\<close> for Rust's \<open>Ok(i)\<close> and
  \<open>Insert_at i\<close> for \<open>Err(i)\<close>. The loop halves the window \<open>[left, right)\<close>.\<close>

datatype search = Found nat | Insert_at nat

function bsearch_loop :: "('a \<Rightarrow> ordering) \<Rightarrow> 'a list \<Rightarrow> nat \<Rightarrow> nat \<Rightarrow> search" where
  "bsearch_loop f xs left right =
     (if left < right then
        (let mid = left + (right - left) div 2 in
         case f (xs ! mid) of
           Less \<Rightarrow> bsearch_loop f xs (mid + 1) right
         | Greater \<Rightarrow> bsearch_loop f xs left mid
         | Equal \<Rightarrow> Found mid)
      else Insert_at left)"
  by pat_completeness auto
termination
  by (relation "measure (\<lambda>(f, xs, left, right). right - left)") auto

declare bsearch_loop.simps [simp del]

definition binary_search_by :: "('a \<Rightarrow> ordering) \<Rightarrow> 'a list \<Rightarrow> search" where
  "binary_search_by f xs = bsearch_loop f xs 0 (length xs)"

text \<open>The same search with a comparator that may panic.\<close>

function try_bsearch_loop ::
  "('a \<Rightarrow> ordering outcome) \<Rightarrow> 'a list \<Rightarrow> nat \<Rightarrow> nat \<Rightarrow> search outcome" where
  "try_bsearch_loop f xs left right =
     (if left < right then
        (let mid = left + (right - left) div 2 in
         case f (xs ! mid) of
           Ok Less \<Rightarrow> try_bsearch_loop f xs (mid + 1) right
         | Ok Greater \<Rightarrow> try_bsearch_loop f xs left mid
         | Ok Equal \<Rightarrow> Ok (Found mid)
         | Err e \<Rightarrow> Err e
         | Panic \<Rightarrow> Panic)
      else Ok (Insert_at left))"
  by pat_completeness auto
termination
  by (relation "measure (\<lambda>(f, xs, left, right). right - left)") auto

declare try_bsearch_loop.simps [simp del]

definition try_binary_search_by :: "('a \<Rightarrow> ordering outcome) \<Rightarrow> 'a list \<Rightarrow> search outcome" where
  "try_binary_search_by f xs = try_bsearch_loop f xs 0 (length xs)"

section \<open>Checked slices and arithmetic\<close>

text \<open>Indexing, slicing and checked arithmetic panic out of range. The methods of \<open>usize\<close> are those of a 64 bit target; \<open>pow\<close> squares and
  multiplies, and for the exponents that occur, the levels 0 to 3, no intermediate result exceeds the last one.\<close>

definition u64_MAX :: nat where "u64_MAX = 2 ^ 64 - 1"

definition usize_MAX :: nat where "usize_MAX = 2 ^ 64 - 1"

definition index_slice :: "'a list \<Rightarrow> nat \<Rightarrow> 'a outcome" where
  "index_slice xs i = (if i < length xs then Ok (xs ! i) else Panic)"

definition slice_to :: "'a list \<Rightarrow> nat \<Rightarrow> 'a list outcome" where
  "slice_to xs n = (if n \<le> length xs then Ok (take n xs) else Panic)"

definition slice_from :: "'a list \<Rightarrow> nat \<Rightarrow> 'a list outcome" where
  "slice_from xs n = (if n \<le> length xs then Ok (drop n xs) else Panic)"

definition checked_sub :: "nat \<Rightarrow> nat \<Rightarrow> nat outcome" where
  "checked_sub a b = (if b \<le> a then Ok (a - b) else Panic)"

definition checked_add :: "nat \<Rightarrow> nat \<Rightarrow> nat \<Rightarrow> nat outcome" where
  "checked_add mx a b = (if a + b \<le> mx then Ok (a + b) else Panic)"

definition usize_mul :: "nat \<Rightarrow> nat \<Rightarrow> nat outcome" where
  "usize_mul a b = (if a * b \<le> usize_MAX then Ok (a * b) else Panic)"

definition usize_pow :: "nat \<Rightarrow> nat \<Rightarrow> nat outcome" where
  "usize_pow a n = (if a ^ n \<le> usize_MAX then Ok (a ^ n) else Panic)"

definition get_slice :: "'a list \<Rightarrow> nat \<Rightarrow> 'a option" where
  "get_slice xs i = (if i < length xs then Some (xs ! i) else None)"

fun collect_ok :: "'a outcome list \<Rightarrow> 'a list outcome" where
  "collect_ok [] = Ok []"
| "collect_ok (r # rs) = and_then r (\<lambda>x. and_then (collect_ok rs) (\<lambda>xs. Ok (x # xs)))"

section \<open>Iterator adaptors\<close>

text \<open>\<open>unique_by\<close> keeps the first element of every key, \<open>sorted_by_key\<close> is a stable sort,
  \<open>group_by\<close> collects consecutive elements of the same key.\<close>

fun group_by :: "('a \<Rightarrow> 'k) \<Rightarrow> 'a list \<Rightarrow> 'a list list" where
  "group_by f [] = []"
| "group_by f (x # xs) =
     (case group_by f xs of
        (y # g) # gs \<Rightarrow> if f x = f y then (x # y # g) # gs else [x] # (y # g) # gs
      | _ \<Rightarrow> [[x]])"

fun unique_by :: "('a \<Rightarrow> 'k) \<Rightarrow> 'a list \<Rightarrow> 'a list" where
  "unique_by f [] = []"
| "unique_by f (x # xs) = x # unique_by f (filter (\<lambda>y. f y \<noteq> f x) xs)"

abbreviation sorted_by_key :: "('a \<Rightarrow> 'k::linorder) \<Rightarrow> 'a list \<Rightarrow> 'a list" where
  "sorted_by_key \<equiv> sort_key"

abbreviation ascending :: "'a::linorder list \<Rightarrow> bool" where
  "ascending xs \<equiv> sorted_wrt (<) xs"

abbreviation keys_ascending :: "('k::linorder \<times> 'v) list \<Rightarrow> bool" where
  "keys_ascending kvs \<equiv> ascending (map fst kvs)"

fun find_last :: "('a \<Rightarrow> bool) \<Rightarrow> 'a list \<Rightarrow> 'a option" where
  "find_last p [] = None"
| "find_last p (x # xs) =
     (case find_last p xs of Some y \<Rightarrow> Some y | None \<Rightarrow> if p x then Some x else None)"

section \<open>Shared lemmas\<close>

named_theorems kip_intros \<open>introduction rules of component invariants\<close>

lemma and_then_Ok_iff:
  "and_then r f = Ok y \<longleftrightarrow> (\<exists>x. r = Ok x \<and> f x = Ok y)"
  by (cases r) auto

lemma map_outcome_ok_Ok_iff: "map_outcome_ok f r = Ok y \<longleftrightarrow> (\<exists>x. r = Ok x \<and> y = f x)"
  by (cases r) auto

lemma map_outcome_ok_comp: "map_outcome_ok f (map_outcome_ok g r) = map_outcome_ok (\<lambda>x. f (g x)) r"
  by (cases r) auto

lemma bind_oo_OkE:
  assumes "bind_oo r f = Some (Ok y)"
  obtains x where "r = Some (Ok x)" "f x = Some (Ok y)"
  using assms by (cases r; cases "the r") auto

lemma cmp_simps [simp]:
  "cmp x y = Less \<longleftrightarrow> x < y"
  "cmp x y = Equal \<longleftrightarrow> x = y"
  "cmp x y = Greater \<longleftrightarrow> y < x"
  by (auto simp: cmp_def)

lemma cmp_eval [simp]:
  "cmp x x = Equal"
  "x < y \<Longrightarrow> cmp x y = Less"
  "y < x \<Longrightarrow> cmp x y = Greater"
  by (auto simp: cmp_def)

lemma then_with_assoc: "then_with (then_with a b) r = then_with a (then_with b r)"
  by (cases a) auto

lemma reverse_ordering_simps [simp]:
  "reverse_ordering r = Less \<longleftrightarrow> r = Greater"
  "reverse_ordering r = Equal \<longleftrightarrow> r = Equal"
  "reverse_ordering r = Greater \<longleftrightarrow> r = Less"
  by (cases r; simp)+

lemma wrap_i64_id: "in_i64 n \<Longrightarrow> wrap_i64 n = n"
  by (auto simp: in_i64_def wrap_i64_def i64_MIN_def i64_MAX_def)

lemma unat_word_of_nat: "n < 2 ^ LENGTH('a) \<Longrightarrow> unat (word_of_nat n :: 'a::len word) = n"
  by (simp add: unat_of_nat)

lemma unat_bound: "unat (w :: 'a::len word) < 2 ^ LENGTH('a)"
  by (rule unsigned_less)

subsection \<open>Strictly ascending lists\<close>

lemma ascending_distinct: "ascending (xs :: 'a::linorder list) \<Longrightarrow> distinct xs"
  by (induction xs) auto

lemma ascending_sorted: "ascending (xs :: 'a::linorder list) \<Longrightarrow> sorted xs"
  by (rule strict_sorted_imp_sorted)

lemma ascending_filter: "ascending (map f xs) \<Longrightarrow> ascending (map f (filter p xs))"
  by (induction xs) auto

lemma ascending_nth_less:
  "ascending xs \<Longrightarrow> i < j \<Longrightarrow> j < length xs \<Longrightarrow> xs ! i < (xs ! j :: 'a::linorder)"
  by (rule sorted_wrt_nth_less)

lemma map_of_ascending_in:
  "keys_ascending kvs \<Longrightarrow> (k, v) \<in> set kvs \<Longrightarrow> map_of kvs k = Some v"
  using ascending_distinct by force

lemma ascending_in_iff: "keys_ascending kvs \<Longrightarrow> (k, v) \<in> set kvs \<longleftrightarrow> map_of kvs k = Some v"
  by (auto intro: map_of_ascending_in map_of_SomeD)

lemma sorted_le_last: "sorted xs \<Longrightarrow> x \<in> set xs \<Longrightarrow> x \<le> last xs"
  by (induction xs) auto

lemma map_of_rev_distinct: "distinct (map fst xs) \<Longrightarrow> map_of (rev xs) = map_of xs"
  by (subst map_of_inject_set) (auto simp: rev_map [symmetric])

lemma map_of_filter_key:
  "map_of (filter (\<lambda>(k, v). p k) kvs) k = (if p k then map_of kvs k else None)"
  by (induction kvs) auto

lemma alist_from_keys:
  "distinct (map fst xs) \<Longrightarrow> map (\<lambda>k. (k, the (map_of xs k))) (map fst xs) = xs"
  by (auto intro!: map_idI)

lemma keys_ascending_unique:
  assumes "keys_ascending xs" "keys_ascending ys" "map_of xs = map_of ys"
  shows "xs = ys"
proof -
  have "set (map fst xs) = set (map fst ys)"
    using arg_cong [OF assms(3), of dom] by (simp add: dom_map_of_conv_image_fst)
  then have "map fst xs = map fst ys"
    using assms(1,2) by (metis strict_sorted_equal)
  then show ?thesis
    using alist_from_keys [of xs] alist_from_keys [of ys] assms ascending_distinct by metis
qed

subsection \<open>\<open>find_last\<close> and \<open>find\<close>\<close>

lemma find_last_None_iff: "find_last p xs = None \<longleftrightarrow> (\<forall>x\<in>set xs. \<not> p x)"
  by (induction xs) (auto split: option.splits)

lemma find_last_SomeD: "find_last p xs = Some x \<Longrightarrow> x \<in> set xs \<and> p x"
  by (induction xs) (auto split: option.splits if_splits)

subsection \<open>\<open>unique_by\<close>\<close>

lemma unique_by_subset: "set (unique_by f xs) \<subseteq> set xs"
  by (induction f xs rule: unique_by.induct) auto

lemma unique_by_keys: "f ` set (unique_by f xs) = f ` set xs"
proof (induction f xs rule: unique_by.induct)
  case (2 f x xs)
  have "f ` set (unique_by f (x # xs)) = insert (f x) (f ` {y \<in> set xs. f y \<noteq> f x})"
    using 2 by simp
  also have "\<dots> = f ` set (x # xs)" by auto
  finally show ?case .
qed simp

lemma unique_by_distinct: "distinct (map f (unique_by f xs))"
proof (induction f xs rule: unique_by.induct)
  case (2 f x xs)
  then show ?case using unique_by_keys [of f "filter (\<lambda>y. f y \<noteq> f x) xs"]
    by (auto simp: image_iff)
qed simp

lemma map_of_unique_by: "map_of (unique_by fst xs) = map_of (xs :: ('k \<times> 'v) list)"
proof (induction "fst :: 'k \<times> 'v \<Rightarrow> 'k" xs rule: unique_by.induct)
  case (2 x xs)
  have "map_of (filter (\<lambda>y. fst y \<noteq> fst x) xs) k = (if k \<noteq> fst x then map_of xs k else None)" for k
    by (induction xs) auto
  then show ?case using 2 by (cases x) (auto simp: fun_eq_iff)
qed simp

subsection \<open>Binary search\<close>

text \<open>The contract of \<open>binary_search_by\<close>: if the comparator is monotone along the slice,
  the result is a hit or the partition point.\<close>

definition partitioned :: "('a \<Rightarrow> ordering) \<Rightarrow> 'a list \<Rightarrow> bool" where
  "partitioned f xs \<longleftrightarrow>
     (\<forall>i j. i < j \<longrightarrow> j < length xs \<longrightarrow>
        (f (xs ! j) \<noteq> Greater \<longrightarrow> f (xs ! i) = Less) \<and>
        (f (xs ! i) \<noteq> Less \<longrightarrow> f (xs ! j) = Greater))"

fun search_ok :: "('a \<Rightarrow> ordering) \<Rightarrow> 'a list \<Rightarrow> search \<Rightarrow> bool" where
  "search_ok f xs (Found i) \<longleftrightarrow> i < length xs \<and> f (xs ! i) = Equal"
| "search_ok f xs (Insert_at i) \<longleftrightarrow> i \<le> length xs \<and>
     (\<forall>j<i. f (xs ! j) = Less) \<and> (\<forall>j. i \<le> j \<longrightarrow> j < length xs \<longrightarrow> f (xs ! j) = Greater)"

lemma bsearch_loop_ok:
  assumes "partitioned f xs" "left \<le> right" "right \<le> length xs"
    and "\<forall>j<left. f (xs ! j) = Less"
    and "\<forall>j. right \<le> j \<longrightarrow> j < length xs \<longrightarrow> f (xs ! j) = Greater"
  shows "search_ok f xs (bsearch_loop f xs left right)"
  using assms
proof (induction f xs left right rule: bsearch_loop.induct)
  case (1 f xs left right)
  show ?case
  proof (cases "left < right")
    case False
    then have "bsearch_loop f xs left right = Insert_at left"
      by (simp add: bsearch_loop.simps [of f xs left right])
    then show ?thesis using False "1.prems" by simp
  next
    case True
    define mid where "mid = left + (right - left) div 2"
    have mid: "left \<le> mid" "mid < right" "mid < length xs"
      using True "1.prems" by (auto simp: mid_def)
    note unf = bsearch_loop.simps [of f xs left right, folded mid_def, simplified Let_def]
    show ?thesis
    proof (cases "f (xs ! mid)")
      case Less
      have "\<forall>j<mid + 1. f (xs ! j) = Less"
      proof (intro allI impI)
        fix j assume "j < mid + 1"
        then consider "j < mid" | "j = mid" by linarith
        then show "f (xs ! j) = Less"
        proof cases
          case 1
          then show ?thesis using "1.prems"(1) Less mid(3) by (fastforce simp: partitioned_def)
        qed (simp add: Less)
      qed
      then have "search_ok f xs (bsearch_loop f xs (mid + 1) right)"
        using "1.IH"(1) [OF True mid_def Less] "1.prems" mid by simp
      then show ?thesis using True Less by (simp add: unf mid_def [symmetric])
    next
      case Equal
      then show ?thesis using True mid by (simp add: unf mid_def [symmetric])
    next
      case Greater
      have "\<forall>j. mid \<le> j \<longrightarrow> j < length xs \<longrightarrow> f (xs ! j) = Greater"
      proof (intro allI impI)
        fix j assume "mid \<le> j" "j < length xs"
        then consider "mid < j" | "j = mid" by linarith
        then show "f (xs ! j) = Greater"
        proof cases
          case 1
          then show ?thesis using "1.prems"(1) Greater \<open>j < length xs\<close>
            by (fastforce simp: partitioned_def)
        qed (simp add: Greater)
      qed
      then have "search_ok f xs (bsearch_loop f xs left mid)"
        using "1.IH"(2) [OF True mid_def Greater] "1.prems" mid by simp
      then show ?thesis using True Greater by (simp add: unf mid_def [symmetric])
    qed
  qed
qed

lemma binary_search_by_ok: "partitioned f xs \<Longrightarrow> search_ok f xs (binary_search_by f xs)"
  unfolding binary_search_by_def by (rule bsearch_loop_ok) auto

lemma try_bsearch_loop_Ok:
  assumes "\<And>x. x \<in> set xs \<Longrightarrow> f x = Ok (g x)" "right \<le> length xs"
  shows "try_bsearch_loop f xs left right = Ok (bsearch_loop g xs left right)"
  using assms
proof (induction g xs left right rule: bsearch_loop.induct)
  case (1 g xs left right)
  show ?case
  proof (cases "left < right")
    case True
    define mid where "mid = left + (right - left) div 2"
    have "mid < length xs" using True "1.prems"(2) by (auto simp: mid_def)
    then have "f (xs ! mid) = Ok (g (xs ! mid))" using "1.prems"(1) by simp
    then show ?thesis
      using True "1.IH"(1) [OF True mid_def _ "1.prems"(1)] "1.IH"(2) [OF True mid_def _ "1.prems"(1)]
        "1.prems"(2) \<open>mid < length xs\<close>
      by (auto simp: try_bsearch_loop.simps [of f xs left right] bsearch_loop.simps [of g xs left right]
          Let_def mid_def [symmetric] split: ordering.splits)
  qed (simp add: try_bsearch_loop.simps [of f xs left right] bsearch_loop.simps [of g xs left right])
qed

lemma try_binary_search_by_Ok:
  "(\<And>x. x \<in> set xs \<Longrightarrow> f x = Ok (g x)) \<Longrightarrow> try_binary_search_by f xs = Ok (binary_search_by g xs)"
  unfolding try_binary_search_by_def binary_search_by_def by (rule try_bsearch_loop_Ok) auto

lemma collect_ok_map: "(\<And>x. x \<in> set xs \<Longrightarrow> f x = Ok (g x)) \<Longrightarrow> collect_ok (map f xs) = Ok (map g xs)"
  by (induction xs) auto

subsection \<open>Lexicographic order on prefixes\<close>

lemma cmp_Cons: "cmp (x # xs) (y # ys) = then_with (cmp x y) (cmp xs (ys :: 'a::linorder list))"
  by (auto simp: cmp_def)

lemma cmp_split:
  fixes xs ys :: "'a::linorder list"
  shows "n \<le> length xs \<Longrightarrow> n \<le> length ys \<Longrightarrow>
    cmp xs ys = then_with (cmp (take n xs) (take n ys)) (cmp (drop n xs) (drop n ys))"
proof (induction n arbitrary: xs ys)
  case 0
  then show ?case by (simp add: cmp_def)
next
  case (Suc n)
  obtain x xs' y ys' where xs: "xs = x # xs'" and ys: "ys = y # ys'"
    using Suc.prems by (meson Suc_le_length_iff)
  have "n \<le> length xs'" "n \<le> length ys'"
    using Suc.prems by (simp_all add: xs ys)
  then have "cmp xs' ys' = then_with (cmp (take n xs') (take n ys')) (cmp (drop n xs') (drop n ys'))"
    by (rule Suc.IH)
  then show ?case by (simp add: xs ys cmp_Cons then_with_assoc)
qed

lemma cmp_short:
  fixes xs ys :: "'a::linorder list"
  assumes "length xs < length ys"
  shows "cmp xs ys = then_with (cmp xs (take (length xs) ys)) Less"
proof -
  obtain z zs where "drop (length xs) ys = z # zs"
    using assms by (cases "drop (length xs) ys") auto
  then show ?thesis using cmp_split [of "length xs" xs ys] assms by simp
qed

lemma take_le_list: "take n xs \<le> (xs :: 'a::linorder list)"
  by (induction xs arbitrary: n) (auto simp: take_Cons split: nat.splits)

lemma group_by_map_split:
  assumes "xs \<noteq> []" "\<And>x. x \<in> set xs \<Longrightarrow> f x = a" "\<And>y. y \<in> set ys \<Longrightarrow> f y \<noteq> a"
  shows "group_by f (xs @ ys) = xs # group_by f ys"
  using assms
proof (induction xs)
  case (Cons x xs)
  show ?case
  proof (cases xs)
    case Nil
    have "group_by f ys = [] \<or> (\<exists>y g gs. group_by f ys = (y # g) # gs \<and> y \<in> set ys)"
    proof (induction ys)
      case (Cons y ys)
      then show ?case by (auto split: list.splits)
    qed simp
    then show ?thesis using Cons.prems Nil by (auto split: list.splits) blast
  next
    case (Cons x' xs')
    then show ?thesis using Cons.IH Cons.prems by (auto split: list.splits)
  qed
qed simp

subsection \<open>Searching ascending keys\<close>

fun search_pos :: "search \<Rightarrow> nat" where
  "search_pos (Found i) = i"
| "search_pos (Insert_at i) = i"

fun is_found :: "search \<Rightarrow> bool" where
  "is_found (Found _) = True"
| "is_found (Insert_at _) = False"

lemma partitioned_ascending: "keys_ascending kvs \<Longrightarrow> partitioned (\<lambda>(k, v). cmp k key) kvs"
  by (auto simp: partitioned_def split: prod.splits dest!: ascending_nth_less)

lemma takeWhile_ascending_nth:
  assumes "keys_ascending kvs" "i < length kvs"
  shows "i < length (takeWhile (\<lambda>(k, v). k < key) kvs) \<longleftrightarrow> fst (kvs ! i) < key"
proof
  assume "i < length (takeWhile (\<lambda>(k, v). k < key) kvs)"
  then show "fst (kvs ! i) < key"
    by (metis (mono_tags, lifting) nth_mem set_takeWhileD case_prod_unfold takeWhile_nth)
next
  assume less: "fst (kvs ! i) < key"
  have "fst (kvs ! j) < key" if "j \<le> i" for j
    using assms less that ascending_nth_less [of "map fst kvs" j i] by (cases "j = i") auto
  then have "i < length (takeWhile (\<lambda>(k, v). k < key) kvs)"
    using assms(2) nth_length_takeWhile [of "\<lambda>(k, v). k < key" kvs]
    by (metis (no_types, lifting) case_prod_unfold leI order.strict_trans1)
  then show "i < length (takeWhile (\<lambda>(k, v). k < key) kvs)" .
qed

lemma search_ok_ascending:
  assumes "keys_ascending kvs" "search_ok (\<lambda>(k, v). cmp k key) kvs s"
  shows "search_pos s = length (takeWhile (\<lambda>(k, v). k < key) kvs)"
    and "is_found s \<longleftrightarrow> key \<in> fst ` set kvs"
proof -
  let ?n = "length (takeWhile (\<lambda>(k, v). k < key) kvs)"
  note tw = takeWhile_ascending_nth [OF assms(1), of _ key]
  have le: "?n \<le> length kvs" by (rule length_takeWhile_le)
  have "search_pos s = ?n \<and> (is_found s \<longleftrightarrow> key \<in> fst ` set kvs)"
  proof (cases s)
    case (Found i)
    then have i: "i < length kvs" "fst (kvs ! i) = key"
      using assms(2) by (auto split: prod.splits)
    have "\<not> i < ?n" using tw i by simp
    moreover have "\<not> ?n < i"
    proof
      assume "?n < i"
      then have "fst (kvs ! ?n) < key" using ascending_nth_less [OF assms(1), of ?n i] i by simp
      then show False using tw [of ?n] \<open>?n < i\<close> i(1) by simp
    qed
    ultimately have "i = ?n" by simp
    moreover have "key \<in> fst ` set kvs" using i nth_mem by fastforce
    ultimately show ?thesis using Found by simp
  next
    case (Insert_at i)
    then have i: "i \<le> length kvs" "\<forall>j<i. fst (kvs ! j) < key"
        "\<forall>j. i \<le> j \<longrightarrow> j < length kvs \<longrightarrow> key < fst (kvs ! j)"
      using assms(2) by (auto simp: case_prod_unfold)
    have "\<not> i < ?n"
    proof
      assume "i < ?n"
      then have "i < length kvs" using le by simp
      then show False using tw [of i] \<open>i < ?n\<close> i(3) by force
    qed
    moreover have "\<not> ?n < i" using tw [of ?n] i by auto
    ultimately have "i = ?n" by simp
    moreover have "key \<notin> fst ` set kvs"
    proof
      assume "key \<in> fst ` set kvs"
      then obtain j where "j < length kvs" "fst (kvs ! j) = key" by (auto simp: in_set_conv_nth)
      then show False using i(2) [rule_format, of j] i(3) [rule_format, of j] by (cases "j < i") auto
    qed
    ultimately show ?thesis using Insert_at by simp
  qed
  then show "search_pos s = ?n" "is_found s \<longleftrightarrow> key \<in> fst ` set kvs" by auto
qed

lemma search_ok_cong:
  assumes "length xs = length ys" "\<And>i. i < length xs \<Longrightarrow> f (xs ! i) = g (ys ! i)"
  shows "search_ok f xs s \<longleftrightarrow> search_ok g ys s"
  using assms by (cases s) (metis search_ok.simps(1), simp, metis order_less_le_trans)

lemma partitioned_cong:
  assumes "length xs = length ys" "\<And>i. i < length xs \<Longrightarrow> f (xs ! i) = g (ys ! i)"
  shows "partitioned f xs \<longleftrightarrow> partitioned g ys"
proof -
  have "f (xs ! i) = g (ys ! i)" "f (xs ! j) = g (ys ! j)" if "i < j" "j < length xs" for i j
    using assms(2) that by auto
  then show ?thesis unfolding partitioned_def assms(1) [symmetric] by auto
qed

end
