(* ===== verification/Ordered_Map.thy ===== *)
theory Ordered_Map
  imports KipDB_Prelude
begin

text \<open>
  Ordered maps. \<open>btree_*\<close> models the operations of \<open>std::collections::BTreeMap\<close> that KipDB
  uses (\<open>insert\<close>, \<open>get\<close>, \<open>range\<close>, \<open>pop_first\<close>, \<open>from_iter\<close>) on strictly ascending
  association lists.

  The memory table of KipDB stores its entries in a \<open>SkipMap\<close> of the \<open>skiplist\<close> crate. That
  crate is not part of the repository, so its operations are a parameter of the model, the record
  \<open>skip_map\<close>; the locale \<open>ordered_map\<close> states the documented behaviour the memory table relies
  on: iteration in key order, \<open>insert\<close> replaces, \<open>range\<close> selects by bounds,
  \<open>lower_bound\<close>/\<open>upper_bound\<close> give the first entry above and the last entry below a bound.
  The B-tree map satisfies the same contract (interpretation \<open>btree\<close>).
\<close>

section \<open>The B-tree map of the standard library\<close>

type_synonym ('k, 'v) btree_map = "('k \<times> 'v) list"

fun btree_insert :: "'k::linorder \<Rightarrow> 'v \<Rightarrow> ('k, 'v) btree_map \<Rightarrow> ('k, 'v) btree_map" where
  "btree_insert k v [] = [(k, v)]"
| "btree_insert k v ((a, b) # m) =
     (if k < a then (k, v) # (a, b) # m
      else if k = a then (k, v) # m
      else (a, b) # btree_insert k v m)"

definition btree_get :: "('k, 'v) btree_map \<Rightarrow> 'k \<Rightarrow> 'v option" where
  "btree_get m k = map_of m k"

definition btree_range ::
  "('k::linorder, 'v) btree_map \<Rightarrow> 'k bound \<Rightarrow> 'k bound \<Rightarrow> ('k \<times> 'v) list" where
  "btree_range m lo hi = filter (\<lambda>(k, v). above lo k \<and> below hi k) m"

definition btree_from_iter :: "('k::linorder \<times> 'v) list \<Rightarrow> ('k, 'v) btree_map" where
  "btree_from_iter kvs = fold (\<lambda>(k, v). btree_insert k v) kvs []"

fun btree_pop_first :: "('k, 'v) btree_map \<Rightarrow> (('k \<times> 'v) \<times> ('k, 'v) btree_map) option" where
  "btree_pop_first [] = None"
| "btree_pop_first (kv # m) = Some (kv, m)"

section \<open>The interface of the skip list crate\<close>

record ('k, 'v, 'm) skip_map =
  sm_new :: 'm
  sm_insert :: "'k \<Rightarrow> 'v \<Rightarrow> 'm \<Rightarrow> 'm"
  sm_is_empty :: "'m \<Rightarrow> bool"
  sm_len :: "'m \<Rightarrow> nat"
  sm_iter :: "'m \<Rightarrow> ('k \<times> 'v) list"
  sm_range :: "'m \<Rightarrow> 'k bound \<Rightarrow> 'k bound \<Rightarrow> ('k \<times> 'v) list"
  sm_lower_bound :: "'m \<Rightarrow> 'k bound \<Rightarrow> ('k \<times> 'v) option"
  sm_upper_bound :: "'m \<Rightarrow> 'k bound \<Rightarrow> ('k \<times> 'v) option"

text \<open>\<open>FromIterator\<close>: the entries are inserted one after the other.\<close>

definition sm_from_iter :: "('k, 'v, 'm) skip_map \<Rightarrow> ('k \<times> 'v) list \<Rightarrow> 'm" where
  "sm_from_iter sm kvs = fold (\<lambda>(k, v). sm_insert sm k v) kvs (sm_new sm)"

section \<open>Lemmas on the B-tree map\<close>

lemma map_of_btree_insert [simp]: "map_of (btree_insert k v m) = (map_of m)(k \<mapsto> v)"
  by (induction m) (auto simp: fun_eq_iff)

lemma keys_btree_insert: "fst ` set (btree_insert k v m) = insert k (fst ` set m)"
  by (induction k v m rule: btree_insert.induct) (simp_all add: insert_commute)

lemma btree_insert_ascending [simp]: "keys_ascending m \<Longrightarrow> keys_ascending (btree_insert k v m)"
proof (induction m)
  case (Cons p m)
  obtain a b where p: "p = (a, b)" by (cases p)
  have "\<forall>x\<in>set (map fst (btree_insert k v m)). a < x" if "a < k"
    using Cons.prems that keys_btree_insert [of k v m] by (auto simp: p)
  then show ?case using Cons by (fastforce simp: p)
qed simp

lemma btree_from_iter_ascending [simp]: "keys_ascending (btree_from_iter kvs)"
proof -
  have "keys_ascending m \<Longrightarrow> keys_ascending (fold (\<lambda>(k, v). btree_insert k v) kvs m)" for m
    by (induction kvs arbitrary: m) (auto split: prod.splits)
  then show ?thesis by (simp add: btree_from_iter_def)
qed

lemma map_of_btree_from_iter: "map_of (btree_from_iter kvs) = map_of (rev kvs)"
proof -
  have "map_of (fold (\<lambda>(k, v). btree_insert k v) kvs m) = map_of m ++ map_of (rev kvs)" for m
    by (induction kvs arbitrary: m) (auto split: prod.splits)
  then show ?thesis by (simp add: btree_from_iter_def)
qed

lemma btree_from_iter_id:
  assumes "keys_ascending kvs"
  shows "btree_from_iter kvs = kvs"
proof (rule keys_ascending_unique)
  have "distinct (map fst (rev kvs))" "distinct (map fst kvs)"
    using ascending_distinct [OF assms] by (simp_all add: rev_map [symmetric])
  then have "map_of (rev kvs) = map_of kvs"
    by (subst map_of_inject_set) auto
  then show "map_of (btree_from_iter kvs) = map_of kvs"
    by (simp add: map_of_btree_from_iter)
qed (simp_all add: assms)

section \<open>The contract of an ordered map\<close>

locale ordered_map =
  fixes sm :: "('k::linorder, 'v, 'm) skip_map"
    and inv :: "'m \<Rightarrow> bool"
  assumes inv_new: "inv (sm_new sm)"
    and inv_insert: "inv m \<Longrightarrow> inv (sm_insert sm k v m)"
    and iter_new: "sm_iter sm (sm_new sm) = []"
    and iter_ascending: "inv m \<Longrightarrow> keys_ascending (sm_iter sm m)"
    and map_of_insert:
      "inv m \<Longrightarrow> map_of (sm_iter sm (sm_insert sm k v m)) = (map_of (sm_iter sm m))(k \<mapsto> v)"
    and is_empty_iter: "inv m \<Longrightarrow> sm_is_empty sm m \<longleftrightarrow> sm_iter sm m = []"
    and len_iter: "inv m \<Longrightarrow> sm_len sm m = length (sm_iter sm m)"
    and range_iter: "inv m \<Longrightarrow>
      sm_range sm m lo hi = filter (\<lambda>(k, v). above lo k \<and> below hi k) (sm_iter sm m)"
    and lower_bound_iter: "inv m \<Longrightarrow>
      sm_lower_bound sm m b = List.find (\<lambda>(k, v). above b k) (sm_iter sm m)"
    and upper_bound_iter: "inv m \<Longrightarrow>
      sm_upper_bound sm m b = find_last (\<lambda>(k, v). below b k) (sm_iter sm m)"
begin

lemma iter_insert: "inv m \<Longrightarrow> sm_iter sm (sm_insert sm k v m) = btree_insert k v (sm_iter sm m)"
  by (rule keys_ascending_unique) (simp_all add: iter_ascending inv_insert map_of_insert)

lemma inv_fold: "inv m \<Longrightarrow> inv (fold (\<lambda>(k, v). sm_insert sm k v) kvs m)"
  by (induction kvs arbitrary: m) (auto simp: inv_insert split: prod.splits)

lemma iter_fold: "inv m \<Longrightarrow>
  sm_iter sm (fold (\<lambda>(k, v). sm_insert sm k v) kvs m) =
  fold (\<lambda>(k, v). btree_insert k v) kvs (sm_iter sm m)"
  by (induction kvs arbitrary: m) (auto simp: inv_insert iter_insert split: prod.splits)

lemma inv_from_iter: "inv (sm_from_iter sm kvs)"
  unfolding sm_from_iter_def by (rule inv_fold) (rule inv_new)

lemma iter_from_iter: "sm_iter sm (sm_from_iter sm kvs) = btree_from_iter kvs"
  unfolding sm_from_iter_def btree_from_iter_def by (simp add: iter_fold inv_new iter_new)

lemmas skip_map_laws = inv_new inv_insert inv_fold inv_from_iter iter_new iter_insert iter_fold
  iter_from_iter iter_ascending map_of_insert is_empty_iter len_iter range_iter lower_bound_iter
  upper_bound_iter

end

section \<open>The B-tree map satisfies the contract\<close>

definition btree_skip_map :: "('k::linorder, 'v, ('k, 'v) btree_map) skip_map" where
  "btree_skip_map = \<lparr>
     sm_new = [],
     sm_insert = btree_insert,
     sm_is_empty = (\<lambda>m. m = []),
     sm_len = length,
     sm_iter = (\<lambda>m. m),
     sm_range = btree_range,
     sm_lower_bound = (\<lambda>m b. List.find (\<lambda>(k, v). above b k) m),
     sm_upper_bound = (\<lambda>m b. find_last (\<lambda>(k, v). below b k) m) \<rparr>"

interpretation btree: ordered_map btree_skip_map keys_ascending
  by unfold_locales (simp_all add: btree_skip_map_def btree_range_def)

end
