(* ===== verification/Kip_Io.thy ===== *)
theory Kip_Io
  imports Ordered_Map
begin

text \<open>
  Files and generation numbers: the \<open>IoFactory\<close> of \<open>src/src/kernel/io/mod.rs\<close> with the readers and
  writers of \<open>io/direct.rs\<close> and \<open>io/buf.rs\<close>, the listing of a directory in \<open>src/src/kernel/mod.rs\<close>, and
  the counters \<open>Sequence\<close> and \<open>Gen\<close> of \<open>lsm/storage.rs\<close>.

  A factory owns one directory and one extension, so a directory is an ordered map from generations to
  file contents. Both readers and writers open a file with \<open>create(true)\<close> and without truncation: a
  missing file appears, an existing one keeps its bytes and is written from its start. A writer's
  handle is a file with a position; what it has written counts as being in the file; the buffer of the
  buffered writer is the subject of \<open>Buf_Io\<close>.
\<close>

section \<open>Open files\<close>

record io_file =
  contents :: bytes
  position :: nat

definition file_write :: "io_file \<Rightarrow> bytes \<Rightarrow> io_file" where
  "file_write f bs =
     f\<lparr>contents := take (position f) (contents f @ replicate (position f - length (contents f)) 0) @ bs @
         drop (position f + length bs) (contents f),
       position := position f + length bs\<rparr>"

definition file_seek_end :: "io_file \<Rightarrow> nat \<times> io_file" where
  "file_seek_end f = (length (contents f), f\<lparr>position := length (contents f)\<rparr>)"

section \<open>Directories\<close>

type_synonym directory = "(i64, bytes) btree_map"

definition open_or_create :: "directory \<Rightarrow> i64 \<Rightarrow> bytes \<times> directory" where
  "open_or_create d gen =
     (case btree_get d gen of
        Some bs \<Rightarrow> (bs, d)
      | None \<Rightarrow> ([], btree_insert gen [] d))"

definition factory_reader :: "directory \<Rightarrow> i64 \<Rightarrow> bytes \<times> directory" where
  "factory_reader d gen = open_or_create d gen"

definition factory_writer :: "directory \<Rightarrow> i64 \<Rightarrow> io_file \<times> directory" where
  "factory_writer d gen =
     (let (bs, d') = open_or_create d gen in (\<lparr>contents = bs, position = 0\<rparr>, d'))"

definition factory_clean :: "directory \<Rightarrow> i64 \<Rightarrow> directory outcome" where
  "factory_clean d gen =
     (if btree_get d gen = None then Err Io else Ok (filter (\<lambda>(g, bs). g \<noteq> gen) d))"

definition factory_exists :: "directory \<Rightarrow> i64 \<Rightarrow> bool" where
  "factory_exists d gen \<longleftrightarrow> btree_get d gen \<noteq> None"

definition sorted_gen_list :: "directory \<Rightarrow> i64 list" where
  "sorted_gen_list d = sort (map fst d)"

section \<open>Counters\<close>

text \<open>The process-wide atomic counters are threaded through the operations that use them;
  \<open>fetch_add\<close> wraps around.\<close>

definition sequence_create :: "i64 \<Rightarrow> i64 \<times> i64" where
  "sequence_create seq_count = (seq_count, wrap_i64 (seq_count + 1))"

definition gen_create :: "i64 \<Rightarrow> i64 \<times> i64" where
  "gen_create gen_buf = (gen_buf, wrap_i64 (gen_buf + 1))"

section \<open>Lemmas\<close>

text \<open>An open file with \<open>xs\<close> in front of the position and \<open>ys\<close> behind it.\<close>

definition file_at :: "bytes \<Rightarrow> bytes \<Rightarrow> io_file" where
  "file_at xs ys = \<lparr>contents = xs @ ys, position = length xs\<rparr>"

lemma file_write_at: "file_write (file_at xs ys) bs = file_at (xs @ bs) (drop (length bs) ys)"
  by (simp add: file_write_def file_at_def)

lemma file_at_contents [simp]: "contents (file_at xs ys) = xs @ ys"
  by (simp add: file_at_def)

lemma create_next:
  assumes "0 \<le> n" "n < i64_MAX"
  shows "sequence_create n = (n, n + 1)" "gen_create n = (n, n + 1)"
  using assms wrap_i64_id [of "n + 1"]
  by (simp_all add: sequence_create_def gen_create_def in_i64_def i64_MIN_def)

lemma open_or_create_new: "btree_get d gen = None \<Longrightarrow> open_or_create d gen = ([], btree_insert gen [] d)"
  by (simp add: open_or_create_def)

lemma open_or_create_existing: "btree_get d gen = Some bs \<Longrightarrow> open_or_create d gen = (bs, d)"
  by (simp add: open_or_create_def)

lemma btree_insert_ge_last:
  assumes "\<forall>g\<in>fst ` set d. g < gen"
  shows "btree_insert gen bs d = d @ [(gen, bs)]"
  using assms by (induction d) (auto simp: not_less less_imp_le split: if_splits)

lemma sorted_gen_list_id: "keys_ascending d \<Longrightarrow> sorted_gen_list d = map fst d"
  unfolding sorted_gen_list_def by (intro sorted_sort_id ascending_sorted)

end
