(* ===== verification/Buf_Io.thy ===== *)
theory Buf_Io
  imports Kip_Io
begin

text \<open>
  The buffered writer of \<open>src/src/kernel/io/buf.rs\<close>: \<open>BufIoWriter\<close> with \<open>BufWriterWithPos\<close> around the \<open>BufWriter\<close> of the standard
  library, whose buffer holds 8192 bytes. Bytes in the buffer reach the file when the buffer overflows, at a
  \<open>flush\<close> or a \<open>seek\<close>, and when the writer is dropped.

  The other theories write to files directly. \<open>bw_drop\<close> tells when this is right for a buffered writer: after a flush or
  an orderly shutdown. A crash leaves \<open>bw_inner\<close>.
\<close>

record buf_io_writer =
  bw_inner :: io_file
  bw_buf :: bytes
  bw_pos :: nat

definition BUF_CAPACITY :: nat where
  "BUF_CAPACITY = 8192"

definition bw_new :: "directory \<Rightarrow> i64 \<Rightarrow> buf_io_writer \<times> directory" where
  "bw_new d gen = (let (f, d') = factory_writer d gen in (\<lparr>bw_inner = f, bw_buf = [], bw_pos = position f\<rparr>, d'))"

definition bw_flush :: "buf_io_writer \<Rightarrow> buf_io_writer" where
  "bw_flush w = w\<lparr>bw_inner := file_write (bw_inner w) (bw_buf w), bw_buf := []\<rparr>"

text \<open>What does not fit into the spare room makes the buffer be written first; what is as large as the buffer bypasses it.\<close>

definition bw_write :: "bytes \<Rightarrow> buf_io_writer \<Rightarrow> buf_io_writer" where
  "bw_write bs w =
     (let w1 = if length bs > BUF_CAPACITY - length (bw_buf w) then bw_flush w else w;
          w2 = if length bs \<ge> BUF_CAPACITY then w1\<lparr>bw_inner := file_write (bw_inner w1) bs\<rparr> else w1\<lparr>bw_buf := bw_buf w1 @ bs\<rparr>
      in w2\<lparr>bw_pos := bw_pos w + length bs\<rparr>)"

definition bw_seek_end :: "buf_io_writer \<Rightarrow> nat \<times> buf_io_writer" where
  "bw_seek_end w = (let w1 = bw_flush w; (pos, f) = file_seek_end (bw_inner w1) in (pos, w1\<lparr>bw_inner := f, bw_pos := pos\<rparr>))"

definition bw_current_pos :: "buf_io_writer \<Rightarrow> nat" where
  "bw_current_pos w = bw_pos w"

definition bw_drop :: "buf_io_writer \<Rightarrow> io_file" where
  "bw_drop w = bw_inner (bw_flush w)"

section \<open>A buffered writer is a writer once it is flushed\<close>

lemma file_write_Nil [simp]: "position f \<le> length (contents f) \<Longrightarrow> file_write f [] = f"
  by (simp add: file_write_def)

lemma file_write_fields:
  "position (file_write f bs) = position f + length bs"
  "position f \<le> length (contents f) \<Longrightarrow> position f + length bs \<le> length (contents (file_write f bs))"
  by (simp_all add: file_write_def)

lemma file_write_append:
  assumes "position f \<le> length (contents f)"
  shows "file_write (file_write f xs) ys = file_write f (xs @ ys)"
  using assms by (simp add: file_write_def drop_drop add.assoc add.commute add.left_commute)

definition bw_ok :: "buf_io_writer \<Rightarrow> bool" where
  "bw_ok w \<longleftrightarrow> position (bw_inner w) \<le> length (contents (bw_inner w)) \<and> length (bw_buf w) \<le> BUF_CAPACITY \<and>
     bw_pos w = position (bw_inner w) + length (bw_buf w)"

lemma bw_flush_ok:
  assumes "bw_ok w"
  shows "bw_ok (bw_flush w)" "bw_drop (bw_flush w) = bw_drop w" "bw_buf (bw_flush w) = []" "bw_pos (bw_flush w) = bw_pos w"
  using assms by (simp_all add: bw_ok_def bw_flush_def bw_drop_def file_write_fields)

lemma bw_write_ok:
  assumes "bw_ok w"
  shows "bw_ok (bw_write bs w)" "bw_drop (bw_write bs w) = file_write (bw_drop w) bs"
proof -
  define w1 where "w1 = (if length bs > BUF_CAPACITY - length (bw_buf w) then bw_flush w else w)"
  have w1: "bw_ok w1" "bw_drop w1 = bw_drop w" "bw_pos w1 = bw_pos w" using assms bw_flush_ok [OF assms] by (simp_all add: w1_def)
  have room: "length bs < BUF_CAPACITY \<Longrightarrow> length (bw_buf w1) + length bs \<le> BUF_CAPACITY" "BUF_CAPACITY \<le> length bs \<Longrightarrow> bw_buf w1 = []"
    using assms bw_flush_ok(3) [OF assms] by (auto simp: w1_def bw_ok_def BUF_CAPACITY_def not_less length_0_conv [symmetric] simp del: length_0_conv)
  have run: "bw_write bs w = (if length bs \<ge> BUF_CAPACITY then w1\<lparr>bw_inner := file_write (bw_inner w1) bs, bw_pos := bw_pos w1 + length bs\<rparr>
      else w1\<lparr>bw_buf := bw_buf w1 @ bs, bw_pos := bw_pos w1 + length bs\<rparr>)"
    using w1(3) by (simp add: bw_write_def w1_def [symmetric] Let_def)
  have f: "position (bw_inner w1) \<le> length (contents (bw_inner w1))" "bw_pos w1 = position (bw_inner w1) + length (bw_buf w1)"
    using w1(1) by (simp_all add: bw_ok_def)
  show "bw_ok (bw_write bs w)" using room f by (auto simp: run bw_ok_def file_write_fields)
  have "bw_drop (bw_write bs w) = file_write (bw_drop w1) bs"
    using room(2) f file_write_append [OF f(1)] by (simp add: run bw_drop_def bw_flush_def file_write_fields)
  then show "bw_drop (bw_write bs w) = file_write (bw_drop w) bs" by (simp add: w1(2))
qed

lemma bw_ok_position: "bw_ok w \<Longrightarrow> bw_pos w = position (bw_drop w)"
  by (simp add: bw_ok_def bw_drop_def bw_flush_def file_write_fields)

lemma bw_writes_ok: "bw_ok w \<Longrightarrow> bw_ok (fold bw_write bss w) \<and> bw_drop (fold bw_write bss w) = fold (\<lambda>bs f. file_write f bs) bss (bw_drop w)"
  by (induction bss arbitrary: w) (simp_all add: bw_write_ok)

lemma bw_new_ok: "bw_ok (fst (bw_new d gen)) \<and> bw_drop (fst (bw_new d gen)) = fst (factory_writer d gen)"
  by (simp add: bw_new_def factory_writer_def bw_ok_def bw_drop_def bw_flush_def case_prod_beta Let_def)

lemma bw_writes_buffered:
  "bw_ok w \<Longrightarrow> length (bw_buf w) + length (concat bss) < BUF_CAPACITY \<Longrightarrow>
   bw_inner (fold bw_write bss w) = bw_inner w \<and> bw_buf (fold bw_write bss w) = bw_buf w @ concat bss"
proof (induction bss arbitrary: w)
  case (Cons bs bss)
  have "bw_inner (bw_write bs w) = bw_inner w" "bw_buf (bw_write bs w) = bw_buf w @ bs"
    using Cons.prems(2) by (auto simp: bw_write_def Let_def)
  then show ?case using Cons.IH [OF bw_write_ok(1) [OF Cons.prems(1)], of bs] Cons.prems(2) by simp
qed simp

section \<open>Properties\<close>

text \<open>C33: dropping or flushing a buffered writer leaves exactly what a direct writer would have written, whatever the sizes of the
  writes, and the position it reports is the position in that file.\<close>

theorem buf_writer_refines_direct:
  "bw_drop (fold bw_write bss (fst (bw_new d gen))) = fold (\<lambda>bs f. file_write f bs) bss (fst (factory_writer d gen)) \<and>
   bw_inner (bw_flush (fold bw_write bss (fst (bw_new d gen)))) = bw_drop (fold bw_write bss (fst (bw_new d gen))) \<and>
   bw_current_pos (fold bw_write bss (fst (bw_new d gen))) = position (bw_drop (fold bw_write bss (fst (bw_new d gen))))"
proof -
  let ?w = "fst (bw_new d gen)"
  have w: "bw_ok ?w" "bw_drop ?w = fst (factory_writer d gen)" using bw_new_ok by blast+
  note ws = bw_writes_ok [OF w(1), of bss]
  then show ?thesis using bw_ok_position [of "fold bw_write bss ?w"] w(2) by (simp add: bw_drop_def bw_current_pos_def)
qed

text \<open>C34: until it is flushed, a buffered writer leaves nothing in the file: the writes of less than a buffer are lost when
  the process dies. The write-ahead log is written this way by default, and \<open>add_record\<close> does not flush.\<close>

theorem buffered_writes_lost:
  assumes "length (concat bss) < BUF_CAPACITY"
  shows "bw_inner (fold bw_write bss (fst (bw_new d gen))) = fst (factory_writer d gen)"
  using bw_writes_buffered [of "fst (bw_new d gen)" bss] assms bw_new_ok [of d gen] by (simp add: bw_new_def case_prod_beta Let_def)

theorem buffered_writes_lost_witness:
  "contents (bw_inner (fold bw_write [[1, 2, 3], [4]] (fst (bw_new [] 7)))) = [] \<and> contents (bw_drop (fold bw_write [[1, 2, 3], [4]] (fst (bw_new [] 7)))) = [1, 2, 3, 4]"
proof -
  have "bw_inner (fold bw_write [[1, 2, 3], [4]] (fst (bw_new [] 7))) = fst (factory_writer [] 7)"
    by (rule buffered_writes_lost) (simp add: BUF_CAPACITY_def)
  moreover have "contents (bw_drop (fold bw_write [[1, 2, 3], [4]] (fst (bw_new [] 7)))) = [1, 2, 3, 4]" by code_simp
  ultimately show ?thesis by (simp add: factory_writer_def open_or_create_def btree_get_def)
qed

end
