(* ===== verification/Crates.thy ===== *)
theory Crates
  imports KipDB_Prelude
begin

text \<open>
  The encoding crates KipDB calls, as parameters of the model: \<open>integer_encoding\<close> (variable and
  fixed width integers), \<open>crc32fast\<close> and \<open>lz4\<close>. Their sources are not in the repository, so the
  record \<open>crates\<close> only names the functions; the locales \<open>int_encoding\<close> and \<open>lz4_codec\<close> state the
  documented behaviour the storage formats rely on. Nothing is assumed of the checksum.
  \<open>le_crates\<close> is a concrete instance (LEB128, little endian, stored blocks) that satisfies both
  contracts; it instantiates the parameter wherever a concrete evaluation is needed.

  A reader over an in-memory buffer (\<open>Cursor\<close>) is the list of the bytes that are left.
\<close>

section \<open>The functions of the crates\<close>

record crates =
  write_varint :: "32 word \<Rightarrow> bytes"
  read_varint :: "bytes \<Rightarrow> (32 word \<times> bytes) option"
  encode_fixed8 :: "8 word \<Rightarrow> bytes"
  decode_fixed8 :: "bytes \<Rightarrow> 8 word"
  encode_fixed32 :: "32 word \<Rightarrow> bytes"
  decode_fixed32 :: "bytes \<Rightarrow> 32 word"
  encode_fixed64 :: "64 word \<Rightarrow> bytes"
  decode_fixed64 :: "bytes \<Rightarrow> 64 word"
  crc32_hash :: "bytes \<Rightarrow> 32 word"
  lz4_encode :: "bytes \<Rightarrow> bytes"
  lz4_decode :: "bytes \<Rightarrow> bytes option"

text \<open>\<open>Read::read\<close> on a buffer of \<open>n\<close> zero bytes: what is left fills the front of the buffer.\<close>

definition read_buf :: "nat \<Rightarrow> bytes \<Rightarrow> bytes \<times> bytes" where
  "read_buf n bs = (take n bs @ replicate (n - length bs) 0, drop n bs)"

text \<open>A concrete instance: LEB128 for the variable width and little endian for the fixed width
  integers, the identity as compression and a byte sum as checksum.\<close>

fun leb128 :: "nat \<Rightarrow> nat \<Rightarrow> bytes" where
  "leb128 0 n = [word_of_nat n]"
| "leb128 (Suc k) n =
     (if n < 128 then [word_of_nat n] else word_of_nat (n mod 128 + 128) # leb128 k (n div 128))"

fun un_leb128 :: "nat \<Rightarrow> bytes \<Rightarrow> (nat \<times> bytes) option" where
  "un_leb128 k [] = None"
| "un_leb128 0 (b # bs) = (if unat b < 128 then Some (unat b, bs) else None)"
| "un_leb128 (Suc k) (b # bs) =
     (if unat b < 128 then Some (unat b, bs)
      else map_option (\<lambda>(n, rest). (unat b - 128 + 128 * n, rest)) (un_leb128 k bs))"

fun little_endian :: "nat \<Rightarrow> nat \<Rightarrow> bytes" where
  "little_endian 0 n = []"
| "little_endian (Suc k) n = word_of_nat (n mod 256) # little_endian k (n div 256)"

fun un_little_endian :: "bytes \<Rightarrow> nat" where
  "un_little_endian [] = 0"
| "un_little_endian (b # bs) = unat b + 256 * un_little_endian bs"

definition le_crates :: crates where
  "le_crates = \<lparr>
     write_varint = (\<lambda>w. leb128 4 (unat w)),
     read_varint = (\<lambda>bs. map_option (\<lambda>(n, rest). (word_of_nat n, rest)) (un_leb128 4 bs)),
     encode_fixed8 = (\<lambda>w. [w]),
     decode_fixed8 = (\<lambda>bs. word_of_nat (un_little_endian bs)),
     encode_fixed32 = (\<lambda>w. little_endian 4 (unat w)),
     decode_fixed32 = (\<lambda>bs. word_of_nat (un_little_endian bs)),
     encode_fixed64 = (\<lambda>w. little_endian 8 (unat w)),
     decode_fixed64 = (\<lambda>bs. word_of_nat (un_little_endian bs)),
     crc32_hash = (\<lambda>bs. word_of_nat (sum_list (map unat bs))),
     lz4_encode = (\<lambda>bs. bs),
     lz4_decode = Some \<rparr>"

section \<open>The contracts\<close>

locale int_encoding =
  fixes c :: crates
  assumes varint_roundtrip: "read_varint c (write_varint c n @ rest) = Some (n, rest)"
    and varint_consumes: "read_varint c bs = Some (n, rest) \<Longrightarrow> length rest < length bs"
    and fixed8_length: "length (encode_fixed8 c a) = 1"
    and fixed8_roundtrip: "decode_fixed8 c (encode_fixed8 c a) = a"
    and fixed32_length: "length (encode_fixed32 c n) = 4"
    and fixed32_roundtrip: "decode_fixed32 c (encode_fixed32 c n) = n"
    and fixed64_length: "length (encode_fixed64 c m) = 8"
    and fixed64_roundtrip: "decode_fixed64 c (encode_fixed64 c m) = m"
begin

lemmas int_encoding_simps [simp] =
  varint_roundtrip fixed8_length fixed8_roundtrip fixed32_length fixed32_roundtrip
  fixed64_length fixed64_roundtrip

lemma varint_nonempty: "write_varint c n \<noteq> []"
  using varint_consumes [of "write_varint c n" n "[]"] varint_roundtrip [of n "[]"] by auto

end

locale lz4_codec =
  fixes c :: crates
  assumes lz4_roundtrip: "lz4_decode c (lz4_encode c bs) = Some bs"

section \<open>The instance satisfies the contracts\<close>

lemma read_buf_append: "length xs = n \<Longrightarrow> read_buf n (xs @ rest) = (xs, rest)"
  by (simp add: read_buf_def)

lemma un_leb128_leb128: "n < 2 ^ (7 * Suc k) \<Longrightarrow> un_leb128 k (leb128 k n @ rest) = Some (n, rest)"
proof (induction k arbitrary: n)
  case 0
  then have "unat (word_of_nat n :: 8 word) = n"
    by (simp add: unat_word_of_nat)
  then show ?case using 0 by simp
next
  case (Suc k)
  show ?case
  proof (cases "n < 128")
    case True
    then have "unat (word_of_nat n :: 8 word) = n" by (simp add: unat_word_of_nat)
    then show ?thesis using True by simp
  next
    case False
    have "n mod 128 + 128 < 256"
      using mod_less_divisor [of 128 n] by linarith
    then have u: "unat (word_of_nat (n mod 128 + 128) :: 8 word) = n mod 128 + 128"
      by (intro unat_word_of_nat) simp
    have "n < 128 * 2 ^ (7 * Suc k)"
      using Suc.prems by (simp add: power_add)
    then have "n div 128 < 2 ^ (7 * Suc k)"
      by (simp add: less_mult_imp_div_less mult.commute)
    then have "un_leb128 k (leb128 k (n div 128) @ rest) = Some (n div 128, rest)"
      by (rule Suc.IH)
    then show ?thesis using False u by (simp del: of_nat_add)
  qed
qed

lemma un_leb128_consumes: "un_leb128 k bs = Some (n, rest) \<Longrightarrow> length rest < length bs"
  by (induction k bs arbitrary: n rest rule: un_leb128.induct)
    (fastforce split: if_splits)+

lemma length_little_endian [simp]: "length (little_endian k n) = k"
  by (induction k arbitrary: n) auto

lemma un_little_endian_little_endian: "n < 256 ^ k \<Longrightarrow> un_little_endian (little_endian k n) = n"
proof (induction k arbitrary: n)
  case (Suc k)
  have "unat (word_of_nat (n mod 256) :: 8 word) = n mod 256"
    by (rule unat_word_of_nat) simp
  moreover have "n div 256 < 256 ^ k"
    using Suc.prems by (simp add: less_mult_imp_div_less mult.commute)
  ultimately show ?case using Suc.IH by simp
qed simp

interpretation le: int_encoding le_crates
proof unfold_locales
  fix n :: "32 word" and rest :: bytes
  have "unat n < 2 ^ (7 * Suc 4)"
    using unat_bound [of n] by simp
  then show "read_varint le_crates (write_varint le_crates n @ rest) = Some (n, rest)"
    by (simp add: le_crates_def un_leb128_leb128 del: leb128.simps un_leb128.simps)
next
  fix bs rest :: bytes and n :: "32 word"
  assume "read_varint le_crates bs = Some (n, rest)"
  then show "length rest < length bs"
    by (auto simp: le_crates_def dest: un_leb128_consumes)
next
  fix n :: "32 word" and m :: "64 word"
  show "decode_fixed32 le_crates (encode_fixed32 le_crates n) = n"
    using unat_bound [of n] by (simp add: le_crates_def un_little_endian_little_endian)
  show "decode_fixed64 le_crates (encode_fixed64 le_crates m) = m"
    using unat_bound [of m] by (simp add: le_crates_def un_little_endian_little_endian)
qed (simp_all add: le_crates_def)

interpretation le: lz4_codec le_crates
  by unfold_locales (simp add: le_crates_def)

text \<open>Evaluation of the instance on small numbers.\<close>

lemma leb128_small: "n < 128 \<Longrightarrow> leb128 k n = [word_of_nat n]"
  by (cases k) simp_all

lemma little_endian_4:
  "little_endian 4 n = [word_of_nat (n mod 256), word_of_nat (n div 256 mod 256),
     word_of_nat (n div 256 div 256 mod 256), word_of_nat (n div 256 div 256 div 256 mod 256)]"
proof -
  have "(4::nat) = Suc (Suc (Suc (Suc 0)))" by simp
  then show ?thesis by (simp only: little_endian.simps)
qed

lemmas le_crates_eval = le_crates_def leb128_small little_endian_4

end
