(* ===== verification/Block.thy ===== *)
theory Block
  imports Crates
begin

text \<open>
  The block of an SSTable, \<open>src/src/kernel/lsm/table/ss_table/block.rs\<close>: entries and their
  serialisation, prefix compression (\<open>Block::new\<close>, \<open>sharding_shared_len\<close>,
  \<open>longest_shared_len\<close>), binary search over compressed keys, the raw and the compressed
  encodings. The trait \<open>BlockItem\<close> is the record \<open>block_item\<close> of its two operations, with the
  instances for \<open>Value\<close> and \<open>Index\<close>; its contract is the locale \<open>block_item_codec\<close>.
\<close>

section \<open>Entries and items\<close>

record 'a entry =
  unshared_len :: nat
  shared_len :: nat
  entry_key :: bytes
  entry_item :: 'a

definition entry_new :: "nat \<Rightarrow> nat \<Rightarrow> bytes \<Rightarrow> 'a \<Rightarrow> 'a entry" where
  "entry_new shared unshared k it =
     \<lparr>unshared_len = unshared, shared_len = shared, entry_key = k, entry_item = it\<rparr>"

record block_value =
  value_len :: nat
  value_bytes :: "bytes option"

definition value_from :: "bytes option \<Rightarrow> block_value" where
  "value_from b = \<lparr>value_len = (case b of None \<Rightarrow> 0 | Some v \<Rightarrow> length v), value_bytes = b\<rparr>"

record block_index =
  index_offset :: "32 word"
  index_len :: nat

record 'a block_item =
  item_encode :: "crates \<Rightarrow> 'a \<Rightarrow> bytes"
  item_decode :: "crates \<Rightarrow> bytes \<Rightarrow> ('a \<times> bytes) outcome"

definition value_encode :: "crates \<Rightarrow> block_value \<Rightarrow> bytes" where
  "value_encode c v =
     write_varint c (word_of_nat (value_len v)) @
     (case value_bytes v of Some b \<Rightarrow> b | None \<Rightarrow> [])"

definition value_decode :: "crates \<Rightarrow> bytes \<Rightarrow> (block_value \<times> bytes) outcome" where
  "value_decode c bs =
     (case read_varint c bs of
        None \<Rightarrow> Err Io
      | Some (w, bs1) \<Rightarrow>
          (let len = unat w in
           if len > 0 then
             (let (v, rest) = read_buf len bs1
              in Ok (\<lparr>value_len = len, value_bytes = Some v\<rparr>, rest))
           else Ok (\<lparr>value_len = len, value_bytes = None\<rparr>, bs1)))"

definition index_encode :: "crates \<Rightarrow> block_index \<Rightarrow> bytes" where
  "index_encode c i =
     write_varint c (index_offset i) @ write_varint c (word_of_nat (index_len i))"

definition index_decode :: "crates \<Rightarrow> bytes \<Rightarrow> (block_index \<times> bytes) outcome" where
  "index_decode c bs =
     (case read_varint c bs of
        None \<Rightarrow> Err Io
      | Some (off, bs1) \<Rightarrow>
          (case read_varint c bs1 of
             None \<Rightarrow> Err Io
           | Some (w, rest) \<Rightarrow> Ok (\<lparr>index_offset = off, index_len = unat w\<rparr>, rest)))"

definition value_item :: "block_value block_item" where
  "value_item = \<lparr>item_encode = value_encode, item_decode = value_decode\<rparr>"

definition index_item :: "block_index block_item" where
  "index_item = \<lparr>item_encode = index_encode, item_decode = index_decode\<rparr>"

definition entry_encode :: "crates \<Rightarrow> 'a block_item \<Rightarrow> 'a entry \<Rightarrow> bytes" where
  "entry_encode c bi e =
     write_varint c (word_of_nat (unshared_len e)) @
     write_varint c (word_of_nat (shared_len e)) @
     entry_key e @
     item_encode bi c (entry_item e)"

definition entry_decode :: "crates \<Rightarrow> 'a block_item \<Rightarrow> bytes \<Rightarrow> ('a entry \<times> bytes) outcome" where
  "entry_decode c bi bs =
     (case read_varint c bs of
        None \<Rightarrow> Err Io
      | Some (u, bs1) \<Rightarrow>
          (case read_varint c bs1 of
             None \<Rightarrow> Err Io
           | Some (s, bs2) \<Rightarrow>
               (let (k, bs3) = read_buf (unat u) bs2 in
                and_then (item_decode bi c bs3) (\<lambda>(it, rest).
                  Ok (\<lparr>unshared_len = unat u, shared_len = unat s, entry_key = k, entry_item = it\<rparr>,
                      rest)))))"

text \<open>\<open>batch_decode\<close> loops until the cursor is empty. Every entry consumes input, so the length of
  the buffer bounds the number of rounds; \<open>batch_decode_loop_fuel\<close> below shows that the bound is
  never reached under the contract of the integer crate.\<close>

fun batch_decode_loop ::
  "nat \<Rightarrow> crates \<Rightarrow> 'a block_item \<Rightarrow> nat \<Rightarrow> bytes \<Rightarrow> (nat \<times> 'a entry) list outcome" where
  "batch_decode_loop 0 c bi i bs = (if bs = [] then Ok [] else Panic)"
| "batch_decode_loop (Suc fuel) c bi i bs =
     (if bs = [] then Ok []
      else and_then (entry_decode c bi bs) (\<lambda>(e, rest).
             and_then (batch_decode_loop fuel c bi (Suc i) rest) (\<lambda>es. Ok ((i, e) # es))))"

definition batch_decode :: "crates \<Rightarrow> 'a block_item \<Rightarrow> bytes \<Rightarrow> (nat \<times> 'a entry) list outcome" where
  "batch_decode c bi bs = batch_decode_loop (length bs) c bi 0 bs"

section \<open>Prefix compression\<close>

definition is_common_prefix :: "bytes list \<Rightarrow> nat \<Rightarrow> bool" where
  "is_common_prefix sharding len =
     list_all (\<lambda>kv. list_all (\<lambda>i. (sharding ! 0) ! i = kv ! i) [0..<len]) (drop 1 sharding)"

function shared_len_loop :: "bytes list \<Rightarrow> nat \<Rightarrow> nat \<Rightarrow> nat" where
  "shared_len_loop sharding low high =
     (if low < high then
        (let mid = (high - low + 1) div 2 + low in
         if is_common_prefix sharding mid then shared_len_loop sharding mid high
         else shared_len_loop sharding low (mid - 1))
      else low)"
  by pat_completeness auto
termination
  by (relation "measure (\<lambda>(s, low, high). high - low)") auto

declare shared_len_loop.simps [simp del]

definition longest_shared_len :: "bytes list \<Rightarrow> nat" where
  "longest_shared_len sharding =
     (if sharding = [] then 0
      else shared_len_loop sharding 0 (fold (\<lambda>k m. min m (length k)) sharding usize_MAX))"

definition sharding_shared_len :: "(bytes \<times> 'a) list \<Rightarrow> nat \<Rightarrow> nat list" where
  "sharding_shared_len vec_kv restart =
     map (\<lambda>g. longest_shared_len (map (fst \<circ> snd) g))
       (group_by (\<lambda>(i, _). i div restart) (enumerate 0 vec_kv))"

record 'a block =
  restart_interval :: nat
  vec_entry :: "(nat \<times> 'a entry) list"

definition block_new :: "(bytes \<times> 'a) list \<Rightarrow> nat \<Rightarrow> 'a block outcome" where
  "block_new vec_kv restart =
     (if restart = 0 then Panic
      else let vec_sharding_len = sharding_shared_len vec_kv restart in
        and_then
          (collect_ok (map (\<lambda>(i, (k, it)).
             and_then (if i mod restart = 0 then Ok 0 else index_slice vec_sharding_len (i div restart))
               (\<lambda>shared. and_then (checked_sub (length k) shared)
                 (\<lambda>unshared. and_then (slice_from k shared)
                   (\<lambda>suffix. Ok (i, entry_new shared unshared suffix it)))))
             (enumerate 0 vec_kv)))
          (\<lambda>es. Ok \<lparr>restart_interval = restart, vec_entry = es\<rparr>))"

section \<open>Search\<close>

definition entry_len :: "'a block \<Rightarrow> nat" where
  "entry_len b = length (vec_entry b)"

definition get_entry :: "'a block \<Rightarrow> nat \<Rightarrow> 'a entry outcome" where
  "get_entry b i = and_then (index_slice (vec_entry b) i) (\<lambda>(_, e). Ok e)"

definition shared_key_prefix :: "'a block \<Rightarrow> nat \<Rightarrow> nat \<Rightarrow> bytes outcome" where
  "shared_key_prefix b i n =
     (if restart_interval b = 0 then Panic
      else and_then (get_entry b (i - i mod restart_interval b)) (\<lambda>e. slice_to (entry_key e) n))"

definition restart_shared_len :: "'a block \<Rightarrow> nat \<Rightarrow> nat outcome" where
  "restart_shared_len b i =
     (if restart_interval b = 0 then Panic
      else if i mod restart_interval b \<noteq> 0 then and_then (get_entry b i) (\<lambda>e. Ok (shared_len e))
      else Ok (case get_slice (vec_entry b) (i + 1) of None \<Rightarrow> 0 | Some (_, e) \<Rightarrow> shared_len e))"

definition entry_cmp :: "'a block \<Rightarrow> bytes \<Rightarrow> nat \<times> 'a entry \<Rightarrow> ordering outcome" where
  "entry_cmp b key = (\<lambda>(i, e).
     map_outcome_ok reverse_ordering
       (if shared_len e > 0 then
          (let sl = min (shared_len e) (length key) in
           and_then (shared_key_prefix b i sl) (\<lambda>prefix.
             Ok (then_with (cmp (take sl key) prefix) (cmp (drop sl key) (entry_key e)))))
        else Ok (cmp key (entry_key e))))"

definition binary_search :: "'a block \<Rightarrow> bytes \<Rightarrow> search outcome" where
  "binary_search b key = try_binary_search_by (entry_cmp b key) (vec_entry b)"

definition find_with_upper :: "'a block \<Rightarrow> bytes \<Rightarrow> 'a outcome" where
  "find_with_upper b key =
     and_then (binary_search b key) (\<lambda>r.
       and_then (case r of
           Found i \<Rightarrow> Ok i
         | Insert_at i \<Rightarrow> and_then (checked_sub (entry_len b) 1) (\<lambda>n. Ok (min n i)))
         (\<lambda>i. and_then (get_entry b i) (\<lambda>e. Ok (entry_item e))))"

definition block_find :: "block_value block \<Rightarrow> bytes \<Rightarrow> (bytes option \<times> bool) outcome" where
  "block_find b key =
     and_then (binary_search b key) (\<lambda>r.
       Ok (case r of
             Found i \<Rightarrow>
               (case get_slice (vec_entry b) i of
                  Some (_, e) \<Rightarrow> (value_bytes (entry_item e), True)
                | None \<Rightarrow> (None, False))
           | Insert_at _ \<Rightarrow> (None, False)))"

section \<open>Serialisation\<close>

datatype compress_type = No_Compression | LZ4

definition CRC_SIZE :: nat where "CRC_SIZE = 4"

definition block_to_raw :: "crates \<Rightarrow> 'a block_item \<Rightarrow> 'a block \<Rightarrow> bytes \<Rightarrow> bytes" where
  "block_to_raw c bi b out =
     (let start = length out;
          out' = out @ concat (map (\<lambda>(_, e). entry_encode c bi e) (vec_entry b))
      in out' @ encode_fixed32 c (crc32_hash c (drop start out')))"

definition block_from_raw :: "crates \<Rightarrow> 'a block_item \<Rightarrow> bytes \<Rightarrow> nat \<Rightarrow> 'a block outcome" where
  "block_from_raw c bi buf restart =
     (if buf = [] then Panic
      else and_then (checked_sub (length buf) CRC_SIZE) (\<lambda>date_bytes_len.
        if crc32_hash c buf = decode_fixed32 c (drop date_bytes_len buf) then Err CrcMisMatch
        else and_then (batch_decode c bi (take date_bytes_len buf)) (\<lambda>es.
               Ok \<lparr>restart_interval = restart, vec_entry = es\<rparr>)))"

fun block_encode :: "crates \<Rightarrow> 'a block_item \<Rightarrow> 'a block \<Rightarrow> compress_type \<Rightarrow> bytes \<Rightarrow> bytes" where
  "block_encode c bi b No_Compression out = block_to_raw c bi b out"
| "block_encode c bi b LZ4 out = out @ lz4_encode c (block_to_raw c bi b [])"

fun block_decode :: "crates \<Rightarrow> 'a block_item \<Rightarrow> bytes \<Rightarrow> compress_type \<Rightarrow> nat \<Rightarrow> 'a block outcome" where
  "block_decode c bi buf No_Compression restart = block_from_raw c bi buf restart"
| "block_decode c bi buf LZ4 restart =
     (case lz4_decode c buf of None \<Rightarrow> Err Io | Some raw \<Rightarrow> block_from_raw c bi raw restart)"

section \<open>Item codecs\<close>

fun value_ok :: "block_value \<Rightarrow> bool" where
  "value_ok v \<longleftrightarrow> value_len v < 2 ^ 32 \<and>
     (case value_bytes v of None \<Rightarrow> value_len v = 0 | Some b \<Rightarrow> b \<noteq> [] \<and> value_len v = length b)"

definition index_ok :: "block_index \<Rightarrow> bool" where
  "index_ok i \<longleftrightarrow> index_len i < 2 ^ 32"

definition entry_ok :: "('a \<Rightarrow> bool) \<Rightarrow> 'a entry \<Rightarrow> bool" where
  "entry_ok ok e \<longleftrightarrow> unshared_len e = length (entry_key e) \<and> unshared_len e < 2 ^ 32 \<and>
     shared_len e < 2 ^ 32 \<and> ok (entry_item e)"

lemma batch_decode_loop_Nil [simp]: "batch_decode_loop fuel c bi i [] = Ok []"
  by (cases fuel) simp_all

locale block_item_codec = int_encoding c for c +
  fixes bi :: "'a block_item"
    and ok :: "'a \<Rightarrow> bool"
  assumes item_roundtrip: "ok x \<Longrightarrow> item_decode bi c (item_encode bi c x @ rest) = Ok (x, rest)"
    and item_shrinks: "item_decode bi c bs = Ok (x, rest) \<Longrightarrow> length rest \<le> length bs"
begin

lemma entry_roundtrip:
  assumes "entry_ok ok e"
  shows "entry_decode c bi (entry_encode c bi e @ rest) = Ok (e, rest)"
proof -
  have "unat (word_of_nat (unshared_len e) :: 32 word) = length (entry_key e)"
    "unat (word_of_nat (shared_len e) :: 32 word) = shared_len e"
    "unshared_len e = length (entry_key e)"
    using assms by (auto simp: entry_ok_def intro!: unat_word_of_nat)
  then show ?thesis using assms
    by (simp add: entry_ok_def entry_decode_def entry_encode_def read_buf_append item_roundtrip)
qed

lemma entry_encode_nonempty: "entry_encode c bi e \<noteq> []"
  by (simp add: entry_encode_def varint_nonempty)

lemma entry_decode_shrinks:
  assumes "entry_decode c bi bs = Ok (e, rest)"
  shows "length rest < length bs"
proof -
  obtain u bs1 s bs2 it where *: "read_varint c bs = Some (u, bs1)" "read_varint c bs1 = Some (s, bs2)"
      "item_decode bi c (drop (unat u) bs2) = Ok (it, rest)"
    using assms by (auto simp: entry_decode_def read_buf_def and_then_Ok_iff split: option.splits)
  then show ?thesis
    using varint_consumes [OF *(1)] varint_consumes [OF *(2)] item_shrinks [OF *(3)] by simp
qed

text \<open>The loop bound of \<open>batch_decode\<close> is never reached: more fuel than bytes changes nothing.\<close>

lemma batch_decode_loop_fuel:
  "length bs \<le> fuel \<Longrightarrow> batch_decode_loop fuel c bi i bs = batch_decode_loop (length bs) c bi i bs"
proof (induction fuel arbitrary: i bs rule: less_induct)
  case (less fuel)
  show ?case
  proof (cases "bs = []")
    case True
    then show ?thesis by (cases fuel) auto
  next
    case False
    obtain f where f: "fuel = Suc f" using less.prems False by (cases fuel) auto
    obtain m where m: "length bs = Suc m" using False by (cases bs) auto
    have "batch_decode_loop f c bi (Suc i) rest = batch_decode_loop m c bi (Suc i) rest"
      if "entry_decode c bi bs = Ok (e, rest)" for e rest
    proof -
      have "length rest \<le> m" using entry_decode_shrinks [OF that] m by simp
      moreover have "m \<le> f" using less.prems m f by simp
      ultimately show ?thesis
        using less.IH [of f rest "Suc i"] less.IH [of m rest "Suc i"] f by auto
    qed
    then show ?thesis
      using False by (cases "entry_decode c bi bs") (auto simp: f m)
  qed
qed

lemma batch_decode_loop_roundtrip:
  assumes "\<forall>e\<in>set es. entry_ok ok e" "length (concat (map (entry_encode c bi) es)) \<le> fuel"
  shows "batch_decode_loop fuel c bi i (concat (map (entry_encode c bi) es)) = Ok (enumerate i es)"
  using assms
proof (induction es arbitrary: i fuel)
  case (Cons e es)
  obtain f where f: "fuel = Suc f"
    using Cons.prems(2) entry_encode_nonempty [of e] by (cases fuel) auto
  have "length (concat (map (entry_encode c bi) es)) \<le> f"
    using Cons.prems(2) entry_encode_nonempty [of e] f by (cases "entry_encode c bi e") auto
  then show ?case
    using Cons f by (simp add: entry_roundtrip entry_encode_nonempty)
qed simp

lemma batch_decode_roundtrip:
  "\<forall>e\<in>set es. entry_ok ok e \<Longrightarrow>
   batch_decode c bi (concat (map (entry_encode c bi) es)) = Ok (enumerate 0 es)"
  unfolding batch_decode_def by (rule batch_decode_loop_roundtrip) auto

end

sublocale int_encoding \<subseteq> val: block_item_codec c value_item value_ok
proof unfold_locales
  fix v rest assume "value_ok v"
  then have "unat (word_of_nat (value_len v) :: 32 word) = value_len v"
    by (auto intro!: unat_word_of_nat)
  with \<open>value_ok v\<close> show "item_decode value_item c (item_encode value_item c v @ rest) = Ok (v, rest)"
    by (cases v) (auto simp: value_item_def value_decode_def value_encode_def read_buf_append
        split: option.splits)
next
  fix bs v rest assume "item_decode value_item c bs = Ok (v, rest)"
  then show "length rest \<le> length bs"
    by (auto simp: value_item_def value_decode_def Let_def read_buf_def dest!: varint_consumes
        split: option.splits if_splits)
qed

sublocale int_encoding \<subseteq> idx: block_item_codec c index_item index_ok
proof unfold_locales
  fix x rest assume "index_ok x"
  then have "unat (word_of_nat (index_len x) :: 32 word) = index_len x"
    by (auto simp: index_ok_def intro!: unat_word_of_nat)
  then show "item_decode index_item c (item_encode index_item c x @ rest) = Ok (x, rest)"
    by (simp add: index_item_def index_decode_def index_encode_def)
next
  fix bs x rest assume "item_decode index_item c bs = Ok (x, rest)"
  then show "length rest \<le> length bs"
    by (auto simp: index_item_def index_decode_def dest!: varint_consumes split: option.splits)
qed

section \<open>The longest shared prefix\<close>

definition common_prefix :: "bytes list \<Rightarrow> nat \<Rightarrow> bool" where
  "common_prefix ks n \<longleftrightarrow> (\<forall>k\<in>set ks. n \<le> length k \<and> take n k = take n (hd ks))"

lemma common_prefix_mono:
  assumes "common_prefix ks n" "m \<le> n"
  shows "common_prefix ks m"
proof -
  have "take m k = take m (take n k)" for k :: bytes
    using assms(2) by (simp add: min_def)
  then show ?thesis using assms unfolding common_prefix_def by (metis le_trans)
qed

lemma is_common_prefix_iff:
  assumes "ks \<noteq> []" "\<forall>k\<in>set ks. n \<le> length k"
  shows "is_common_prefix ks n \<longleftrightarrow> common_prefix ks n"
proof -
  obtain k0 ks' where ks: "ks = k0 # ks'" using assms(1) by (cases ks) auto
  have eq: "(\<forall>i<n. k0 ! i = k ! i) \<longleftrightarrow> take n k = take n k0" if "k \<in> set ks'" for k
    using assms(2) that ks by (auto simp: list_eq_iff_nth_eq)
  have "is_common_prefix ks n \<longleftrightarrow> (\<forall>k\<in>set ks'. \<forall>i<n. k0 ! i = k ! i)"
    by (auto simp: ks is_common_prefix_def list_all_iff)
  also have "\<dots> \<longleftrightarrow> common_prefix ks n"
    using assms(2) by (simp add: eq ks common_prefix_def)
  finally show ?thesis .
qed

lemma shared_len_loop_spec:
  assumes "ks \<noteq> []" "\<forall>k\<in>set ks. high \<le> length k" "common_prefix ks low" "low \<le> high"
  shows "common_prefix ks (shared_len_loop ks low high) \<and>
    (\<forall>n\<le>high. common_prefix ks n \<longrightarrow> n \<le> shared_len_loop ks low high)"
  using assms
proof (induction ks low high rule: shared_len_loop.induct)
  case (1 ks low high)
  show ?case
  proof (cases "low < high")
    case False
    then have "shared_len_loop ks low high = high"
      using "1.prems"(4) by (subst shared_len_loop.simps) simp
    then show ?thesis using "1.prems" False by auto
  next
    case True
    define mid where "mid = (high - low + 1) div 2 + low"
    have mid: "low < mid" "mid \<le> high" using True by (auto simp: mid_def)
    then have common: "is_common_prefix ks mid \<longleftrightarrow> common_prefix ks mid"
      using "1.prems" by (intro is_common_prefix_iff) auto
    show ?thesis
    proof (cases "is_common_prefix ks mid")
      case True
      then have "shared_len_loop ks low high = shared_len_loop ks mid high"
        using \<open>low < high\<close> by (simp add: shared_len_loop.simps [of ks low high] mid_def Let_def)
      then show ?thesis
        using "1.IH"(1) [OF \<open>low < high\<close> mid_def True] "1.prems" common True mid by auto
    next
      case False
      then have eq: "shared_len_loop ks low high = shared_len_loop ks low (mid - 1)"
        using \<open>low < high\<close> by (simp add: shared_len_loop.simps [of ks low high] mid_def Let_def)
      have "\<forall>k\<in>set ks. mid - 1 \<le> length k" using "1.prems"(2) mid by fastforce
      then have IH: "common_prefix ks (shared_len_loop ks low (mid - 1)) \<and>
          (\<forall>n\<le>mid - 1. common_prefix ks n \<longrightarrow> n \<le> shared_len_loop ks low (mid - 1))"
        using "1.IH"(2) [OF \<open>low < high\<close> mid_def False] "1.prems" mid by auto
      have "n \<le> mid - 1" if "common_prefix ks n" for n
        using False common common_prefix_mono [OF that, of mid] by linarith
      then show ?thesis using IH eq by auto
    qed
  qed
qed

lemma fold_min_le: "fold (\<lambda>k m. min m (length k)) ks a \<le> a"
proof (induction ks arbitrary: a)
  case (Cons k ks)
  show ?case using Cons.IH [of "min a (length k)"] by simp
qed simp

lemma fold_min_length: "k \<in> set ks \<Longrightarrow> fold (\<lambda>k m. min m (length k)) ks a \<le> length k"
proof (induction ks arbitrary: a)
  case (Cons k' ks)
  then show ?case using fold_min_le [of ks "min a (length k')"] by auto
qed simp

lemma fold_min_greatest:
  "n \<le> a \<Longrightarrow> \<forall>k\<in>set ks. n \<le> length k \<Longrightarrow> n \<le> fold (\<lambda>k m. min m (length k)) ks a"
  by (induction ks arbitrary: a) auto

lemma longest_shared_len_common:
  assumes "ks \<noteq> []"
  shows "common_prefix ks (longest_shared_len ks)"
proof -
  have "common_prefix ks 0" by (simp add: common_prefix_def)
  then show ?thesis
    using shared_len_loop_spec [of ks "fold (\<lambda>k m. min m (length k)) ks usize_MAX" 0] assms
      fold_min_length by (auto simp: longest_shared_len_def)
qed

lemma longest_shared_len_greatest:
  assumes "ks \<noteq> []" "common_prefix ks n" "\<exists>k\<in>set ks. length k \<le> usize_MAX"
  shows "n \<le> longest_shared_len ks"
proof -
  have "n \<le> fold (\<lambda>k m. min m (length k)) ks usize_MAX"
    using assms(2,3) by (intro fold_min_greatest) (auto simp: common_prefix_def)
  moreover have "common_prefix ks 0" by (simp add: common_prefix_def)
  ultimately show ?thesis
    using shared_len_loop_spec [of ks "fold (\<lambda>k m. min m (length k)) ks usize_MAX" 0] assms
      fold_min_length by (auto simp: longest_shared_len_def)
qed

section \<open>The compressed block represents its key-value pairs\<close>

lemma group_by_enumerate:
  assumes "r > 0" "i < length kvs"
  shows "i div r < length (group_by (\<lambda>(i, _). i div r) (enumerate (q * r) kvs)) \<and>
    group_by (\<lambda>(i, _). i div r) (enumerate (q * r) kvs) ! (i div r) =
    enumerate ((q + i div r) * r) (take r (drop (i div r * r) kvs))"
  using assms(2)
proof (induction "length kvs" arbitrary: kvs i q rule: less_induct)
  case less
  let ?f = "\<lambda>(i, _). i div r"
  have idx: "j div r = q" if "(j, x) \<in> set (enumerate (q * r) (take r kvs))" for j x
    using that assms(1)
    by (auto simp: in_set_enumerate_eq mult.commute intro!: div_nat_eqI)
  have "q + 1 \<le> j div r" if "(j, x) \<in> set (enumerate ((q + 1) * r) (drop r kvs))" for j x
    using that assms(1) by (auto simp: in_set_enumerate_eq less_eq_div_iff_mult_less_eq)
  then have rest: "j div r \<noteq> q" if "(j, x) \<in> set (enumerate ((q + 1) * r) (drop r kvs))" for j x
    using that by fastforce
  have split: "enumerate (q * r) kvs =
      enumerate (q * r) (take r kvs) @ enumerate ((q + 1) * r) (drop r kvs)"
    using enumerate_append_eq [of "q * r" "take r kvs" "drop r kvs"]
    by (cases "r \<le> length kvs") (auto simp: add.commute min_def)
  have "take r kvs \<noteq> []" using less.prems assms(1) by auto
  then have ne: "enumerate (q * r) (take r kvs) \<noteq> []"
    by (metis length_enumerate length_0_conv)
  have gb: "group_by ?f (enumerate (q * r) kvs) =
      enumerate (q * r) (take r kvs) # group_by ?f (enumerate ((q + 1) * r) (drop r kvs))"
    unfolding split
  proof (rule group_by_map_split [where a = q])
    show "enumerate (q * r) (take r kvs) \<noteq> []" by (rule ne)
  qed (use idx rest in auto)
  show ?case
  proof (cases "i < r")
    case True
    then show ?thesis by (simp add: gb)
  next
    case False
    then have d: "i div r = Suc ((i - r) div r)" using assms(1) by (simp add: le_div_geq)
    have "length (drop r kvs) < length kvs" "i - r < length (drop r kvs)"
      using less.prems assms(1) False by auto
    from less.hyps [OF this, of "q + 1"] show ?thesis
      by (simp add: gb d add.commute)
  qed
qed

text \<open>The shared length that \<open>Block::new\<close> uses for the entry at \<open>i\<close>.\<close>

definition block_shared :: "(bytes \<times> 'a) list \<Rightarrow> nat \<Rightarrow> nat \<Rightarrow> nat" where
  "block_shared kvs r i = (if i mod r = 0 then 0 else sharding_shared_len kvs r ! (i div r))"

definition block_entry :: "(bytes \<times> 'a) list \<Rightarrow> nat \<Rightarrow> nat \<Rightarrow> 'a entry" where
  "block_entry kvs r i =
     (let k = fst (kvs ! i); n = block_shared kvs r i
      in entry_new n (length k - n) (drop n k) (snd (kvs ! i)))"

lemma sharding_shared_len_nth:
  assumes "r > 0" "i < length kvs"
  shows "i div r < length (sharding_shared_len kvs r)"
    "sharding_shared_len kvs r ! (i div r) =
      longest_shared_len (map fst (take r (drop (i div r * r) kvs)))"
  using group_by_enumerate [OF assms, of 0]
  by (auto simp: sharding_shared_len_def simp flip: map_map)

lemma block_shared_prefix:
  assumes "r > 0" "i < length kvs"
  shows "block_shared kvs r i \<le> length (fst (kvs ! i))"
    and "block_shared kvs r i \<le> length (fst (kvs ! (i - i mod r)))"
    and "take (block_shared kvs r i) (fst (kvs ! i)) =
      take (block_shared kvs r i) (fst (kvs ! (i - i mod r)))"
proof -
  define q where "q = i div r * r"
  define ks where "ks = map fst (take r (drop q kvs))"
  have i: "i = q + i mod r" "i mod r < r" "i - i mod r = q" "q \<le> i"
    using assms(1) by (simp_all add: q_def minus_mod_eq_div_mult)
  have "length ks = min r (length kvs - q)" by (simp add: ks_def)
  moreover have "i - q = i mod r" using i by simp
  ultimately have len: "i - q < length ks" "0 < length ks" using i assms by auto
  have nth: "ks ! (i - q) = fst (kvs ! i)" "ks ! 0 = fst (kvs ! q)"
    using len i assms by (auto simp: ks_def)
  have mem: "fst (kvs ! i) \<in> set ks" "fst (kvs ! q) \<in> set ks" "ks \<noteq> []" "hd ks = fst (kvs ! q)"
    using len nth by (metis nth_mem, metis nth_mem, auto simp: hd_conv_nth)
  have "common_prefix ks (block_shared kvs r i)"
  proof (cases "i mod r = 0")
    case False
    then have "block_shared kvs r i = longest_shared_len ks"
      using sharding_shared_len_nth(2) [OF assms] by (simp add: block_shared_def ks_def q_def)
    then show ?thesis using longest_shared_len_common mem(3) by simp
  qed (simp add: block_shared_def common_prefix_def)
  note common = this [unfolded common_prefix_def, rule_format]
  show "block_shared kvs r i \<le> length (fst (kvs ! i))"
    using common [OF mem(1)] by simp
  show "block_shared kvs r i \<le> length (fst (kvs ! (i - i mod r)))"
    using common [OF mem(2)] unfolding i(3) by simp
  show "take (block_shared kvs r i) (fst (kvs ! i)) =
      take (block_shared kvs r i) (fst (kvs ! (i - i mod r)))"
    using common [OF mem(1)] mem(4) unfolding i(3) by simp
qed

lemma block_new_Ok:
  assumes "r > 0"
  shows "block_new kvs r =
    Ok \<lparr>restart_interval = r,
        vec_entry = map (\<lambda>i. (i, block_entry kvs r i)) [0..<length kvs]\<rparr>"
proof -
  let ?f = "\<lambda>(i, (k, it)).
     and_then (if i mod r = 0 then Ok 0 else index_slice (sharding_shared_len kvs r) (i div r))
       (\<lambda>shared. and_then (checked_sub (length k) shared)
         (\<lambda>unshared. and_then (slice_from k shared)
           (\<lambda>suffix. Ok (i, entry_new shared unshared suffix it))))"
  have entry: "?f (i, kvs ! i) = Ok (i, block_entry kvs r i)" if "i < length kvs" for i
  proof -
    have "(if i mod r = 0 then Ok 0 else index_slice (sharding_shared_len kvs r) (i div r)) =
        Ok (block_shared kvs r i)"
      using sharding_shared_len_nth(1) [OF assms that] by (simp add: block_shared_def index_slice_def)
    then show ?thesis using block_shared_prefix(1) [OF assms that]
      by (cases "kvs ! i") (simp add: checked_sub_def slice_from_def block_entry_def Let_def)
  qed
  have enum: "enumerate 0 kvs = map (\<lambda>i. (i, kvs ! i)) [0..<length kvs]"
    by (rule nth_equalityI) (simp_all add: nth_enumerate_eq)
  have "collect_ok (map ?f (enumerate 0 kvs)) =
      collect_ok (map (\<lambda>i. ?f (i, kvs ! i)) [0..<length kvs])"
    unfolding enum map_map comp_def ..
  also have "\<dots> = Ok (map (\<lambda>i. (i, block_entry kvs r i)) [0..<length kvs])"
    by (rule collect_ok_map) (rule entry, simp)
  finally have "collect_ok (map ?f (enumerate 0 kvs)) =
      Ok (map (\<lambda>i. (i, block_entry kvs r i)) [0..<length kvs])" .
  then show ?thesis using assms by (simp add: block_new_def)
qed

section \<open>Searching a compressed block\<close>

lemma block_entry_simps [simp]:
  "shared_len (block_entry kvs r i) = block_shared kvs r i"
  "unshared_len (block_entry kvs r i) = length (fst (kvs ! i)) - block_shared kvs r i"
  "entry_key (block_entry kvs r i) = drop (block_shared kvs r i) (fst (kvs ! i))"
  "entry_item (block_entry kvs r i) = snd (kvs ! i)"
  by (simp_all add: block_entry_def entry_new_def Let_def)

lemma block_new_fields:
  assumes "block_new kvs r = Ok b"
  shows "r > 0" "restart_interval b = r" "length (vec_entry b) = length kvs"
    and "i < length kvs \<Longrightarrow> vec_entry b ! i = (i, block_entry kvs r i)"
proof -
  show r: "r > 0" using assms by (cases "r = 0") (simp_all add: block_new_def)
  show "restart_interval b = r" "length (vec_entry b) = length kvs"
    "i < length kvs \<Longrightarrow> vec_entry b ! i = (i, block_entry kvs r i)"
    using assms block_new_Ok [OF r, of kvs] by auto
qed

text \<open>The first entry of a restart group stores its whole key, so the prefix of any entry can be
  read off it.\<close>

lemma shared_key_prefix_block:
  assumes "block_new kvs r = Ok b" "i < length kvs" "n \<le> length (fst (kvs ! (i - i mod r)))"
  shows "shared_key_prefix b i n = Ok (take n (fst (kvs ! (i - i mod r))))"
proof -
  note f = block_new_fields [OF assms(1)]
  have "i - i mod r < length kvs" using assms(2) by simp
  moreover have "(i - i mod r) mod r = 0" by (simp add: minus_mod_eq_div_mult)
  ultimately show ?thesis using f assms(3)
    by (simp add: shared_key_prefix_def get_entry_def index_slice_def slice_to_def block_shared_def)
qed

lemma block_key_restored:
  assumes "block_new kvs r = Ok b" "i < length kvs" "e = snd (vec_entry b ! i)"
  shows "\<exists>p. shared_key_prefix b i (shared_len e) = Ok p \<and> p @ entry_key e = fst (kvs ! i) \<and>
    entry_item e = snd (kvs ! i)"
proof -
  note f = block_new_fields [OF assms(1)]
  let ?n = "block_shared kvs r i"
  have e: "shared_len e = ?n" "entry_key e = drop ?n (fst (kvs ! i))" "entry_item e = snd (kvs ! i)"
    using assms(2,3) f(4) [of i] by (simp_all add: Let_def)
  have "shared_key_prefix b i ?n = Ok (take ?n (fst (kvs ! (i - i mod r))))"
    using block_shared_prefix(2) [OF f(1) assms(2)] by (rule shared_key_prefix_block [OF assms(1,2)])
  then show ?thesis using e block_shared_prefix(3) [OF f(1) assms(2)]
    by (metis append_take_drop_id)
qed

text \<open>Comparing a search key with a compressed entry gives the order of the uncompressed keys.
  Strictly ascending keys are needed: an entry after the restart never has an empty suffix.\<close>

lemma entry_cmp_block:
  assumes new: "block_new kvs r = Ok b" and asc: "keys_ascending kvs" and i: "i < length kvs"
  shows "entry_cmp b key (vec_entry b ! i) = Ok (cmp (fst (kvs ! i)) key)"
proof -
  note f = block_new_fields [OF new]
  let ?n = "block_shared kvs r i" and ?k = "fst (kvs ! i)" and ?r = "fst (kvs ! (i - i mod r))"
  note sp = block_shared_prefix [OF f(1) i]
  have rev: "reverse_ordering (cmp a c) = cmp c a" for a c :: bytes
    by (auto simp: cmp_def)
  show ?thesis
  proof (cases "?n = 0")
    case True
    then show ?thesis using f(4) [OF i] by (simp add: entry_cmp_def rev)
  next
    case False
    let ?sl = "min ?n (length key)"
    have pre: "shared_key_prefix b i ?sl = Ok (take ?sl ?k)"
    proof -
      have "take ?sl ?r = take ?sl ?k" using sp(3) by (metis min.commute take_take)
      then show ?thesis using shared_key_prefix_block [OF new i, of ?sl] sp(2) by simp
    qed
    have "then_with (cmp (take ?sl key) (take ?sl ?k)) (cmp (drop ?sl key) (drop ?n ?k)) = cmp key ?k"
    proof (cases "?n \<le> length key")
      case True
      then show ?thesis using cmp_split [of ?n key ?k] sp(1) by (simp add: min_def)
    next
      case False
      have "?r < ?k"
      proof -
        have "i mod r \<noteq> 0" using \<open>?n \<noteq> 0\<close> by (auto simp: block_shared_def split: if_splits)
        then have "i - i mod r < i" by (metis diff_less gr0I mod_0)
        then show ?thesis using ascending_nth_less [OF asc] i by simp
      qed
      moreover have "take ?n ?k \<le> ?r" using sp(3) take_le_list by metis
      ultimately have "take ?n ?k \<noteq> ?k" by auto
      then have "drop ?n ?k \<noteq> []" "length key < length ?k" using sp(1) False by auto
      then obtain z zs where "drop ?n ?k = z # zs" by (cases "drop ?n ?k") auto
      then show ?thesis using cmp_short [OF \<open>length key < length ?k\<close>] False by (simp add: min_def)
    qed
    then show ?thesis using f(4) [OF i] False pre
      by (simp add: entry_cmp_def rev Let_def)
  qed
qed

lemma binary_search_block:
  assumes new: "block_new kvs r = Ok b" and asc: "keys_ascending kvs"
  shows "\<exists>s. binary_search b key = Ok s \<and> search_ok (\<lambda>(k, v). cmp k key) kvs s"
proof -
  let ?g = "\<lambda>(i, e). cmp (fst (kvs ! i)) key"
  note f = block_new_fields [OF new]
  have g: "?g (vec_entry b ! i) = (\<lambda>(k, v). cmp k key) (kvs ! i)" if "i < length kvs" for i
    using f(4) [OF that] by (simp add: case_prod_unfold)
  have len: "length (vec_entry b) = length kvs" by (rule f(3))
  have "entry_cmp b key x = Ok (?g x)" if "x \<in> set (vec_entry b)" for x
    using that entry_cmp_block [OF new asc, of _ key] f(3,4) by (auto simp: in_set_conv_nth)
  then have "binary_search b key = Ok (binary_search_by ?g (vec_entry b))"
    unfolding binary_search_def by (rule try_binary_search_by_Ok)
  moreover have "partitioned ?g (vec_entry b)"
    using partitioned_ascending [OF asc, of key]
      partitioned_cong [OF len, of ?g "\<lambda>(k, v). cmp k key"] g len by simp
  then have "search_ok ?g (vec_entry b) (binary_search_by ?g (vec_entry b))"
    by (rule binary_search_by_ok)
  then have "search_ok (\<lambda>(k, v). cmp k key) kvs (binary_search_by ?g (vec_entry b))"
    using search_ok_cong [OF len, of ?g "\<lambda>(k, v). cmp k key"] g len by simp
  ultimately show ?thesis by blast
qed

lemma block_find_map_of:
  assumes "block_new kvs r = Ok b" "keys_ascending kvs"
  shows "block_find b key =
    Ok (case map_of kvs key of Some v \<Rightarrow> (value_bytes v, True) | None \<Rightarrow> (None, False))"
proof -
  obtain s where s: "binary_search b key = Ok s" "search_ok (\<lambda>(k, v). cmp k key) kvs s"
    using binary_search_block [OF assms] by blast
  note found = search_ok_ascending(2) [OF assms(2) s(2)]
  note f = block_new_fields [OF assms(1)]
  show ?thesis
  proof (cases s)
    case (Found i)
    then have i: "i < length kvs" "fst (kvs ! i) = key" using s(2) by (auto split: prod.splits)
    then have "map_of kvs key = Some (snd (kvs ! i))"
      using map_of_ascending_in [OF assms(2)] by (metis nth_mem prod.collapse)
    then show ?thesis using s(1) Found i f
      by (simp add: block_find_def get_slice_def Let_def)
  next
    case (Insert_at i)
    then have "map_of kvs key = None" using found by (simp add: map_of_eq_None_iff)
    then show ?thesis using s(1) Insert_at by (simp add: block_find_def)
  qed
qed

text \<open>\<open>find_with_upper\<close> gives the item of the first key that is not below the search key, or the
  last item when there is none.\<close>

lemma find_with_upper_first:
  assumes "block_new kvs r = Ok b" "keys_ascending kvs" "kvs \<noteq> []"
  shows "find_with_upper b key =
    Ok (snd (kvs ! min (length kvs - 1) (length (takeWhile (\<lambda>(k, v). k < key) kvs))))"
proof -
  obtain s where s: "binary_search b key = Ok s" "search_ok (\<lambda>(k, v). cmp k key) kvs s"
    using binary_search_block [OF assms(1,2)] by blast
  note pos = search_ok_ascending(1) [OF assms(2) s(2)]
  note f = block_new_fields [OF assms(1)]
  let ?i = "min (length kvs - 1) (search_pos s)"
  have i: "?i < length kvs" using assms(3) by (cases kvs) auto
  have "and_then (case s of Found i \<Rightarrow> Ok i
      | Insert_at i \<Rightarrow> and_then (checked_sub (entry_len b) 1) (\<lambda>n. Ok (min n i))) g = g ?i" for g :: "nat \<Rightarrow> 'a outcome"
    using s(2) i f(3) assms(3)
    by (cases s) (auto simp: checked_sub_def entry_len_def Suc_le_eq split: prod.splits)
  then show ?thesis using s(1) f i
    by (simp add: find_with_upper_def get_entry_def index_slice_def
        Let_def pos [symmetric])
qed

section \<open>Reading back an encoded block\<close>

definition kvs_ok :: "('a \<Rightarrow> bool) \<Rightarrow> (bytes \<times> 'a) list \<Rightarrow> bool" where
  "kvs_ok ok kvs \<longleftrightarrow> (\<forall>(k, it)\<in>set kvs. length k < 2 ^ 32 \<and> ok it)"

definition block_payload :: "crates \<Rightarrow> 'a block_item \<Rightarrow> 'a block \<Rightarrow> bytes" where
  "block_payload c bi b = concat (map (\<lambda>(_, e). entry_encode c bi e) (vec_entry b))"

text \<open>\<open>from_raw\<close> compares the checksum of the \<^emph>\<open>whole\<close> buffer with the stored one and rejects on
  \<^emph>\<open>equality\<close>. A block written by \<open>to_raw\<close> is therefore readable exactly when the two differ.\<close>

definition crc_gap :: "crates \<Rightarrow> bytes \<Rightarrow> bool" where
  "crc_gap c payload \<longleftrightarrow>
     crc32_hash c (payload @ encode_fixed32 c (crc32_hash c payload)) \<noteq> crc32_hash c payload"

lemma block_to_raw_append: "block_to_raw c bi b out = out @ block_to_raw c bi b []"
  by (simp add: block_to_raw_def Let_def)

lemma block_to_raw_payload:
  "block_to_raw c bi b [] =
   block_payload c bi b @ encode_fixed32 c (crc32_hash c (block_payload c bi b))"
  by (simp add: block_to_raw_def block_payload_def Let_def)

lemma block_entry_ok:
  assumes "block_new kvs r = Ok b" "kvs_ok ok kvs" "(i, e) \<in> set (vec_entry b)"
  shows "entry_ok ok e"
proof -
  note f = block_new_fields [OF assms(1)]
  obtain j where j: "j < length kvs" "e = block_entry kvs r j"
    using assms(3) f(3) f(4) by (auto simp: in_set_conv_nth)
  have "length (fst (kvs ! j)) < 2 ^ 32 \<and> ok (snd (kvs ! j))"
    using assms(2) j(1) by (auto simp: kvs_ok_def case_prod_unfold)
  moreover have "block_shared kvs r j \<le> length (fst (kvs ! j))"
    by (rule block_shared_prefix(1) [OF f(1) j(1)])
  ultimately show ?thesis by (auto simp: j(2) entry_ok_def)
qed

lemma block_entries_enumerate:
  assumes "block_new kvs r = Ok b"
  shows "enumerate 0 (map snd (vec_entry b)) = vec_entry b"
  by (rule nth_equalityI)
    (use block_new_fields(3,4) [OF assms] in \<open>auto simp: nth_enumerate_eq\<close>)

context block_item_codec
begin

text \<open>Any four bytes pass as a checksum, unless they equal the checksum of the whole buffer.\<close>

lemma block_from_raw_payload:
  assumes "block_new kvs r = Ok b" "kvs_ok ok kvs" "length w = CRC_SIZE"
    and "crc32_hash c (block_payload c bi b @ w) \<noteq> decode_fixed32 c w"
  shows "block_from_raw c bi (block_payload c bi b @ w) r = Ok b"
proof -
  have "\<forall>e\<in>set (map snd (vec_entry b)). entry_ok ok e"
    using block_entry_ok [OF assms(1,2)] by auto
  then have "batch_decode c bi (block_payload c bi b) = Ok (vec_entry b)"
    using batch_decode_roundtrip [of "map snd (vec_entry b)"] block_entries_enumerate [OF assms(1)]
    by (simp add: block_payload_def comp_def case_prod_unfold)
  then show ?thesis using assms(3,4) block_new_fields(2) [OF assms(1)]
    by (auto simp: block_from_raw_def checked_sub_def CRC_SIZE_def)
qed

lemma block_raw_roundtrip:
  assumes "block_new kvs r = Ok b" "kvs_ok ok kvs" "crc_gap c (block_payload c bi b)"
  shows "block_from_raw c bi (block_to_raw c bi b []) r = Ok b"
  unfolding block_to_raw_payload
  by (rule block_from_raw_payload) (use assms in \<open>auto simp: CRC_SIZE_def crc_gap_def\<close>)

lemma block_codec_roundtrip:
  assumes "block_new kvs r = Ok b" "kvs_ok ok kvs" "crc_gap c (block_payload c bi b)" "lz4_codec c"
  shows "block_decode c bi (block_encode c bi b ct []) ct r = Ok b"
  using assms block_raw_roundtrip [OF assms(1-3)]
  by (cases ct) (auto simp: lz4_codec.lz4_roundtrip)

end

lemma block_encode_append: "block_encode c bi b ct out = out @ block_encode c bi b ct []"
  by (cases ct) (simp_all add: block_to_raw_append [of c bi b out])

section \<open>Properties\<close>

text \<open>C20: a block built from strictly ascending keys answers \<open>find\<close> exactly as the list of pairs it
  was built from, for every restart interval and every search key, without panicking; the prefix
  compression is not observable.\<close>

theorem block_find_correct:
  assumes "r > 0" "keys_ascending kvs"
  shows "\<exists>b. block_new kvs r = Ok b \<and> (\<forall>key. block_find b key =
    Ok (case map_of kvs key of Some v \<Rightarrow> (value_bytes v, True) | None \<Rightarrow> (None, False)))"
  using block_new_Ok [OF assms(1), of kvs] block_find_map_of [OF _ assms(2)] by blast

theorem block_find_correct_witness:
  "\<exists>b. block_new [([1, 2], value_from (Some [7])), ([1, 2, 3], value_from None)] 2 = Ok b \<and>
    block_find b [1, 2, 3] = Ok (None, True) \<and> block_find b [1] = Ok (None, False)"
  using block_find_correct
    [of 2 "[([1, 2], value_from (Some [7])), ([1, 2, 3], value_from None)]"]
  by (auto simp: value_from_def)

text \<open>\<open>longest_shared_len\<close> computes by binary search the greatest length at which all keys of
  the group agree.\<close>

theorem longest_shared_len_is_greatest:
  assumes "ks \<noteq> []" "\<forall>k\<in>set ks. length k \<le> usize_MAX"
  shows "longest_shared_len ks = Max {n. \<forall>k\<in>set ks. n \<le> length k \<and> take n k = take n (hd ks)}"
proof -
  let ?S = "{n. common_prefix ks n}"
  have "hd ks \<in> set ks" using assms(1) by simp
  then have "?S \<subseteq> {..length (hd ks)}" by (auto simp: common_prefix_def)
  then have "finite ?S" by (rule finite_subset) simp
  moreover have "n \<le> longest_shared_len ks" if "n \<in> ?S" for n
    using longest_shared_len_greatest [OF assms(1)] that assms(2) \<open>hd ks \<in> set ks\<close> by auto
  ultimately have "Max ?S = longest_shared_len ks"
    using longest_shared_len_common [OF assms(1)] by (intro Max_eqI) auto
  then show ?thesis by (simp add: common_prefix_def)
qed

theorem longest_shared_len_is_greatest_witness:
  "longest_shared_len [[1, 2, 3], [1, 2, 4 :: byte]] =
   Max {n. \<forall>k\<in>set [[1, 2, 3], [1, 2, 4 :: byte]]. n \<le> length k \<and> take n k = take n [1, 2, 3]}"
  using longest_shared_len_is_greatest [of "[[1, 2, 3], [1, 2, 4 :: byte]]"]
  by (simp add: usize_MAX_def)

context int_encoding
begin

lemmas value_block_from_raw_payload = val.block_from_raw_payload
lemmas value_block_codec_roundtrip = val.block_codec_roundtrip
lemmas index_block_codec_roundtrip = idx.block_codec_roundtrip
lemmas value_batch_decode_roundtrip = val.batch_decode_roundtrip
lemmas value_entry_nonempty = val.entry_encode_nonempty

end

text \<open>C21: decoding an encoded data block gives the block back, compressed or not, provided the
  values are non-empty or absent, lengths fit 32 bits, and the checksum of payload and stored
  checksum together differs from the stored one (the code rejects on equality).\<close>

theorem value_block_roundtrip:
  assumes "int_encoding c" "lz4_codec c" "block_new kvs r = Ok b" "kvs_ok value_ok kvs"
    and "crc_gap c (block_payload c value_item b)"
  shows "block_decode c value_item (block_encode c value_item b ct []) ct r = Ok b"
  using int_encoding.value_block_codec_roundtrip [OF assms(1,3,4,5,2)] .

definition sample_kvs :: "(bytes \<times> block_value) list" where
  "sample_kvs = [([1, 2], value_from (Some [7])), ([1, 3], value_from None)]"

definition sample_block :: "block_value block" where
  "sample_block = \<lparr>restart_interval = 2, vec_entry =
     [(0, \<lparr>unshared_len = 2, shared_len = 0, entry_key = [1, 2], entry_item = value_from (Some [7])\<rparr>),
      (1, \<lparr>unshared_len = 1, shared_len = 1, entry_key = [3], entry_item = value_from None\<rparr>)]\<rparr>"

lemma sample_block_new: "block_new sample_kvs 2 = Ok sample_block"
  by (simp add: block_new_def sharding_shared_len_def longest_shared_len_def sample_kvs_def
      sample_block_def usize_MAX_def shared_len_loop.simps is_common_prefix_def index_slice_def
      checked_sub_def slice_from_def entry_new_def)

lemma sample_kvs_ok: "kvs_ok value_ok sample_kvs"
  by (simp add: kvs_ok_def sample_kvs_def value_from_def)

lemma sample_payload: "block_payload le_crates value_item sample_block = [2, 0, 1, 2, 1, 7, 1, 1, 3, 0]"
  by code_simp

theorem value_block_roundtrip_witness:
  "block_decode le_crates value_item (block_encode le_crates value_item sample_block LZ4 []) LZ4 2 =
   Ok sample_block"
proof (rule value_block_roundtrip [OF le.int_encoding_axioms le.lz4_codec_axioms sample_block_new
      sample_kvs_ok])
  show "crc_gap le_crates (block_payload le_crates value_item sample_block)"
    unfolding sample_payload by code_simp
qed

text \<open>The integrity check of \<open>from_raw\<close> is inert. A block whose four trailing bytes are
  \<^emph>\<open>not\<close> the checksum of its payload is still decoded and returned, as long as they differ from
  the checksum of the whole buffer.\<close>

theorem block_from_raw_accepts_bad_checksum:
  assumes "int_encoding c" "block_new kvs r = Ok b" "kvs_ok value_ok kvs" "length w = CRC_SIZE"
    and "decode_fixed32 c w \<noteq> crc32_hash c (block_payload c value_item b)"
    and "crc32_hash c (block_payload c value_item b @ w) \<noteq> decode_fixed32 c w"
  shows "block_from_raw c value_item (block_payload c value_item b @ w) r = Ok b"
  using int_encoding.value_block_from_raw_payload [OF assms(1,2,3,4,6)] .

theorem block_from_raw_accepts_bad_checksum_witness:
  "block_from_raw le_crates value_item
     (block_payload le_crates value_item sample_block @ [9, 0, 0, 0]) 2 = Ok sample_block"
proof (rule block_from_raw_accepts_bad_checksum [OF le.int_encoding_axioms sample_block_new
      sample_kvs_ok])
  show "length [9, 0, 0, 0 :: byte] = CRC_SIZE" by (simp add: CRC_SIZE_def)
  show "decode_fixed32 le_crates [9, 0, 0, 0] \<noteq>
      crc32_hash le_crates (block_payload le_crates value_item sample_block)"
    unfolding sample_payload by code_simp
  show "crc32_hash le_crates (block_payload le_crates value_item sample_block @ [9, 0, 0, 0]) \<noteq>
      decode_fixed32 le_crates [9, 0, 0, 0]"
    unfolding sample_payload by code_simp
qed

text \<open>An empty value does not survive serialisation: it is written with length 0 and read back
  as a tombstone.\<close>

theorem empty_value_becomes_tombstone:
  assumes "int_encoding c"
  shows "value_decode c (value_encode c (value_from (Some [])) @ rest) = Ok (value_from None, rest)"
  using assms by (simp add: value_decode_def value_encode_def value_from_def
      int_encoding.varint_roundtrip)

theorem empty_value_becomes_tombstone_witness:
  "value_decode le_crates (value_encode le_crates (value_from (Some [])) @ [5]) =
   Ok (value_from None, [5])"
  by (rule empty_value_becomes_tombstone [OF le.int_encoding_axioms])

end
