(* ===== verification/Kip_Config.thy ===== *)
theory Kip_Config
  imports KipDB_Prelude
begin

text \<open>
  The configuration of a store, \<open>Config\<close> of \<open>src/src/kernel/lsm/storage.rs\<close>, with the enumerations
  it mentions, and the memory table triggers of \<open>src/src/kernel/lsm/trigger.rs\<close>. The directory is not
  part of the record. \<open>desired_error_prob\<close> only enters the code through the floating point formulas
  \<open>optimal_bits_count\<close> and \<open>optimal_hashers_count\<close> of the Bloom filter; the record holds their
  results, the bit count as a function of the number of elements.
\<close>

datatype table_type = SortedString | BTree

datatype io_type = Buf | Direct

datatype trigger_type = Count | SizeOfMem

definition MAX_LEVEL :: nat where "MAX_LEVEL = 4"
definition LEVEL_0 :: nat where "LEVEL_0 = 0"

definition DEFAULT_BLOCK_SIZE :: nat where "DEFAULT_BLOCK_SIZE = 4 * 1024"
definition DEFAULT_DATA_RESTART_INTERVAL :: nat where "DEFAULT_DATA_RESTART_INTERVAL = 16"
definition DEFAULT_INDEX_RESTART_INTERVAL :: nat where "DEFAULT_INDEX_RESTART_INTERVAL = 2"
definition DEFAULT_MINOR_THRESHOLD_WITH_SIZE_WITH_MEM :: nat where
  "DEFAULT_MINOR_THRESHOLD_WITH_SIZE_WITH_MEM = 2 * 1024 * 1024"
definition DEFAULT_SST_FILE_SIZE :: nat where "DEFAULT_SST_FILE_SIZE = 2 * 1024 * 1024"
definition DEFAULT_MAJOR_THRESHOLD_WITH_SST_SIZE :: nat where "DEFAULT_MAJOR_THRESHOLD_WITH_SST_SIZE = 4"
definition DEFAULT_LEVEL_SST_MAGNIFICATION :: nat where "DEFAULT_LEVEL_SST_MAGNIFICATION = 10"
definition DEFAULT_BLOCK_CACHE_SIZE :: nat where "DEFAULT_BLOCK_CACHE_SIZE = 3200"
definition DEFAULT_TABLE_CACHE_SIZE :: nat where "DEFAULT_TABLE_CACHE_SIZE = 1024"
definition DEFAULT_WAL_THRESHOLD :: nat where "DEFAULT_WAL_THRESHOLD = 20"
definition DEFAULT_VERSION_LOG_THRESHOLD :: nat where "DEFAULT_VERSION_LOG_THRESHOLD = 233"

record config =
  level_table_type :: "table_type list"
  wal_threshold :: nat
  sst_file_size :: nat
  minor_trigger_with_threshold :: "trigger_type \<times> nat"
  major_threshold_with_sst_size :: nat
  level_sst_magnification :: nat
  bloom_bits_count :: "nat \<Rightarrow> nat"
  bloom_hashers_count :: "64 word"
  block_cache_size :: nat
  table_cache_size :: nat
  wal_io_type :: io_type
  block_size :: nat
  data_restart_interval :: nat
  index_restart_interval :: nat
  ver_log_snapshot_threshold :: nat

definition config_new :: "(nat \<Rightarrow> nat) \<Rightarrow> 64 word \<Rightarrow> config" where
  "config_new bits_count hashers_count = \<lparr>
     level_table_type = replicate MAX_LEVEL SortedString,
     wal_threshold = DEFAULT_WAL_THRESHOLD,
     sst_file_size = DEFAULT_SST_FILE_SIZE,
     minor_trigger_with_threshold = (SizeOfMem, DEFAULT_MINOR_THRESHOLD_WITH_SIZE_WITH_MEM),
     major_threshold_with_sst_size = DEFAULT_MAJOR_THRESHOLD_WITH_SST_SIZE,
     level_sst_magnification = DEFAULT_LEVEL_SST_MAGNIFICATION,
     bloom_bits_count = bits_count,
     bloom_hashers_count = hashers_count,
     block_cache_size = DEFAULT_BLOCK_CACHE_SIZE,
     table_cache_size = DEFAULT_TABLE_CACHE_SIZE,
     wal_io_type = Buf,
     block_size = DEFAULT_BLOCK_SIZE,
     data_restart_interval = DEFAULT_DATA_RESTART_INTERVAL,
     index_restart_interval = DEFAULT_INDEX_RESTART_INTERVAL,
     ver_log_snapshot_threshold = DEFAULT_VERSION_LOG_THRESHOLD\<rparr>"

definition enable_level_0_memorization :: "config \<Rightarrow> config" where
  "enable_level_0_memorization cfg = cfg\<lparr>level_table_type := (level_table_type cfg)[0 := BTree]\<rparr>"

text \<open>The builder methods of \<open>Config\<close>, each consuming the configuration and returning it changed.
  \<open>level_table_type[level] = table_type\<close> indexes an array of \<open>MAX_LEVEL\<close> elements.\<close>

definition with_level_table_type :: "config \<Rightarrow> nat \<Rightarrow> table_type \<Rightarrow> config outcome" where
  "with_level_table_type cfg level ty =
     (if level < length (level_table_type cfg)
      then Ok (cfg\<lparr>level_table_type := (level_table_type cfg)[level := ty]\<rparr>) else Panic)"

definition with_minor_trigger :: "config \<Rightarrow> trigger_type \<Rightarrow> nat \<Rightarrow> config" where
  "with_minor_trigger cfg ty threshold = cfg\<lparr>minor_trigger_with_threshold := (ty, threshold)\<rparr>"

definition with_block_size :: "config \<Rightarrow> nat \<Rightarrow> config" where
  "with_block_size cfg n = cfg\<lparr>block_size := n\<rparr>"

definition with_data_restart_interval :: "config \<Rightarrow> nat \<Rightarrow> config" where
  "with_data_restart_interval cfg n = cfg\<lparr>data_restart_interval := n\<rparr>"

definition with_index_restart_interval :: "config \<Rightarrow> nat \<Rightarrow> config" where
  "with_index_restart_interval cfg n = cfg\<lparr>index_restart_interval := n\<rparr>"

definition with_wal_threshold :: "config \<Rightarrow> nat \<Rightarrow> config" where
  "with_wal_threshold cfg n = cfg\<lparr>wal_threshold := n\<rparr>"

definition with_sst_file_size :: "config \<Rightarrow> nat \<Rightarrow> config" where
  "with_sst_file_size cfg n = cfg\<lparr>sst_file_size := n\<rparr>"

definition with_major_threshold :: "config \<Rightarrow> nat \<Rightarrow> config" where
  "with_major_threshold cfg n = cfg\<lparr>major_threshold_with_sst_size := n\<rparr>"

definition with_level_sst_magnification :: "config \<Rightarrow> nat \<Rightarrow> config" where
  "with_level_sst_magnification cfg n = cfg\<lparr>level_sst_magnification := n\<rparr>"

definition with_desired_error_prob :: "config \<Rightarrow> (nat \<Rightarrow> nat) \<Rightarrow> 64 word \<Rightarrow> config" where
  "with_desired_error_prob cfg bits_count hashers_count =
     cfg\<lparr>bloom_bits_count := bits_count, bloom_hashers_count := hashers_count\<rparr>"

definition with_block_cache_size :: "config \<Rightarrow> nat \<Rightarrow> config" where
  "with_block_cache_size cfg n = cfg\<lparr>block_cache_size := n\<rparr>"

definition with_table_cache_size :: "config \<Rightarrow> nat \<Rightarrow> config" where
  "with_table_cache_size cfg n = cfg\<lparr>table_cache_size := n\<rparr>"

definition with_wal_io_type :: "config \<Rightarrow> io_type \<Rightarrow> config" where
  "with_wal_io_type cfg ty = cfg\<lparr>wal_io_type := ty\<rparr>"

definition with_ver_log_snapshot_threshold :: "config \<Rightarrow> nat \<Rightarrow> config" where
  "with_ver_log_snapshot_threshold cfg n = cfg\<lparr>ver_log_snapshot_threshold := n\<rparr>"

section \<open>Triggers\<close>

text \<open>\<open>key_value_bytes_len\<close> of \<open>mem_table.rs\<close>.\<close>

definition key_value_bytes_len :: "key_value \<Rightarrow> nat" where
  "key_value_bytes_len kv = length (fst kv) + (case snd kv of None \<Rightarrow> 0 | Some v \<Rightarrow> length v)"

text \<open>The trait objects \<open>CountTrigger\<close> and \<open>SizeOfMemTrigger\<close>: current amount and threshold.\<close>

datatype trigger = CountTrigger nat nat | SizeOfMemTrigger nat nat

fun trigger_create :: "trigger_type \<Rightarrow> nat \<Rightarrow> trigger" where
  "trigger_create Count threshold = CountTrigger 0 threshold"
| "trigger_create SizeOfMem threshold = SizeOfMemTrigger 0 threshold"

fun item_process :: "trigger \<Rightarrow> key_value \<Rightarrow> trigger" where
  "item_process (CountTrigger n t) kv = CountTrigger (n + 1) t"
| "item_process (SizeOfMemTrigger n t) kv = SizeOfMemTrigger (n + key_value_bytes_len kv) t"

fun is_exceeded :: "trigger \<Rightarrow> bool" where
  "is_exceeded (CountTrigger n t) \<longleftrightarrow> n \<ge> t"
| "is_exceeded (SizeOfMemTrigger n t) \<longleftrightarrow> n \<ge> t"

fun trigger_reset :: "trigger \<Rightarrow> trigger" where
  "trigger_reset (CountTrigger n t) = CountTrigger 0 t"
| "trigger_reset (SizeOfMemTrigger n t) = SizeOfMemTrigger 0 t"

text \<open>A trigger that has seen the items \<open>kvs\<close> since its last reset fires exactly when their number,
  respectively their size in bytes, reaches the threshold.\<close>

fun trigger_load :: "trigger_type \<Rightarrow> key_value list \<Rightarrow> nat" where
  "trigger_load Count kvs = length kvs"
| "trigger_load SizeOfMem kvs = sum_list (map key_value_bytes_len kvs)"

lemma fold_item_process:
  "fold (\<lambda>kv t. item_process t kv) kvs (CountTrigger n t) = CountTrigger (n + length kvs) t"
  "fold (\<lambda>kv t. item_process t kv) kvs (SizeOfMemTrigger n t) =
   SizeOfMemTrigger (n + sum_list (map key_value_bytes_len kvs)) t"
  by (induction kvs arbitrary: n) (simp_all add: add.assoc)

lemma trigger_exceeded_iff:
  "is_exceeded (fold (\<lambda>kv t. item_process t kv) kvs (trigger_create ty threshold)) \<longleftrightarrow>
   threshold \<le> trigger_load ty kvs"
  by (cases ty) (simp_all add: fold_item_process)

lemma trigger_reset_fold:
  "trigger_reset (fold (\<lambda>kv t. item_process t kv) kvs (trigger_create ty threshold)) =
   trigger_create ty threshold"
  by (cases ty) (simp_all add: fold_item_process)

end
