(* ===== verification/Block_Builder.thy ===== *)
theory Block_Builder
  imports Block Kip_Config
begin

text \<open>
  The block builder of \<open>src/src/kernel/lsm/table/ss_table/block.rs\<close>: \<open>BlockOptions\<close>, \<open>BlockBuf\<close> and
  \<open>BlockBuilder\<close>. Sorted pairs are cut into data blocks of about \<open>block_size\<close> bytes; the index block
  maps the last key of every data block to its place in the output.
\<close>

section \<open>Model\<close>

record block_options =
  bo_block_size :: nat
  bo_compress_type :: compress_type
  bo_data_restart_interval :: nat
  bo_index_restart_interval :: nat

definition block_options_from :: "config \<Rightarrow> block_options" where
  "block_options_from cfg =
     \<lparr>bo_block_size = block_size cfg, bo_compress_type = No_Compression,
      bo_data_restart_interval = data_restart_interval cfg,
      bo_index_restart_interval = index_restart_interval cfg\<rparr>"

definition block_options_new :: block_options where
  "block_options_new =
     \<lparr>bo_block_size = DEFAULT_BLOCK_SIZE, bo_compress_type = No_Compression,
      bo_data_restart_interval = DEFAULT_DATA_RESTART_INTERVAL,
      bo_index_restart_interval = DEFAULT_INDEX_RESTART_INTERVAL\<rparr>"

record block_buf =
  bytes_size :: nat
  vec_key_value :: "(bytes \<times> block_value) list"

definition block_buf_new :: block_buf where
  "block_buf_new = \<lparr>bytes_size = 0, vec_key_value = []\<rparr>"

definition block_kv_bytes_len :: "bytes \<times> block_value \<Rightarrow> nat" where
  "block_kv_bytes_len kv =
     length (fst kv) + (case value_bytes (snd kv) of None \<Rightarrow> 0 | Some v \<Rightarrow> length v)"

definition buf_last_key :: "block_buf \<Rightarrow> bytes option" where
  "buf_last_key b = (if vec_key_value b = [] then None else Some (fst (last (vec_key_value b))))"

definition block_buf_add :: "block_buf \<Rightarrow> bytes \<times> block_value \<Rightarrow> block_buf outcome" where
  "block_buf_add b kv =
     (if (case buf_last_key b of Some k \<Rightarrow> cmp k (fst kv) = Less | None \<Rightarrow> True)
      then Ok \<lparr>bytes_size = bytes_size b + block_kv_bytes_len kv, vec_key_value = vec_key_value b @ [kv]\<rparr>
      else Panic)"

definition block_buf_flush ::
  "block_buf \<Rightarrow> (bytes \<times> block_value) list \<times> bytes option \<times> block_buf" where
  "block_buf_flush b = (vec_key_value b, buf_last_key b, \<lparr>bytes_size = 0, vec_key_value = []\<rparr>)"

record block_builder =
  bb_options :: block_options
  bb_len :: nat
  bb_buf :: block_buf
  bb_vec_block :: "(block_value block \<times> bytes) list"

definition builder_new :: "block_options \<Rightarrow> block_builder" where
  "builder_new opts = \<lparr>bb_options = opts, bb_len = 0, bb_buf = block_buf_new, bb_vec_block = []\<rparr>"

definition is_out_of_byte :: "block_builder \<Rightarrow> bool" where
  "is_out_of_byte bb \<longleftrightarrow> bytes_size (bb_buf bb) \<ge> bo_block_size (bb_options bb)"

definition builder_build_block :: "block_builder \<Rightarrow> block_builder outcome" where
  "builder_build_block bb =
     (case block_buf_flush (bb_buf bb) of
        (vec_kv, Some last_key, buf) \<Rightarrow>
          and_then (block_new vec_kv (bo_data_restart_interval (bb_options bb))) (\<lambda>b.
            Ok (bb\<lparr>bb_buf := buf, bb_vec_block := bb_vec_block bb @ [(b, last_key)]\<rparr>))
      | (_, None, buf) \<Rightarrow> Ok (bb\<lparr>bb_buf := buf\<rparr>))"

definition builder_add :: "block_builder \<Rightarrow> bytes \<times> block_value \<Rightarrow> block_builder outcome" where
  "builder_add bb kv =
     and_then (block_buf_add (bb_buf bb) kv) (\<lambda>buf.
       let bb1 = bb\<lparr>bb_buf := buf, bb_len := bb_len bb + 1\<rparr>
       in if is_out_of_byte bb1 then builder_build_block bb1 else Ok bb1)"

text \<open>The loop of \<open>build\<close>. The offset is a \<open>u32\<close>; its addition panics on overflow.\<close>

fun build_loop ::
  "crates \<Rightarrow> compress_type \<Rightarrow> (block_value block \<times> bytes) list \<Rightarrow> bytes \<Rightarrow> 32 word \<Rightarrow>
   (bytes \<times> block_index) list \<Rightarrow> (bytes \<times> (bytes \<times> block_index) list) outcome" where
  "build_loop c ct [] blocks_bytes offset indexes = Ok (blocks_bytes, indexes)"
| "build_loop c ct ((b, last_key) # rest) blocks_bytes offset indexes =
     (let blocks_bytes' = block_encode c value_item b ct blocks_bytes in
      and_then (checked_sub (length blocks_bytes') (unat offset)) (\<lambda>len.
        let indexes' = indexes @ [(last_key, \<lparr>index_offset = offset, index_len = len\<rparr>)]
        in if unat offset + unat (word_of_nat len :: 32 word) < 2 ^ 32
           then build_loop c ct rest blocks_bytes' (offset + word_of_nat len) indexes'
           else Panic))"

definition builder_build :: "crates \<Rightarrow> block_builder \<Rightarrow> (bytes \<times> nat \<times> nat) outcome" where
  "builder_build c bb =
     and_then (builder_build_block bb) (\<lambda>bb1.
     and_then (build_loop c (bo_compress_type (bb_options bb1)) (bb_vec_block bb1) [] 0 []) (\<lambda>(data, indexes).
     and_then (block_new indexes (bo_index_restart_interval (bb_options bb1))) (\<lambda>ib.
       let all_bytes = block_encode c index_item ib No_Compression data
       in Ok (all_bytes, length data, length all_bytes - length data))))"

section \<open>The builder partitions its input\<close>

text \<open>The blocks built so far are the blocks of the chunks \<open>chunks\<close>, each tagged with its last key.\<close>

definition blocks_of ::
  "nat \<Rightarrow> (bytes \<times> block_value) list list \<Rightarrow> (block_value block \<times> bytes) list \<Rightarrow> bool" where
  "blocks_of r chunks blocks \<longleftrightarrow>
     list_all2 (\<lambda>ch (b, k). ch \<noteq> [] \<and> block_new ch r = Ok b \<and> k = fst (last ch)) chunks blocks"

definition builder_rep ::
  "block_builder \<Rightarrow> (bytes \<times> block_value) list \<Rightarrow> (bytes \<times> block_value) list list \<Rightarrow> bool" where
  "builder_rep bb kvs chunks \<longleftrightarrow> bo_data_restart_interval (bb_options bb) > 0 \<and>
     blocks_of (bo_data_restart_interval (bb_options bb)) chunks (bb_vec_block bb) \<and>
     concat chunks @ vec_key_value (bb_buf bb) = kvs \<and> bb_len bb = length kvs"

lemma builder_new_rep: "bo_data_restart_interval opts > 0 \<Longrightarrow> builder_rep (builder_new opts) [] []"
  by (simp add: builder_rep_def builder_new_def block_buf_new_def blocks_of_def)

lemma builder_build_block_rep:
  assumes "builder_rep bb kvs chunks"
  shows "\<exists>bb' chunks'. builder_build_block bb = Ok bb' \<and> builder_rep bb' kvs chunks' \<and>
    bb_options bb' = bb_options bb \<and> vec_key_value (bb_buf bb') = []"
proof (cases "vec_key_value (bb_buf bb) = []")
  case True
  then show ?thesis using assms
    by (auto simp: builder_build_block_def block_buf_flush_def buf_last_key_def builder_rep_def)
next
  case False
  let ?ch = "vec_key_value (bb_buf bb)" and ?r = "bo_data_restart_interval (bb_options bb)"
  have "?r > 0" using assms by (simp add: builder_rep_def)
  then obtain b where b: "block_new ?ch ?r = Ok b" using block_new_Ok by blast
  let ?bb = "bb\<lparr>bb_buf := \<lparr>bytes_size = 0, vec_key_value = []\<rparr>,
    bb_vec_block := bb_vec_block bb @ [(b, fst (last ?ch))]\<rparr>"
  have "builder_rep ?bb kvs (chunks @ [?ch])"
    using assms False b by (simp add: builder_rep_def blocks_of_def list_all2_appendI)
  moreover have "builder_build_block bb = Ok ?bb"
    using False b by (simp add: builder_build_block_def block_buf_flush_def buf_last_key_def)
  ultimately show ?thesis by fastforce
qed

lemma builder_add_rep:
  assumes "builder_rep bb kvs chunks" "keys_ascending (kvs @ [kv])"
  shows "\<exists>bb' chunks'. builder_add bb kv = Ok bb' \<and> builder_rep bb' (kvs @ [kv]) chunks' \<and>
    bb_options bb' = bb_options bb"
proof -
  let ?buf = "bb_buf bb"
  have "fst (last (vec_key_value ?buf)) < fst kv" if "vec_key_value ?buf \<noteq> []"
  proof -
    have "last (vec_key_value ?buf) \<in> set kvs" using assms(1) that by (auto simp: builder_rep_def)
    then show ?thesis using assms(2) by (auto simp: sorted_wrt_append)
  qed
  then have "block_buf_add ?buf kv =
      Ok \<lparr>bytes_size = bytes_size ?buf + block_kv_bytes_len kv, vec_key_value = vec_key_value ?buf @ [kv]\<rparr>"
    by (cases "vec_key_value ?buf = []") (simp_all add: block_buf_add_def buf_last_key_def)
  then obtain buf' where buf': "block_buf_add ?buf kv = Ok buf'"
      "vec_key_value buf' = vec_key_value ?buf @ [kv]"
    by simp
  let ?bb1 = "bb\<lparr>bb_buf := buf', bb_len := bb_len bb + 1\<rparr>"
  have rep1: "builder_rep ?bb1 (kvs @ [kv]) chunks"
    using assms(1) buf'(2) by (auto simp: builder_rep_def)
  then show ?thesis
    using builder_build_block_rep [OF rep1] buf'(1)
    by (cases "is_out_of_byte ?bb1") (auto simp: builder_add_def Let_def)
qed

lemma blocks_of_nth:
  assumes "blocks_of r chunks blocks" "i < length chunks"
  shows "i < length blocks" "chunks ! i \<noteq> []" "block_new (chunks ! i) r = Ok (fst (blocks ! i))"
    "snd (blocks ! i) = fst (last (chunks ! i))"
  using assms by (auto simp: blocks_of_def list_all2_conv_all_nth case_prod_unfold)

section \<open>Placement of the blocks\<close>

fun place :: "nat \<Rightarrow> (bytes \<times> bytes) list \<Rightarrow> (bytes \<times> block_index) list" where
  "place off [] = []"
| "place off ((enc, k) # rest) =
     (k, \<lparr>index_offset = word_of_nat off, index_len = length enc\<rparr>) # place (off + length enc) rest"

definition encode_blocks ::
  "crates \<Rightarrow> compress_type \<Rightarrow> (block_value block \<times> bytes) list \<Rightarrow> (bytes \<times> bytes) list" where
  "encode_blocks c ct blocks = map (\<lambda>(b, k). (block_encode c value_item b ct [], k)) blocks"

lemma length_place [simp]: "length (place off encs) = length encs"
  by (induction off encs rule: place.induct) auto

lemma map_fst_place: "map fst (place off encs) = map snd encs"
  by (induction off encs rule: place.induct) auto

lemma build_loop_place:
  assumes "length out + length (concat (map fst (encode_blocks c ct blocks))) < 2 ^ 32"
  shows "build_loop c ct blocks out (word_of_nat (length out)) idx =
    Ok (out @ concat (map fst (encode_blocks c ct blocks)),
        idx @ place (length out) (encode_blocks c ct blocks))"
  using assms
proof (induction blocks arbitrary: out idx)
  case (Cons bk blocks)
  obtain b k where bk: "bk = (b, k)" by force
  let ?e = "block_encode c value_item b ct []"
  have lt: "length out + length ?e < 2 ^ 32"
    "length (out @ ?e) + length (concat (map fst (encode_blocks c ct blocks))) < 2 ^ 32"
    using Cons.prems by (simp_all add: bk encode_blocks_def)
  have u: "unat (word_of_nat (length out) :: 32 word) = length out"
    "unat (word_of_nat (length ?e) :: 32 word) = length ?e"
    using lt(1) by (auto intro!: unat_word_of_nat)
  have enc: "block_encode c value_item b ct out = out @ ?e" by (rule block_encode_append)
  have "word_of_nat (length out) + word_of_nat (length ?e) = (word_of_nat (length (out @ ?e)) :: 32 word)"
    by simp
  then show ?case using Cons.IH [OF lt(2)] u lt(1)
    by (simp add: bk enc encode_blocks_def checked_sub_def Let_def)
qed (simp add: encode_blocks_def)

lemma place_nth:
  assumes "i < length encs" "length pre + length (concat (map fst encs)) < 2 ^ 32"
    "idx = snd (place (length pre) encs ! i)"
  shows "unat (index_offset idx) + index_len idx \<le> length pre + length (concat (map fst encs)) \<and>
    take (index_len idx) (drop (unat (index_offset idx)) (pre @ concat (map fst encs) @ rest)) =
    fst (encs ! i)"
  using assms
proof (induction encs arbitrary: pre i)
  case (Cons ek encs)
  obtain e k where ek: "ek = (e, k)" by force
  show ?case
  proof (cases i)
    case 0
    have "unat (word_of_nat (length pre) :: 32 word) = length pre"
      using Cons.prems(2) by (intro unat_word_of_nat) simp
    then show ?thesis using Cons.prems 0 by (simp add: ek)
  next
    case (Suc j)
    have all: "pre @ concat (map fst (ek # encs)) @ rest = (pre @ e) @ concat (map fst encs) @ rest"
      by (simp add: ek)
    have len: "length pre + length (concat (map fst (ek # encs))) =
        length (pre @ e) + length (concat (map fst encs))"
      by (simp add: ek)
    have "place (length pre) (ek # encs) ! i = place (length (pre @ e)) encs ! j"
      using Suc by (simp add: ek)
    then have idx: "idx = snd (place (length (pre @ e)) encs ! j)" using Cons.prems(3) by simp
    have j: "j < length encs" "(ek # encs) ! i = encs ! j" using Cons.prems(1) Suc by simp_all
    show ?thesis unfolding all len j(2)
      by (rule Cons.IH [OF j(1) Cons.prems(2) [unfolded len] idx])
  qed
qed simp

section \<open>The right chunk\<close>

text \<open>The first chunk whose last key is not below the search key is the only one that can hold it.\<close>

lemma keys_ascending_chunk: "keys_ascending (concat chunks) \<Longrightarrow> ch \<in> set chunks \<Longrightarrow> keys_ascending ch"
  by (induction chunks) (auto simp: sorted_wrt_append)

lemma last_keys_ascending:
  "keys_ascending (concat chunks) \<Longrightarrow> \<forall>ch\<in>set chunks. ch \<noteq> [] \<Longrightarrow> ascending (map (\<lambda>ch. fst (last ch)) chunks)"
proof (induction chunks)
  case (Cons ch chunks)
  have "last ch \<in> set ch" "\<forall>d\<in>set chunks. last d \<in> set (concat chunks)" using Cons.prems(2) last_in_set by fastforce+
  then have "fst (last ch) < fst (last d)" if "d \<in> set chunks" for d
    using Cons.prems(1) that by (force simp: sorted_wrt_append)
  then show ?case using Cons by (simp add: sorted_wrt_append)
qed simp

lemma chunks_before:
  assumes asc: "keys_ascending (concat chunks)" and ne: "\<forall>ch\<in>set chunks. ch \<noteq> []"
    and n: "n \<le> length (takeWhile (\<lambda>ch. fst (last ch) < key) chunks)"
    and kv: "(k, v) \<in> set (concat (take n chunks))"
  shows "k < key"
proof -
  let ?p = "\<lambda>ch. fst (last ch) < key" and ?m = "length (takeWhile (\<lambda>ch. fst (last ch) < key) chunks)"
  obtain ch where ch: "ch \<in> set (take n chunks)" "(k, v) \<in> set ch" using kv by auto
  have "take n chunks = take n (take ?m chunks)" using n by (simp add: min_absorb1)
  also have "take ?m chunks = takeWhile ?p chunks" by (rule takeWhile_eq_take [symmetric])
  finally have "take n chunks = take n (takeWhile ?p chunks)" .
  then have "fst (last ch) < key" using ch(1) by (metis in_set_takeD set_takeWhileD)
  moreover have "ch \<in> set chunks" using ch(1) by (rule in_set_takeD)
  then have "ch \<noteq> []" "keys_ascending ch" using ne asc keys_ascending_chunk by auto
  then have "k \<le> fst (last ch)" using ch(2)
    by (cases ch rule: rev_cases) (auto simp: sorted_wrt_append)
  ultimately show ?thesis by simp
qed

lemma chunk_of_key:
  assumes asc: "keys_ascending (concat chunks)" and ne: "\<forall>ch\<in>set chunks. ch \<noteq> []" "chunks \<noteq> []"
    and n: "n = min (length chunks - 1) (length (takeWhile (\<lambda>ch. fst (last ch) < key) chunks))"
  shows "map_of (chunks ! n) key = map_of (concat chunks) key"
proof -
  let ?p = "\<lambda>ch. fst (last ch) < key" and ?m = "length (takeWhile (\<lambda>ch. fst (last ch) < key) chunks)"
  have nlt: "n < length chunks" using n ne(2) by (cases chunks) auto
  have split: "concat chunks = concat (take n chunks) @ chunks ! n @ concat (drop (Suc n) chunks)"
    using nlt by (metis concat.simps(2) concat_append id_take_nth_drop)
  have before: "k < key" if "(k, v) \<in> set (concat (take n chunks))" for k v
    using chunks_before [OF asc ne(1) _ that, of key] n by simp
  have after: "key < k" if "(k, v) \<in> set (concat (drop (Suc n) chunks))" for k v
  proof -
    have "drop (Suc n) chunks \<noteq> []" using that by auto
    then have "?m < length chunks" "n = ?m" using n by auto
    then have "key \<le> fst (last (chunks ! n))"
      using nth_length_takeWhile [of ?p chunks] by simp
    moreover have "fst (last (chunks ! n)) < k"
    proof -
      have "last (chunks ! n) \<in> set (chunks ! n)" using ne(1) nlt by simp
      then show ?thesis using asc that unfolding split by (force simp: sorted_wrt_append)
    qed
    ultimately show ?thesis by simp
  qed
  have "map_of (concat (take n chunks)) key = None" "map_of (concat (drop (Suc n) chunks)) key = None"
    using before after by (force simp: map_of_eq_None_iff)+
  then show ?thesis unfolding split by (simp add: map_add_def split: option.splits)
qed

end
