(* ===== verification/Bloom_Filter.thy ===== *)
theory Bloom_Filter
  imports Crates
begin

unbundle bit_operations_syntax

text \<open>
  The Bloom filter of \<open>src/src/kernel/utils/bloom_filter.rs\<close>: bit vector, seeded hashers, insertion,
  membership and the raw encoding stored in the meta block of a table.

  The standard hasher behind \<open>FixedHasher::write\<close> and the sequence of \<open>write\<close> calls that
  \<open>Hash for [u8]\<close> makes are the parameter \<open>hashing\<close>: their algorithm is not specified, and nothing
  is assumed of them. The bit count and the number of hash functions, which the code derives from
  the error rate in floating point, are arguments of \<open>bloom_new\<close>, as are the two random seeds. An
  \<open>i8\<close> bit group is the word of its bits.
\<close>

section \<open>Bit vectors\<close>

record bit_vector =
  bv_len :: "64 word"
  bit_groups :: "8 word list"

definition bit_vector_new :: "nat \<Rightarrow> bit_vector" where
  "bit_vector_new len = \<lparr>bv_len = word_of_nat len, bit_groups = replicate ((len + 7) div 8) 0\<rparr>"

definition set_bit :: "bit_vector \<Rightarrow> nat \<Rightarrow> bool \<Rightarrow> bit_vector outcome" where
  "set_bit bv i b =
     (let byte_index = i div 8; bit_index = i mod 8 in
      and_then (index_slice (bit_groups bv) byte_index) (\<lambda>g.
        Ok (bv\<lparr>bit_groups := (bit_groups bv)[byte_index :=
              if b then g OR push_bit bit_index 1 else g AND NOT (push_bit bit_index 1)]\<rparr>)))"

definition get_bit :: "bit_vector \<Rightarrow> nat \<Rightarrow> bool outcome" where
  "get_bit bv i =
     and_then (index_slice (bit_groups bv) (i div 8)) (\<lambda>g.
       Ok (signed_drop_bit (i mod 8) g AND 1 \<noteq> 0))"

definition bv_length :: "bit_vector \<Rightarrow> nat" where
  "bv_length bv = unat (bv_len bv)"

definition bv_is_empty :: "bit_vector \<Rightarrow> bool" where
  "bv_is_empty bv \<longleftrightarrow> bv_len bv = 0"

definition bv_to_raw :: "crates \<Rightarrow> bit_vector \<Rightarrow> bytes \<Rightarrow> bytes" where
  "bv_to_raw c bv out = out @ encode_fixed64 c (bv_len bv) @ concat (map (encode_fixed8 c) (bit_groups bv))"

text \<open>\<open>&bytes[a..b]\<close>\<close>

definition slice_range :: "bytes \<Rightarrow> nat \<Rightarrow> nat \<Rightarrow> bytes outcome" where
  "slice_range bs a b = and_then (slice_to bs b) (\<lambda>xs. slice_from xs a)"

definition bv_from_raw :: "crates \<Rightarrow> bytes \<Rightarrow> bit_vector outcome" where
  "bv_from_raw c bs =
     and_then (slice_range bs 0 8) (\<lambda>l.
     and_then (slice_from bs 8) (\<lambda>gs.
     Ok \<lparr>bv_len = decode_fixed64 c l, bit_groups = map (\<lambda>b. decode_fixed8 c [b]) gs\<rparr>))"

section \<open>Hashers\<close>

record hashing =
  default_hash :: "64 word \<Rightarrow> bytes \<Rightarrow> 64 word"
  slice_writes :: "bytes \<Rightarrow> bytes list"

record fixed_hasher =
  seed :: "64 word"

definition hasher_write :: "hashing \<Rightarrow> fixed_hasher \<Rightarrow> bytes \<Rightarrow> fixed_hasher" where
  "hasher_write hs fh bs = fh\<lparr>seed := default_hash hs (seed fh) bs\<rparr>"

definition hasher_finish :: "fixed_hasher \<Rightarrow> 64 word" where
  "hasher_finish fh = seed fh"

definition hasher_to_raw :: "crates \<Rightarrow> fixed_hasher \<Rightarrow> bytes \<Rightarrow> bytes" where
  "hasher_to_raw c fh out = out @ encode_fixed64 c (seed fh)"

definition hasher_from_raw :: "crates \<Rightarrow> bytes \<Rightarrow> fixed_hasher" where
  "hasher_from_raw c bs = \<lparr>seed = decode_fixed64 c bs\<rparr>"

section \<open>The filter\<close>

record bloom_filter =
  bits :: bit_vector
  hash_fn_count :: "64 word"
  hashers :: "fixed_hasher \<times> fixed_hasher"

definition bloom_new :: "nat \<Rightarrow> 64 word \<Rightarrow> 64 word \<Rightarrow> 64 word \<Rightarrow> bloom_filter" where
  "bloom_new bits_count fn_count seed1 seed2 =
     \<lparr>bits = bit_vector_new bits_count, hash_fn_count = fn_count,
      hashers = (\<lparr>seed = seed1\<rparr>, \<lparr>seed = seed2\<rparr>)\<rparr>"

definition make_hash :: "hashing \<Rightarrow> bloom_filter \<Rightarrow> bytes \<Rightarrow> 64 word \<times> 64 word" where
  "make_hash hs f elem =
     (hasher_finish (fold (\<lambda>w fh. hasher_write hs fh w) (slice_writes hs elem) (fst (hashers f))),
      hasher_finish (fold (\<lambda>w fh. hasher_write hs fh w) (slice_writes hs elem) (snd (hashers f))))"

definition get_index :: "bloom_filter \<Rightarrow> 64 word \<times> 64 word \<Rightarrow> 64 word \<Rightarrow> nat outcome" where
  "get_index f = (\<lambda>(h1, h2) fn_i.
     if bv_length (bits f) = 0 then Panic
     else Ok (unat ((h1 + fn_i * h2) mod word_of_nat (bv_length (bits f)))))"

definition fn_indices :: "bloom_filter \<Rightarrow> 64 word list" where
  "fn_indices f = map word_of_nat [0..<unat (hash_fn_count f)]"

fun insert_loop :: "64 word list \<Rightarrow> 64 word \<times> 64 word \<Rightarrow> bloom_filter \<Rightarrow> bloom_filter outcome" where
  "insert_loop [] hashes f = Ok f"
| "insert_loop (fn_i # is) hashes f =
     and_then (get_index f hashes fn_i) (\<lambda>i.
     and_then (set_bit (bits f) i True) (\<lambda>bv.
     insert_loop is hashes (f\<lparr>bits := bv\<rparr>)))"

definition bloom_insert :: "hashing \<Rightarrow> bloom_filter \<Rightarrow> bytes \<Rightarrow> bloom_filter outcome" where
  "bloom_insert hs f elem = insert_loop (fn_indices f) (make_hash hs f elem) f"

fun contains_loop :: "64 word list \<Rightarrow> 64 word \<times> 64 word \<Rightarrow> bloom_filter \<Rightarrow> bool outcome" where
  "contains_loop [] hashes f = Ok True"
| "contains_loop (fn_i # is) hashes f =
     and_then (get_index f hashes fn_i) (\<lambda>i.
     and_then (get_bit (bits f) i) (\<lambda>b.
     if b then contains_loop is hashes f else Ok False))"

definition bloom_contains :: "hashing \<Rightarrow> bloom_filter \<Rightarrow> bytes \<Rightarrow> bool outcome" where
  "bloom_contains hs f elem = contains_loop (fn_indices f) (make_hash hs f elem) f"

definition bloom_to_raw :: "crates \<Rightarrow> bloom_filter \<Rightarrow> bytes \<Rightarrow> bytes" where
  "bloom_to_raw c f out =
     bv_to_raw c (bits f)
       (hasher_to_raw c (snd (hashers f))
         (hasher_to_raw c (fst (hashers f)) (out @ encode_fixed64 c (hash_fn_count f))))"

definition bloom_from_raw :: "crates \<Rightarrow> bytes \<Rightarrow> bloom_filter outcome" where
  "bloom_from_raw c bs =
     and_then (slice_range bs 0 8) (\<lambda>b0.
     and_then (slice_range bs 8 16) (\<lambda>b1.
     and_then (slice_range bs 16 24) (\<lambda>b2.
     and_then (slice_from bs 24) (\<lambda>b3.
     and_then (bv_from_raw c b3) (\<lambda>bv.
     Ok \<lparr>bits = bv, hash_fn_count = decode_fixed64 c b0,
         hashers = (hasher_from_raw c b1, hasher_from_raw c b2)\<rparr>)))))"

section \<open>Well-formed filters and their bits\<close>

definition bv_wf :: "bit_vector \<Rightarrow> bool" where
  "bv_wf bv \<longleftrightarrow> bv_length bv \<le> 8 * length (bit_groups bv)"

definition bv_bit :: "bit_vector \<Rightarrow> nat \<Rightarrow> bool" where
  "bv_bit bv i \<longleftrightarrow> bit (bit_groups bv ! (i div 8)) (i mod 8)"

lemma bit_vector_new_wf: "len < 2 ^ 64 \<Longrightarrow> bv_wf (bit_vector_new len) \<and> bv_length (bit_vector_new len) = len"
  by (simp add: bv_wf_def bv_length_def bit_vector_new_def unat_of_nat)

lemma group_index: "bv_wf bv \<Longrightarrow> i < bv_length bv \<Longrightarrow> i div 8 < length (bit_groups bv)"
  by (simp add: bv_wf_def less_mult_imp_div_less mult.commute)

lemma get_bit_bv_bit:
  assumes "bv_wf bv" "i < bv_length bv"
  shows "get_bit bv i = Ok (bv_bit bv i)"
proof -
  have "(w AND 1 \<noteq> 0) = bit w 0" for w :: "8 word" by (simp add: and_one_eq mod2_eq_if bit_0)
  moreover have "bit (signed_drop_bit n g) 0 = bit g n" if "n < 8" for g :: "8 word" and n
    using that by (simp add: bit_signed_drop_bit_iff)
  ultimately have "(signed_drop_bit (i mod 8) g AND 1 \<noteq> 0) = bit g (i mod 8)" for g :: "8 word"
    by simp
  then show ?thesis using group_index [OF assms]
    by (simp add: get_bit_def index_slice_def bv_bit_def)
qed

lemma set_bit_bv_bit:
  assumes "bv_wf bv" "i < bv_length bv"
  shows "\<exists>bv'. set_bit bv i b = Ok bv' \<and> bv_len bv' = bv_len bv \<and> bv_wf bv' \<and>
    (\<forall>j. j < bv_length bv \<longrightarrow> bv_bit bv' j = (if j = i then b else bv_bit bv j))"
proof -
  let ?g = "bit_groups bv ! (i div 8)"
  let ?g' = "if b then ?g OR push_bit (i mod 8) 1 else ?g AND NOT (push_bit (i mod 8) 1)"
  let ?bv = "bv\<lparr>bit_groups := (bit_groups bv)[i div 8 := ?g']\<rparr>"
  note lt = group_index [OF assms]
  have bit: "bit ?g' n = (if n = i mod 8 then b else bit ?g n)" if "n < 8" for n
    using that by (auto simp: bit_simps)
  have "bv_bit ?bv j = (if j = i then b else bv_bit bv j)" if "j < bv_length bv" for j
  proof (cases "j div 8 = i div 8")
    case True
    then have "j = i \<longleftrightarrow> j mod 8 = i mod 8" by (metis mult_div_mod_eq)
    then show ?thesis using True lt bit [of "j mod 8"] by (simp add: bv_bit_def)
  next
    case False
    then show ?thesis by (auto simp: bv_bit_def)
  qed
  moreover have "set_bit bv i b = Ok ?bv" using lt by (simp add: set_bit_def index_slice_def Let_def)
  moreover have "bv_len ?bv = bv_len bv" "bv_wf ?bv" using assms by (simp_all add: bv_wf_def bv_length_def)
  ultimately show ?thesis by blast
qed

definition bloom_wf :: "bloom_filter \<Rightarrow> bool" where
  "bloom_wf f \<longleftrightarrow> bv_wf (bits f) \<and> bv_length (bits f) > 0"

lemma get_index_Ok:
  assumes "bloom_wf f"
  shows "\<exists>i. get_index f h n = Ok i \<and> i < bv_length (bits f)"
proof -
  have "word_of_nat (bv_length (bits f)) = bv_len (bits f)" by (simp add: bv_length_def)
  moreover have "0 < unat (bv_len (bits f))" using assms by (simp add: bloom_wf_def bv_length_def)
  ultimately show ?thesis using assms
    by (cases h) (simp add: get_index_def bv_length_def unat_mod mod_less_divisor)
qed

lemma get_index_cong: "bv_len (bits f') = bv_len (bits f) \<Longrightarrow> get_index f' = get_index f"
  by (simp add: get_index_def bv_length_def fun_eq_iff)
lemma insert_loop_sets:
  assumes "bloom_wf f"
  shows "\<exists>f'. insert_loop ns h f = Ok f' \<and> bloom_wf f' \<and> bv_len (bits f') = bv_len (bits f) \<and>
    hash_fn_count f' = hash_fn_count f \<and> hashers f' = hashers f \<and>
    (\<forall>j < bv_length (bits f). bv_bit (bits f') j \<longleftrightarrow>
       bv_bit (bits f) j \<or> (\<exists>n\<in>set ns. get_index f h n = Ok j))"
  using assms
proof (induction ns arbitrary: f)
  case (Cons n ns)
  obtain i where i: "get_index f h n = Ok i" "i < bv_length (bits f)"
    using get_index_Ok [OF Cons.prems] by blast
  have wf: "bv_wf (bits f)" using Cons.prems by (simp add: bloom_wf_def)
  obtain bv where bv: "set_bit (bits f) i True = Ok bv" "bv_len bv = bv_len (bits f)" "bv_wf bv"
      "\<forall>j < bv_length (bits f). bv_bit bv j = (if j = i then True else bv_bit (bits f) j)"
    using set_bit_bv_bit [OF wf i(2), of True] by auto
  let ?f = "f\<lparr>bits := bv\<rparr>"
  have wf': "bloom_wf ?f" using bv Cons.prems by (simp add: bloom_wf_def bv_length_def)
  have gi: "get_index ?f = get_index f" by (rule get_index_cong) (simp add: bv(2))
  have len: "bv_length (bits ?f) = bv_length (bits f)" using bv(2) by (simp add: bv_length_def)
  have sel: "bits ?f = bv" "hash_fn_count ?f = hash_fn_count f" "hashers ?f = hashers f" by simp_all
  obtain f' where f': "insert_loop ns h ?f = Ok f'" "bloom_wf f'" "bv_len (bits f') = bv_len (bits f)"
      "hash_fn_count f' = hash_fn_count f" "hashers f' = hashers f"
      "\<forall>j < bv_length (bits f). bv_bit (bits f') j \<longleftrightarrow>
         bv_bit bv j \<or> (\<exists>n\<in>set ns. get_index f h n = Ok j)"
    using Cons.IH [OF wf', unfolded gi len, unfolded sel, unfolded bv(2)] by blast
  have "bv_bit (bits f') j \<longleftrightarrow> bv_bit (bits f) j \<or> (\<exists>m\<in>set (n # ns). get_index f h m = Ok j)"
    if "j < bv_length (bits f)" for j
    using f'(6) [rule_format, OF that] bv(4) [rule_format, OF that] i(1) by auto
  then show ?case using f' i(1) bv(1) by auto
qed simp

lemma contains_loop_bits:
  assumes "bloom_wf f"
  shows "contains_loop ns h f =
    Ok (\<forall>n\<in>set ns. \<exists>j. get_index f h n = Ok j \<and> bv_bit (bits f) j)"
proof (induction ns)
  case (Cons n ns)
  obtain i where i: "get_index f h n = Ok i" "i < bv_length (bits f)"
    using get_index_Ok [OF assms] by blast
  have "get_bit (bits f) i = Ok (bv_bit (bits f) i)"
    using get_bit_bv_bit [OF _ i(2)] assms by (simp add: bloom_wf_def)
  then show ?case using Cons i by simp
qed simp

lemma bloom_insert_spec:
  assumes "bloom_wf f"
  shows "\<exists>f'. bloom_insert hs f x = Ok f' \<and> bloom_wf f' \<and> bloom_contains hs f' x = Ok True \<and>
    (\<forall>y. bloom_contains hs f y = Ok True \<longrightarrow> bloom_contains hs f' y = Ok True)"
proof -
  let ?h = "make_hash hs f x"
  obtain f' where f': "bloom_insert hs f x = Ok f'" "bloom_wf f'" "bv_len (bits f') = bv_len (bits f)"
      "hash_fn_count f' = hash_fn_count f" "hashers f' = hashers f"
      "\<forall>j < bv_length (bits f). bv_bit (bits f') j \<longleftrightarrow>
         bv_bit (bits f) j \<or> (\<exists>n\<in>set (fn_indices f). get_index f ?h n = Ok j)"
    using insert_loop_sets [OF assms] unfolding bloom_insert_def by blast
  have gi: "get_index f' = get_index f" using f'(3) by (rule get_index_cong)
  have fn: "fn_indices f' = fn_indices f" using f'(4) by (simp add: fn_indices_def)
  have mh: "make_hash hs f' = make_hash hs f" using f'(5) by (simp add: make_hash_def fun_eq_iff)
  have "bloom_contains hs f' x = Ok True"
    using get_index_Ok [OF assms, of ?h] f'(6)
    by (fastforce simp: bloom_contains_def contains_loop_bits [OF f'(2)] gi fn mh)
  moreover have "bloom_contains hs f' y = Ok True" if "bloom_contains hs f y = Ok True" for y
    using that get_index_Ok [OF assms, of "make_hash hs f y"] f'(6)
    by (fastforce simp: bloom_contains_def contains_loop_bits [OF f'(2)]
        contains_loop_bits [OF assms] gi fn mh)
  ultimately show ?thesis using f'(1,2) by blast
qed

text \<open>Inserting a whole list, as the construction of a table does.\<close>

fun bloom_insert_all :: "hashing \<Rightarrow> bloom_filter \<Rightarrow> bytes list \<Rightarrow> bloom_filter outcome" where
  "bloom_insert_all hs f [] = Ok f"
| "bloom_insert_all hs f (x # xs) = and_then (bloom_insert hs f x) (\<lambda>f'. bloom_insert_all hs f' xs)"

lemma bloom_insert_all_spec:
  assumes "bloom_wf f"
  shows "\<exists>f'. bloom_insert_all hs f xs = Ok f' \<and> bloom_wf f' \<and>
    (\<forall>x. x \<in> set xs \<or> bloom_contains hs f x = Ok True \<longrightarrow> bloom_contains hs f' x = Ok True)"
  using assms
proof (induction xs arbitrary: f)
  case (Cons x xs)
  obtain f1 where f1: "bloom_insert hs f x = Ok f1" "bloom_wf f1" "bloom_contains hs f1 x = Ok True"
      "\<forall>y. bloom_contains hs f y = Ok True \<longrightarrow> bloom_contains hs f1 y = Ok True"
    using bloom_insert_spec [OF Cons.prems] by blast
  then show ?case using Cons.IH [OF f1(2)] by auto
qed simp

lemma bloom_new_wf: "0 < n \<Longrightarrow> n < 2 ^ 64 \<Longrightarrow> bloom_wf (bloom_new n k s1 s2)"
  using bit_vector_new_wf [of n] by (simp add: bloom_wf_def bloom_new_def)

section \<open>Raw encoding\<close>

lemma slice_range_append:
  "length xs = a \<Longrightarrow> length ys = n \<Longrightarrow> slice_range (xs @ ys @ zs) a (a + n) = Ok ys"
  by (simp add: slice_range_def slice_to_def slice_from_def)

context int_encoding
begin

lemma concat_fixed8_length: "length (concat (map (encode_fixed8 c) gs)) = length gs"
  by (induction gs) auto

lemma decode_encode_fixed8:
  "map (\<lambda>b. decode_fixed8 c [b]) (concat (map (encode_fixed8 c) gs)) = gs"
proof (induction gs)
  case (Cons g gs)
  obtain b where "encode_fixed8 c g = [b]"
    using fixed8_length [of g] by (metis One_nat_def length_0_conv length_Suc_conv)
  moreover from this have "decode_fixed8 c [b] = g" using fixed8_roundtrip [of g] by simp
  ultimately show ?case using Cons by simp
qed simp

text \<open>The bit vector takes everything behind its length, so bytes that follow it in the buffer
  become extra groups.\<close>

lemma bv_raw_roundtrip:
  "bv_from_raw c (bv_to_raw c bv [] @ rest) =
   Ok (bv\<lparr>bit_groups := bit_groups bv @ map (\<lambda>b. decode_fixed8 c [b]) rest\<rparr>)"
  using slice_range_append [of "[]" 0 "encode_fixed64 c (bv_len bv)" 8]
  by (cases bv) (simp add: bv_from_raw_def bv_to_raw_def slice_from_def decode_encode_fixed8)

lemma bloom_raw_roundtrip:
  "bloom_from_raw c (bloom_to_raw c f [] @ rest) =
   Ok (f\<lparr>bits := (bits f)\<lparr>bit_groups := bit_groups (bits f) @ map (\<lambda>b. decode_fixed8 c [b]) rest\<rparr>\<rparr>)"
proof -
  let ?k = "encode_fixed64 c (hash_fn_count f)" and ?a = "encode_fixed64 c (seed (fst (hashers f)))"
    and ?b = "encode_fixed64 c (seed (snd (hashers f)))"
  have raw: "bloom_to_raw c f [] @ rest = ?k @ ?a @ ?b @ bv_to_raw c (bits f) [] @ rest"
    by (simp add: bloom_to_raw_def hasher_to_raw_def bv_to_raw_def)
  have "slice_range (?k @ ?a @ ?b @ bv_to_raw c (bits f) [] @ rest) 0 8 = Ok ?k"
    "slice_range (?k @ ?a @ ?b @ bv_to_raw c (bits f) [] @ rest) 8 16 = Ok ?a"
    "slice_range (?k @ ?a @ ?b @ bv_to_raw c (bits f) [] @ rest) 16 24 = Ok ?b"
    "slice_from (?k @ ?a @ ?b @ bv_to_raw c (bits f) [] @ rest) 24 = Ok (bv_to_raw c (bits f) [] @ rest)"
    by (simp_all add: slice_range_def slice_to_def slice_from_def)
  then show ?thesis unfolding raw bloom_from_raw_def
    by (cases f) (auto simp: bv_raw_roundtrip hasher_from_raw_def)
qed

end

lemma bloom_wf_extra_groups:
  "bloom_wf f \<Longrightarrow> bloom_wf (f\<lparr>bits := (bits f)\<lparr>bit_groups := bit_groups (bits f) @ gs\<rparr>\<rparr>)"
  by (simp add: bloom_wf_def bv_wf_def bv_length_def)

lemma bloom_contains_extra_groups:
  assumes "bloom_wf f"
  shows "bloom_contains hs (f\<lparr>bits := (bits f)\<lparr>bit_groups := bit_groups (bits f) @ gs\<rparr>\<rparr>) x = bloom_contains hs f x"
proof -
  let ?f = "f\<lparr>bits := (bits f)\<lparr>bit_groups := bit_groups (bits f) @ gs\<rparr>\<rparr>"
  have wf: "bloom_wf ?f" using assms by (simp add: bloom_wf_def bv_wf_def bv_length_def)
  have gi: "get_index ?f = get_index f" by (rule get_index_cong) simp
  have "bv_bit (bits ?f) j = bv_bit (bits f) j" if "j < bv_length (bits f)" for j
    using group_index [OF _ that] assms by (simp add: bv_bit_def bloom_wf_def nth_append)
  moreover have "\<exists>j. get_index f h n = Ok j \<and> j < bv_length (bits f)" for h n
    using get_index_Ok [OF assms] by blast
  ultimately have "(\<exists>j. get_index f h n = Ok j \<and> bv_bit (bits ?f) j) \<longleftrightarrow>
      (\<exists>j. get_index f h n = Ok j \<and> bv_bit (bits f) j)" for h n
    by (metis outcome.inject(1))
  then show ?thesis
    unfolding bloom_contains_def contains_loop_bits [OF wf] contains_loop_bits [OF assms] gi
    by (simp add: make_hash_def fn_indices_def)
qed

section \<open>Properties\<close>

text \<open>C23: the Bloom filter has no false negatives. Starting from a fresh filter with at least one
  bit, inserting never indexes out of range, and every inserted key is reported as contained,
  whatever the hash functions are.\<close>

theorem bloom_no_false_negatives:
  assumes "0 < bits_count" "bits_count < 2 ^ 64"
  shows "\<exists>f. bloom_insert_all hs (bloom_new bits_count fn_count s1 s2) keys = Ok f \<and>
    (\<forall>k\<in>set keys. bloom_contains hs f k = Ok True)"
  using bloom_insert_all_spec [OF bloom_new_wf [OF assms]] by blast

definition sum_hashing :: hashing where
  "sum_hashing = \<lparr>default_hash = (\<lambda>s bs. s + word_of_nat (sum_list (map unat bs)) + 1),
     slice_writes = (\<lambda>bs. [[word_of_nat (length bs)], bs])\<rparr>"

theorem bloom_no_false_negatives_witness:
  "\<exists>f. bloom_insert_all sum_hashing (bloom_new 10 3 11 22) [[1], [2, 3]] = Ok f \<and>
    bloom_contains sum_hashing f [2, 3] = Ok True"
  using bloom_no_false_negatives [of 10 sum_hashing 3 11 22 "[[1], [2, 3]]"] by auto

text \<open>A filter read back from its raw encoding answers every membership query as the one that
  was written, even when other bytes follow it in the buffer, as happens when a table is loaded.\<close>

theorem bloom_raw_roundtrip_contains:
  assumes "int_encoding c" "bloom_wf f"
  shows "\<exists>f'. bloom_from_raw c (bloom_to_raw c f [] @ rest) = Ok f' \<and>
    (\<forall>hs x. bloom_contains hs f' x = bloom_contains hs f x)"
  using int_encoding.bloom_raw_roundtrip [OF assms(1)] bloom_contains_extra_groups [OF assms(2)] by blast

theorem bloom_raw_roundtrip_contains_witness:
  "\<exists>f'. bloom_from_raw le_crates (bloom_to_raw le_crates (bloom_new 10 3 11 22) [] @ [1, 2, 3]) = Ok f' \<and>
    bloom_contains sum_hashing f' [5] = bloom_contains sum_hashing (bloom_new 10 3 11 22) [5]"
  using bloom_raw_roundtrip_contains [OF le.int_encoding_axioms bloom_new_wf, of 10 3 11 22 "[1, 2, 3]"]
  by auto

text \<open>A filter built for zero elements has no bits, and both \<open>insert\<close> and \<open>contains\<close> on it
  panic on the remainder by zero as soon as there is one hash function.\<close>

theorem bloom_without_bits_panics:
  assumes "fn_count \<noteq> 0"
  shows "bloom_contains hs (bloom_new 0 fn_count s1 s2) x = Panic \<and>
    bloom_insert hs (bloom_new 0 fn_count s1 s2) x = Panic"
proof -
  have "unat fn_count \<noteq> 0" using assms by (simp add: unat_eq_0)
  then obtain n where "unat fn_count = Suc n" by (cases "unat fn_count") auto
  then have "\<exists>i is. fn_indices (bloom_new 0 fn_count s1 s2) = i # is"
    by (simp add: fn_indices_def bloom_new_def upt_rec del: upt_Suc)
  then show ?thesis
    by (auto simp: bloom_contains_def bloom_insert_def get_index_def bv_length_def bloom_new_def
        bit_vector_new_def split: prod.splits)
qed

theorem bloom_without_bits_panics_witness:
  "bloom_contains sum_hashing (bloom_new 0 3 11 22) [5] = Panic"
  using bloom_without_bits_panics [of 3 sum_hashing 11 22 "[5]"] by simp

end
