(* ===== verification/Lru_Cache.thy ===== *)
theory Lru_Cache
  imports KipDB_Prelude "HOL-Library.Multiset"
begin

text \<open>
  The LRU cache of \<open>src/src/kernel/utils/lru_cache.rs\<close>: nodes of a doubly linked list behind raw
  pointers, a hash map from keys to nodes, and the sharded cache on top of it.

  The nodes live in an explicit store from addresses to nodes, because the code links them by
  pointer and frees some of them: \<open>Box::leak\<close> allocates a fresh address, \<open>Box::from_raw\<close> removes
  one. Dereferencing an address that is not allocated is undefined behaviour in Rust; it is
  \<open>Panic\<close> here, so every theorem that an operation returns \<open>Ok\<close> is also a memory safety theorem.
  The hash map is an association list with distinct keys. Its key type \<open>KeyRef\<close> compares the key
  stored in the node it points to, and nodes never change their key, so the key itself stands for it.
  A shard's mutex is held during a whole operation, so operations are steps on the shard's state.
\<close>

section \<open>Nodes and pointers\<close>

type_synonym ptr = nat

record ('k, 'v) node =
  n_key :: 'k
  n_val :: 'v
  n_prev :: "ptr option"
  n_next :: "ptr option"

definition node_new :: "'k \<Rightarrow> 'v \<Rightarrow> ('k, 'v) node" where
  "node_new k v = \<lparr>n_key = k, n_val = v, n_prev = None, n_next = None\<rparr>"

record ('k, 'v) lru_cache =
  lru_head :: "ptr option"
  lru_tail :: "ptr option"
  lru_inner :: "('k \<times> ptr) list"
  lru_cap :: nat
  lru_store :: "ptr \<Rightarrow> ('k, 'v) node option"
  lru_fresh :: ptr

definition deref :: "('k, 'v) lru_cache \<Rightarrow> ptr \<Rightarrow> ('k, 'v) node outcome" where
  "deref L a = (case lru_store L a of Some n \<Rightarrow> Ok n | None \<Rightarrow> Panic)"

definition modify_node ::
  "('k, 'v) lru_cache \<Rightarrow> ptr \<Rightarrow> (('k, 'v) node \<Rightarrow> ('k, 'v) node) \<Rightarrow> ('k, 'v) lru_cache outcome" where
  "modify_node L a f =
     (case lru_store L a of
        Some n \<Rightarrow> Ok (L\<lparr>lru_store := (lru_store L)(a \<mapsto> f n)\<rparr>)
      | None \<Rightarrow> Panic)"

definition box_leak :: "('k, 'v) lru_cache \<Rightarrow> ('k, 'v) node \<Rightarrow> ptr \<times> ('k, 'v) lru_cache" where
  "box_leak L n =
     (lru_fresh L, L\<lparr>lru_store := (lru_store L)(lru_fresh L \<mapsto> n), lru_fresh := lru_fresh L + 1\<rparr>)"

definition box_from_raw :: "('k, 'v) lru_cache \<Rightarrow> ptr \<Rightarrow> (('k, 'v) node \<times> ('k, 'v) lru_cache) outcome" where
  "box_from_raw L a =
     and_then (deref L a) (\<lambda>n. Ok (n, L\<lparr>lru_store := (lru_store L)(a := None)\<rparr>))"

definition hm_remove :: "'k \<Rightarrow> ('k \<times> 'a) list \<Rightarrow> ('k \<times> 'a) list" where
  "hm_remove k m = filter (\<lambda>(k', _). k' \<noteq> k) m"

definition hm_insert :: "'k \<Rightarrow> 'a \<Rightarrow> ('k \<times> 'a) list \<Rightarrow> ('k \<times> 'a) list" where
  "hm_insert k a m = (k, a) # hm_remove k m"

section \<open>Operations of one cache\<close>

definition lru_new :: "nat \<Rightarrow> ('k, 'v) lru_cache outcome" where
  "lru_new capacity =
     (if capacity < 1 then Err CacheSizeOverFlow
      else Ok \<lparr>lru_head = None, lru_tail = None, lru_inner = [], lru_cap = capacity,
               lru_store = (\<lambda>_. None), lru_fresh = 0\<rparr>)"

definition detach :: "('k, 'v) lru_cache \<Rightarrow> ptr \<Rightarrow> ('k, 'v) lru_cache outcome" where
  "detach L a =
     and_then (deref L a) (\<lambda>n.
     and_then (case n_prev n of
                 Some p \<Rightarrow> modify_node L p (\<lambda>m. m\<lparr>n_next := n_next n\<rparr>)
               | None \<Rightarrow> Ok (L\<lparr>lru_head := n_next n\<rparr>)) (\<lambda>L1.
     and_then (deref L1 a) (\<lambda>n1.
     and_then (case n_next n1 of
                 Some q \<Rightarrow> modify_node L1 q (\<lambda>m. m\<lparr>n_prev := n_prev n1\<rparr>)
               | None \<Rightarrow> Ok (L1\<lparr>lru_tail := n_prev n1\<rparr>)) (\<lambda>L2.
     modify_node L2 a (\<lambda>m. m\<lparr>n_prev := None, n_next := None\<rparr>)))))"

definition attach :: "('k, 'v) lru_cache \<Rightarrow> ptr \<Rightarrow> ('k, 'v) lru_cache outcome" where
  "attach L a =
     (case lru_head L of
        Some h \<Rightarrow>
          and_then (modify_node L h (\<lambda>m. m\<lparr>n_prev := Some a\<rparr>)) (\<lambda>L1.
          and_then (modify_node L1 a (\<lambda>m. m\<lparr>n_prev := None, n_next := Some h\<rparr>)) (\<lambda>L2.
          Ok (L2\<lparr>lru_head := Some a\<rparr>)))
      | None \<Rightarrow>
          and_then (modify_node L a (\<lambda>m. m\<lparr>n_prev := None, n_next := None\<rparr>)) (\<lambda>L1.
          Ok (L1\<lparr>lru_head := Some a, lru_tail := Some a\<rparr>)))"

definition expulsion :: "('k, 'v) lru_cache \<Rightarrow> ('k, 'v) lru_cache outcome" where
  "expulsion L =
     (case lru_tail L of
        Some t \<Rightarrow>
          if length (lru_inner L) \<ge> lru_cap L then
            and_then (detach L t) (\<lambda>L1.
            and_then (deref L1 t) (\<lambda>n.
            Ok (L1\<lparr>lru_inner := hm_remove (n_key n) (lru_inner L1)\<rparr>)))
          else Ok L
      | None \<Rightarrow> Ok L)"

text \<open>The part that \<open>put\<close> and \<open>get_or_insert_node\<close> have in common: unlink a node that has the key
  of the new one.\<close>

definition unlink_old :: "('k, 'v) lru_cache \<Rightarrow> 'k \<Rightarrow> (ptr option \<times> ('k, 'v) lru_cache) outcome" where
  "unlink_old L k =
     (case map_of (lru_inner L) k of
        None \<Rightarrow> Ok (None, L)
      | Some old \<Rightarrow>
          and_then (detach (L\<lparr>lru_inner := hm_remove k (lru_inner L)\<rparr>) old) (\<lambda>L1. Ok (Some old, L1)))"

definition lru_put :: "('k, 'v) lru_cache \<Rightarrow> 'k \<Rightarrow> 'v \<Rightarrow> ('v option \<times> ('k, 'v) lru_cache) outcome" where
  "lru_put L k v =
     (let (a, L0) = box_leak L (node_new k v) in
      and_then (unlink_old L0 k) (\<lambda>(old_node, L1).
      and_then (expulsion L1) (\<lambda>L2.
      and_then (attach L2 a) (\<lambda>L3.
      let L4 = L3\<lparr>lru_inner := hm_insert k a (lru_inner L3)\<rparr> in
      case old_node of
        None \<Rightarrow> Ok (None, L4)
      | Some old \<Rightarrow> and_then (box_from_raw L4 old) (\<lambda>(n, L5). Ok (Some (n_val n), L5))))))"

definition get_node :: "('k, 'v) lru_cache \<Rightarrow> 'k \<Rightarrow> (ptr option \<times> ('k, 'v) lru_cache) outcome" where
  "get_node L k =
     (case map_of (lru_inner L) k of
        Some a \<Rightarrow>
          and_then (detach L a) (\<lambda>L1. and_then (attach L1 a) (\<lambda>L2. Ok (Some a, L2)))
      | None \<Rightarrow> Ok (None, L))"

definition lru_get :: "('k, 'v) lru_cache \<Rightarrow> 'k \<Rightarrow> ('v option \<times> ('k, 'v) lru_cache) outcome" where
  "lru_get L k =
     (case map_of (lru_inner L) k of
        Some a \<Rightarrow>
          and_then (detach L a) (\<lambda>L1. and_then (attach L1 a) (\<lambda>L2.
          and_then (deref L2 a) (\<lambda>n. Ok (Some (n_val n), L2))))
      | None \<Rightarrow> Ok (None, L))"

definition lru_remove :: "('k, 'v) lru_cache \<Rightarrow> 'k \<Rightarrow> ('v option \<times> ('k, 'v) lru_cache) outcome" where
  "lru_remove L k =
     (case map_of (lru_inner L) k of
        Some a \<Rightarrow>
          and_then (detach (L\<lparr>lru_inner := hm_remove k (lru_inner L)\<rparr>) a) (\<lambda>L1.
          and_then (box_from_raw L1 a) (\<lambda>(n, L2). Ok (Some (n_val n), L2)))
      | None \<Rightarrow> Ok (None, L))"

definition get_or_insert_node ::
  "('k, 'v) lru_cache \<Rightarrow> 'k \<Rightarrow> ('k \<Rightarrow> 'v outcome) \<Rightarrow> (ptr \<times> ('k, 'v) lru_cache) outcome" where
  "get_or_insert_node L k fn_once =
     (case map_of (lru_inner L) k of
        Some a \<Rightarrow>
          and_then (detach L a) (\<lambda>L1. and_then (attach L1 a) (\<lambda>L2. Ok (a, L2)))
      | None \<Rightarrow>
          and_then (fn_once k) (\<lambda>v.
          let (a, L0) = box_leak L (node_new k v) in
          and_then (unlink_old L0 k) (\<lambda>(_, L1).
          and_then (expulsion L1) (\<lambda>L2.
          and_then (attach L2 a) (\<lambda>L3.
          Ok (a, L3\<lparr>lru_inner := hm_insert k a (lru_inner L3)\<rparr>))))))"

definition lru_get_or_insert ::
  "('k, 'v) lru_cache \<Rightarrow> 'k \<Rightarrow> ('k \<Rightarrow> 'v outcome) \<Rightarrow> ('v \<times> ('k, 'v) lru_cache) outcome" where
  "lru_get_or_insert L k fn_once =
     and_then (get_or_insert_node L k fn_once) (\<lambda>(a, L1).
     and_then (deref L1 a) (\<lambda>n. Ok (n_val n, L1)))"

definition lru_len :: "('k, 'v) lru_cache \<Rightarrow> nat" where
  "lru_len L = length (lru_inner L)"

definition lru_is_empty :: "('k, 'v) lru_cache \<Rightarrow> bool" where
  "lru_is_empty L \<longleftrightarrow> lru_inner L = []"

definition lru_iter :: "('k, 'v) lru_cache \<Rightarrow> ('k \<times> 'v) list outcome" where
  "lru_iter L =
     collect_ok (map (\<lambda>(_, a). and_then (deref L a) (\<lambda>n. Ok (n_key n, n_val n))) (lru_inner L))"

text \<open>\<open>Drop\<close> walks the list from the head and frees every node; the fuel bounds the walk.\<close>

fun lru_drop :: "nat \<Rightarrow> ('k, 'v) lru_cache \<Rightarrow> ('k, 'v) lru_cache outcome" where
  "lru_drop fuel L =
     (case lru_head L of
        None \<Rightarrow> Ok L
      | Some a \<Rightarrow>
          (case fuel of
             0 \<Rightarrow> Panic
           | Suc f \<Rightarrow>
               and_then (box_from_raw L a) (\<lambda>(n, L1). lru_drop f (L1\<lparr>lru_head := n_next n\<rparr>))))"

declare lru_drop.simps [simp del]

section \<open>Linked lists in the store\<close>

fun first_ptr :: "ptr list \<Rightarrow> ptr option \<Rightarrow> ptr option" where
  "first_ptr [] q = q"
| "first_ptr (a # as) q = Some a"

fun final_ptr :: "ptr option \<Rightarrow> ptr list \<Rightarrow> ptr option" where
  "final_ptr p [] = p"
| "final_ptr p (a # as) = final_ptr (Some a) as"

text \<open>\<open>linked h p as q\<close>: the nodes at \<open>as\<close> are chained in both directions, the first one points
  back to \<open>p\<close> and the last one forward to \<open>q\<close>.\<close>

fun linked ::
  "(ptr \<Rightarrow> ('k, 'v) node option) \<Rightarrow> ptr option \<Rightarrow> ptr list \<Rightarrow> ptr option \<Rightarrow> bool" where
  "linked h p [] q \<longleftrightarrow> True"
| "linked h p (a # as) q \<longleftrightarrow>
     (\<exists>n. h a = Some n \<and> n_prev n = p \<and> n_next n = first_ptr as q) \<and> linked h (Some a) as q"

lemma first_ptr_append [simp]: "first_ptr (xs @ ys) q = first_ptr xs (first_ptr ys q)"
  by (cases xs) auto

lemma final_ptr_append [simp]: "final_ptr p (xs @ ys) = final_ptr (final_ptr p xs) ys"
  by (induction xs arbitrary: p) auto

lemma final_ptr_None_iff: "final_ptr p xs = None \<longleftrightarrow> p = None \<and> xs = []"
  by (induction xs arbitrary: p) auto

lemma first_ptr_None_iff: "first_ptr xs q = None \<longleftrightarrow> q = None \<and> xs = []"
  by (cases xs) auto

lemma linked_append [simp]:
  "linked h p (xs @ ys) q \<longleftrightarrow> linked h p xs (first_ptr ys q) \<and> linked h (final_ptr p xs) ys q"
  by (induction xs arbitrary: p) auto

lemma linked_update [simp]: "a \<notin> set as \<Longrightarrow> linked (h(a := n)) p as q \<longleftrightarrow> linked h p as q"
  by (induction as arbitrary: p) auto

lemma linked_alloc: "linked h p as q \<Longrightarrow> a \<in> set as \<Longrightarrow> h a \<noteq> None"
  by (induction as arbitrary: p) auto

text \<open>Redirecting the forward pointer of the last node and the backward pointer of the first.\<close>

lemma linked_set_last:
  assumes "linked h p (xs @ [a]) q" "distinct (xs @ [a])" "h a = Some n"
  shows "linked (h(a \<mapsto> n\<lparr>n_next := q'\<rparr>)) p (xs @ [a]) q'"
  using assms by auto

lemma linked_set_first:
  assumes "linked h p (a # xs) q" "distinct (a # xs)" "h a = Some n"
  shows "linked (h(a \<mapsto> n\<lparr>n_prev := p'\<rparr>)) p' (a # xs) q"
  using assms by auto

definition payload :: "('k, 'v) lru_cache \<Rightarrow> ptr \<Rightarrow> ('k \<times> 'v) option" where
  "payload L a = map_option (\<lambda>n. (n_key n, n_val n)) (lru_store L a)"

text \<open>The list structure alone, without the hash map.\<close>

definition links :: "('k, 'v) lru_cache \<Rightarrow> ptr list \<Rightarrow> bool" where
  "links L as \<longleftrightarrow> distinct as \<and> linked (lru_store L) None as None \<and>
     lru_head L = first_ptr as None \<and> lru_tail L = final_ptr None as"

text \<open>What \<open>detach\<close> and \<open>attach\<close> leave alone.\<close>

definition same_rest :: "('k, 'v) lru_cache \<Rightarrow> ('k, 'v) lru_cache \<Rightarrow> bool" where
  "same_rest L L' \<longleftrightarrow> payload L' = payload L \<and> lru_inner L' = lru_inner L \<and>
     lru_cap L' = lru_cap L \<and> lru_fresh L' = lru_fresh L"

lemma same_rest_trans: "same_rest L1 L2 \<Longrightarrow> same_rest L2 L3 \<Longrightarrow> same_rest L1 L3"
  by (simp add: same_rest_def)

lemma payload_eq_None_iff: "payload L a = None \<longleftrightarrow> lru_store L a = None"
  by (simp add: payload_def)

lemma modify_node_Ok:
  assumes "lru_store L a = Some n"
  shows "modify_node L a f = Ok (L\<lparr>lru_store := (lru_store L)(a \<mapsto> f n)\<rparr>)"
  using assms by (simp add: modify_node_def)

lemma detach_links:
  assumes "links L (xs @ a # ys)"
  shows "\<exists>L'. detach L a = Ok L' \<and> links L' (xs @ ys) \<and> same_rest L L'"
proof -
  let ?h = "lru_store L"
  have dist: "a \<notin> set xs" "a \<notin> set ys" "distinct xs" "distinct ys" "set xs \<inter> set ys = {}"
    and lx: "linked ?h None xs (Some a)" and ly: "linked ?h (Some a) ys None"
    and hd: "lru_head L = first_ptr xs (Some a)" and tl: "lru_tail L = final_ptr (Some a) ys"
    using assms by (auto simp: links_def)
  obtain n where n: "?h a = Some n" "n_prev n = final_ptr None xs" "n_next n = first_ptr ys None"
    using assms by (auto simp: links_def)
  obtain L1 where L1: "(case n_prev n of
        Some p \<Rightarrow> modify_node L p (\<lambda>m. m\<lparr>n_next := n_next n\<rparr>)
      | None \<Rightarrow> Ok (L\<lparr>lru_head := n_next n\<rparr>)) = Ok L1"
    and h1: "linked (lru_store L1) None xs (first_ptr ys None)" "linked (lru_store L1) (Some a) ys None"
      "lru_store L1 a = Some n" "lru_head L1 = first_ptr xs (first_ptr ys None)" "lru_tail L1 = lru_tail L"
      "same_rest L L1"
  proof (cases xs rule: rev_cases)
    case Nil
    then show ?thesis using that [of "L\<lparr>lru_head := n_next n\<rparr>"] n ly
      by (simp add: same_rest_def payload_def fun_eq_iff)
  next
    case (snoc xs' b)
    obtain m where m: "?h b = Some m" using linked_alloc [OF lx, of b] snoc by auto
    let ?L1 = "L\<lparr>lru_store := ?h(b \<mapsto> m\<lparr>n_next := first_ptr ys None\<rparr>)\<rparr>"
    have "linked (lru_store ?L1) None xs (first_ptr ys None)"
      using linked_set_last [of ?h None xs' b "Some a" m "first_ptr ys None"] lx dist m snoc by simp
    moreover have "b \<noteq> a" "b \<notin> set ys" using dist snoc by auto
    ultimately show ?thesis
      using that [of ?L1] snoc m n ly hd
      by (simp add: modify_node_Ok same_rest_def payload_def fun_eq_iff)
  qed
  obtain L2 where L2: "(case n_next n of
        Some q \<Rightarrow> modify_node L1 q (\<lambda>m. m\<lparr>n_prev := n_prev n\<rparr>)
      | None \<Rightarrow> Ok (L1\<lparr>lru_tail := n_prev n\<rparr>)) = Ok L2"
    and h2: "linked (lru_store L2) None xs (first_ptr ys None)"
      "linked (lru_store L2) (final_ptr None xs) ys None" "lru_store L2 a = Some n"
      "lru_head L2 = lru_head L1" "lru_tail L2 = final_ptr (final_ptr None xs) ys" "same_rest L1 L2"
  proof (cases ys)
    case Nil
    then show ?thesis using that [of "L1\<lparr>lru_tail := n_prev n\<rparr>"] n h1
      by (simp add: same_rest_def payload_def fun_eq_iff)
  next
    case (Cons b ys')
    obtain m where m: "lru_store L1 b = Some m" using linked_alloc [OF h1(2), of b] Cons by auto
    let ?L2 = "L1\<lparr>lru_store := (lru_store L1)(b \<mapsto> m\<lparr>n_prev := final_ptr None xs\<rparr>)\<rparr>"
    have "linked (lru_store ?L2) (final_ptr None xs) ys None"
      using linked_set_first [of "lru_store L1" "Some a" b ys' None m "final_ptr None xs"]
        h1(2) dist m Cons by simp
    moreover have "b \<noteq> a" "b \<notin> set xs" using dist Cons by auto
    ultimately show ?thesis
      using that [of ?L2] Cons m n h1(1-5) tl
      by (simp add: modify_node_Ok same_rest_def payload_def fun_eq_iff)
  qed
  let ?L3 = "L2\<lparr>lru_store := (lru_store L2)(a \<mapsto> n\<lparr>n_prev := None, n_next := None\<rparr>)\<rparr>"
  have "detach L a = Ok ?L3"
    using n(1) L1 h1(3) L2 h2(3) by (simp add: detach_def deref_def modify_node_Ok)
  moreover have "links ?L3 (xs @ ys)"
    using dist h1 h2 by (simp add: links_def)
  moreover have "same_rest L2 ?L3"
    using h2(3) by (simp add: same_rest_def payload_def fun_eq_iff)
  then have "same_rest L ?L3" using h1(6) h2(6) same_rest_trans by blast
  ultimately show ?thesis by blast
qed

lemma attach_links:
  assumes "links L as" "a \<notin> set as" "payload L a = Some kv"
  shows "\<exists>L'. attach L a = Ok L' \<and> links L' (a # as) \<and> same_rest L L'"
proof -
  let ?h = "lru_store L"
  obtain n where n: "?h a = Some n" using assms(3) by (auto simp: payload_def)
  show ?thesis
  proof (cases as)
    case Nil
    then show ?thesis using assms(1) n
      by (simp add: attach_def modify_node_Ok links_def same_rest_def payload_def fun_eq_iff)
  next
    case (Cons b bs)
    obtain m where m: "?h b = Some m" using assms(1) Cons by (auto simp: links_def)
    have "b \<noteq> a" "b \<notin> set bs" using assms Cons by (auto simp: links_def)
    then show ?thesis using assms n m Cons
      by (auto simp: attach_def modify_node_Ok links_def same_rest_def payload_def fun_eq_iff)
  qed
qed

section \<open>The hash map agrees with the list\<close>

definition inner_ok :: "('k \<times> ptr) list \<Rightarrow> (ptr \<Rightarrow> ('k \<times> 'v) option) \<Rightarrow> ptr list \<Rightarrow> bool" where
  "inner_ok m pay as \<longleftrightarrow> distinct (map fst m) \<and> mset m = mset (map (\<lambda>a. (fst (the (pay a)), a)) as)"

lemma inner_ok_cong:
  "(\<And>a. a \<in> set as \<Longrightarrow> pay a = pay' a) \<Longrightarrow> inner_ok m pay as \<longleftrightarrow> inner_ok m pay' as"
  by (simp add: inner_ok_def cong: map_cong)

lemma inner_ok_update [simp]: "a \<notin> set as \<Longrightarrow> inner_ok m (pay(a := x)) as \<longleftrightarrow> inner_ok m pay as"
  by (rule inner_ok_cong) auto

lemma inner_ok_length: "inner_ok m pay as \<Longrightarrow> length m = length as"
  unfolding inner_ok_def by (metis length_map mset_eq_length)

lemma inner_ok_keys:
  assumes "inner_ok m pay as"
  shows "set (map fst m) = (\<lambda>a. fst (the (pay a))) ` set as" "distinct (map (\<lambda>a. fst (the (pay a))) as)"
proof -
  have "mset (map fst m) = mset (map (\<lambda>a. fst (the (pay a))) as)"
    using assms by (simp add: inner_ok_def multiset.map_comp comp_def)
  then show "set (map fst m) = (\<lambda>a. fst (the (pay a))) ` set as"
    "distinct (map (\<lambda>a. fst (the (pay a))) as)"
    using assms by (metis mset_eq_setD set_map, metis inner_ok_def mset_eq_imp_distinct_iff)
qed

lemma inner_ok_lookup:
  assumes "inner_ok m pay as"
  shows "map_of m k = Some a \<longleftrightarrow> a \<in> set as \<and> fst (the (pay a)) = k"
proof -
  have "map_of m k = Some a \<longleftrightarrow> (k, a) \<in> set m"
    using assms by (simp add: inner_ok_def)
  also have "set m = set (map (\<lambda>a. (fst (the (pay a)), a)) as)"
    using assms unfolding inner_ok_def by (metis mset_eq_setD)
  finally show ?thesis by auto
qed

lemma inner_ok_remove:
  assumes "inner_ok m pay (xs @ a # ys)" "fst (the (pay a)) = k"
  shows "inner_ok (hm_remove k m) pay (xs @ ys)"
proof -
  let ?f = "\<lambda>a. (fst (the (pay a)), a)"
  have "\<forall>b\<in>set (xs @ ys). fst (the (pay b)) \<noteq> k"
    using inner_ok_keys(2) [OF assms(1)] assms(2) by (auto simp: image_iff)
  then have "filter (\<lambda>(k', _). k' \<noteq> k) (map ?f (xs @ a # ys)) = map ?f (xs @ ys)"
    using assms(2) by (simp add: filter_map comp_def)
  moreover have "mset (hm_remove k m) = mset (filter (\<lambda>(k', _). k' \<noteq> k) (map ?f (xs @ a # ys)))"
    using assms(1) unfolding inner_ok_def hm_remove_def mset_filter by metis
  moreover have "distinct (map fst (hm_remove k m))"
    using assms(1) by (simp add: inner_ok_def hm_remove_def distinct_map_filter)
  ultimately show ?thesis by (simp add: inner_ok_def)
qed

lemma inner_ok_insert:
  assumes "inner_ok m pay as" "fst (the (pay a)) = k" "k \<notin> (\<lambda>a. fst (the (pay a))) ` set as"
  shows "inner_ok (hm_insert k a m) pay (a # as)"
proof -
  have "k \<notin> set (map fst m)" using inner_ok_keys(1) [OF assms(1)] assms(3) by simp
  then have "hm_remove k m = m"
    by (force simp: hm_remove_def filter_id_conv)
  then show ?thesis using assms \<open>k \<notin> set (map fst m)\<close> by (simp add: inner_ok_def hm_insert_def)
qed

section \<open>Representation invariant and refinement\<close>

definition items :: "('k, 'v) lru_cache \<Rightarrow> ptr list \<Rightarrow> ('k \<times> 'v) list" where
  "items L as = map (\<lambda>a. the (payload L a)) as"

definition lru_rep :: "('k, 'v) lru_cache \<Rightarrow> ptr list \<Rightarrow> bool" where
  "lru_rep L as \<longleftrightarrow> links L as \<and> inner_ok (lru_inner L) (payload L) as \<and>
     (\<forall>a. payload L a \<noteq> None \<longrightarrow> a < lru_fresh L)"

lemma lru_rep_alloc:
  assumes "lru_rep L as" "a \<in> set as"
  shows "\<exists>k v. payload L a = Some (k, v)" "a < lru_fresh L"
proof -
  have "payload L a \<noteq> None"
    using assms linked_alloc [of "lru_store L" None as None a]
    by (simp add: lru_rep_def links_def payload_eq_None_iff)
  then show "\<exists>k v. payload L a = Some (k, v)" "a < lru_fresh L"
    using assms(1) by (auto simp: lru_rep_def)
qed

lemma lru_rep_lookup:
  assumes "lru_rep L as"
  shows "map_of (lru_inner L) k = Some a \<Longrightarrow>
      \<exists>xs ys v. as = xs @ a # ys \<and> payload L a = Some (k, v) \<and> map_of (items L as) k = Some v \<and>
        filter (\<lambda>(k', _). k' \<noteq> k) (items L as) = items L (xs @ ys)"
    and "map_of (lru_inner L) k = None \<Longrightarrow> map_of (items L as) k = None"
proof -
  have ok: "inner_ok (lru_inner L) (payload L) as" using assms by (simp add: lru_rep_def)
  note dist = inner_ok_keys(2) [OF ok]
  then have dist': "distinct (map fst (items L as))" by (simp add: items_def comp_def)
  show "\<exists>xs ys v. as = xs @ a # ys \<and> payload L a = Some (k, v) \<and> map_of (items L as) k = Some v \<and>
        filter (\<lambda>(k', _). k' \<noteq> k) (items L as) = items L (xs @ ys)"
    if "map_of (lru_inner L) k = Some a"
  proof -
    have a: "a \<in> set as" "fst (the (payload L a)) = k"
      using that inner_ok_lookup [OF ok] by auto
    obtain xs ys where as: "as = xs @ a # ys" using a(1) by (meson split_list)
    obtain v where v: "payload L a = Some (k, v)" using lru_rep_alloc(1) [OF assms a(1)] a(2) by auto
    have "(k, v) \<in> set (items L as)" using a(1) v by (force simp: items_def)
    moreover have "\<forall>b\<in>set (xs @ ys). fst (the (payload L b)) \<noteq> k" using dist a(2) as by (auto simp: image_iff)
    then have "filter (\<lambda>(k', _). k' \<noteq> k) (items L as) = items L (xs @ ys)"
      using v as by (auto simp: items_def filter_map comp_def case_prod_unfold filter_id_conv)
    ultimately show ?thesis using as v dist' by auto
  qed
  show "map_of (items L as) k = None" if "map_of (lru_inner L) k = None"
    using that inner_ok_keys(1) [OF ok] by (auto simp: map_of_eq_None_iff items_def image_image)
qed

lemma inner_update_simps [simp]:
  "payload (L\<lparr>lru_inner := m\<rparr>) = payload L"
  "links (L\<lparr>lru_inner := m\<rparr>) as \<longleftrightarrow> links L as"
  "items (L\<lparr>lru_inner := m\<rparr>) as = items L as"
  by (simp_all add: payload_def links_def items_def fun_eq_iff)

lemma lru_rep_same_rest:
  "same_rest L L' \<Longrightarrow> links L' as' \<Longrightarrow> inner_ok m (payload L) as' \<Longrightarrow>
   \<forall>a. payload L a \<noteq> None \<longrightarrow> a < lru_fresh L \<Longrightarrow>
   lru_rep (L'\<lparr>lru_inner := m\<rparr>) as' \<and> items (L'\<lparr>lru_inner := m\<rparr>) as' = items L as'"
  by (simp add: same_rest_def lru_rep_def items_def)

text \<open>The steps the operations are made of.\<close>

lemma box_leak_rep:
  assumes "lru_rep L as" "box_leak L (node_new k v) = (a, L0)"
  shows "lru_rep L0 as" "items L0 as = items L as" "a \<notin> set as" "payload L0 a = Some (k, v)"
    "lru_inner L0 = lru_inner L" "lru_cap L0 = lru_cap L" "a = lru_fresh L"
proof -
  have L0: "payload L0 = (payload L)(a \<mapsto> (k, v))" "lru_inner L0 = lru_inner L"
      "lru_cap L0 = lru_cap L" "lru_fresh L0 = a + 1" "a = lru_fresh L" "lru_head L0 = lru_head L"
      "lru_tail L0 = lru_tail L" "lru_store L0 = (lru_store L)(a \<mapsto> node_new k v)"
    using assms(2) by (auto simp: box_leak_def payload_def node_new_def fun_eq_iff)
  show a: "a \<notin> set as" using lru_rep_alloc(2) [OF assms(1)] L0(5) by auto
  then have "links L0 as" using assms(1) L0 by (simp add: lru_rep_def links_def)
  moreover have "inner_ok (lru_inner L0) (payload L0) as"
    using assms(1) a L0 by (simp add: lru_rep_def)
  moreover have "\<forall>b. payload L0 b \<noteq> None \<longrightarrow> b < lru_fresh L0"
    using assms(1) L0 by (auto simp: lru_rep_def less_Suc_eq)
  ultimately show "lru_rep L0 as" by (simp add: lru_rep_def)
  show "items L0 as = items L as" using a L0(1) by (auto simp: items_def)
qed (use assms(2) in \<open>auto simp: box_leak_def payload_def node_new_def\<close>)

lemma box_from_raw_rep:
  assumes "lru_rep L as" "a \<notin> set as" "payload L a = Some (k, v)"
  shows "\<exists>n L'. box_from_raw L a = Ok (n, L') \<and> n_val n = v \<and> lru_rep L' as \<and>
    items L' as = items L as \<and> lru_cap L' = lru_cap L \<and> lru_store L' = (lru_store L)(a := None)"
proof -
  obtain n where n: "lru_store L a = Some n" "n_val n = v"
    using assms(3) by (auto simp: payload_def)
  let ?L = "L\<lparr>lru_store := (lru_store L)(a := None)\<rparr>"
  have pay: "payload ?L = (payload L)(a := None)" by (auto simp: payload_def fun_eq_iff)
  have "lru_rep ?L as"
    using assms(1,2) pay
    by (auto simp: lru_rep_def links_def)
  moreover have "items ?L as = items L as" using pay assms(2) by (auto simp: items_def)
  ultimately show ?thesis using n by (simp add: box_from_raw_def deref_def)
qed

lemma unlink_old_rep:
  assumes "lru_rep L as"
  shows "\<exists>old L' as'. unlink_old L k = Ok (old, L') \<and> lru_rep L' as' \<and> set as' \<subseteq> set as \<and>
    items L' as' = filter (\<lambda>(k', _). k' \<noteq> k) (items L as) \<and> payload L' = payload L \<and>
    lru_cap L' = lru_cap L \<and>
    (case old of None \<Rightarrow> map_of (items L as) k = None
     | Some b \<Rightarrow> b \<in> set as \<and> b \<notin> set as' \<and> (\<exists>v. payload L b = Some (k, v) \<and> map_of (items L as) k = Some v))"
proof (cases "map_of (lru_inner L) k")
  case None
  then have "map_of (items L as) k = None" by (rule lru_rep_lookup(2) [OF assms])
  moreover from this have "filter (\<lambda>(k', _). k' \<noteq> k) (items L as) = items L as"
    by (force simp: filter_id_conv map_of_eq_None_iff)
  ultimately show ?thesis using None assms by (auto simp: unlink_old_def)
next
  case (Some b)
  obtain xs ys v where b: "as = xs @ b # ys" "payload L b = Some (k, v)"
      "map_of (items L as) k = Some v"
      "filter (\<lambda>(k', _). k' \<noteq> k) (items L as) = items L (xs @ ys)"
    using lru_rep_lookup(1) [OF assms Some] by blast
  let ?m = "hm_remove k (lru_inner L)"
  have "links L (xs @ b # ys)" using assms b(1) by (simp add: lru_rep_def)
  then obtain L' where L': "detach (L\<lparr>lru_inner := ?m\<rparr>) b = Ok L'" "links L' (xs @ ys)"
      "same_rest (L\<lparr>lru_inner := ?m\<rparr>) L'"
    using detach_links [of "L\<lparr>lru_inner := ?m\<rparr>" xs b ys] by auto
  have "inner_ok ?m (payload L) (xs @ ys)"
    using assms b by (intro inner_ok_remove [of _ _ _ b]) (auto simp: lru_rep_def)
  then have "lru_rep L' (xs @ ys)" using L' assms by (simp add: same_rest_def lru_rep_def)
  moreover have "b \<notin> set (xs @ ys)" using assms b(1) by (simp add: lru_rep_def links_def)
  moreover have "items L' (xs @ ys) = items L (xs @ ys)" using L'(3) by (simp add: items_def same_rest_def)
  ultimately show ?thesis using Some L' b by (fastforce simp: unlink_old_def same_rest_def)
qed

lemma expulsion_rep:
  assumes "lru_rep L as"
  shows "\<exists>L' as'. expulsion L = Ok L' \<and> lru_rep L' as' \<and> set as' \<subseteq> set as \<and>
    items L' as' = (if lru_cap L \<le> length as then butlast (items L as) else items L as) \<and>
    payload L' = payload L \<and> lru_cap L' = lru_cap L"
proof (cases as rule: rev_cases)
  case Nil
  then show ?thesis using assms by (auto simp: expulsion_def lru_rep_def links_def items_def)
next
  case (snoc xs t)
  have tail: "lru_tail L = Some t" using assms snoc by (simp add: lru_rep_def links_def)
  have len: "length (lru_inner L) = length as"
    using assms by (auto simp: lru_rep_def dest: inner_ok_length)
  show ?thesis
  proof (cases "lru_cap L \<le> length as")
    case False
    then show ?thesis using tail len assms by (auto simp: expulsion_def)
  next
    case True
    obtain L1 where L1: "detach L t = Ok L1" "links L1 xs" "same_rest L L1"
      using detach_links [of L xs t "[]"] assms snoc by (auto simp: lru_rep_def)
    obtain k v where t: "payload L t = Some (k, v)" using lru_rep_alloc(1) [OF assms, of t] snoc by auto
    then have "payload L1 t = Some (k, v)" using L1(3) by (simp add: same_rest_def)
    then obtain n where n: "lru_store L1 t = Some n" "n_key n = k" by (auto simp: payload_def)
    have "inner_ok (hm_remove k (lru_inner L)) (payload L) xs"
      using assms snoc t inner_ok_remove [of "lru_inner L" "payload L" xs t "[]" k] by (simp add: lru_rep_def)
    then have "lru_rep (L1\<lparr>lru_inner := hm_remove k (lru_inner L1)\<rparr>) xs"
      using L1 assms by (simp add: lru_rep_def same_rest_def)
    moreover have "items L1 xs = butlast (items L as)"
      using L1(3) snoc by (simp add: items_def same_rest_def)
    ultimately show ?thesis using True tail len L1 n snoc
      by (intro exI [of _ "L1\<lparr>lru_inner := hm_remove k (lru_inner L1)\<rparr>"] exI [of _ xs])
        (auto simp: expulsion_def deref_def same_rest_def)
  qed
qed

lemma attach_insert_rep:
  assumes "lru_rep L as" "a \<notin> set as" "payload L a = Some (k, v)" "map_of (items L as) k = None"
  shows "\<exists>L'. attach L a = Ok L' \<and> payload L' = payload L \<and> lru_cap L' = lru_cap L \<and>
    lru_rep (L'\<lparr>lru_inner := hm_insert k a (lru_inner L')\<rparr>) (a # as) \<and>
    items L' (a # as) = (k, v) # items L as"
proof -
  obtain L' where L': "attach L a = Ok L'" "links L' (a # as)" "same_rest L L'"
    using attach_links [OF _ assms(2,3)] assms(1) by (auto simp: lru_rep_def)
  have "k \<notin> (\<lambda>a. fst (the (payload L a))) ` set as"
    using assms(4) by (force simp: map_of_eq_None_iff items_def)
  then have "inner_ok (hm_insert k a (lru_inner L)) (payload L) (a # as)"
    using assms(1,3) by (intro inner_ok_insert) (auto simp: lru_rep_def)
  then have "lru_rep (L'\<lparr>lru_inner := hm_insert k a (lru_inner L')\<rparr>) (a # as)"
    using L' assms(1) by (simp add: lru_rep_def same_rest_def)
  then show ?thesis using L' assms(3) by (auto simp: items_def same_rest_def)
qed

section \<open>The operations refine a list of pairs, most recently used first\<close>

definition spec_touch :: "'k \<Rightarrow> ('k \<times> 'v) list \<Rightarrow> ('k \<times> 'v) list" where
  "spec_touch k kvs =
     (case map_of kvs k of None \<Rightarrow> kvs | Some v \<Rightarrow> (k, v) # filter (\<lambda>(k', _). k' \<noteq> k) kvs)"

definition spec_put :: "nat \<Rightarrow> 'k \<Rightarrow> 'v \<Rightarrow> ('k \<times> 'v) list \<Rightarrow> ('k \<times> 'v) list" where
  "spec_put capacity k v kvs =
     (let rest = filter (\<lambda>(k', _). k' \<noteq> k) kvs
      in (k, v) # (if capacity \<le> length rest then butlast rest else rest))"

definition lru_refines :: "('k, 'v) lru_cache \<Rightarrow> ('k \<times> 'v) list \<Rightarrow> bool" where
  "lru_refines L kvs \<longleftrightarrow>
     (\<exists>as. lru_rep L as \<and> kvs = items L as) \<and> 1 \<le> lru_cap L \<and> length kvs \<le> lru_cap L"

lemma lru_refinesI:
  "lru_rep L as \<Longrightarrow> items L as = kvs \<Longrightarrow> 1 \<le> lru_cap L \<Longrightarrow> length kvs \<le> lru_cap L \<Longrightarrow> lru_refines L kvs"
  by (auto simp: lru_refines_def)

lemma lru_refinesE:
  assumes "lru_refines L kvs"
  obtains as where "lru_rep L as" "kvs = items L as" "1 \<le> lru_cap L" "length as \<le> lru_cap L"
  using assms by (auto simp: lru_refines_def items_def)

lemma lru_refines_distinct: "lru_refines L kvs \<Longrightarrow> distinct (map fst kvs)"
  by (auto simp: lru_refines_def lru_rep_def items_def comp_def dest: inner_ok_keys(2))

lemma length_spec_put:
  assumes "1 \<le> capacity" "length kvs \<le> capacity"
  shows "length (spec_put capacity k v kvs) \<le> capacity"
proof -
  define rest where "rest = filter (\<lambda>(k', _). k' \<noteq> k) kvs"
  have "length rest \<le> capacity" using assms(2) length_filter_le le_trans unfolding rest_def by blast
  then show ?thesis using assms(1) unfolding spec_put_def rest_def [symmetric] Let_def by auto
qed

lemma lru_new_refines: "1 \<le> capacity \<Longrightarrow> \<exists>L. lru_new capacity = Ok L \<and> lru_refines L [] \<and> lru_cap L = capacity"
  by (auto simp: lru_new_def lru_refines_def lru_rep_def links_def inner_ok_def payload_def items_def)

text \<open>The insertion path shared by \<open>put\<close> and \<open>get_or_insert_node\<close>.\<close>

lemma insert_path:
  assumes "lru_refines L kvs" "box_leak L (node_new k v) = (a, L0)"
  shows "\<exists>old L1 L2 L3 as. unlink_old L0 k = Ok (old, L1) \<and> expulsion L1 = Ok L2 \<and> attach L2 a = Ok L3 \<and>
    lru_rep (L3\<lparr>lru_inner := hm_insert k a (lru_inner L3)\<rparr>) as \<and>
    items L3 as = spec_put (lru_cap L) k v kvs \<and> lru_cap L3 = lru_cap L \<and> payload L3 = payload L0 \<and>
    (case old of None \<Rightarrow> map_of kvs k = None
     | Some b \<Rightarrow> b \<notin> set as \<and> (\<exists>v. payload L3 b = Some (k, v) \<and> map_of kvs k = Some v))"
proof -
  obtain as where as: "lru_rep L as" "kvs = items L as" "1 \<le> lru_cap L" "length as \<le> lru_cap L"
    using assms(1) by (rule lru_refinesE)
  note leak = box_leak_rep [OF as(1) assms(2)]
  let ?rest = "filter (\<lambda>(k', _). k' \<noteq> k) kvs"
  obtain old L1 as1 where L1: "unlink_old L0 k = Ok (old, L1)" "lru_rep L1 as1" "set as1 \<subseteq> set as"
      "items L1 as1 = ?rest" "payload L1 = payload L0" "lru_cap L1 = lru_cap L"
      "case old of None \<Rightarrow> map_of kvs k = None
       | Some b \<Rightarrow> b \<in> set as \<and> b \<notin> set as1 \<and> (\<exists>v. payload L0 b = Some (k, v) \<and> map_of kvs k = Some v)"
    using unlink_old_rep [OF leak(1), of k, unfolded leak(2,6), folded as(2)] by blast
  have len1: "length as1 = length ?rest" using L1(4) unfolding items_def by (metis length_map)
  obtain L2 as2 where L2: "expulsion L1 = Ok L2" "lru_rep L2 as2" "set as2 \<subseteq> set as1"
      "items L2 as2 = (if lru_cap L \<le> length ?rest then butlast ?rest else ?rest)"
      "payload L2 = payload L1" "lru_cap L2 = lru_cap L"
    using expulsion_rep [OF L1(2)] L1(4,6) len1 by auto
  have "map_of (items L2 as2) k = None"
    using L2(4) by (auto simp: map_of_eq_None_iff dest: in_set_butlastD split: if_splits)
  moreover have "a \<notin> set as2" using leak(3) L1(3) L2(3) by auto
  moreover have "payload L2 a = Some (k, v)" using leak(4) L1(5) L2(5) by simp
  ultimately obtain L3 where L3: "attach L2 a = Ok L3" "payload L3 = payload L2" "lru_cap L3 = lru_cap L"
      "lru_rep (L3\<lparr>lru_inner := hm_insert k a (lru_inner L3)\<rparr>) (a # as2)"
      "items L3 (a # as2) = (k, v) # items L2 as2"
    using attach_insert_rep [OF L2(2), of a k v] L2(6) by auto
  have "items L3 (a # as2) = spec_put (lru_cap L) k v kvs"
    using L3(5) L2(4) by (simp add: spec_put_def Let_def)
  moreover have "b \<notin> set (a # as2)" if "old = Some b" for b
    using that L1(3,7) L2(3) leak(3) by auto
  moreover have "payload L3 = payload L0" using L3(2) L2(5) L1(5) by simp
  ultimately show ?thesis using L1(1,7) L2(1) L3 by (fastforce split: option.splits)
qed

lemma lru_put_refines:
  assumes "lru_refines L kvs"
  shows "\<exists>L'. lru_put L k v = Ok (map_of kvs k, L') \<and> lru_refines L' (spec_put (lru_cap L) k v kvs) \<and>
    lru_cap L' = lru_cap L"
proof -
  obtain a L0 where leak: "box_leak L (node_new k v) = (a, L0)" by fastforce
  obtain old L1 L2 L3 as where *: "unlink_old L0 k = Ok (old, L1)" "expulsion L1 = Ok L2"
      "attach L2 a = Ok L3" "lru_rep (L3\<lparr>lru_inner := hm_insert k a (lru_inner L3)\<rparr>) as"
      "items L3 as = spec_put (lru_cap L) k v kvs" "lru_cap L3 = lru_cap L"
      "case old of None \<Rightarrow> map_of kvs k = None
       | Some b \<Rightarrow> b \<notin> set as \<and> (\<exists>v. payload L3 b = Some (k, v) \<and> map_of kvs k = Some v)"
    using insert_path [OF assms leak] by blast
  have len: "1 \<le> lru_cap L" "length (spec_put (lru_cap L) k v kvs) \<le> lru_cap L"
    using assms length_spec_put by (auto simp: lru_refines_def)
  let ?L4 = "L3\<lparr>lru_inner := hm_insert k a (lru_inner L3)\<rparr>"
  show ?thesis
  proof (cases old)
    case None
    then show ?thesis using * leak len lru_refinesI [OF *(4)] by (auto simp: lru_put_def)
  next
    case (Some b)
    then obtain v' where v': "payload ?L4 b = Some (k, v')" "map_of kvs k = Some v'" "b \<notin> set as"
      using *(7) by auto
    obtain n L5 where "box_from_raw ?L4 b = Ok (n, L5)" "n_val n = v'" "lru_rep L5 as"
        "items L5 as = items ?L4 as" "lru_cap L5 = lru_cap ?L4"
      using box_from_raw_rep [OF *(4) v'(3,1)] by blast
    then show ?thesis using * leak len lru_refinesI [of L5 as] Some v' by (auto simp: lru_put_def)
  qed
qed

text \<open>Moving a node to the front, shared by \<open>get\<close>, \<open>get_node\<close> and \<open>get_or_insert_node\<close>.\<close>

lemma touch_path:
  assumes "lru_refines L kvs" "map_of (lru_inner L) k = Some a"
  shows "\<exists>L1 L2 v. detach L a = Ok L1 \<and> attach L1 a = Ok L2 \<and> lru_refines L2 (spec_touch k kvs) \<and>
    lru_cap L2 = lru_cap L \<and> payload L2 a = Some (k, v) \<and> map_of kvs k = Some v"
proof -
  obtain as where as: "lru_rep L as" "kvs = items L as" "1 \<le> lru_cap L" "length as \<le> lru_cap L"
    using assms(1) by (rule lru_refinesE)
  obtain xs ys v where a: "as = xs @ a # ys" "payload L a = Some (k, v)" "map_of kvs k = Some v"
      "filter (\<lambda>(k', _). k' \<noteq> k) kvs = items L (xs @ ys)"
    using lru_rep_lookup(1) [OF as(1) assms(2)] as(2) by blast
  obtain L1 where L1: "detach L a = Ok L1" "links L1 (xs @ ys)" "same_rest L L1"
    using detach_links [of L xs a ys] as(1) a(1) by (auto simp: lru_rep_def)
  have "a \<notin> set (xs @ ys)" using as(1) a(1) by (simp add: lru_rep_def links_def)
  then obtain L2 where L2: "attach L1 a = Ok L2" "links L2 (a # xs @ ys)" "same_rest L1 L2"
    using attach_links [OF L1(2), of a "(k, v)"] L1(3) a(2) by (auto simp: same_rest_def)
  have same: "same_rest L L2" using L1(3) L2(3) by (rule same_rest_trans)
  have "inner_ok (lru_inner L) (payload L) (a # xs @ ys)"
    using as(1) a(1) by (simp add: lru_rep_def inner_ok_def)
  then have "lru_rep L2 (a # xs @ ys)" using same L2(2) as(1) by (simp add: lru_rep_def same_rest_def)
  moreover have "items L2 (a # xs @ ys) = spec_touch k kvs"
    using same a by (simp add: items_def spec_touch_def same_rest_def)
  moreover have "length (spec_touch k kvs) = length as"
    using a by (simp add: spec_touch_def items_def)
  ultimately have "lru_refines L2 (spec_touch k kvs)"
    using lru_refinesI as(3,4) same by (metis same_rest_def)
  then show ?thesis using L1(1) L2(1) same a(2,3) by (auto simp: same_rest_def)
qed

lemma lru_inner_None:
  assumes "lru_refines L kvs" "map_of (lru_inner L) k = None"
  shows "map_of kvs k = None"
  using assms lru_rep_lookup(2) by (auto simp: lru_refines_def)

lemma lru_inner_None_iff: "lru_refines L kvs \<Longrightarrow> map_of (lru_inner L) k = None \<longleftrightarrow> map_of kvs k = None"
  using lru_inner_None touch_path by (metis not_None_eq option.distinct(1))

lemma spec_touch_None: "map_of kvs k = None \<Longrightarrow> spec_touch k kvs = kvs"
  by (simp add: spec_touch_def)

lemma deref_payload: "payload L a = Some (k, v) \<Longrightarrow> \<exists>n. deref L a = Ok n \<and> n_key n = k \<and> n_val n = v"
  by (auto simp: payload_def deref_def)

lemma lru_get_refines:
  assumes "lru_refines L kvs"
  shows "\<exists>L'. lru_get L k = Ok (map_of kvs k, L') \<and> lru_refines L' (spec_touch k kvs) \<and> lru_cap L' = lru_cap L"
proof (cases "map_of (lru_inner L) k")
  case None
  then show ?thesis using assms lru_inner_None [OF assms] by (simp add: lru_get_def spec_touch_None)
next
  case (Some a)
  show ?thesis using touch_path [OF assms Some] Some by (auto simp: lru_get_def dest!: deref_payload)
qed

lemma lru_remove_refines:
  assumes "lru_refines L kvs"
  shows "\<exists>L'. lru_remove L k = Ok (map_of kvs k, L') \<and>
    lru_refines L' (filter (\<lambda>(k', _). k' \<noteq> k) kvs) \<and> lru_cap L' = lru_cap L"
proof -
  obtain as where as: "lru_rep L as" "kvs = items L as" "1 \<le> lru_cap L" "length as \<le> lru_cap L"
    using assms by (rule lru_refinesE)
  have len: "length (filter (\<lambda>(k', _). k' \<noteq> k) kvs) \<le> lru_cap L"
    using assms length_filter_le le_trans unfolding lru_refines_def by blast
  obtain old L1 as1 where *: "unlink_old L k = Ok (old, L1)" "lru_rep L1 as1"
      "items L1 as1 = filter (\<lambda>(k', _). k' \<noteq> k) kvs" "payload L1 = payload L" "lru_cap L1 = lru_cap L"
      "case old of None \<Rightarrow> map_of kvs k = None
       | Some b \<Rightarrow> b \<in> set as \<and> b \<notin> set as1 \<and> (\<exists>v. payload L b = Some (k, v) \<and> map_of kvs k = Some v)"
    using unlink_old_rep [OF as(1), of k, folded as(2)] by blast
  have rem: "lru_remove L k = and_then (unlink_old L k) (\<lambda>(old, L1).
      case old of None \<Rightarrow> Ok (None, L1)
      | Some b \<Rightarrow> and_then (box_from_raw L1 b) (\<lambda>(n, L2). Ok (Some (n_val n), L2)))"
    by (cases "map_of (lru_inner L) k";
        cases "detach (L\<lparr>lru_inner := hm_remove k (lru_inner L)\<rparr>) (the (map_of (lru_inner L) k))")
      (simp_all add: lru_remove_def unlink_old_def)
  show ?thesis
  proof (cases old)
    case None
    then show ?thesis using * rem as(3) len lru_refinesI [OF *(2,3)] by auto
  next
    case (Some b)
    then obtain v where v: "payload L1 b = Some (k, v)" "map_of kvs k = Some v" "b \<notin> set as1"
      using * by auto
    obtain n L2 where "box_from_raw L1 b = Ok (n, L2)" "n_val n = v" "lru_rep L2 as1"
        "items L2 as1 = items L1 as1" "lru_cap L2 = lru_cap L1"
      using box_from_raw_rep [OF *(2) v(3,1)] by blast
    then show ?thesis using * rem as(3) len lru_refinesI [of L2 as1] v Some by auto
  qed
qed

lemma lru_get_or_insert_hit:
  assumes "lru_refines L kvs" "map_of kvs k = Some v"
  shows "\<exists>L'. lru_get_or_insert L k f = Ok (v, L') \<and> lru_refines L' (spec_touch k kvs) \<and>
    lru_cap L' = lru_cap L"
proof -
  obtain a where a: "map_of (lru_inner L) k = Some a"
    using lru_inner_None_iff [OF assms(1), of k] assms(2) by auto
  show ?thesis using touch_path [OF assms(1) a] a assms(2)
    by (auto simp: lru_get_or_insert_def get_or_insert_node_def dest!: deref_payload)
qed

lemma lru_get_or_insert_miss:
  assumes "lru_refines L kvs" "map_of kvs k = None"
  shows "f k = Ok v \<Longrightarrow> \<exists>L'. lru_get_or_insert L k f = Ok (v, L') \<and>
      lru_refines L' (spec_put (lru_cap L) k v kvs) \<and> lru_cap L' = lru_cap L"
    and "f k = Err e \<Longrightarrow> lru_get_or_insert L k f = Err e"
    and "f k = Panic \<Longrightarrow> lru_get_or_insert L k f = Panic"
proof -
  have none: "map_of (lru_inner L) k = None"
    using lru_inner_None_iff [OF assms(1)] assms(2) by simp
  then show "f k = Err e \<Longrightarrow> lru_get_or_insert L k f = Err e"
    "f k = Panic \<Longrightarrow> lru_get_or_insert L k f = Panic"
    by (simp_all add: lru_get_or_insert_def get_or_insert_node_def)
  assume f: "f k = Ok v"
  obtain a L0 where leak: "box_leak L (node_new k v) = (a, L0)" by fastforce
  obtain as0 where "lru_rep L as0" using assms(1) by (rule lru_refinesE)
  then have pay: "payload L0 a = Some (k, v)" using box_leak_rep(4) [OF _ leak] by blast
  obtain old L1 L2 L3 as where *: "unlink_old L0 k = Ok (old, L1)" "expulsion L1 = Ok L2"
      "attach L2 a = Ok L3" "lru_rep (L3\<lparr>lru_inner := hm_insert k a (lru_inner L3)\<rparr>) as"
      "items L3 as = spec_put (lru_cap L) k v kvs" "lru_cap L3 = lru_cap L" "payload L3 = payload L0"
    using insert_path [OF assms(1) leak] by blast
  let ?L4 = "L3\<lparr>lru_inner := hm_insert k a (lru_inner L3)\<rparr>"
  have "1 \<le> lru_cap L" "length (spec_put (lru_cap L) k v kvs) \<le> lru_cap L"
    using assms(1) length_spec_put by (auto simp: lru_refines_def)
  then have "lru_refines ?L4 (spec_put (lru_cap L) k v kvs)"
    using lru_refinesI [OF *(4)] *(5,6) by simp
  moreover obtain n where "deref ?L4 a = Ok n" "n_val n = v"
    using deref_payload [of ?L4 a k v] pay *(7) by auto
  ultimately show "\<exists>L'. lru_get_or_insert L k f = Ok (v, L') \<and>
      lru_refines L' (spec_put (lru_cap L) k v kvs) \<and> lru_cap L' = lru_cap L"
    using none f leak *(1-3,6) by (auto simp: lru_get_or_insert_def get_or_insert_node_def)
qed

lemma lru_len_refines: "lru_refines L kvs \<Longrightarrow> lru_len L = length kvs"
  by (auto simp: lru_refines_def lru_rep_def lru_len_def items_def dest: inner_ok_length)

lemma lru_is_empty_refines: "lru_refines L kvs \<Longrightarrow> lru_is_empty L \<longleftrightarrow> kvs = []"
  using lru_len_refines [of L kvs] by (auto simp: lru_len_def lru_is_empty_def)

lemma lru_iter_refines:
  assumes "lru_refines L kvs"
  shows "\<exists>xs. lru_iter L = Ok xs \<and> mset xs = mset kvs"
proof -
  obtain as where as: "lru_rep L as" "kvs = items L as"
    using assms by (rule lru_refinesE)
  have m: "mset (lru_inner L) = mset (map (\<lambda>a. (fst (the (payload L a)), a)) as)"
    using as(1) by (simp add: lru_rep_def inner_ok_def)
  have "(\<lambda>(_, a). and_then (deref L a) (\<lambda>n. Ok (n_key n, n_val n))) x = Ok (the (payload L (snd x)))"
    if "x \<in> set (lru_inner L)" for x
  proof -
    have "snd x \<in> set as" using that mset_eq_setD [OF m] by auto
    then obtain k v where "payload L (snd x) = Some (k, v)" using lru_rep_alloc(1) [OF as(1)] by blast
    then show ?thesis by (cases x) (auto simp: payload_def deref_def)
  qed
  then have "lru_iter L = Ok (map (\<lambda>x. the (payload L (snd x))) (lru_inner L))"
    unfolding lru_iter_def by (rule collect_ok_map)
  moreover have "mset (map (\<lambda>x. the (payload L (snd x))) (lru_inner L)) = mset kvs"
    using m as(2) by (simp add: items_def multiset.map_comp comp_def)
  ultimately show ?thesis by blast
qed

text \<open>Dropping the cache frees exactly the nodes of the list.\<close>

lemma lru_drop_linked:
  assumes "linked (lru_store L) p as None" "distinct as" "lru_head L = first_ptr as None"
  shows "\<exists>L'. lru_drop (length as) L = Ok L' \<and>
    lru_store L' = (\<lambda>a. if a \<in> set as then None else lru_store L a)"
  using assms
proof (induction as arbitrary: L p)
  case Nil
  then show ?case by (simp add: lru_drop.simps)
next
  case (Cons a as)
  then obtain n where n: "lru_store L a = Some n" "n_next n = first_ptr as None" by auto
  let ?L1 = "L\<lparr>lru_store := (lru_store L)(a := None), lru_head := first_ptr as None\<rparr>"
  have "linked (lru_store ?L1) (Some a) as None" using Cons.prems by simp
  from Cons.IH [OF this] obtain L' where L': "lru_drop (length as) ?L1 = Ok L'"
      "lru_store L' = (\<lambda>b. if b \<in> set as then None else lru_store ?L1 b)"
    using Cons.prems by auto
  moreover have "lru_drop (length (a # as)) L = lru_drop (length as) ?L1"
    using Cons.prems n by (subst lru_drop.simps) (simp add: box_from_raw_def deref_def)
  ultimately show ?case by (auto simp: fun_eq_iff)
qed

section \<open>The interface of a loading cache\<close>

text \<open>What a client of \<open>get_or_insert\<close> may rely on. A cache whose entries all come from one loading
  function answers exactly as that function: it is transparent, whatever it evicts.\<close>

locale loading_cache =
  fixes get_or_insert :: "'c \<Rightarrow> 'k \<Rightarrow> ('k \<Rightarrow> 'v outcome) \<Rightarrow> ('v \<times> 'c) outcome"
    and inv :: "'c \<Rightarrow> bool"
    and cached :: "'c \<Rightarrow> 'k \<Rightarrow> 'v option"
  assumes hit: "inv c \<Longrightarrow> cached c k = Some v \<Longrightarrow>
      \<exists>c'. get_or_insert c k f = Ok (v, c') \<and> inv c' \<and> cached c' = cached c"
    and load: "inv c \<Longrightarrow> cached c k = None \<Longrightarrow> f k = Ok v \<Longrightarrow>
      \<exists>c'. get_or_insert c k f = Ok (v, c') \<and> inv c' \<and> cached c' \<subseteq>\<^sub>m (cached c)(k \<mapsto> v)"
    and load_err: "inv c \<Longrightarrow> cached c k = None \<Longrightarrow> f k = Err e \<Longrightarrow> get_or_insert c k f = Err e"
    and load_panic: "inv c \<Longrightarrow> cached c k = None \<Longrightarrow> f k = Panic \<Longrightarrow> get_or_insert c k f = Panic"
begin

definition consistent :: "('k \<Rightarrow> 'v outcome) \<Rightarrow> 'c \<Rightarrow> bool" where
  "consistent src c \<longleftrightarrow> inv c \<and> (\<forall>k v. cached c k = Some v \<longrightarrow> src k = Ok v)"

lemma get_or_insert_transparent:
  assumes "consistent src c" "f k = src k"
  shows "\<exists>c'. consistent src c' \<and> get_or_insert c k f = and_then (src k) (\<lambda>v. Ok (v, c'))"
proof (cases "cached c k")
  case (Some v)
  then show ?thesis using assms hit [of c k v f] by (auto simp: consistent_def)
next
  case None
  show ?thesis
  proof (cases "src k")
    case (Ok v)
    obtain c' where c': "get_or_insert c k f = Ok (v, c')" "inv c'" "cached c' \<subseteq>\<^sub>m (cached c)(k \<mapsto> v)"
      using load [of c k f v] None Ok assms by (auto simp: consistent_def)
    have "src k' = Ok v'" if "cached c' k' = Some v'" for k' v'
      using that c'(3) assms(1) Ok
      by (cases "k' = k") (force simp: map_le_def consistent_def dom_def)+
    then show ?thesis using c' Ok by (auto simp: consistent_def)
  qed (use None assms load_err load_panic in \<open>auto simp: consistent_def\<close>)
qed

end

section \<open>One cache is a loading cache\<close>

definition lru_peek :: "('k, 'v) lru_cache \<Rightarrow> 'k \<Rightarrow> 'v option" where
  "lru_peek L k =
     (case map_of (lru_inner L) k of None \<Rightarrow> None | Some a \<Rightarrow> map_option snd (payload L a))"

lemma lru_peek_refines:
  assumes "lru_refines L kvs"
  shows "lru_peek L = map_of kvs"
proof
  fix k
  obtain as where as: "lru_rep L as" "kvs = items L as"
    using assms by (rule lru_refinesE)
  show "lru_peek L k = map_of kvs k"
    using lru_rep_lookup [OF as(1), of k] as(2)
    by (cases "map_of (lru_inner L) k") (fastforce simp: lru_peek_def)+
qed

lemma map_of_spec_touch: "map_of (spec_touch k kvs) = map_of kvs"
  by (rule ext)
    (simp add: spec_touch_def map_of_filter_key [of "\<lambda>k'. k' \<noteq> k", unfolded case_prod_unfold]
      case_prod_unfold split: option.splits)

lemma map_of_butlast_le: "distinct (map fst kvs) \<Longrightarrow> map_of (butlast kvs) \<subseteq>\<^sub>m map_of kvs"
  by (induction kvs rule: rev_induct) (auto simp: map_le_def map_add_def split: option.splits dest: map_of_SomeD)

lemma map_of_spec_put_le:
  assumes "distinct (map fst kvs)"
  shows "map_of (spec_put capacity k v kvs) \<subseteq>\<^sub>m (map_of kvs)(k \<mapsto> v)"
proof -
  let ?rest = "filter (\<lambda>(k', _). k' \<noteq> k) kvs"
  have "map_of (if capacity \<le> length ?rest then butlast ?rest else ?rest) \<subseteq>\<^sub>m map_of ?rest"
    using map_of_butlast_le [of ?rest] assms by (simp add: distinct_map_filter)
  also have "map_of ?rest \<subseteq>\<^sub>m map_of kvs"
    by (auto simp: map_le_def map_of_filter_key)
  finally show ?thesis
    unfolding spec_put_def Let_def by (auto simp: map_le_def dom_def)
qed

interpretation lru: loading_cache lru_get_or_insert "\<lambda>L. \<exists>kvs. lru_refines L kvs" lru_peek
proof unfold_locales
  fix L :: "('a, 'b) lru_cache" and k and v :: 'b and f :: "'a \<Rightarrow> 'b outcome"
  assume "\<exists>kvs. lru_refines L kvs" "lru_peek L k = Some v"
  then show "\<exists>L'. lru_get_or_insert L k f = Ok (v, L') \<and> (\<exists>kvs. lru_refines L' kvs) \<and> lru_peek L' = lru_peek L"
    by (metis lru_get_or_insert_hit lru_peek_refines map_of_spec_touch)
next
  fix L :: "('a, 'b) lru_cache" and k and v :: 'b and f :: "'a \<Rightarrow> 'b outcome"
  assume "\<exists>kvs. lru_refines L kvs" and *: "lru_peek L k = None" "f k = Ok v"
  then obtain kvs where kvs: "lru_refines L kvs" by blast
  have "map_of (spec_put (lru_cap L) k v kvs) \<subseteq>\<^sub>m (lru_peek L)(k \<mapsto> v)"
    using map_of_spec_put_le lru_refines_distinct [OF kvs] lru_peek_refines [OF kvs] by metis
  then show "\<exists>L'. lru_get_or_insert L k f = Ok (v, L') \<and> (\<exists>kvs. lru_refines L' kvs) \<and>
      lru_peek L' \<subseteq>\<^sub>m (lru_peek L)(k \<mapsto> v)"
    using lru_get_or_insert_miss(1) [of L kvs k f v] lru_peek_refines kvs * by metis
next
  fix L :: "('a, 'b) lru_cache" and k and f :: "'a \<Rightarrow> 'b outcome" and e
  assume "\<exists>kvs. lru_refines L kvs" "lru_peek L k = None"
  then show "f k = Err e \<Longrightarrow> lru_get_or_insert L k f = Err e"
    "f k = Panic \<Longrightarrow> lru_get_or_insert L k f = Panic"
    using lru_get_or_insert_miss(2,3) lru_peek_refines by (metis, metis)
qed

section \<open>The sharded cache\<close>

record ('k, 'v) sharding_lru_cache =
  sharding_vec :: "('k, 'v) lru_cache list"
  cache_hash :: "'k \<Rightarrow> 64 word"

definition sharding_new ::
  "nat \<Rightarrow> nat \<Rightarrow> ('k \<Rightarrow> 64 word) \<Rightarrow> ('k, 'v) sharding_lru_cache outcome" where
  "sharding_new capacity sharding_size hasher =
     (if sharding_size = 0 then Panic
      else if capacity mod sharding_size \<noteq> 0 then Err ShardingNotAlign
      else and_then (collect_ok (replicate sharding_size (lru_new (capacity div sharding_size)))) (\<lambda>ls.
             Ok \<lparr>sharding_vec = ls, cache_hash = hasher\<rparr>))"

definition shard_index :: "('k, 'v) sharding_lru_cache \<Rightarrow> 'k \<Rightarrow> nat outcome" where
  "shard_index S k =
     (if sharding_vec S = [] then Panic
      else Ok (unat (cache_hash S k) mod length (sharding_vec S)))"

text \<open>Lock the shard of a key, run an operation on it and keep its new state.\<close>

definition with_shard ::
  "('k, 'v) sharding_lru_cache \<Rightarrow> 'k \<Rightarrow>
   (('k, 'v) lru_cache \<Rightarrow> ('r \<times> ('k, 'v) lru_cache) outcome) \<Rightarrow> ('r \<times> ('k, 'v) sharding_lru_cache) outcome" where
  "with_shard S k oper =
     and_then (shard_index S k) (\<lambda>i.
     and_then (oper (sharding_vec S ! i)) (\<lambda>(r, L).
     Ok (r, S\<lparr>sharding_vec := (sharding_vec S)[i := L]\<rparr>)))"

definition sharding_get ::
  "('k, 'v) sharding_lru_cache \<Rightarrow> 'k \<Rightarrow> ('v option \<times> ('k, 'v) sharding_lru_cache) outcome" where
  "sharding_get S k = with_shard S k (\<lambda>L.
     and_then (get_node L k) (\<lambda>(p, L1).
       case p of None \<Rightarrow> Ok (None, L1)
       | Some a \<Rightarrow> and_then (deref L1 a) (\<lambda>n. Ok (Some (n_val n), L1))))"

definition sharding_put ::
  "('k, 'v) sharding_lru_cache \<Rightarrow> 'k \<Rightarrow> 'v \<Rightarrow> ('v option \<times> ('k, 'v) sharding_lru_cache) outcome" where
  "sharding_put S k v = with_shard S k (\<lambda>L. lru_put L k v)"

definition sharding_remove ::
  "('k, 'v) sharding_lru_cache \<Rightarrow> 'k \<Rightarrow> ('v option \<times> ('k, 'v) sharding_lru_cache) outcome" where
  "sharding_remove S k = with_shard S k (\<lambda>L. lru_remove L k)"

definition sharding_is_empty :: "('k, 'v) sharding_lru_cache \<Rightarrow> bool" where
  "sharding_is_empty S \<longleftrightarrow> list_all lru_is_empty (sharding_vec S)"

definition sharding_get_or_insert ::
  "('k, 'v) sharding_lru_cache \<Rightarrow> 'k \<Rightarrow> ('k \<Rightarrow> 'v outcome) \<Rightarrow>
   ('v \<times> ('k, 'v) sharding_lru_cache) outcome" where
  "sharding_get_or_insert S k fn_once = with_shard S k (\<lambda>L. lru_get_or_insert L k fn_once)"

definition sharding_inv :: "('k, 'v) sharding_lru_cache \<Rightarrow> bool" where
  "sharding_inv S \<longleftrightarrow> sharding_vec S \<noteq> [] \<and> (\<forall>L\<in>set (sharding_vec S). \<exists>kvs. lru_refines L kvs)"

definition home_shard :: "('k, 'v) sharding_lru_cache \<Rightarrow> 'k \<Rightarrow> nat" where
  "home_shard S k = unat (cache_hash S k) mod length (sharding_vec S)"

definition sharding_peek :: "('k, 'v) sharding_lru_cache \<Rightarrow> 'k \<Rightarrow> 'v option" where
  "sharding_peek S k = lru_peek (sharding_vec S ! home_shard S k) k"

lemma with_shard_home:
  assumes "sharding_inv S"
  shows "with_shard S k oper = and_then (oper (sharding_vec S ! home_shard S k)) (\<lambda>(r, L).
    Ok (r, S\<lparr>sharding_vec := (sharding_vec S)[home_shard S k := L]\<rparr>))"
    and "home_shard S k < length (sharding_vec S)"
    and "\<exists>kvs. lru_refines (sharding_vec S ! home_shard S k) kvs"
proof -
  show lt: "home_shard S k < length (sharding_vec S)"
    using assms by (simp add: sharding_inv_def home_shard_def)
  then show "\<exists>kvs. lru_refines (sharding_vec S ! home_shard S k) kvs"
    using assms by (simp add: sharding_inv_def)
qed (use assms in \<open>simp add: with_shard_def shard_index_def sharding_inv_def home_shard_def\<close>)

lemma home_shard_update [simp]:
  "home_shard (S\<lparr>sharding_vec := (sharding_vec S)[i := L]\<rparr>) k = home_shard S k"
  by (simp add: home_shard_def)

lemma sharding_inv_update:
  "sharding_inv S \<Longrightarrow> lru_refines L kvs \<Longrightarrow> sharding_inv (S\<lparr>sharding_vec := (sharding_vec S)[i := L]\<rparr>)"
  by (auto simp: sharding_inv_def dest: set_update_subset_insert [THEN subsetD])

lemma sharding_peek_update:
  assumes "sharding_inv S"
  shows "sharding_peek (S\<lparr>sharding_vec := (sharding_vec S)[home_shard S k := L]\<rparr>) k' =
    (if home_shard S k' = home_shard S k then lru_peek L k' else sharding_peek S k')"
  using with_shard_home(2) [OF assms, of k] by (simp add: sharding_peek_def)

interpretation sharded: loading_cache sharding_get_or_insert sharding_inv sharding_peek
proof unfold_locales
  fix S :: "('a, 'b) sharding_lru_cache" and k and v :: 'b and f :: "'a \<Rightarrow> 'b outcome"
  assume inv: "sharding_inv S" and hit: "sharding_peek S k = Some v"
  let ?L = "sharding_vec S ! home_shard S k"
  obtain L' where L': "lru_get_or_insert ?L k f = Ok (v, L')" "\<exists>kvs. lru_refines L' kvs"
      "lru_peek L' = lru_peek ?L"
    using lru.hit [OF with_shard_home(3) [OF inv], of k k v f] hit by (auto simp: sharding_peek_def)
  let ?S = "S\<lparr>sharding_vec := (sharding_vec S)[home_shard S k := L']\<rparr>"
  have "sharding_peek ?S = sharding_peek S"
    using L'(3) by (auto simp: fun_eq_iff sharding_peek_update [OF inv]) (simp add: sharding_peek_def)
  then show "\<exists>S'. sharding_get_or_insert S k f = Ok (v, S') \<and> sharding_inv S' \<and> sharding_peek S' = sharding_peek S"
    using L' sharding_inv_update [OF inv]
    by (auto simp: sharding_get_or_insert_def with_shard_home(1) [OF inv])
next
  fix S :: "('a, 'b) sharding_lru_cache" and k and v :: 'b and f :: "'a \<Rightarrow> 'b outcome"
  assume inv: "sharding_inv S" and miss: "sharding_peek S k = None" and f: "f k = Ok v"
  let ?L = "sharding_vec S ! home_shard S k"
  obtain L' where L': "lru_get_or_insert ?L k f = Ok (v, L')" "\<exists>kvs. lru_refines L' kvs"
      "lru_peek L' \<subseteq>\<^sub>m (lru_peek ?L)(k \<mapsto> v)"
    using lru.load [OF with_shard_home(3) [OF inv], of k k f v] miss f by (auto simp: sharding_peek_def)
  let ?S = "S\<lparr>sharding_vec := (sharding_vec S)[home_shard S k := L']\<rparr>"
  have "sharding_peek ?S a = ((sharding_peek S)(k \<mapsto> v)) a" if "sharding_peek ?S a \<noteq> None" for a
  proof (cases "home_shard S a = home_shard S k")
    case True
    then have "a \<in> dom (lru_peek L')" using that by (auto simp: sharding_peek_update [OF inv])
    then have "lru_peek L' a = ((lru_peek ?L)(k \<mapsto> v)) a" using L'(3) unfolding map_le_def by blast
    then show ?thesis using True
      by (simp add: sharding_peek_update [OF inv]) (simp add: sharding_peek_def)
  qed (auto simp: sharding_peek_update [OF inv])
  then have "sharding_peek ?S \<subseteq>\<^sub>m (sharding_peek S)(k \<mapsto> v)" by (simp add: map_le_def dom_def)
  then show "\<exists>S'. sharding_get_or_insert S k f = Ok (v, S') \<and> sharding_inv S' \<and>
      sharding_peek S' \<subseteq>\<^sub>m (sharding_peek S)(k \<mapsto> v)"
    using L' sharding_inv_update [OF inv]
    by (auto simp: sharding_get_or_insert_def with_shard_home(1) [OF inv])
next
  fix S :: "('a, 'b) sharding_lru_cache" and k and f :: "'a \<Rightarrow> 'b outcome" and e
  assume inv: "sharding_inv S" and "sharding_peek S k = None"
  then show "f k = Err e \<Longrightarrow> sharding_get_or_insert S k f = Err e"
    "f k = Panic \<Longrightarrow> sharding_get_or_insert S k f = Panic"
    using lru.load_err [OF with_shard_home(3) [OF inv, of k], of k f e]
      lru.load_panic [OF with_shard_home(3) [OF inv, of k], of k f]
    by (simp_all add: sharding_get_or_insert_def with_shard_home(1) [OF inv] sharding_peek_def)
qed

text \<open>An operation on the shard of a key whose effect on the cached pairs is bounded by \<open>m\<close>.\<close>

lemma with_shard_peek:
  assumes inv: "sharding_inv S" and oper: "oper (sharding_vec S ! home_shard S k) = Ok (r, L)" and L: "lru_refines L kvs"
    and le: "lru_peek L \<subseteq>\<^sub>m (lru_peek (sharding_vec S ! home_shard S k))(k := w)"
  shows "\<exists>S'. with_shard S k oper = Ok (r, S') \<and> sharding_inv S' \<and> sharding_peek S' \<subseteq>\<^sub>m (sharding_peek S)(k := w)"
proof -
  let ?S = "S\<lparr>sharding_vec := (sharding_vec S)[home_shard S k := L]\<rparr>"
  have "sharding_peek ?S a = ((sharding_peek S)(k := w)) a" if "sharding_peek ?S a \<noteq> None" for a
  proof (cases "home_shard S a = home_shard S k")
    case True
    then have "a \<in> dom (lru_peek L)" using that by (auto simp: sharding_peek_update [OF inv])
    then have "lru_peek L a = ((lru_peek (sharding_vec S ! home_shard S k))(k := w)) a" using le unfolding map_le_def by blast
    then show ?thesis using True by (simp add: sharding_peek_update [OF inv]) (simp add: sharding_peek_def)
  qed (auto simp: sharding_peek_update [OF inv])
  then have "sharding_peek ?S \<subseteq>\<^sub>m (sharding_peek S)(k := w)" by (simp add: map_le_def dom_def)
  then show ?thesis using oper sharding_inv_update [OF inv L] by (auto simp: with_shard_home(1) [OF inv])
qed

lemma sharding_put_peek:
  assumes "sharding_inv S"
  shows "\<exists>old S'. sharding_put S k v = Ok (old, S') \<and> sharding_inv S' \<and> sharding_peek S' \<subseteq>\<^sub>m (sharding_peek S)(k \<mapsto> v)"
proof -
  obtain kvs where kvs: "lru_refines (sharding_vec S ! home_shard S k) kvs" using with_shard_home(3) [OF assms] by blast
  obtain L where L: "lru_put (sharding_vec S ! home_shard S k) k v = Ok (map_of kvs k, L)"
      "lru_refines L (spec_put (lru_cap (sharding_vec S ! home_shard S k)) k v kvs)"
    using lru_put_refines [OF kvs] by blast
  show ?thesis
    using with_shard_peek [OF assms _ L(2), of "\<lambda>L. lru_put L k v" k] L(1) map_of_spec_put_le [OF lru_refines_distinct [OF kvs]]
    by (simp add: sharding_put_def lru_peek_refines [OF kvs] lru_peek_refines [OF L(2)]) blast
qed

lemma sharding_remove_peek:
  assumes "sharding_inv S"
  shows "\<exists>old S'. sharding_remove S k = Ok (old, S') \<and> sharding_inv S' \<and> sharding_peek S' \<subseteq>\<^sub>m (sharding_peek S)(k := None)"
proof -
  obtain kvs where kvs: "lru_refines (sharding_vec S ! home_shard S k) kvs" using with_shard_home(3) [OF assms] by blast
  obtain L where L: "lru_remove (sharding_vec S ! home_shard S k) k = Ok (map_of kvs k, L)"
      "lru_refines L (filter (\<lambda>(k', _). k' \<noteq> k) kvs)"
    using lru_remove_refines [OF kvs] by blast
  have "map_of (filter (\<lambda>(k', _). k' \<noteq> k) kvs) \<subseteq>\<^sub>m (map_of kvs)(k := None)"
    by (auto simp: map_le_def map_of_filter_key)
  then show ?thesis
    using with_shard_peek [OF assms _ L(2), of "\<lambda>L. lru_remove L k" k] L(1)
    by (simp add: sharding_remove_def lru_peek_refines [OF kvs] lru_peek_refines [OF L(2)]) blast
qed

lemma sharding_new_inv:
  assumes "sharding_size > 0" "capacity mod sharding_size = 0" "capacity > 0"
  shows "\<exists>S. sharding_new capacity sharding_size hasher = Ok S \<and> sharding_inv S \<and>
    sharding_peek S = (\<lambda>_. None) \<and> length (sharding_vec S) = sharding_size"
proof -
  have "capacity div sharding_size \<ge> 1" using assms by (auto simp: div_greater_zero_iff Suc_le_eq)
  then obtain L :: "('a, 'b) lru_cache" where L: "lru_new (capacity div sharding_size) = Ok L" "lru_refines L []"
    using lru_new_refines by blast
  have "collect_ok (replicate n (lru_new (capacity div sharding_size))) = Ok (replicate n L)" for n
    by (induction n) (simp_all add: L)
  then show ?thesis using assms L lru_peek_refines [OF L(2)]
    by (auto simp: sharding_new_def sharding_inv_def sharding_peek_def home_shard_def fun_eq_iff)
qed

section \<open>Properties\<close>

text \<open>C18: \<open>LruCache::put\<close> on the pointer structure refines the list specification: it returns the
  old value of the key, moves the new pair to the front and, when the cache is full, evicts the
  least recently used pair. No freed or unallocated node is ever dereferenced.\<close>

theorem lru_put_correct:
  assumes "lru_refines L kvs"
  shows "\<exists>L'. lru_put L k v = Ok (map_of kvs k, L') \<and> lru_refines L' (spec_put (lru_cap L) k v kvs)"
  using lru_put_refines [OF assms] by blast

definition sample_lru :: "(nat, nat) lru_cache" where
  "sample_lru = \<lparr>lru_head = Some 1, lru_tail = Some 0, lru_inner = [(8, 1), (7, 0)], lru_cap = 2,
     lru_store = [0 \<mapsto> \<lparr>n_key = 7, n_val = 70, n_prev = Some 1, n_next = None\<rparr>,
                  1 \<mapsto> \<lparr>n_key = 8, n_val = 80, n_prev = None, n_next = Some 0\<rparr>],
     lru_fresh = 2\<rparr>"

lemma sample_lru_refines: "lru_refines sample_lru [(8, 80), (7, 70)]"
proof (rule lru_refinesI [of _ "[1, 0]"])
  show "lru_rep sample_lru [1, 0]"
    by (auto simp: lru_rep_def links_def inner_ok_def payload_def sample_lru_def)
qed (simp_all add: sample_lru_def items_def payload_def)

theorem lru_put_correct_witness:
  "\<exists>L'. lru_put sample_lru 9 90 = Ok (None, L') \<and> lru_refines L' [(9, 90), (8, 80)]"
  using lru_put_correct [OF sample_lru_refines, of 9 90] by (simp add: spec_put_def sample_lru_def)

text \<open>\<open>LruCache::get\<close> returns the cached value and makes its pair the most recently used one;
  \<open>LruCache::remove\<close> returns the value and unlinks exactly that pair.\<close>

theorem lru_get_remove_correct:
  assumes "lru_refines L kvs"
  shows "(\<exists>L'. lru_get L k = Ok (map_of kvs k, L') \<and> lru_refines L' (spec_touch k kvs)) \<and>
    (\<exists>L'. lru_remove L k = Ok (map_of kvs k, L') \<and> lru_refines L' (filter (\<lambda>(k', _). k' \<noteq> k) kvs))"
  using lru_get_refines [OF assms] lru_remove_refines [OF assms] by blast

theorem lru_get_remove_correct_witness:
  "(\<exists>L'. lru_get sample_lru 7 = Ok (Some 70, L') \<and> lru_refines L' [(7, 70), (8, 80)]) \<and>
   (\<exists>L'. lru_remove sample_lru 7 = Ok (Some 70, L') \<and> lru_refines L' [(8, 80)])"
  using lru_get_remove_correct [OF sample_lru_refines, of 7] by (simp add: spec_touch_def)

text \<open>C19: a sharded cache filled by one loading function is transparent: whatever was inserted
  and evicted before, \<open>get_or_insert\<close> gives what the loading function gives, errors included, and
  leaves a cache with the same property.\<close>

theorem sharding_cache_transparent:
  assumes "sharding_inv S" "\<forall>k v. sharding_peek S k = Some v \<longrightarrow> src k = Ok v"
  shows "\<exists>S'. sharding_get_or_insert S k src = and_then (src k) (\<lambda>v. Ok (v, S')) \<and>
    sharding_inv S' \<and> (\<forall>k v. sharding_peek S' k = Some v \<longrightarrow> src k = Ok v)"
  using sharded.get_or_insert_transparent [of src S src k] assms
  unfolding sharded.consistent_def by blast

definition sample_sharded :: "(nat, nat) sharding_lru_cache" where
  "sample_sharded = \<lparr>sharding_vec = [sample_lru], cache_hash = (\<lambda>_. 5)\<rparr>"

theorem sharding_cache_transparent_witness:
  "\<exists>S'. sharding_get_or_insert sample_sharded 3 (\<lambda>k. Ok (10 * k)) = Ok (30, S') \<and> sharding_inv S'"
proof -
  have "sharding_inv sample_sharded"
    using sample_lru_refines by (auto simp: sharding_inv_def sample_sharded_def)
  moreover have "\<forall>k v. sharding_peek sample_sharded k = Some v \<longrightarrow> Ok (10 * k) = Ok v"
    using lru_peek_refines [OF sample_lru_refines]
    by (simp add: sharding_peek_def home_shard_def sample_sharded_def)
  ultimately show ?thesis
    using sharding_cache_transparent [of sample_sharded "\<lambda>k. Ok (10 * k)" 3] by auto
qed

lemma lru_put_new_key_store:
  assumes "lru_refines L kvs" "map_of kvs k = None" "lru_put L k v = Ok (r, L')"
  shows "dom (payload L') = insert (lru_fresh L) (dom (payload L))"
proof -
  obtain a L0 where leak: "box_leak L (node_new k v) = (a, L0)" by fastforce
  obtain old L1 L2 L3 where *: "unlink_old L0 k = Ok (old, L1)" "expulsion L1 = Ok L2"
      "attach L2 a = Ok L3" "payload L3 = payload L0" "old = None"
    using insert_path [OF assms(1) leak] assms(2) by (auto split: option.splits)
  then have "payload L' = payload L0" using assms(3) leak by (auto simp: lru_put_def)
  then show ?thesis using leak by (auto simp: box_leak_def payload_def split: if_splits)
qed

text \<open>An evicted node is never freed. Putting a new key into a full cache drops the least
  recently used pair from the list, but the nodes allocated afterwards are all the ones allocated
  before plus the new one, so the memory of a cache of fixed capacity grows with every miss.\<close>

theorem lru_eviction_leaks:
  assumes "lru_refines L kvs" "length kvs = lru_cap L" "map_of kvs k = None"
  shows "\<exists>L'. lru_put L k v = Ok (None, L') \<and> lru_refines L' ((k, v) # butlast kvs) \<and>
    {a. lru_store L' a \<noteq> None} = insert (lru_fresh L) {a. lru_store L a \<noteq> None} \<and>
    lru_store L (lru_fresh L) = None"
proof -
  have "filter (\<lambda>(k', _). k' \<noteq> k) kvs = kvs"
    using assms(3) by (force simp: filter_id_conv map_of_eq_None_iff)
  then obtain L' where L': "lru_put L k v = Ok (None, L')" "lru_refines L' ((k, v) # butlast kvs)"
    using lru_put_refines [OF assms(1), of k v] assms(2,3) by (auto simp: spec_put_def)
  have dom: "{a. lru_store M a \<noteq> None} = dom (payload M)" for M :: "('a, 'b) lru_cache"
    by (auto simp: payload_def)
  have "payload L (lru_fresh L) = None"
    using assms(1) less_irrefl unfolding lru_refines_def lru_rep_def by blast
  then show ?thesis using L' lru_put_new_key_store [OF assms(1,3) L'(1)]
    unfolding dom by (auto simp: payload_eq_None_iff)
qed

theorem lru_eviction_leaks_witness:
  "\<exists>L'. lru_put sample_lru 9 90 = Ok (None, L') \<and> lru_refines L' [(9, 90), (8, 80)] \<and>
    {a. lru_store L' a \<noteq> None} = {0, 1, 2}"
proof -
  have "{a. lru_store sample_lru a \<noteq> None} = {0, 1}" by (auto simp: sample_lru_def)
  moreover have "lru_fresh sample_lru = 2" "lru_cap sample_lru = 2" by (simp_all add: sample_lru_def)
  ultimately show ?thesis
    using lru_eviction_leaks [OF sample_lru_refines, of 9 90] by (auto simp: insert_commute)
qed

end
