(* ===== verification/Ss_Table.thy ===== *)
theory Ss_Table
  imports Block_Builder Bloom_Filter Lru_Cache
begin

text \<open>
  The sorted string table: \<open>Footer\<close> (\<open>ss_table/footer.rs\<close>), \<open>MetaBlock\<close> (\<open>ss_table/block.rs\<close>) and
  \<open>SSTable\<close> (\<open>ss_table/mod.rs\<close>) under \<open>src/src/kernel/lsm/table\<close>. A table is its file and the parts kept in
  memory; \<open>SSTable::new\<close> writes the file, \<open>load_from_file\<close> reads footer and meta block back,
  \<open>query\<close> goes through Bloom filter, index block and data block. Blocks are read through the shared
  block cache, whose state is passed along. A read from a file returns all bytes that are there.
\<close>

section \<open>Footer and meta block\<close>

definition TABLE_FOOTER_SIZE :: nat where "TABLE_FOOTER_SIZE = 21"

record footer =
  ft_level :: "8 word"
  ft_index_offset :: "32 word"
  ft_index_len :: "32 word"
  ft_meta_offset :: "32 word"
  ft_meta_len :: "32 word"
  ft_size_of_disk :: "32 word"

definition footer_to_raw :: "crates \<Rightarrow> footer \<Rightarrow> bytes \<Rightarrow> bytes" where
  "footer_to_raw c f out =
     out @ encode_fixed8 c (ft_level f) @ encode_fixed32 c (ft_index_offset f) @
     encode_fixed32 c (ft_index_len f) @ encode_fixed32 c (ft_meta_offset f) @
     encode_fixed32 c (ft_meta_len f) @ encode_fixed32 c (ft_size_of_disk f)"

text \<open>\<open>read_fixedint\<close>: read the width of the type, or fail at the end of the file.\<close>

definition read_fixed8 :: "crates \<Rightarrow> bytes \<Rightarrow> (8 word \<times> bytes) outcome" where
  "read_fixed8 c bs = (if length bs < 1 then Err Io else Ok (decode_fixed8 c (take 1 bs), drop 1 bs))"

definition read_fixed32 :: "crates \<Rightarrow> bytes \<Rightarrow> (32 word \<times> bytes) outcome" where
  "read_fixed32 c bs = (if length bs < 4 then Err Io else Ok (decode_fixed32 c (take 4 bs), drop 4 bs))"

definition footer_read_to_file :: "crates \<Rightarrow> bytes \<Rightarrow> footer outcome" where
  "footer_read_to_file c file =
     (if length file < TABLE_FOOTER_SIZE then Err Io
      else
        and_then (read_fixed8 c (drop (length file - TABLE_FOOTER_SIZE) file)) (\<lambda>(lv, b0).
        and_then (read_fixed32 c b0) (\<lambda>(io, b1).
        and_then (read_fixed32 c b1) (\<lambda>(il, b2).
        and_then (read_fixed32 c b2) (\<lambda>(mo, b3).
        and_then (read_fixed32 c b3) (\<lambda>(ml, b4).
        and_then (read_fixed32 c b4) (\<lambda>(sz, b5).
        Ok \<lparr>ft_level = lv, ft_index_offset = io, ft_index_len = il, ft_meta_offset = mo,
            ft_meta_len = ml, ft_size_of_disk = sz\<rparr>)))))))"

record meta_block =
  mb_filter :: bloom_filter
  mb_len :: nat
  mb_index_restart_interval :: nat
  mb_data_restart_interval :: nat

definition meta_to_raw :: "crates \<Rightarrow> meta_block \<Rightarrow> bytes \<Rightarrow> bytes" where
  "meta_to_raw c m out =
     bloom_to_raw c (mb_filter m)
       (out @ encode_fixed32 c (word_of_nat (mb_len m)) @
        encode_fixed32 c (word_of_nat (mb_index_restart_interval m)) @
        encode_fixed32 c (word_of_nat (mb_data_restart_interval m)))"

definition meta_from_raw :: "crates \<Rightarrow> bytes \<Rightarrow> meta_block outcome" where
  "meta_from_raw c bs =
     and_then (slice_range bs 0 4) (\<lambda>b0.
     and_then (slice_range bs 4 8) (\<lambda>b1.
     and_then (slice_range bs 8 12) (\<lambda>b2.
     and_then (slice_from bs 12) (\<lambda>b3.
     and_then (bloom_from_raw c b3) (\<lambda>f.
     Ok \<lparr>mb_filter = f, mb_len = unat (decode_fixed32 c b0),
         mb_index_restart_interval = unat (decode_fixed32 c b1),
         mb_data_restart_interval = unat (decode_fixed32 c b2)\<rparr>)))))"

section \<open>The table\<close>

record ss_table =
  sst_footer :: footer
  sst_file :: bytes
  sst_gen :: i64
  sst_meta :: meta_block

datatype block_type = Data "block_value block" | Index "block_index block"

type_synonym block_cache = "(i64 \<times> block_index option, block_type) sharding_lru_cache"

fun fill_loop ::
  "hashing \<Rightarrow> key_value list \<Rightarrow> bloom_filter \<Rightarrow> block_builder \<Rightarrow> (bloom_filter \<times> block_builder) outcome" where
  "fill_loop hs [] flt builder = Ok (flt, builder)"
| "fill_loop hs ((k, v) # rest) flt builder =
     and_then (bloom_insert hs flt k) (\<lambda>flt'.
     and_then (builder_add builder (k, value_from v)) (\<lambda>builder'.
     fill_loop hs rest flt' builder'))"

definition ss_table_new ::
  "crates \<Rightarrow> hashing \<Rightarrow> config \<Rightarrow> 64 word \<times> 64 word \<Rightarrow> i64 \<Rightarrow> key_value list \<Rightarrow> nat \<Rightarrow> ss_table outcome" where
  "ss_table_new c hs cfg = (\<lambda>(seed1, seed2) gen vec_data level.
     let len = length vec_data;
         filter0 = bloom_new (bloom_bits_count cfg len) (bloom_hashers_count cfg) seed1 seed2;
         builder0 = builder_new ((block_options_from cfg)\<lparr>bo_compress_type := LZ4\<rparr>)
     in and_then (fill_loop hs vec_data filter0 builder0) (\<lambda>(flt, builder).
        let meta = \<lparr>mb_filter = flt, mb_len = len,
                    mb_index_restart_interval = index_restart_interval cfg,
                    mb_data_restart_interval = data_restart_interval cfg\<rparr>
        in and_then (builder_build c builder) (\<lambda>(bytes0, data_bytes_len, index_bytes_len).
           let bytes1 = meta_to_raw c meta bytes0;
               ft = \<lparr>ft_level = word_of_nat level,
                     ft_index_offset = word_of_nat data_bytes_len,
                     ft_index_len = word_of_nat index_bytes_len,
                     ft_meta_offset = word_of_nat (data_bytes_len + index_bytes_len),
                     ft_meta_len = word_of_nat (length bytes1 - data_bytes_len + index_bytes_len),
                     ft_size_of_disk = word_of_nat (length bytes1 + TABLE_FOOTER_SIZE)\<rparr>
           in Ok \<lparr>sst_footer = ft, sst_file = footer_to_raw c ft bytes1, sst_gen = gen, sst_meta = meta\<rparr>)))"

definition load_from_file :: "crates \<Rightarrow> i64 \<Rightarrow> bytes \<Rightarrow> ss_table outcome" where
  "load_from_file c gen file =
     and_then (footer_read_to_file c file) (\<lambda>ft.
       let buf = fst (read_buf (unat (ft_meta_len ft)) (drop (unat (ft_meta_offset ft)) file))
       in and_then (meta_from_raw c buf) (\<lambda>meta.
          Ok \<lparr>sst_footer = ft, sst_file = file, sst_gen = gen, sst_meta = meta\<rparr>))"

definition loading_block ::
  "crates \<Rightarrow> 'a block_item \<Rightarrow> bytes \<Rightarrow> 32 word \<Rightarrow> nat \<Rightarrow> compress_type \<Rightarrow> nat \<Rightarrow> 'a block outcome" where
  "loading_block c bi file offset len ct restart =
     (if unat offset + len \<le> length file
      then block_decode c bi (take len (drop (unat offset) file)) ct restart
      else Err Io)"

definition data_block :: "crates \<Rightarrow> ss_table \<Rightarrow> block_index \<Rightarrow> block_type outcome" where
  "data_block c t idx =
     map_outcome_ok Data
       (loading_block c value_item (sst_file t) (index_offset idx) (index_len idx) LZ4
         (mb_data_restart_interval (sst_meta t)))"

definition load_index_block :: "crates \<Rightarrow> ss_table \<Rightarrow> block_type outcome" where
  "load_index_block c t =
     map_outcome_ok Index
       (loading_block c index_item (sst_file t) (ft_index_offset (sst_footer t))
         (unat (ft_index_len (sst_footer t))) No_Compression (mb_index_restart_interval (sst_meta t)))"

definition index_block ::
  "crates \<Rightarrow> ss_table \<Rightarrow> block_cache \<Rightarrow> (block_index block \<times> block_cache) outcome" where
  "index_block c t S =
     and_then (sharding_get_or_insert S (sst_gen t, None) (\<lambda>_. load_index_block c t)) (\<lambda>(bt, S1).
       case bt of Index b \<Rightarrow> Ok (b, S1) | Data _ \<Rightarrow> Err DataEmpty)"

text \<open>The closure that \<open>query\<close> and \<open>SSTableIter::data_iter_init\<close> pass to the cache.\<close>

fun load_data_block :: "crates \<Rightarrow> ss_table \<Rightarrow> i64 \<times> block_index option \<Rightarrow> block_type outcome" where
  "load_data_block c t (_, Some idx) = data_block c t idx"
| "load_data_block c t (_, None) = Err DataEmpty"

definition ss_table_query ::
  "crates \<Rightarrow> hashing \<Rightarrow> ss_table \<Rightarrow> block_cache \<Rightarrow> bytes \<Rightarrow> (key_value option \<times> block_cache) outcome" where
  "ss_table_query c hs t S key =
     and_then (bloom_contains hs (mb_filter (sst_meta t)) key) (\<lambda>maybe.
     if maybe then
       and_then (index_block c t S) (\<lambda>(ib, S1).
       and_then (find_with_upper ib key) (\<lambda>idx.
       and_then (sharding_get_or_insert S1 (sst_gen t, Some idx) (load_data_block c t)) (\<lambda>(bt, S2).
         case bt of
           Data db \<Rightarrow> and_then (block_find db key) (\<lambda>(v, found).
             Ok (if found then Some (key, v) else None, S2))
         | Index _ \<Rightarrow> Ok (None, S2))))
     else Ok (None, S))"

definition ss_table_len :: "ss_table \<Rightarrow> nat" where
  "ss_table_len t = mb_len (sst_meta t)"

definition ss_table_size_of_disk :: "ss_table \<Rightarrow> nat" where
  "ss_table_size_of_disk t = unat (ft_size_of_disk (sst_footer t))"

definition ss_table_level :: "ss_table \<Rightarrow> nat" where
  "ss_table_level t = unat (ft_level (sst_footer t))"

section \<open>Round trips of footer and meta block\<close>

context int_encoding
begin

lemma read_fixed_append [simp]:
  "read_fixed8 c (encode_fixed8 c a @ rest) = Ok (a, rest)"
  "read_fixed32 c (encode_fixed32 c w @ rest) = Ok (w, rest)"
  by (simp_all add: read_fixed8_def read_fixed32_def)

lemma footer_to_raw_length: "length (footer_to_raw c f out) = length out + TABLE_FOOTER_SIZE"
  by (simp add: footer_to_raw_def TABLE_FOOTER_SIZE_def)

lemma footer_roundtrip: "footer_read_to_file c (footer_to_raw c f out) = Ok f"
proof -
  have "footer_to_raw c f out = out @ footer_to_raw c f []" by (simp add: footer_to_raw_def)
  then have "drop (length (footer_to_raw c f out) - TABLE_FOOTER_SIZE) (footer_to_raw c f out) =
      footer_to_raw c f []"
    using footer_to_raw_length [of f out] by simp
  moreover have "\<not> length (footer_to_raw c f out) < TABLE_FOOTER_SIZE"
    using footer_to_raw_length [of f out] by simp
  ultimately show ?thesis
    using read_fixed_append(2) [of "ft_size_of_disk f" "[]"]
    by (cases f) (simp add: footer_read_to_file_def footer_to_raw_def)
qed

lemma meta_roundtrip:
  assumes "mb_len m < 2 ^ 32" "mb_index_restart_interval m < 2 ^ 32" "mb_data_restart_interval m < 2 ^ 32"
  shows "meta_from_raw c (meta_to_raw c m [] @ rest) =
    Ok (m\<lparr>mb_filter := (mb_filter m)\<lparr>bits := (bits (mb_filter m))\<lparr>bit_groups :=
      bit_groups (bits (mb_filter m)) @ map (\<lambda>b. decode_fixed8 c [b]) rest\<rparr>\<rparr>\<rparr>)"
proof -
  let ?a = "encode_fixed32 c (word_of_nat (mb_len m))"
  let ?i = "encode_fixed32 c (word_of_nat (mb_index_restart_interval m))"
  let ?d = "encode_fixed32 c (word_of_nat (mb_data_restart_interval m))"
  let ?f = "bloom_to_raw c (mb_filter m) []"
  have raw: "meta_to_raw c m [] @ rest = ?a @ ?i @ ?d @ ?f @ rest"
    by (simp add: meta_to_raw_def bloom_to_raw_def hasher_to_raw_def bv_to_raw_def)
  have "slice_range (?a @ ?i @ ?d @ ?f @ rest) 0 4 = Ok ?a"
    "slice_range (?a @ ?i @ ?d @ ?f @ rest) 4 8 = Ok ?i"
    "slice_range (?a @ ?i @ ?d @ ?f @ rest) 8 12 = Ok ?d"
    "slice_from (?a @ ?i @ ?d @ ?f @ rest) 12 = Ok (?f @ rest)"
    by (simp_all add: slice_range_def slice_to_def slice_from_def)
  then show ?thesis unfolding raw meta_from_raw_def
    using assms by (cases m) (simp add: bloom_raw_roundtrip unat_word_of_nat)
qed

end

lemma meta_to_raw_append: "meta_to_raw c m out = out @ meta_to_raw c m []"
  by (simp add: meta_to_raw_def bloom_to_raw_def hasher_to_raw_def bv_to_raw_def)

section \<open>A table that holds a list of pairs\<close>

text \<open>Two tables read the same blocks when file, footer and restart intervals agree; their filters may
  differ.\<close>

definition same_blocks :: "ss_table \<Rightarrow> ss_table \<Rightarrow> bool" where
  "same_blocks t t' \<longleftrightarrow> sst_footer t = sst_footer t' \<and> sst_file t = sst_file t' \<and> sst_gen t = sst_gen t' \<and>
     mb_index_restart_interval (sst_meta t) = mb_index_restart_interval (sst_meta t') \<and>
     mb_data_restart_interval (sst_meta t) = mb_data_restart_interval (sst_meta t')"

lemma same_blocks_load:
  "same_blocks t t' \<Longrightarrow> load_index_block c t = load_index_block c t'"
  "same_blocks t t' \<Longrightarrow> data_block c t = data_block c t'"
  by (simp_all add: same_blocks_def load_index_block_def data_block_def fun_eq_iff)

text \<open>\<open>sst_holds c hs t kvs\<close>: index and data blocks can be read from the file of \<open>t\<close>, together they
  hold exactly \<open>kvs\<close>, and the filter contains every key.\<close>

definition block_kvs :: "key_value list \<Rightarrow> (bytes \<times> block_value) list" where
  "block_kvs kvs = map (\<lambda>(k, v). (k, value_from v)) kvs"

definition sst_layout ::
  "crates \<Rightarrow> ss_table \<Rightarrow> key_value list \<Rightarrow> (bytes \<times> block_value) list list \<Rightarrow>
   (block_value block \<times> bytes) list \<Rightarrow> (bytes \<times> block_index) list \<Rightarrow> block_index block \<Rightarrow> nat \<Rightarrow> nat \<Rightarrow> bool" where
  "sst_layout c t kvs chunks blocks idxs ib r ri \<longleftrightarrow>
     r = mb_data_restart_interval (sst_meta t) \<and> ri = mb_index_restart_interval (sst_meta t) \<and>
     concat chunks = block_kvs kvs \<and> chunks \<noteq> [] \<and> keys_ascending kvs \<and>
     blocks_of r chunks blocks \<and> map fst idxs = map snd blocks \<and> block_new idxs ri = Ok ib \<and>
     load_index_block c t = Ok (Index ib) \<and>
     (\<forall>i < length chunks. data_block c t (snd (idxs ! i)) = Ok (Data (fst (blocks ! i))))"

definition sst_holds :: "crates \<Rightarrow> hashing \<Rightarrow> ss_table \<Rightarrow> key_value list \<Rightarrow> bool" where
  "sst_holds c hs t kvs \<longleftrightarrow>
     (\<exists>chunks blocks idxs ib r ri. sst_layout c t kvs chunks blocks idxs ib r ri) \<and>
     bloom_wf (mb_filter (sst_meta t)) \<and>
     (\<forall>k\<in>fst ` set kvs. bloom_contains hs (mb_filter (sst_meta t)) k = Ok True)"

lemma fst_block_kvs [simp]: "map fst (block_kvs kvs) = map fst kvs"
  by (simp add: block_kvs_def case_prod_unfold)

lemma map_of_block_kvs: "map_of (block_kvs kvs) k = map_option value_from (map_of kvs k)"
  by (induction kvs) (auto simp: block_kvs_def)

lemma value_bytes_value_from [simp]: "value_bytes (value_from v) = v"
  by (simp add: value_from_def)

text \<open>The cache only holds blocks of the tables it is used for.\<close>

fun table_source :: "crates \<Rightarrow> (i64 \<Rightarrow> ss_table option) \<Rightarrow> i64 \<times> block_index option \<Rightarrow> block_type outcome" where
  "table_source c tbls (g, None) = (case tbls g of Some t \<Rightarrow> load_index_block c t | None \<Rightarrow> Panic)"
| "table_source c tbls (g, Some idx) = (case tbls g of Some t \<Rightarrow> data_block c t idx | None \<Rightarrow> Panic)"

definition cache_sound :: "crates \<Rightarrow> (i64 \<Rightarrow> ss_table option) \<Rightarrow> block_cache \<Rightarrow> bool" where
  "cache_sound c tbls S \<longleftrightarrow> sharding_inv S \<and>
     (\<forall>k v. sharding_peek S k = Some v \<longrightarrow> table_source c tbls k = Ok v)"

lemma cache_sound_consistent: "cache_sound c tbls S \<longleftrightarrow> sharded.consistent (table_source c tbls) S"
  by (simp add: cache_sound_def sharded.consistent_def)

lemma cache_load:
  assumes "cache_sound c tbls S" "f k = table_source c tbls k"
  shows "\<exists>S'. cache_sound c tbls S' \<and>
    sharding_get_or_insert S k f = and_then (table_source c tbls k) (\<lambda>v. Ok (v, S'))"
  using sharded.get_or_insert_transparent [of "table_source c tbls" S f k] assms
  by (simp add: cache_sound_consistent)

lemma index_block_cached:
  assumes "cache_sound c tbls S" "tbls (sst_gen t) = Some t" "load_index_block c t = Ok (Index ib)"
  shows "\<exists>S'. cache_sound c tbls S' \<and> index_block c t S = Ok (ib, S')"
  using cache_load [OF assms(1), of "\<lambda>_. load_index_block c t" "(sst_gen t, None)"] assms(2,3)
  by (auto simp: index_block_def)

lemma data_block_cached:
  assumes "cache_sound c tbls S" "tbls (sst_gen t) = Some t" "data_block c t idx = Ok (Data db)"
  shows "\<exists>S'. cache_sound c tbls S' \<and>
    sharding_get_or_insert S (sst_gen t, Some idx) (load_data_block c t) = Ok (Data db, S')"
  using cache_load [OF assms(1), of "load_data_block c t" "(sst_gen t, Some idx)"] assms(2,3)
  by auto

section \<open>Queries\<close>

lemma find_chunk:
  assumes "sst_layout c t kvs chunks blocks idxs ib r ri"
  shows "\<exists>i < length chunks. find_with_upper ib key = Ok (snd (idxs ! i)) \<and>
    map_of (chunks ! i) key = map_of (block_kvs kvs) key \<and> keys_ascending (chunks ! i) \<and>
    block_new (chunks ! i) r = Ok (fst (blocks ! i)) \<and>
    i = min (length chunks - 1) (length (takeWhile (\<lambda>ch. fst (last ch) < key) chunks))"
proof -
  have lay: "concat chunks = block_kvs kvs" "chunks \<noteq> []" "keys_ascending kvs"
      "blocks_of r chunks blocks" "map fst idxs = map snd blocks" "block_new idxs ri = Ok ib"
    using assms by (auto simp: sst_layout_def)
  have asc: "keys_ascending (concat chunks)" using lay(1,3) by simp
  have len: "length blocks = length chunks" "length idxs = length chunks"
    using lay(4) map_eq_imp_length_eq [OF lay(5)] by (auto simp: blocks_of_def dest: list_all2_lengthD)
  have last: "map fst idxs = map (\<lambda>ch. fst (last ch)) chunks"
    unfolding lay(5) by (rule nth_equalityI) (use len blocks_of_nth(4) [OF lay(4)] in auto)
  have ne: "\<forall>ch\<in>set chunks. ch \<noteq> []" using blocks_of_nth(2) [OF lay(4)] by (auto simp: in_set_conv_nth)
  have idx_asc: "keys_ascending idxs"
    unfolding last using asc ne by (rule last_keys_ascending)
  let ?n = "length (takeWhile (\<lambda>ch. fst (last ch) < key) chunks)"
  have "length (takeWhile (\<lambda>(k, v). k < key) idxs) = length (takeWhile (\<lambda>k. k < key) (map fst idxs))"
    by (simp add: takeWhile_map comp_def case_prod_unfold)
  also have "\<dots> = ?n" unfolding last by (simp add: takeWhile_map comp_def)
  finally have tw: "length (takeWhile (\<lambda>(k, v). k < key) idxs) = ?n" .
  define i where "i = min (length chunks - 1) ?n"
  have i: "i < length chunks" using lay(2) by (cases chunks) (auto simp: i_def)
  have "idxs \<noteq> []" using len(2) lay(2) by auto
  then have "find_with_upper ib key = Ok (snd (idxs ! i))"
    using find_with_upper_first [OF lay(6) idx_asc, of key] len(2) tw by (simp add: i_def)
  moreover have "map_of (chunks ! i) key = map_of (block_kvs kvs) key"
    using chunk_of_key [OF asc ne lay(2) i_def] lay(1) by simp
  ultimately show ?thesis
    using i i_def keys_ascending_chunk [OF asc, of "chunks ! i"] blocks_of_nth(3) [OF lay(4) i]
    by auto
qed

lemma ss_table_query_holds:
  assumes "sst_holds c hs t kvs" "cache_sound c tbls S" "tbls (sst_gen t) = Some t"
  shows "\<exists>S'. cache_sound c tbls S' \<and>
    ss_table_query c hs t S key = Ok (map_option (\<lambda>v. (key, v)) (map_of kvs key), S')"
proof -
  obtain chunks blocks idxs ib r ri where lay: "sst_layout c t kvs chunks blocks idxs ib r ri"
    and wf: "bloom_wf (mb_filter (sst_meta t))"
    and flt: "\<forall>k\<in>fst ` set kvs. bloom_contains hs (mb_filter (sst_meta t)) k = Ok True"
    using assms(1) by (auto simp: sst_holds_def)
  obtain maybe where maybe: "bloom_contains hs (mb_filter (sst_meta t)) key = Ok maybe"
    using contains_loop_bits [OF wf] by (auto simp: bloom_contains_def)
  show ?thesis
  proof (cases maybe)
    case False
    then have "map_of kvs key = None" using maybe flt by (auto simp: map_of_eq_None_iff)
    then show ?thesis using False maybe assms(2) by (auto simp: ss_table_query_def)
  next
    case True
    obtain S1 where S1: "cache_sound c tbls S1" "index_block c t S = Ok (ib, S1)"
      using index_block_cached [OF assms(2,3)] lay by (auto simp: sst_layout_def)
    obtain i where i: "i < length chunks" "find_with_upper ib key = Ok (snd (idxs ! i))"
        "map_of (chunks ! i) key = map_of (block_kvs kvs) key" "keys_ascending (chunks ! i)"
        "block_new (chunks ! i) r = Ok (fst (blocks ! i))"
      using find_chunk [OF lay] by blast
    obtain S2 where S2: "cache_sound c tbls S2"
        "sharding_get_or_insert S1 (sst_gen t, Some (snd (idxs ! i))) (load_data_block c t) =
         Ok (Data (fst (blocks ! i)), S2)"
      using data_block_cached [OF S1(1) assms(3), of "snd (idxs ! i)"] lay i(1)
      by (auto simp: sst_layout_def)
    show ?thesis
      using True maybe S1 i(2) S2 block_find_map_of [OF i(5,4), of key] i(3)
      by (auto simp: ss_table_query_def map_of_block_kvs split: option.splits)
  qed
qed

section \<open>Construction\<close>

fun builder_add_all :: "block_builder \<Rightarrow> (bytes \<times> block_value) list \<Rightarrow> block_builder outcome" where
  "builder_add_all bb [] = Ok bb"
| "builder_add_all bb (kv # kvs) = and_then (builder_add bb kv) (\<lambda>bb'. builder_add_all bb' kvs)"

lemma fill_loop_split:
  assumes "bloom_insert_all hs f (map fst kvs) = Ok f'" "builder_add_all bb (block_kvs kvs) = Ok bb'"
  shows "fill_loop hs kvs f bb = Ok (f', bb')"
  using assms
proof (induction kvs arbitrary: f bb)
  case (Cons kv kvs)
  then show ?case by (cases kv) (auto simp: block_kvs_def and_then_Ok_iff)
qed (simp add: block_kvs_def)

lemma builder_add_all_rep:
  assumes "builder_rep bb done chunks" "keys_ascending (done @ kvs)"
  shows "\<exists>bb' chunks'. builder_add_all bb kvs = Ok bb' \<and> builder_rep bb' (done @ kvs) chunks' \<and>
    bb_options bb' = bb_options bb"
  using assms
proof (induction kvs arbitrary: bb "done" chunks)
  case (Cons kv kvs)
  have "keys_ascending (done @ [kv])" using Cons.prems(2) by (simp add: sorted_wrt_append)
  then obtain bb1 chunks1 where bb1: "builder_add bb kv = Ok bb1" "builder_rep bb1 (done @ [kv]) chunks1"
      "bb_options bb1 = bb_options bb"
    using builder_add_rep [OF Cons.prems(1)] by blast
  then show ?case using Cons.IH [OF bb1(2)] Cons.prems(2) by auto
qed auto

text \<open>The data blocks \<open>SSTable::new\<close> builds from its input.\<close>

definition table_options :: "config \<Rightarrow> block_options" where
  "table_options cfg = (block_options_from cfg)\<lparr>bo_compress_type := LZ4\<rparr>"

definition table_blocks :: "config \<Rightarrow> key_value list \<Rightarrow> (block_value block \<times> bytes) list outcome" where
  "table_blocks cfg kvs =
     and_then (builder_add_all (builder_new (table_options cfg)) (block_kvs kvs)) (\<lambda>bb.
       map_outcome_ok bb_vec_block (builder_build_block bb))"

text \<open>What the format requires of a table: offsets fit 32 bits, and no block hits the inverted
  checksum comparison of \<open>Block::from_raw\<close>.\<close>

definition table_fits :: "crates \<Rightarrow> config \<Rightarrow> key_value list \<Rightarrow> bool" where
  "table_fits c cfg kvs \<longleftrightarrow>
     (case table_blocks cfg kvs of
        Ok blocks \<Rightarrow>
          (let encs = encode_blocks c LZ4 blocks in
           case block_new (place 0 encs) (index_restart_interval cfg) of
             Ok ib \<Rightarrow>
               length (concat (map fst encs)) + length (block_to_raw c index_item ib []) < 2 ^ 32 \<and>
               list_all (\<lambda>(b, k). crc_gap c (block_payload c value_item b)) blocks \<and>
               crc_gap c (block_payload c index_item ib)
           | _ \<Rightarrow> False)
      | _ \<Rightarrow> False)"

lemma block_kvs_ok: "\<forall>kv\<in>set kvs. kv_storable kv \<Longrightarrow> kvs_ok value_ok (block_kvs kvs)"
  by (auto simp: kvs_ok_def block_kvs_def kv_storable_def value_from_def split: option.splits)

lemma place_kvs_ok:
  assumes "\<forall>(e, k)\<in>set encs. length k < 2 ^ 32" "length (concat (map fst encs)) < 2 ^ 32"
  shows "kvs_ok index_ok (place off encs)"
  using assms by (induction off encs rule: place.induct) (auto simp: kvs_ok_def index_ok_def)

lemma table_blocks_rep:
  assumes "keys_ascending kvs" "data_restart_interval cfg > 0"
  shows "\<exists>bb bb' chunks. builder_add_all (builder_new (table_options cfg)) (block_kvs kvs) = Ok bb \<and>
    builder_build_block bb = Ok bb' \<and> table_blocks cfg kvs = Ok (bb_vec_block bb') \<and>
    concat chunks = block_kvs kvs \<and> blocks_of (data_restart_interval cfg) chunks (bb_vec_block bb') \<and>
    bb_options bb' = table_options cfg"
proof -
  let ?o = "table_options cfg"
  have r: "bo_data_restart_interval ?o = data_restart_interval cfg"
    by (simp add: table_options_def block_options_from_def)
  then have "builder_rep (builder_new ?o) [] []" using assms(2) by (simp add: builder_new_rep)
  then obtain bb chunks where bb: "builder_add_all (builder_new ?o) (block_kvs kvs) = Ok bb"
      "builder_rep bb (block_kvs kvs) chunks" "bb_options bb = ?o"
    using builder_add_all_rep [of "builder_new ?o" "[]" "[]" "block_kvs kvs"] assms(1)
    by (auto simp: builder_new_def)
  obtain bb' chunks' where bb': "builder_build_block bb = Ok bb'" "builder_rep bb' (block_kvs kvs) chunks'"
      "bb_options bb' = ?o" "vec_key_value (bb_buf bb') = []"
    using builder_build_block_rep [OF bb(2)] bb(3) by auto
  then show ?thesis using bb r
    by (intro exI [of _ bb] exI [of _ bb'] exI [of _ chunks']) (simp add: table_blocks_def builder_rep_def)
qed

text \<open>Any table over a file that starts with the encoded blocks and the index has the layout.\<close>

lemma data_block_of_file:
  assumes c: "int_encoding c" "lz4_codec c" and i: "i < length chunks"
    and blocks: "blocks_of r chunks blocks" "\<forall>ch\<in>set chunks. kvs_ok value_ok ch"
    and encs: "encs = encode_blocks c LZ4 blocks"
    and fits: "length (concat (map fst encs)) < 2 ^ 32"
      "\<forall>(b, k)\<in>set blocks. crc_gap c (block_payload c value_item b)"
    and t: "sst_file t = concat (map fst encs) @ rest" "mb_data_restart_interval (sst_meta t) = r"
  shows "data_block c t (snd (place 0 encs ! i)) = Ok (Data (fst (blocks ! i)))"
proof -
  let ?b = "fst (blocks ! i)" and ?idx = "snd (place 0 encs ! i)"
  note bi = blocks_of_nth [OF blocks(1) i]
  have ie: "i < length encs" using bi(1) encs by (simp add: encode_blocks_def)
  have e: "fst (encs ! i) = block_encode c value_item ?b LZ4 []"
    using bi(1) by (simp add: encs encode_blocks_def case_prod_unfold)
  have pl: "unat (index_offset ?idx) + index_len ?idx \<le> length (sst_file t)"
    "take (index_len ?idx) (drop (unat (index_offset ?idx)) (sst_file t)) = fst (encs ! i)"
    using place_nth [of i encs "[]" ?idx rest] ie fits(1) t(1) by auto
  have "(?b, snd (blocks ! i)) \<in> set blocks" using bi(1) nth_mem by simp
  then have "crc_gap c (block_payload c value_item ?b)" using fits(2) by auto
  then have "block_decode c value_item (block_encode c value_item ?b LZ4 []) LZ4 r = Ok ?b"
    using int_encoding.value_block_codec_roundtrip [OF c(1) bi(3) _ _ c(2), of LZ4] blocks(2) i
    by (simp del: block_encode.simps block_decode.simps)
  then show ?thesis using pl e t(2) by (simp add: data_block_def loading_block_def)
qed

lemma index_block_of_file:
  assumes c: "int_encoding c" "lz4_codec c"
    and ib: "block_new idxs ri = Ok ib" "kvs_ok index_ok idxs" "raw = block_to_raw c index_item ib []"
    and fits: "length data + length raw < 2 ^ 32" "crc_gap c (block_payload c index_item ib)"
    and t: "sst_file t = data @ raw @ rest" "ft_index_offset (sst_footer t) = word_of_nat (length data)"
      "ft_index_len (sst_footer t) = word_of_nat (length raw)" "mb_index_restart_interval (sst_meta t) = ri"
  shows "load_index_block c t = Ok (Index ib)"
proof -
  have u: "unat (ft_index_offset (sst_footer t)) = length data" "unat (ft_index_len (sst_footer t)) = length raw"
    using t(2,3) fits(1) by (auto intro!: unat_word_of_nat)
  have "block_decode c index_item raw No_Compression ri = Ok ib"
    using int_encoding.index_block_codec_roundtrip [OF c(1) ib(1,2) fits(2) c(2), of No_Compression] ib(3)
    by simp
  then show ?thesis using u t(1,4) by (simp add: load_index_block_def loading_block_def)
qed

lemma chunk_ok:
  assumes "\<forall>kv\<in>set kvs. kv_storable kv" "concat chunks = block_kvs kvs" "ch \<in> set chunks"
  shows "kvs_ok value_ok ch"
proof -
  have "set ch \<subseteq> set (block_kvs kvs)" using assms(2,3) by (metis UN_upper set_concat)
  then show ?thesis using block_kvs_ok [OF assms(1)] unfolding kvs_ok_def by blast
qed

lemma encode_blocks_keys:
  assumes "\<forall>ch\<in>set chunks. kvs_ok value_ok ch" "blocks_of r chunks blocks"
  shows "\<forall>(e, k)\<in>set (encode_blocks c ct blocks). length k < 2 ^ 32"
proof -
  have "length (snd (blocks ! i)) < 2 ^ 32" if "i < length blocks" for i
  proof -
    have i: "i < length chunks" using assms(2) that by (auto simp: blocks_of_def dest: list_all2_lengthD)
    then have "last (chunks ! i) \<in> set (chunks ! i)" using blocks_of_nth(2) [OF assms(2)] by simp
    then show ?thesis using assms(1) i blocks_of_nth(4) [OF assms(2) i]
      by (fastforce simp: kvs_ok_def case_prod_unfold)
  qed
  then show ?thesis by (force simp: encode_blocks_def in_set_conv_nth)
qed

lemma layout_of_file:
  assumes c: "int_encoding c" "lz4_codec c" and kvs: "keys_ascending kvs" "kvs \<noteq> []" "\<forall>kv\<in>set kvs. kv_storable kv"
    and blocks: "concat chunks = block_kvs kvs" "blocks_of r chunks blocks"
    and encs: "encs = encode_blocks c LZ4 blocks" "data = concat (map fst encs)"
    and ib: "block_new (place 0 encs) ri = Ok ib" "raw = block_to_raw c index_item ib []"
    and fits: "length data + length raw < 2 ^ 32"
      "\<forall>(b, k)\<in>set blocks. crc_gap c (block_payload c value_item b)" "crc_gap c (block_payload c index_item ib)"
    and t: "sst_file t = data @ raw @ rest" "ft_index_offset (sst_footer t) = word_of_nat (length data)"
      "ft_index_len (sst_footer t) = word_of_nat (length raw)"
      "mb_index_restart_interval (sst_meta t) = ri" "mb_data_restart_interval (sst_meta t) = r"
  shows "sst_layout c t kvs chunks blocks (place 0 encs) ib r ri"
proof -
  have ch: "\<forall>ch\<in>set chunks. kvs_ok value_ok ch" using chunk_ok [OF kvs(3) blocks(1)] by blast
  have data: "length (concat (map fst encs)) < 2 ^ 32" using fits(1) encs(2) by simp
  have "kvs_ok index_ok (place 0 encs)"
    using place_kvs_ok [OF _ data] encode_blocks_keys [OF ch blocks(2)] encs(1) by blast
  then have "load_index_block c t = Ok (Index ib)"
    using index_block_of_file [OF c ib(1) _ ib(2) fits(1,3) t(1-4)] by blast
  moreover have "data_block c t (snd (place 0 encs ! i)) = Ok (Data (fst (blocks ! i)))"
    if "i < length chunks" for i
    using data_block_of_file [OF c that blocks(2) ch encs(1) data fits(2), of t "raw @ rest"] t(1,5) encs(2)
    by simp
  moreover have "map fst (place 0 encs) = map snd blocks"
    unfolding map_fst_place encs(1) by (simp add: encode_blocks_def case_prod_unfold)
  moreover have "chunks \<noteq> []" using blocks(1) kvs(2) by (auto simp: block_kvs_def)
  ultimately show ?thesis using kvs(1) blocks ib(1) t(4,5) by (simp add: sst_layout_def)
qed

definition table_data :: "crates \<Rightarrow> (block_value block \<times> bytes) list \<Rightarrow> bytes" where
  "table_data c blocks = concat (map fst (encode_blocks c LZ4 blocks))"

lemma builder_build_place:
  assumes "builder_build_block bb = Ok bb'" "bo_compress_type (bb_options bb') = LZ4"
    "block_new (place 0 (encode_blocks c LZ4 (bb_vec_block bb'))) (bo_index_restart_interval (bb_options bb')) = Ok ib"
    "length (table_data c (bb_vec_block bb')) < 2 ^ 32"
  shows "builder_build c bb =
    Ok (table_data c (bb_vec_block bb') @ block_to_raw c index_item ib [],
        length (table_data c (bb_vec_block bb')), length (block_to_raw c index_item ib []))"
  using assms build_loop_place [of "[]" c LZ4 "bb_vec_block bb'" "[]"]
    block_to_raw_append [of c index_item ib "table_data c (bb_vec_block bb')"]
  by (simp add: builder_build_def table_data_def Let_def)

text \<open>Everything \<open>SSTable::new\<close> computes: the blocks, the index, the meta block and the footer.\<close>

definition table_built ::
  "crates \<Rightarrow> config \<Rightarrow> key_value list \<Rightarrow> bloom_filter \<Rightarrow> (bytes \<times> block_value) list list \<Rightarrow>
   (block_value block \<times> bytes) list \<Rightarrow> block_index block \<Rightarrow> meta_block \<Rightarrow> footer \<Rightarrow> bool" where
  "table_built c cfg kvs flt chunks blocks ib meta ft \<longleftrightarrow> table_blocks cfg kvs = Ok blocks \<and>
     concat chunks = block_kvs kvs \<and> blocks_of (data_restart_interval cfg) chunks blocks \<and>
     block_new (place 0 (encode_blocks c LZ4 blocks)) (index_restart_interval cfg) = Ok ib \<and>
     length (table_data c blocks) + length (block_to_raw c index_item ib []) < 2 ^ 32 \<and>
     (\<forall>(b, k)\<in>set blocks. crc_gap c (block_payload c value_item b)) \<and>
     crc_gap c (block_payload c index_item ib) \<and>
     meta = \<lparr>mb_filter = flt, mb_len = length kvs, mb_index_restart_interval = index_restart_interval cfg,
       mb_data_restart_interval = data_restart_interval cfg\<rparr> \<and>
     ft_index_offset ft = word_of_nat (length (table_data c blocks)) \<and>
     ft_index_len ft = word_of_nat (length (block_to_raw c index_item ib [])) \<and>
     ft_meta_offset ft = word_of_nat (length (table_data c blocks) + length (block_to_raw c index_item ib [])) \<and>
     ft_meta_len ft = word_of_nat (2 * length (block_to_raw c index_item ib []) + length (meta_to_raw c meta []))"

definition table_file :: "crates \<Rightarrow> (block_value block \<times> bytes) list \<Rightarrow> block_index block \<Rightarrow> meta_block \<Rightarrow> footer \<Rightarrow> bytes" where
  "table_file c blocks ib meta ft =
     table_data c blocks @ block_to_raw c index_item ib [] @ meta_to_raw c meta [] @ footer_to_raw c ft []"

lemma ss_table_new_file:
  assumes "keys_ascending kvs" "data_restart_interval cfg > 0" "table_fits c cfg kvs"
    and filter: "bloom_insert_all hs (bloom_new (bloom_bits_count cfg (length kvs)) (bloom_hashers_count cfg)
        (fst seeds) (snd seeds)) (map fst kvs) = Ok flt"
  shows "\<exists>chunks blocks ib meta ft. table_built c cfg kvs flt chunks blocks ib meta ft \<and>
    ss_table_new c hs cfg seeds gen kvs level =
      Ok \<lparr>sst_footer = ft, sst_file = table_file c blocks ib meta ft, sst_gen = gen, sst_meta = meta\<rparr>"
proof -
  obtain bb bb' chunks where bb: "builder_add_all (builder_new (table_options cfg)) (block_kvs kvs) = Ok bb"
      "builder_build_block bb = Ok bb'" "table_blocks cfg kvs = Ok (bb_vec_block bb')"
      "concat chunks = block_kvs kvs" "blocks_of (data_restart_interval cfg) chunks (bb_vec_block bb')"
      "bb_options bb' = table_options cfg"
    using table_blocks_rep [OF assms(1,2)] by blast
  let ?blocks = "bb_vec_block bb'" and ?encs = "encode_blocks c LZ4 (bb_vec_block bb')"
  obtain ib where ib: "block_new (place 0 ?encs) (index_restart_interval cfg) = Ok ib"
      "length (table_data c ?blocks) + length (block_to_raw c index_item ib []) < 2 ^ 32"
      "\<forall>(b, k)\<in>set ?blocks. crc_gap c (block_payload c value_item b)"
      "crc_gap c (block_payload c index_item ib)"
    using assms(3) bb(3) by (auto simp: table_fits_def table_data_def Let_def list_all_iff split: outcome.splits)
  let ?data = "table_data c ?blocks" and ?raw = "block_to_raw c index_item ib []"
  have opts: "bo_compress_type (table_options cfg) = LZ4"
      "bo_index_restart_interval (table_options cfg) = index_restart_interval cfg"
    by (simp_all add: table_options_def block_options_from_def)
  have build: "builder_build c bb = Ok (?data @ ?raw, length ?data, length ?raw)"
    using builder_build_place [OF bb(2)] ib(1,2) bb(6) opts by simp
  define meta where "meta = \<lparr>mb_filter = flt, mb_len = length kvs,
    mb_index_restart_interval = index_restart_interval cfg, mb_data_restart_interval = data_restart_interval cfg\<rparr>"
  define ft where "ft = \<lparr>ft_level = word_of_nat level, ft_index_offset = word_of_nat (length ?data),
    ft_index_len = word_of_nat (length ?raw), ft_meta_offset = word_of_nat (length ?data + length ?raw),
    ft_meta_len = word_of_nat (length (?data @ ?raw @ meta_to_raw c meta []) - length ?data + length ?raw),
    ft_size_of_disk = word_of_nat (length (?data @ ?raw @ meta_to_raw c meta []) + TABLE_FOOTER_SIZE)\<rparr>"
  have "fill_loop hs kvs (bloom_new (bloom_bits_count cfg (length kvs)) (bloom_hashers_count cfg)
      (fst seeds) (snd seeds)) (builder_new (table_options cfg)) = Ok (flt, bb)"
    using fill_loop_split [OF filter bb(1)] .
  then have new: "ss_table_new c hs cfg seeds gen kvs level = Ok \<lparr>sst_footer = ft,
      sst_file = table_file c ?blocks ib meta ft, sst_gen = gen, sst_meta = meta\<rparr>"
    using build meta_to_raw_append [of c meta "?data @ ?raw"]
    by (simp add: ss_table_new_def case_prod_unfold Let_def table_options_def meta_def ft_def table_file_def footer_to_raw_def)
  have len: "length (?data @ ?raw @ meta_to_raw c meta []) - length ?data + length ?raw =
      2 * length ?raw + length (meta_to_raw c meta [])"
    by simp
  have ft: "ft_index_offset ft = word_of_nat (length ?data)" "ft_index_len ft = word_of_nat (length ?raw)"
      "ft_meta_offset ft = word_of_nat (length ?data + length ?raw)"
      "ft_meta_len ft = word_of_nat (2 * length ?raw + length (meta_to_raw c meta []))"
    unfolding ft_def len by simp_all
  have "table_built c cfg kvs flt chunks ?blocks ib meta ft"
    unfolding table_built_def using bb(3-5) ib meta_def ft by blast
  then show ?thesis using new by blast
qed

lemma read_buf_prefix: "length xs \<le> n \<Longrightarrow> \<exists>zs. fst (read_buf n (xs @ ys)) = xs @ zs"
  by (auto simp: read_buf_def)

text \<open>The table \<open>SSTable::new\<close> returns holds the pairs it was given, and so does the table that
  \<open>load_from_file\<close> reconstructs from the file.\<close>

definition table_input_ok :: "crates \<Rightarrow> config \<Rightarrow> key_value list \<Rightarrow> bool" where
  "table_input_ok c cfg kvs \<longleftrightarrow> keys_ascending kvs \<and> kvs \<noteq> [] \<and> list_all kv_storable kvs \<and>
     data_restart_interval cfg > 0 \<and> table_fits c cfg kvs \<and>
     0 < bloom_bits_count cfg (length kvs) \<and> bloom_bits_count cfg (length kvs) < 2 ^ 64"

lemma table_built_layout:
  assumes c: "int_encoding c" "lz4_codec c" and kvs: "keys_ascending kvs" "kvs \<noteq> []" "list_all kv_storable kvs"
    and built: "table_built c cfg kvs flt chunks blocks ib meta ft"
    and t: "sst_file t = table_file c blocks ib meta ft" "sst_footer t = ft"
      "mb_index_restart_interval (sst_meta t) = index_restart_interval cfg"
      "mb_data_restart_interval (sst_meta t) = data_restart_interval cfg"
  shows "sst_layout c t kvs chunks blocks (place 0 (encode_blocks c LZ4 blocks)) ib
    (data_restart_interval cfg) (index_restart_interval cfg)"
  by (rule layout_of_file [OF c kvs(1,2), where data = "table_data c blocks"
        and raw = "block_to_raw c index_item ib []" and rest = "meta_to_raw c meta [] @ footer_to_raw c ft []"])
    (use kvs(3) built t in \<open>simp_all add: table_built_def table_data_def table_file_def list_all_iff\<close>)

lemma table_built_holds:
  assumes c: "int_encoding c" "lz4_codec c" and kvs: "keys_ascending kvs" "kvs \<noteq> []" "list_all kv_storable kvs"
    and built: "table_built c cfg kvs flt chunks blocks ib meta ft"
    and t: "sst_file t = table_file c blocks ib meta ft" "sst_footer t = ft"
      "mb_index_restart_interval (sst_meta t) = index_restart_interval cfg"
      "mb_data_restart_interval (sst_meta t) = data_restart_interval cfg"
    and flt: "bloom_wf (mb_filter (sst_meta t))"
      "\<forall>k\<in>fst ` set kvs. bloom_contains hs (mb_filter (sst_meta t)) k = Ok True"
  shows "sst_holds c hs t kvs"
  using table_built_layout [OF c kvs built t] flt unfolding sst_holds_def by blast

lemma table_built_load:
  assumes c: "int_encoding c" and built: "table_built c cfg kvs flt chunks blocks ib meta ft"
    and len: "length (table_file c blocks ib meta ft) < 2 ^ 31" "length kvs < 2 ^ 32"
      "index_restart_interval cfg < 2 ^ 32" "data_restart_interval cfg < 2 ^ 32"
  shows "\<exists>zs. load_from_file c gen (table_file c blocks ib meta ft) =
    Ok \<lparr>sst_footer = ft, sst_file = table_file c blocks ib meta ft, sst_gen = gen,
        sst_meta = meta\<lparr>mb_filter := flt\<lparr>bits := (bits flt)\<lparr>bit_groups :=
          bit_groups (bits flt) @ map (\<lambda>b. decode_fixed8 c [b]) zs\<rparr>\<rparr>\<rparr>\<rparr>"
proof -
  let ?data = "table_data c blocks" and ?raw = "block_to_raw c index_item ib []" and ?m = "meta_to_raw c meta []"
  let ?file = "table_file c blocks ib meta ft"
  note b = built [unfolded table_built_def]
  have fit: "2 * length ?raw + length ?m < 2 ^ LENGTH(32)" "length ?data + length ?raw < 2 ^ LENGTH(32)"
    using len(1) b by (simp_all add: table_file_def)
  have w: "ft_meta_len ft = word_of_nat (2 * length ?raw + length ?m)"
      "ft_meta_offset ft = word_of_nat (length ?data + length ?raw)"
    using b by blast+
  have u: "unat (ft_meta_len ft) = 2 * length ?raw + length ?m"
      "unat (ft_meta_offset ft) = length ?data + length ?raw"
    unfolding w using fit by (auto intro!: unat_word_of_nat simp del: of_nat_add)
  have drop: "drop (unat (ft_meta_offset ft)) ?file = ?m @ footer_to_raw c ft []"
    unfolding u table_file_def by simp
  obtain zs where zs: "fst (read_buf (unat (ft_meta_len ft)) (?m @ footer_to_raw c ft [])) = ?m @ zs"
    using read_buf_prefix [of ?m "unat (ft_meta_len ft)"] u(1) by fastforce
  have "?file = footer_to_raw c ft (?data @ ?raw @ ?m)" by (simp add: table_file_def footer_to_raw_def)
  then have foot: "footer_read_to_file c ?file = Ok ft" using int_encoding.footer_roundtrip [OF c] by simp
  have meta: "mb_filter meta = flt" "mb_len meta < 2 ^ 32" "mb_index_restart_interval meta < 2 ^ 32"
      "mb_data_restart_interval meta < 2 ^ 32"
    using b len(2-4) by simp_all
  have "meta_from_raw c (?m @ zs) = Ok (meta\<lparr>mb_filter := flt\<lparr>bits := (bits flt)\<lparr>bit_groups :=
      bit_groups (bits flt) @ map (\<lambda>b. decode_fixed8 c [b]) zs\<rparr>\<rparr>\<rparr>)"
    using int_encoding.meta_roundtrip [OF c meta(2-4), of zs] meta(1) by simp
  then show ?thesis using foot drop zs by (auto simp: load_from_file_def Let_def)
qed

lemma table_filter:
  assumes "table_input_ok c cfg kvs"
  shows "\<exists>flt. bloom_insert_all hs (bloom_new (bloom_bits_count cfg (length kvs))
      (bloom_hashers_count cfg) s1 s2) (map fst kvs) = Ok flt \<and> bloom_wf flt \<and>
    (\<forall>k\<in>fst ` set kvs. bloom_contains hs flt k = Ok True)"
proof -
  have "bloom_wf (bloom_new (bloom_bits_count cfg (length kvs)) (bloom_hashers_count cfg) s1 s2)"
    using assms by (intro bloom_new_wf) (simp_all add: table_input_ok_def)
  from bloom_insert_all_spec [OF this, of hs "map fst kvs"] show ?thesis by auto
qed

lemma ss_table_new_holds:
  assumes c: "int_encoding c" "lz4_codec c" and ok: "table_input_ok c cfg kvs"
  shows "\<exists>t. ss_table_new c hs cfg seeds gen kvs level = Ok t \<and> sst_holds c hs t kvs \<and>
    sst_gen t = gen \<and> ss_table_len t = length kvs \<and>
    mb_index_restart_interval (sst_meta t) = index_restart_interval cfg \<and>
    mb_data_restart_interval (sst_meta t) = data_restart_interval cfg \<and>
    (length (sst_file t) < 2 ^ 31 \<and> length kvs < 2 ^ 32 \<and> index_restart_interval cfg < 2 ^ 32 \<and>
     data_restart_interval cfg < 2 ^ 32 \<longrightarrow>
     (\<exists>t'. load_from_file c gen (sst_file t) = Ok t' \<and> sst_holds c hs t' kvs \<and> sst_gen t' = gen \<and>
       same_blocks t' t))"
proof -
  have kvs: "keys_ascending kvs" "kvs \<noteq> []" "list_all kv_storable kvs" "data_restart_interval cfg > 0"
      "table_fits c cfg kvs"
    using ok by (auto simp: table_input_ok_def)
  obtain flt where flt: "bloom_insert_all hs (bloom_new (bloom_bits_count cfg (length kvs))
        (bloom_hashers_count cfg) (fst seeds) (snd seeds)) (map fst kvs) = Ok flt" "bloom_wf flt"
      "\<forall>k\<in>fst ` set kvs. bloom_contains hs flt k = Ok True"
    using table_filter [OF ok] by blast
  obtain chunks blocks ib meta ft where built: "table_built c cfg kvs flt chunks blocks ib meta ft"
    and new: "ss_table_new c hs cfg seeds gen kvs level =
      Ok \<lparr>sst_footer = ft, sst_file = table_file c blocks ib meta ft, sst_gen = gen, sst_meta = meta\<rparr>"
    using ss_table_new_file [OF kvs(1,4,5) flt(1), where level = level and gen = gen] by blast
  have meta: "mb_index_restart_interval meta = index_restart_interval cfg" "mb_filter meta = flt"
      "mb_data_restart_interval meta = data_restart_interval cfg" "mb_len meta = length kvs"
    using built by (simp_all add: table_built_def)
  note holds = table_built_holds [OF c kvs(1-3) built, where hs = hs]
  let ?t = "\<lparr>sst_footer = ft, sst_file = table_file c blocks ib meta ft, sst_gen = gen, sst_meta = meta\<rparr>"
  have "sst_holds c hs ?t kvs" using holds [of ?t] meta flt by simp
  moreover have "\<exists>t'. load_from_file c gen (sst_file ?t) = Ok t' \<and> sst_holds c hs t' kvs \<and> sst_gen t' = gen \<and>
      same_blocks t' ?t"
    if len: "length (table_file c blocks ib meta ft) < 2 ^ 31" "length kvs < 2 ^ 32"
      "index_restart_interval cfg < 2 ^ 32" "data_restart_interval cfg < 2 ^ 32"
  proof -
    obtain zs where load: "load_from_file c gen (table_file c blocks ib meta ft) =
        Ok \<lparr>sst_footer = ft, sst_file = table_file c blocks ib meta ft, sst_gen = gen,
          sst_meta = meta\<lparr>mb_filter := flt\<lparr>bits := (bits flt)\<lparr>bit_groups :=
            bit_groups (bits flt) @ map (\<lambda>b. decode_fixed8 c [b]) zs\<rparr>\<rparr>\<rparr>\<rparr>" (is "_ = Ok ?t'")
      using table_built_load [OF c(1) built len, of gen] by blast
    have "sst_holds c hs ?t' kvs"
      using holds [of ?t'] meta flt(2,3) bloom_contains_extra_groups [OF flt(2)] bloom_wf_extra_groups [OF flt(2)]
      by simp
    then show ?thesis using load by (simp add: same_blocks_def)
  qed
  ultimately show ?thesis using new meta by (simp add: ss_table_len_def)
qed

section \<open>Properties\<close>

text \<open>C13: an SSTable answers queries exactly as the sorted list of pairs it was built from: Bloom
  filter, index search, block decoding and the shared block cache together are invisible, for
  present keys, tombstones and absent keys, and construction itself does not fail.\<close>

theorem ss_table_query_correct:
  assumes "int_encoding c" "lz4_codec c" "table_input_ok c cfg kvs"
  shows "\<exists>t. ss_table_new c hs cfg seeds gen kvs level = Ok t \<and>
    (\<forall>tbls S key. tbls gen = Some t \<and> cache_sound c tbls S \<longrightarrow>
      (\<exists>S'. cache_sound c tbls S' \<and>
        ss_table_query c hs t S key = Ok (map_option (\<lambda>v. (key, v)) (map_of kvs key), S')))"
  using ss_table_new_holds [OF assms, of hs seeds gen level] ss_table_query_holds by metis

definition sample_config :: config where
  "sample_config = (config_new (\<lambda>_. 10) 3)\<lparr>block_size := 1, data_restart_interval := 2, index_restart_interval := 2\<rparr>"

definition sample_pairs :: "key_value list" where
  "sample_pairs = [([1], Some [7]), ([2], None)]"

definition one_entry :: "bytes \<Rightarrow> 'a \<Rightarrow> 'a block" where
  "one_entry k x = \<lparr>restart_interval = 2, vec_entry =
     [(0, \<lparr>unshared_len = length k, shared_len = 0, entry_key = k, entry_item = x\<rparr>)]\<rparr>"

lemma block_new_one_entry: "block_new [(k, x)] 2 = Ok (one_entry k x)"
  using block_new_Ok [of 2 "[(k, x)]"]
  by (simp add: one_entry_def block_entry_def block_shared_def entry_new_def)

lemma sample_table_blocks:
  "table_blocks sample_config sample_pairs =
   Ok [(one_entry [1] (value_from (Some [7])), [1]), (one_entry [2] (value_from None), [2])]"
  by (simp add: table_blocks_def sample_pairs_def block_kvs_def builder_add_def builder_new_def
      block_buf_new_def block_buf_add_def buf_last_key_def is_out_of_byte_def block_kv_bytes_len_def
      table_options_def block_options_from_def sample_config_def config_new_def
      builder_build_block_def block_buf_flush_def block_new_one_entry Let_def)

lemma sample_encs:
  "encode_blocks le_crates LZ4
     [(one_entry [1] (value_from (Some [7])), [1]), (one_entry [2] (value_from None), [2])] =
   [([1, 0, 1, 1, 7, 10, 0, 0, 0], [1]), ([1, 0, 2, 0, 3, 0, 0, 0], [2])]"
  by (simp add: encode_blocks_def one_entry_def block_to_raw_def entry_encode_def value_item_def
      value_encode_def value_from_def le_crates_eval del: leb128.simps little_endian.simps)

lemma sample_place:
  "place 0 [([1, 0, 1, 1, 7, 10, 0, 0, 0], [1]), ([1, 0, 2, 0, 3, 0, 0, 0], [2])] =
   [([1], \<lparr>index_offset = 0, index_len = 9\<rparr>), ([2], \<lparr>index_offset = 9, index_len = 8\<rparr>)]"
  by simp

definition sample_index :: "block_index block" where
  "sample_index = \<lparr>restart_interval = 2, vec_entry =
     [(0, \<lparr>unshared_len = 1, shared_len = 0, entry_key = [1], entry_item = \<lparr>index_offset = 0, index_len = 9\<rparr>\<rparr>),
      (1, \<lparr>unshared_len = 1, shared_len = 0, entry_key = [2], entry_item = \<lparr>index_offset = 9, index_len = 8\<rparr>\<rparr>)]\<rparr>"

lemma sample_index_new:
  "block_new [([1], \<lparr>index_offset = 0, index_len = 9\<rparr>), ([2], \<lparr>index_offset = 9, index_len = 8\<rparr>)] 2 =
   Ok sample_index"
  by (simp add: block_new_def sharding_shared_len_def longest_shared_len_def sample_index_def usize_MAX_def
      shared_len_loop.simps is_common_prefix_def index_slice_def checked_sub_def slice_from_def entry_new_def)

lemma sample_payloads:
  "block_payload le_crates value_item (one_entry [1] (value_from (Some [7]))) = [1, 0, 1, 1, 7]"
  "block_payload le_crates value_item (one_entry [2] (value_from None)) = [1, 0, 2, 0]"
  "block_payload le_crates index_item sample_index = [1, 0, 1, 0, 9, 1, 0, 2, 9, 8]"
  "length (block_to_raw le_crates index_item sample_index []) = 14"
  by (simp_all add: block_payload_def block_to_raw_def one_entry_def sample_index_def entry_encode_def
      value_item_def value_encode_def value_from_def index_item_def index_encode_def
      le_crates_eval del: leb128.simps little_endian.simps)

lemma sample_crc_gaps:
  "crc_gap le_crates [1, 0, 1, 1, 7]" "crc_gap le_crates [1, 0, 2, 0]"
  "crc_gap le_crates [1, 0, 1, 0, 9, 1, 0, 2, 9, 8]"
  by (simp_all add: crc_gap_def le_crates_eval del: little_endian.simps)

lemma sample_input_ok: "table_input_ok le_crates sample_config sample_pairs"
proof -
  have "index_restart_interval sample_config = 2" by (simp add: sample_config_def)
  then have "table_fits le_crates sample_config sample_pairs"
    by (simp add: table_fits_def sample_table_blocks sample_encs sample_place sample_index_new sample_payloads
        sample_crc_gaps del: place.simps)
  then show ?thesis
    by (simp add: table_input_ok_def sample_pairs_def sample_config_def config_new_def kv_storable_def)
qed

lemma empty_cache_sound:
  "\<exists>S. sharding_new 4 2 (\<lambda>_. 0) = Ok S \<and> cache_sound c tbls S"
  using sharding_new_inv [of 2 4 "\<lambda>_. 0"] by (auto simp: cache_sound_def)

theorem ss_table_query_correct_witness:
  "\<exists>t S S'. ss_table_new le_crates sum_hashing sample_config (11, 22) 5 sample_pairs 0 = Ok t \<and>
    ss_table_query le_crates sum_hashing t S [2] = Ok (Some ([2], None), S')"
proof -
  obtain t where t: "ss_table_new le_crates sum_hashing sample_config (11, 22) 5 sample_pairs 0 = Ok t"
      "\<forall>tbls S key. tbls 5 = Some t \<and> cache_sound le_crates tbls S \<longrightarrow>
        (\<exists>S'. cache_sound le_crates tbls S' \<and> ss_table_query le_crates sum_hashing t S key =
          Ok (map_option (\<lambda>v. (key, v)) (map_of sample_pairs key), S'))"
    using ss_table_query_correct [OF le.int_encoding_axioms le.lz4_codec_axioms sample_input_ok] by blast
  obtain S where "cache_sound le_crates [5 \<mapsto> t] S" using empty_cache_sound by blast
  then show ?thesis using t(1) t(2) [rule_format, of "[5 \<mapsto> t]" S "[2]"] by (auto simp: sample_pairs_def)
qed

text \<open>C14: a table reopened with \<open>load_from_file\<close> from the file \<open>SSTable::new\<close> wrote answers every query
  as the pairs that were written. The meta block is read with the too large length that the footer
  records, which is harmless.\<close>

theorem ss_table_reload_correct:
  assumes "int_encoding c" "lz4_codec c" "table_input_ok c cfg kvs"
    and "ss_table_new c hs cfg seeds gen kvs level = Ok t"
    and "length (sst_file t) < 2 ^ 31" "length kvs < 2 ^ 32" "index_restart_interval cfg < 2 ^ 32"
      "data_restart_interval cfg < 2 ^ 32"
  shows "\<exists>t'. load_from_file c gen (sst_file t) = Ok t' \<and>
    (\<forall>tbls S key. tbls gen = Some t' \<and> cache_sound c tbls S \<longrightarrow>
      (\<exists>S'. cache_sound c tbls S' \<and>
        ss_table_query c hs t' S key = Ok (map_option (\<lambda>v. (key, v)) (map_of kvs key), S')))"
proof -
  obtain t' where "load_from_file c gen (sst_file t) = Ok t'" "sst_holds c hs t' kvs" "sst_gen t' = gen"
    using ss_table_new_holds [OF assms(1-3), of hs seeds gen level] assms(4-8) by auto
  then show ?thesis using ss_table_query_holds [of c hs t' kvs] by blast
qed

definition sample_config0 :: config where
  "sample_config0 = sample_config\<lparr>bloom_hashers_count := 0\<rparr>"

lemma sample_build0:
  "builder_add_all (builder_new (table_options sample_config0)) (block_kvs sample_pairs) = Ok 
   \<lparr>bb_options = table_options sample_config0, bb_len = 2, bb_buf = block_buf_new, bb_vec_block =
    [(one_entry [1] (value_from (Some [7])), [1]), (one_entry [2] (value_from None), [2])]\<rparr>"
  by (simp add: table_blocks_def sample_pairs_def block_kvs_def builder_add_def builder_new_def
      block_buf_new_def block_buf_add_def buf_last_key_def is_out_of_byte_def block_kv_bytes_len_def
      table_options_def block_options_from_def sample_config_def config_new_def sample_config0_def
      builder_build_block_def block_buf_flush_def block_new_one_entry Let_def)

lemma bit_vector_new_10: "bit_vector_new 10 = \<lparr>bv_len = 10, bit_groups = [0, 0]\<rparr>"
  by (simp add: bit_vector_new_def numeral_2_eq_2)

lemma bloom_insert_all_no_hash: "bloom_insert_all hs (bloom_new n 0 s1 s2) ks = Ok (bloom_new n 0 s1 s2)"
  by (induction ks) (auto simp: bloom_insert_def fn_indices_def bloom_new_def)

lemma bloom_raw_length0: "length (bloom_to_raw le_crates (bloom_new 10 0 s1 s2) out) = length out + 34"
  by (simp add: bloom_to_raw_def hasher_to_raw_def bv_to_raw_def bloom_new_def bit_vector_new_10 )

lemma sample_bytes0:
  "builder_build le_crates \<lparr>bb_options = table_options sample_config0, bb_len = 2, bb_buf = block_buf_new, bb_vec_block =
    [(one_entry [1] (value_from (Some [7])), [1]), (one_entry [2] (value_from None), [2])]\<rparr> =
   Ok ([1, 0, 1, 1, 7, 10, 0, 0, 0] @ [1, 0, 2, 0, 3, 0, 0, 0] @ block_to_raw le_crates index_item sample_index [], 17, 14)"
  (is "builder_build _ ?bb = _")
proof -
  have o: "bo_compress_type (table_options sample_config0) = LZ4" "bo_index_restart_interval (table_options sample_config0) = 2"
    by (simp_all add: table_options_def block_options_from_def sample_config0_def sample_config_def)
  have "builder_build_block ?bb = Ok ?bb"
    by (simp add: builder_build_block_def block_buf_flush_def buf_last_key_def block_buf_new_def)
  from builder_build_place [OF this, of le_crates sample_index] show ?thesis
    using o by (simp add: sample_encs sample_place sample_index_new table_data_def sample_payloads(4) del: place.simps)
qed

lemma sample_table_length:
  assumes "ss_table_new le_crates hs sample_config0 seeds gen sample_pairs level = Ok t"
  shows "length (sst_file t) < 2 ^ 31"
proof -
  have cfg: "bloom_bits_count sample_config0 = (\<lambda>_. 10)" "bloom_hashers_count sample_config0 = 0"
    by (simp_all add: sample_config0_def sample_config_def config_new_def)
  note fill = fill_loop_split [OF bloom_insert_all_no_hash sample_build0, of hs 10 "fst seeds" "snd seeds", unfolded table_options_def]
  show ?thesis using assms
    by (auto simp: ss_table_new_def case_prod_unfold cfg fill sample_bytes0 [unfolded table_options_def] Let_def
        int_encoding.footer_to_raw_length [OF le.int_encoding_axioms] meta_to_raw_def bloom_raw_length0
        sample_payloads(4) TABLE_FOOTER_SIZE_def)
qed

lemma sample_input_ok0: "table_input_ok le_crates sample_config0 sample_pairs"
proof -
  have sel: "index_restart_interval sample_config0 = index_restart_interval sample_config"
      "data_restart_interval sample_config0 = data_restart_interval sample_config"
      "bloom_bits_count sample_config0 = bloom_bits_count sample_config"
    by (simp_all add: sample_config0_def)
  have "table_blocks sample_config0 = table_blocks sample_config"
    by (simp add: fun_eq_iff table_blocks_def table_options_def block_options_from_def sample_config0_def)
  then show ?thesis using sample_input_ok unfolding table_input_ok_def table_fits_def sel by simp
qed

theorem ss_table_reload_correct_witness:
  "\<exists>t t' S S'. ss_table_new le_crates sum_hashing sample_config0 (11, 22) 5 sample_pairs 0 = Ok t \<and>
    load_from_file le_crates 5 (sst_file t) = Ok t' \<and>
    ss_table_query le_crates sum_hashing t' S [1] = Ok (Some ([1], Some [7]), S')"
proof -
  note ax = le.int_encoding_axioms le.lz4_codec_axioms sample_input_ok0
  obtain t where t: "ss_table_new le_crates sum_hashing sample_config0 (11, 22) 5 sample_pairs 0 = Ok t"
    using ss_table_new_holds [OF ax] by blast
  obtain t' where t': "load_from_file le_crates 5 (sst_file t) = Ok t'"
      "\<forall>tbls S key. tbls 5 = Some t' \<and> cache_sound le_crates tbls S \<longrightarrow>
        (\<exists>S'. cache_sound le_crates tbls S' \<and> ss_table_query le_crates sum_hashing t' S key =
          Ok (map_option (\<lambda>v. (key, v)) (map_of sample_pairs key), S'))"
    using ss_table_reload_correct [OF ax t sample_table_length [OF t]]
    by (auto simp: sample_pairs_def sample_config0_def sample_config_def)
  obtain S where "cache_sound le_crates [5 \<mapsto> t'] S" using empty_cache_sound by blast
  then show ?thesis using t t'(1) t'(2) [rule_format, of "[5 \<mapsto> t']" S "[1]"] by (auto simp: sample_pairs_def)
qed

text \<open>The footer occupies exactly \<open>TABLE_FOOTER_SIZE\<close> bytes at the end of the file, and
  \<open>read_to_file\<close> finds it there whatever precedes it.\<close>

theorem footer_at_end_of_file:
  assumes "int_encoding c"
  shows "length (footer_to_raw c f out) = length out + TABLE_FOOTER_SIZE \<and>
    footer_read_to_file c (footer_to_raw c f out) = Ok f"
  using int_encoding.footer_to_raw_length [OF assms] int_encoding.footer_roundtrip [OF assms] by simp

theorem footer_at_end_of_file_witness:
  "footer_read_to_file le_crates (footer_to_raw le_crates
     \<lparr>ft_level = 1, ft_index_offset = 300, ft_index_len = 4, ft_meta_offset = 5, ft_meta_len = 6,
      ft_size_of_disk = 70000\<rparr> [9, 9]) =
   Ok \<lparr>ft_level = 1, ft_index_offset = 300, ft_index_len = 4, ft_meta_offset = 5, ft_meta_len = 6,
      ft_size_of_disk = 70000\<rparr>"
  using footer_at_end_of_file [OF le.int_encoding_axioms] by blast

end
