(* ===== verification/Block_Iter.thy ===== *)
theory Block_Iter
  imports Block
begin

text \<open>
  The iterator over a block, \<open>src/src/kernel/lsm/table/ss_table/block_iter.rs\<close>, and the seek
  targets of \<open>src/src/kernel/lsm/iterator/mod.rs\<close>. The offset is one ahead of the entry it stands
  on, 0 is before the first entry. The cached prefix \<open>buf_shared_key\<close> is part of the state.
\<close>

section \<open>Model\<close>

datatype seek = Seek_First | Seek_Last | Seek_Backward bytes

record 'a block_iter =
  bi_block :: "'a block"
  bi_entry_len :: nat
  bi_offset :: nat
  buf_shared_key :: bytes

definition restart_prefix :: "'a block \<Rightarrow> nat \<Rightarrow> bytes outcome" where
  "restart_prefix b i = and_then (restart_shared_len b i) (shared_key_prefix b i)"

definition block_iter_new :: "'a block \<Rightarrow> 'a block_iter outcome" where
  "block_iter_new b =
     and_then (restart_prefix b 0) (\<lambda>prefix.
       Ok \<lparr>bi_block = b, bi_entry_len = entry_len b, bi_offset = 0, buf_shared_key = prefix\<rparr>)"

definition bi_item :: "'a block_iter \<Rightarrow> (bytes \<times> 'a) outcome" where
  "bi_item it =
     and_then (checked_sub (bi_offset it) 1) (\<lambda>offset.
       and_then (get_entry (bi_block it) offset) (\<lambda>e.
         Ok (if offset mod restart_interval (bi_block it) \<noteq> 0
             then buf_shared_key it @ entry_key e else entry_key e, entry_item e)))"

definition offset_move ::
  "'a block_iter \<Rightarrow> nat \<Rightarrow> bool \<Rightarrow> ((bytes \<times> 'a) option \<times> 'a block_iter) outcome" where
  "offset_move it offset is_seek =
     (let b = bi_block it; r = restart_interval b; old_offset = bi_offset it;
          it1 = it\<lparr>bi_offset := offset\<rparr> in
      if offset > 0 \<and> offset < bi_entry_len it + 1 then
        (let real_offset = offset - 1 in
         if r = 0 then Panic
         else and_then (checked_sub old_offset (1 div r)) (\<lambda>old_group.
           and_then
             (if old_group \<noteq> real_offset div r
              then map_outcome_ok (\<lambda>p. it1\<lparr>buf_shared_key := p\<rparr>) (restart_prefix b real_offset)
              else Ok it1)
             (\<lambda>it2. if is_seek then Ok (None, it2)
                    else and_then (bi_item it2) (\<lambda>x. Ok (Some x, it2)))))
      else Ok (None, it1))"

definition bi_is_valid :: "'a block_iter \<Rightarrow> bool" where
  "bi_is_valid it \<longleftrightarrow> bi_offset it > 0 \<and> bi_offset it \<le> bi_entry_len it"

definition bi_try_prev :: "'a block_iter \<Rightarrow> ((bytes \<times> 'a) option \<times> 'a block_iter) outcome" where
  "bi_try_prev it =
     (if bi_is_valid it \<or> bi_offset it = bi_entry_len it + 1
      then and_then (checked_sub (bi_offset it) 1) (\<lambda>offset. offset_move it offset False)
      else Ok (None, it))"

definition bi_try_next :: "'a block_iter \<Rightarrow> ((bytes \<times> 'a) option \<times> 'a block_iter) outcome" where
  "bi_try_next it =
     (if bi_is_valid it \<or> bi_offset it = 0 then offset_move it (bi_offset it + 1) False
      else Ok (None, it))"

definition bi_seek :: "'a block_iter \<Rightarrow> seek \<Rightarrow> 'a block_iter outcome" where
  "bi_seek it seek =
     and_then
       (case seek of
          Seek_First \<Rightarrow> Ok (Some 0)
        | Seek_Last \<Rightarrow> Ok (Some (bi_entry_len it + 1))
        | Seek_Backward key \<Rightarrow>
            map_outcome_ok
              (\<lambda>s. case s of
                     Found i \<Rightarrow> Some i
                   | Insert_at i \<Rightarrow> if i < bi_entry_len it then Some i else None)
              (binary_search (bi_block it) key))
       (\<lambda>target. case target of
          None \<Rightarrow> Ok it
        | Some i \<Rightarrow> map_outcome_ok snd (offset_move it i True))"

text \<open>The items a loop over \<open>try_next\<close> collects in at most \<open>n\<close> rounds.\<close>

fun bi_collect :: "nat \<Rightarrow> 'a block_iter \<Rightarrow> (bytes \<times> 'a) list outcome" where
  "bi_collect 0 it = Ok []"
| "bi_collect (Suc n) it =
     and_then (bi_try_next it) (\<lambda>(x, it1).
       case x of None \<Rightarrow> Ok [] | Some kv \<Rightarrow> map_outcome_ok ((#) kv) (bi_collect n it1))"

section \<open>Iterating over a compressed block\<close>

text \<open>An iterator over the block built from \<open>kvs\<close>; the cached prefix is unconstrained.\<close>

definition iterates :: "(bytes \<times> 'a) list \<Rightarrow> nat \<Rightarrow> 'a block_iter \<Rightarrow> bool" where
  "iterates kvs r it \<longleftrightarrow> block_new kvs r = Ok (bi_block it) \<and> bi_entry_len it = length kvs \<and>
     bi_offset it \<le> length kvs + 1"

lemma restart_shared_len_block:
  assumes "block_new kvs r = Ok b" "i < length kvs"
  shows "\<exists>n. restart_shared_len b i = Ok n \<and> n \<le> length (fst (kvs ! (i - i mod r))) \<and>
    (i mod r \<noteq> 0 \<longrightarrow> n = block_shared kvs r i)"
proof -
  note f = block_new_fields [OF assms(1)]
  show ?thesis
  proof (cases "i mod r = 0")
    case False
    then show ?thesis using f assms(2) block_shared_prefix(2) [OF f(1) assms(2)]
      by (simp add: restart_shared_len_def get_entry_def index_slice_def)
  next
    case True
    show ?thesis
    proof (cases "i + 1 < length kvs")
      case False
      then show ?thesis using f True by (simp add: restart_shared_len_def get_slice_def)
    next
      case i1: True
      have "block_shared kvs r (i + 1) \<le> length (fst (kvs ! i))"
      proof (cases "(i + 1) mod r = 0")
        case False
        then have "(i + 1) mod r = 1" using True by (simp add: mod_Suc split: if_splits)
        then have "(i + 1) - (i + 1) mod r = i" by simp
        then show ?thesis using block_shared_prefix(2) [OF f(1) i1] by simp
      qed (simp add: block_shared_def)
      then show ?thesis using f True i1 assms(2)
        by (simp add: restart_shared_len_def get_slice_def)
    qed
  qed
qed

lemma restart_prefix_block:
  assumes "block_new kvs r = Ok b" "i < length kvs"
  shows "\<exists>p. restart_prefix b i = Ok p \<and>
    (i mod r \<noteq> 0 \<longrightarrow> p = take (block_shared kvs r i) (fst (kvs ! i)))"
proof -
  obtain n where n: "restart_shared_len b i = Ok n" "n \<le> length (fst (kvs ! (i - i mod r)))"
      "i mod r \<noteq> 0 \<longrightarrow> n = block_shared kvs r i"
    using restart_shared_len_block [OF assms] by blast
  then show ?thesis
    using shared_key_prefix_block [OF assms n(2)]
      block_shared_prefix(3) [OF block_new_fields(1) [OF assms(1)] assms(2)]
    by (auto simp: restart_prefix_def)
qed

text \<open>A move to a valid offset. The prefix is either reloaded or not needed: with at least two
  entries per restart the comparison \<open>old_offset - 1 / restart_interval != real_offset /
  restart_interval\<close> (the division binds tighter) only skips the reload when the caller moves to
  the first entry of a group, or seeks.\<close>

lemma offset_move_valid:
  assumes it: "iterates kvs r it" and r: "r \<ge> 2" and off: "0 < offset" "offset \<le> length kvs"
  shows "\<exists>it'. iterates kvs r it' \<and> bi_offset it' = offset \<and> bi_block it' = bi_block it \<and>
    offset_move it offset True = Ok (None, it') \<and>
    ((offset - 1) mod r = 0 \<or> bi_offset it \<noteq> (offset - 1) div r \<longrightarrow>
     offset_move it offset False = Ok (Some (kvs ! (offset - 1)), it'))"
proof -
  let ?b = "bi_block it" and ?i = "offset - 1"
  have new: "block_new kvs r = Ok ?b" and len: "bi_entry_len it = length kvs"
    using it by (auto simp: iterates_def)
  note f = block_new_fields [OF new]
  have i: "?i < length kvs" using off by simp
  obtain p where p: "restart_prefix ?b ?i = Ok p"
      "?i mod r \<noteq> 0 \<longrightarrow> p = take (block_shared kvs r ?i) (fst (kvs ! ?i))"
    using restart_prefix_block [OF new i] by blast
  have div0: "1 div r = 0" using r by simp
  let ?it1 = "it\<lparr>bi_offset := offset\<rparr>"
  define it' where "it' = (if bi_offset it \<noteq> ?i div r then ?it1\<lparr>buf_shared_key := p\<rparr> else ?it1)"
  have it': "iterates kvs r it'" "bi_offset it' = offset" "bi_block it' = ?b"
    using it off by (simp_all add: it'_def iterates_def)
  have item: "bi_item it' = Ok (kvs ! ?i)" if "?i mod r = 0 \<or> bi_offset it \<noteq> ?i div r"
  proof (cases "?i mod r = 0")
    case True
    then show ?thesis using it'(2,3) f i off
      by (simp add: bi_item_def checked_sub_def get_entry_def index_slice_def block_shared_def)
  next
    case False
    then have "buf_shared_key it' = take (block_shared kvs r ?i) (fst (kvs ! ?i))"
      using that p(2) by (simp add: it'_def)
    then show ?thesis using it'(2,3) f i off False
      by (simp add: bi_item_def checked_sub_def get_entry_def index_slice_def)
  qed
  have move: "offset_move it offset is_seek =
      (if is_seek then Ok (None, it') else and_then (bi_item it') (\<lambda>x. Ok (Some x, it')))" for is_seek
    using f(1,2) off len div0 p(1)
    by (cases "bi_offset it = ?i div r"; cases is_seek)
      (simp_all add: offset_move_def checked_sub_def Let_def it'_def)
  show ?thesis
  proof (intro exI [of _ it'] conjI impI)
    assume "?i mod r = 0 \<or> bi_offset it \<noteq> ?i div r"
    then show "offset_move it offset False = Ok (Some (kvs ! ?i), it')"
      unfolding move using item by simp
  next
    show "offset_move it offset True = Ok (None, it')" unfolding move by simp
  qed (rule it')+
qed

lemma bi_try_next_step:
  assumes "iterates kvs r it" "r \<ge> 2"
  shows "\<exists>it'. iterates kvs r it' \<and> bi_block it' = bi_block it \<and>
    bi_offset it' = min (bi_offset it + 1) (length kvs + 1) \<and>
    bi_try_next it = Ok (if bi_offset it < length kvs then Some (kvs ! bi_offset it) else None, it')"
proof -
  have len: "bi_entry_len it = length kvs" and le: "bi_offset it \<le> length kvs + 1"
    using assms(1) by (auto simp: iterates_def)
  consider "bi_offset it < length kvs" | "bi_offset it = length kvs" | "bi_offset it = length kvs + 1"
    using le by linarith
  then show ?thesis
  proof cases
    case 1
    have "bi_offset it div r < bi_offset it" if "bi_offset it > 0"
      using that assms(2) by (intro div_less_dividend) auto
    then have "bi_offset it mod r = 0 \<or> bi_offset it \<noteq> bi_offset it div r"
      by (cases "bi_offset it = 0") auto
    then show ?thesis
      using offset_move_valid [OF assms, of "bi_offset it + 1"] 1 len
      by (auto simp: bi_try_next_def bi_is_valid_def)
  next
    case 2
    then show ?thesis using assms(1) len
      by (auto simp: bi_try_next_def bi_is_valid_def offset_move_def iterates_def Let_def)
  next
    case 3
    then show ?thesis using assms(1) len
      by (auto simp: bi_try_next_def bi_is_valid_def iterates_def)
  qed
qed

lemma bi_try_prev_step:
  assumes "iterates kvs r it" "r \<ge> 2"
  shows "\<exists>it'. iterates kvs r it' \<and> bi_block it' = bi_block it \<and> bi_offset it' = bi_offset it - 1 \<and>
    bi_try_prev it = Ok (if bi_offset it \<ge> 2 then Some (kvs ! (bi_offset it - 2)) else None, it')"
proof -
  have len: "bi_entry_len it = length kvs" and le: "bi_offset it \<le> length kvs + 1"
    using assms(1) by (auto simp: iterates_def)
  consider "bi_offset it = 0" | "bi_offset it = 1" | "bi_offset it \<ge> 2" by linarith
  then show ?thesis
  proof cases
    case 1
    then show ?thesis using assms(1)
      by (auto simp: bi_try_prev_def bi_is_valid_def len)
  next
    case 2
    then show ?thesis using assms(1) len
      by (auto simp: bi_try_prev_def bi_is_valid_def offset_move_def iterates_def checked_sub_def
          Let_def Suc_le_eq)
  next
    case 3
    have "(bi_offset it - 2) div r \<le> bi_offset it - 2" by (rule div_le_dividend)
    then have ne: "bi_offset it \<noteq> (bi_offset it - 2) div r" using 3 by linarith
    have "bi_offset it - 1 \<le> length kvs" using le by linarith
    moreover have e: "bi_offset it - 1 - 1 = bi_offset it - 2" by simp
    ultimately obtain it' where "iterates kvs r it'" "bi_offset it' = bi_offset it - 1" "bi_block it' = bi_block it"
        "offset_move it (bi_offset it - 1) False = Ok (Some (kvs ! (bi_offset it - 2)), it')"
      using offset_move_valid [OF assms, of "bi_offset it - 1", unfolded e] ne 3 le by auto
    then show ?thesis using 3 le len
      by (auto simp: bi_try_prev_def bi_is_valid_def checked_sub_def)
  qed
qed

lemma block_iter_new_iterates:
  assumes "r > 0" "kvs \<noteq> []"
  shows "\<exists>b it. block_new kvs r = Ok b \<and> block_iter_new b = Ok it \<and> iterates kvs r it \<and>
    bi_offset it = 0"
proof -
  obtain b where b: "block_new kvs r = Ok b" using block_new_Ok [OF assms(1)] by blast
  obtain p where "restart_prefix b 0 = Ok p" using restart_prefix_block [OF b, of 0] assms(2) by auto
  then show ?thesis using b block_new_fields(3) [OF b]
    by (simp add: block_iter_new_def iterates_def entry_len_def)
qed

lemma bi_collect_drop:
  "iterates kvs r it \<Longrightarrow> r \<ge> 2 \<Longrightarrow> length kvs - bi_offset it < n \<Longrightarrow>
   bi_collect n it = Ok (drop (bi_offset it) kvs)"
proof (induction n arbitrary: it)
  case (Suc n)
  obtain it' where it': "iterates kvs r it'" "bi_offset it' = min (bi_offset it + 1) (length kvs + 1)"
      "bi_try_next it = Ok (if bi_offset it < length kvs then Some (kvs ! bi_offset it) else None, it')"
    using bi_try_next_step [OF Suc.prems(1,2)] by blast
  show ?case
  proof (cases "bi_offset it < length kvs")
    case True
    then have "bi_collect n it' = Ok (drop (bi_offset it') kvs)"
      using Suc.IH [OF it'(1) Suc.prems(2)] it'(2) Suc.prems(3) by simp
    then show ?thesis using True it'(2,3) by (simp add: Cons_nth_drop_Suc)
  next
    case False
    then show ?thesis using it'(3) by simp
  qed
qed simp

lemma bi_seek_backward:
  assumes it: "iterates kvs r it" "r \<ge> 2" and asc: "keys_ascending kvs"
    and n: "n = length (takeWhile (\<lambda>(k, v). k < key) kvs)"
  shows "\<exists>it'. bi_seek it (Seek_Backward key) = Ok it' \<and> iterates kvs r it' \<and>
    (if n < length kvs then bi_offset it' = n else it' = it)"
proof -
  have new: "block_new kvs r = Ok (bi_block it)" and len: "bi_entry_len it = length kvs"
    using it(1) by (auto simp: iterates_def)
  obtain s where s: "binary_search (bi_block it) key = Ok s" "search_ok (\<lambda>(k, v). cmp k key) kvs s"
    using binary_search_block [OF new asc] by blast
  have pos: "search_pos s = n" using search_ok_ascending(1) [OF asc s(2)] n by simp
  have target: "(case s of Found i \<Rightarrow> Some i
      | Insert_at i \<Rightarrow> if i < bi_entry_len it then Some i else None) =
      (if n < length kvs then Some n else None)"
    using s(2) pos len by (cases s) auto
  have "\<exists>it'. offset_move it n True = Ok (None, it') \<and> iterates kvs r it' \<and> bi_offset it' = n"
    if "n < length kvs"
  proof (cases "n = 0")
    case True
    then show ?thesis using it(1) by (auto simp: offset_move_def iterates_def Let_def)
  next
    case False
    then show ?thesis using offset_move_valid [OF it, of n] that by auto
  qed
  then show ?thesis using s(1) target it(1) by (auto simp: bi_seek_def)
qed

section \<open>Properties\<close>

text \<open>C22: iterating over a block from its start delivers exactly the key-value pairs it was built
  from, in order, with the keys decompressed, for every restart interval of at least two.\<close>

theorem block_iter_yields_all:
  assumes "r \<ge> 2" "kvs \<noteq> []"
  shows "\<exists>b it. block_new kvs r = Ok b \<and> block_iter_new b = Ok it \<and>
    bi_collect (length kvs + 1) it = Ok kvs"
proof -
  obtain b it where "block_new kvs r = Ok b" "block_iter_new b = Ok it" "iterates kvs r it"
      "bi_offset it = 0"
    using block_iter_new_iterates [of r kvs] assms by auto
  then show ?thesis using bi_collect_drop [of kvs r it "length kvs + 1"] assms(1) by auto
qed

theorem block_iter_yields_all_witness:
  "\<exists>b it. block_new sample_kvs 2 = Ok b \<and> block_iter_new b = Ok it \<and> bi_collect 3 it = Ok sample_kvs"
  using block_iter_yields_all [of 2 sample_kvs] by (simp add: sample_kvs_def numeral_3_eq_3)

text \<open>After seeking to a key that is not beyond the last one, \<open>try_next\<close> delivers the first
  pair whose key is not smaller, whatever the position before the seek.\<close>

theorem block_iter_seek_backward:
  assumes "iterates kvs r it" "r \<ge> 2" "keys_ascending kvs" "\<exists>(k, v)\<in>set kvs. key \<le> k"
  shows "\<exists>it' it''. bi_seek it (Seek_Backward key) = Ok it' \<and>
    bi_try_next it' = Ok (List.find (\<lambda>(k, v). key \<le> k) kvs, it'')"
proof -
  define n where "n = length (takeWhile (\<lambda>(k, v). k < key) kvs)"
  obtain k v where kv: "(k, v) \<in> set kvs" "key \<le> k" using assms(4) by auto
  then have ex: "\<exists>x\<in>set kvs. \<not> (\<lambda>(k, v). k < key) x" by (intro bexI [of _ "(k, v)"]) auto
  then have n: "n < length kvs" unfolding n_def
    by (metis length_takeWhile_le le_neq_implies_less set_takeWhileD takeWhile_eq_take take_all_iff)
  have "List.find (\<lambda>(k, v). key \<le> k) kvs = Some (kvs ! n)"
    using ex unfolding n_def
    by (induction kvs) (auto split: prod.splits)
  moreover obtain it' where "bi_seek it (Seek_Backward key) = Ok it'" "iterates kvs r it'" "bi_offset it' = n"
    using bi_seek_backward [OF assms(1-3) n_def] n by auto
  ultimately show ?thesis using bi_try_next_step [of kvs r it'] assms(2) n by auto
qed

definition sample_iter :: "block_value block_iter" where
  "sample_iter = \<lparr>bi_block = sample_block, bi_entry_len = 2, bi_offset = 2, buf_shared_key = [1]\<rparr>"

lemma sample_iterates: "iterates sample_kvs 2 sample_iter"
  using sample_block_new by (simp add: iterates_def sample_iter_def sample_kvs_def)

theorem block_iter_seek_backward_witness:
  "\<exists>it' it''. bi_seek sample_iter (Seek_Backward [1, 2, 9]) = Ok it' \<and>
    bi_try_next it' = Ok (Some ([1, 3], value_from None), it'')"
  using block_iter_seek_backward [OF sample_iterates, of "[1, 2, 9]"] by (simp add: sample_kvs_def)

text \<open>A seek beyond the last key does not move the iterator at all, so the next item is the one
  it would have delivered without the seek, with a key \<^emph>\<open>below\<close> the target.\<close>

theorem block_iter_seek_past_end:
  assumes "iterates kvs r it" "r \<ge> 2" "keys_ascending kvs" "\<forall>(k, v)\<in>set kvs. k < key"
  shows "bi_seek it (Seek_Backward key) = Ok it"
proof -
  have "takeWhile (\<lambda>(k, v). k < key) kvs = kvs"
    using assms(4) by (auto simp: takeWhile_eq_all_conv)
  then have "length kvs = length (takeWhile (\<lambda>(k, v). k < key) kvs)"
    by (rule arg_cong [OF sym])
  from bi_seek_backward [OF assms(1-3) this] show ?thesis by auto
qed

theorem block_iter_seek_past_end_witness:
  "bi_seek (sample_iter\<lparr>bi_offset := 0\<rparr>) (Seek_Backward [9]) = Ok (sample_iter\<lparr>bi_offset := 0\<rparr>)"
proof (rule block_iter_seek_past_end)
  show "iterates sample_kvs 2 (sample_iter\<lparr>bi_offset := 0\<rparr>)"
    using sample_iterates by (simp add: iterates_def)
qed (simp_all add: sample_kvs_def)

end
