(* ===== verification/Ss_Table_Iter.thy ===== *)
theory Ss_Table_Iter
  imports Ss_Table Block_Iter
begin

text \<open>
  The iterator over an SSTable, \<open>src/src/kernel/lsm/table/ss_table/iter.rs\<close>: one iterator over the
  index block and one over the current data block. Data blocks are fetched through the block cache,
  whose state is passed along.
\<close>

section \<open>Model\<close>

record sst_iter =
  si_table :: ss_table
  si_data :: "block_value block_iter"
  si_index :: "block_index block_iter"

definition data_iter_init ::
  "crates \<Rightarrow> ss_table \<Rightarrow> block_cache \<Rightarrow> block_index \<Rightarrow> (block_value block_iter \<times> block_cache) outcome" where
  "data_iter_init c t S idx =
     and_then (sharding_get_or_insert S (sst_gen t, Some idx) (load_data_block c t)) (\<lambda>(bt, S1).
       case bt of
         Data b \<Rightarrow> and_then (block_iter_new b) (\<lambda>it. Ok (it, S1))
       | Index _ \<Rightarrow> Err DataEmpty)"

definition sst_iter_new :: "crates \<Rightarrow> ss_table \<Rightarrow> block_cache \<Rightarrow> (sst_iter \<times> block_cache) outcome" where
  "sst_iter_new c t S =
     and_then (index_block c t S) (\<lambda>(ib, S1).
     and_then (block_iter_new ib) (\<lambda>ii0.
     and_then (bi_try_next ii0) (\<lambda>(entry, ii).
       case entry of
         None \<Rightarrow> Err DataEmpty
       | Some (_, idx) \<Rightarrow>
           and_then (data_iter_init c t S1 idx) (\<lambda>(di, S2).
           Ok (\<lparr>si_table = t, si_data = di, si_index = ii\<rparr>, S2)))))"

definition data_iter_seek ::
  "crates \<Rightarrow> sst_iter \<Rightarrow> block_cache \<Rightarrow> seek \<Rightarrow> block_index \<Rightarrow> (sst_iter \<times> block_cache) outcome" where
  "data_iter_seek c it S sk idx =
     and_then (data_iter_init c (si_table it) S idx) (\<lambda>(di, S1).
     and_then (bi_seek di sk) (\<lambda>di1. Ok (it\<lparr>si_data := di1\<rparr>, S1)))"

definition to_key_value :: "bytes \<times> block_value \<Rightarrow> key_value" where
  "to_key_value kv = (fst kv, value_bytes (snd kv))"

definition sst_try_prev ::
  "crates \<Rightarrow> sst_iter \<Rightarrow> block_cache \<Rightarrow> (key_value option \<times> sst_iter \<times> block_cache) outcome" where
  "sst_try_prev c it S =
     and_then (bi_try_prev (si_data it)) (\<lambda>(x, di).
       let it1 = it\<lparr>si_data := di\<rparr> in
       case x of
         Some kv \<Rightarrow> Ok (Some (to_key_value kv), it1, S)
       | None \<Rightarrow>
           and_then (bi_try_prev (si_index it1)) (\<lambda>(y, ii).
             let it2 = it1\<lparr>si_index := ii\<rparr> in
             case y of
               None \<Rightarrow> Ok (None, it2, S)
             | Some (_, idx) \<Rightarrow>
                 and_then (data_iter_seek c it2 S Seek_Last idx) (\<lambda>(it3, S1).
                 and_then (bi_try_prev (si_data it3)) (\<lambda>(z, di3).
                 Ok (map_option to_key_value z, it3\<lparr>si_data := di3\<rparr>, S1)))))"

definition sst_try_next ::
  "crates \<Rightarrow> sst_iter \<Rightarrow> block_cache \<Rightarrow> (key_value option \<times> sst_iter \<times> block_cache) outcome" where
  "sst_try_next c it S =
     and_then (bi_try_next (si_data it)) (\<lambda>(x, di).
       let it1 = it\<lparr>si_data := di\<rparr> in
       case x of
         Some kv \<Rightarrow> Ok (Some (to_key_value kv), it1, S)
       | None \<Rightarrow>
           and_then (bi_try_next (si_index it1)) (\<lambda>(y, ii).
             let it2 = it1\<lparr>si_index := ii\<rparr> in
             case y of
               None \<Rightarrow> Ok (None, it2, S)
             | Some (_, idx) \<Rightarrow>
                 and_then (data_iter_seek c it2 S Seek_First idx) (\<lambda>(it3, S1).
                 and_then (bi_try_next (si_data it3)) (\<lambda>(z, di3).
                 Ok (map_option to_key_value z, it3\<lparr>si_data := di3\<rparr>, S1)))))"

definition sst_is_valid :: "sst_iter \<Rightarrow> bool" where
  "sst_is_valid it \<longleftrightarrow> bi_is_valid (si_data it)"

definition sst_seek :: "crates \<Rightarrow> sst_iter \<Rightarrow> block_cache \<Rightarrow> seek \<Rightarrow> (sst_iter \<times> block_cache) outcome" where
  "sst_seek c it S sk =
     and_then (bi_seek (si_index it) sk) (\<lambda>ii.
     and_then (bi_try_next ii) (\<lambda>(x, ii1).
     and_then
       (case x of
          Some (_, idx) \<Rightarrow> data_iter_seek c (it\<lparr>si_index := ii1\<rparr>) S sk idx
        | None \<Rightarrow> Ok (it\<lparr>si_index := ii1\<rparr>, S)) (\<lambda>(it2, S2).
     if sk = Seek_Last then
       and_then (bi_seek (si_data it2) Seek_Last) (\<lambda>di. Ok (it2\<lparr>si_data := di\<rparr>, S2))
     else Ok (it2, S2))))"

text \<open>The items a loop over \<open>try_next\<close> collects in at most \<open>n\<close> rounds.\<close>

fun sst_collect :: "nat \<Rightarrow> crates \<Rightarrow> sst_iter \<Rightarrow> block_cache \<Rightarrow> key_value list outcome" where
  "sst_collect 0 c it S = Ok []"
| "sst_collect (Suc n) c it S =
     and_then (sst_try_next c it S) (\<lambda>(x, it1, S1).
       case x of None \<Rightarrow> Ok [] | Some kv \<Rightarrow> map_outcome_ok ((#) kv) (sst_collect n c it1 S1))"

section \<open>Iterating over the chunks of a table\<close>

text \<open>The iterator stands in chunk \<open>j\<close>; the index iterator is one ahead, or exhausted.\<close>

definition si_rep ::
  "(bytes \<times> block_value) list list \<Rightarrow> (bytes \<times> block_index) list \<Rightarrow> nat \<Rightarrow> nat \<Rightarrow> ss_table \<Rightarrow> sst_iter \<Rightarrow> nat \<Rightarrow> bool" where
  "si_rep chunks idxs r ri t it j \<longleftrightarrow> si_table it = t \<and> j < length chunks \<and>
     iterates (chunks ! j) r (si_data it) \<and> iterates idxs ri (si_index it) \<and>
     (bi_offset (si_index it) = j + 1 \<or> j + 1 = length chunks \<and> bi_offset (si_index it) = j + 2)"

definition si_rest :: "(bytes \<times> block_value) list list \<Rightarrow> sst_iter \<Rightarrow> nat \<Rightarrow> (bytes \<times> block_value) list" where
  "si_rest chunks it j = drop (bi_offset (si_data it)) (chunks ! j) @ concat (drop (Suc j) chunks)"

lemma bi_seek_First: "iterates kvs r it \<Longrightarrow> bi_seek it Seek_First = Ok (it\<lparr>bi_offset := 0\<rparr>)"
  by (simp add: bi_seek_def offset_move_def Let_def)

lemma bi_seek_Last:
  "iterates kvs r it \<Longrightarrow> bi_seek it Seek_Last = Ok (it\<lparr>bi_offset := length kvs + 1\<rparr>)"
  by (simp add: bi_seek_def offset_move_def Let_def iterates_def)

lemma iterates_offset: "iterates kvs r it \<Longrightarrow> n \<le> length kvs + 1 \<Longrightarrow> iterates kvs r (it\<lparr>bi_offset := n\<rparr>)"
  by (simp add: iterates_def)

lemma layout_lengths:
  assumes "sst_layout c t kvs chunks blocks idxs ib r ri"
  shows "length idxs = length chunks" "\<forall>ch\<in>set chunks. ch \<noteq> []"
proof -
  have b: "blocks_of r chunks blocks" "map fst idxs = map snd blocks"
    using assms by (auto simp: sst_layout_def)
  show "length idxs = length chunks"
    using b(1) map_eq_imp_length_eq [OF b(2)] by (auto simp: blocks_of_def dest: list_all2_lengthD)
  show "\<forall>ch\<in>set chunks. ch \<noteq> []" using blocks_of_nth(2) [OF b(1)] by (auto simp: in_set_conv_nth)
qed

lemma data_iter_init_chunk:
  assumes lay: "sst_layout c t kvs chunks blocks idxs ib r ri" and S: "cache_sound c tbls S"
    and t: "tbls (sst_gen t) = Some t" and i: "i < length chunks"
  shows "\<exists>di S'. data_iter_init c t S (snd (idxs ! i)) = Ok (di, S') \<and> cache_sound c tbls S' \<and>
    iterates (chunks ! i) r di \<and> bi_offset di = 0"
proof -
  have d: "data_block c t (snd (idxs ! i)) = Ok (Data (fst (blocks ! i)))"
    and b: "blocks_of r chunks blocks"
    using lay i by (auto simp: sst_layout_def)
  obtain S' where S': "cache_sound c tbls S'"
      "sharding_get_or_insert S (sst_gen t, Some (snd (idxs ! i))) (load_data_block c t) =
       Ok (Data (fst (blocks ! i)), S')"
    using data_block_cached [OF S t d] by blast
  note bn = blocks_of_nth [OF b i]
  have "r > 0" using block_new_fields(1) [OF bn(3)] .
  then obtain di where "block_iter_new (fst (blocks ! i)) = Ok di" "iterates (chunks ! i) r di" "bi_offset di = 0"
    using block_iter_new_iterates [of r "chunks ! i"] bn(2,3) by auto
  then show ?thesis using S' by (auto simp: data_iter_init_def)
qed

lemma sst_iter_new_rep:
  assumes lay: "sst_layout c t kvs chunks blocks idxs ib r ri" and ri: "ri \<ge> 2"
    and S: "cache_sound c tbls S" and t: "tbls (sst_gen t) = Some t"
  shows "\<exists>it S'. sst_iter_new c t S = Ok (it, S') \<and> cache_sound c tbls S' \<and>
    si_rep chunks idxs r ri t it 0 \<and> si_rest chunks it 0 = block_kvs kvs"
proof -
  have ib: "block_new idxs ri = Ok ib" "load_index_block c t = Ok (Index ib)" "chunks \<noteq> []"
      "concat chunks = block_kvs kvs"
    using lay by (auto simp: sst_layout_def)
  note len = layout_lengths [OF lay]
  obtain S1 where S1: "cache_sound c tbls S1" "index_block c t S = Ok (ib, S1)"
    using index_block_cached [OF S t ib(2)] by blast
  have ne: "idxs \<noteq> []" "0 < length idxs" using len(1) ib(3) by auto
  obtain ii0 where ii0: "block_iter_new ib = Ok ii0" "iterates idxs ri ii0" "bi_offset ii0 = 0"
    using block_iter_new_iterates [of ri idxs] ib(1) ne ri by auto
  obtain ii where ii: "bi_try_next ii0 = Ok (Some (idxs ! 0), ii)" "iterates idxs ri ii" "bi_offset ii = 1"
    using bi_try_next_step [OF ii0(2) ri] ii0(3) ne(2) by auto
  obtain di S2 where di: "data_iter_init c t S1 (snd (idxs ! 0)) = Ok (di, S2)" "cache_sound c tbls S2"
      "iterates (chunks ! 0) r di" "bi_offset di = 0"
    using data_iter_init_chunk [OF lay S1(1) t, of 0] ib(3) by auto
  have "concat chunks = chunks ! 0 @ concat (drop (Suc 0) chunks)"
    using ib(3) by (cases chunks) auto
  then show ?thesis using S1 ii0 ii di ib(3,4)
    by (cases "idxs ! 0") (simp add: sst_iter_new_def si_rep_def si_rest_def)
qed

lemma sst_try_next_step:
  assumes lay: "sst_layout c t kvs chunks blocks idxs ib r ri" and r: "r \<ge> 2" "ri \<ge> 2"
    and S: "cache_sound c tbls S" and t: "tbls (sst_gen t) = Some t" and it: "si_rep chunks idxs r ri t it j"
  shows "\<exists>it' S' j'. cache_sound c tbls S' \<and> si_rep chunks idxs r ri t it' j' \<and>
    sst_try_next c it S = Ok (case si_rest chunks it j of [] \<Rightarrow> None | kv # _ \<Rightarrow> Some (to_key_value kv), it', S') \<and>
    si_rest chunks it' j' = tl (si_rest chunks it j)"
proof -
  let ?ch = "chunks ! j" and ?o = "bi_offset (si_data it)"
  have rep: "si_table it = t" "j < length chunks" "iterates ?ch r (si_data it)" "iterates idxs ri (si_index it)"
    using it by (auto simp: si_rep_def)
  note len = layout_lengths [OF lay]
  obtain di where di: "iterates ?ch r di" "bi_offset di = min (?o + 1) (length ?ch + 1)"
      "bi_try_next (si_data it) = Ok (if ?o < length ?ch then Some (?ch ! ?o) else None, di)"
    using bi_try_next_step [OF rep(3) r(1)] by blast
  show ?thesis
  proof (cases "?o < length ?ch")
    case True
    have "drop ?o ?ch = ?ch ! ?o # drop (?o + 1) ?ch" using True by (simp add: Cons_nth_drop_Suc)
    then show ?thesis using True di rep S it
      by (intro exI [of _ "it\<lparr>si_data := di\<rparr>"] exI [of _ S] exI [of _ j])
        (simp add: sst_try_next_def si_rep_def si_rest_def)
  next
    case False
    obtain ii where ii: "iterates idxs ri ii" "bi_offset ii = min (bi_offset (si_index it) + 1) (length idxs + 1)"
        "bi_try_next (si_index it) = Ok (if bi_offset (si_index it) < length idxs
          then Some (idxs ! bi_offset (si_index it)) else None, ii)"
      using bi_try_next_step [OF rep(4) r(2)] by blast
    have nil: "drop ?o ?ch = []" "drop (bi_offset di) ?ch = []" using False di(2) by auto
    let ?it2 = "it\<lparr>si_data := di, si_index := ii\<rparr>"
    show ?thesis
    proof (cases "j + 1 < length chunks")
      case last: False
      then have "sst_try_next c it S = Ok (None, ?it2, S)"
        using False di(3) ii(3) it len(1) by (auto simp: sst_try_next_def si_rep_def)
      moreover have "si_rep chunks idxs r ri t ?it2 j"
        using last it di(1) ii(1,2) len(1) by (auto simp: si_rep_def)
      ultimately show ?thesis using S nil last
        by (intro exI [of _ ?it2] exI [of _ S] exI [of _ j]) (simp add: si_rest_def)
    next
      case more: True
      then have off: "bi_offset (si_index it) = j + 1" using it by (auto simp: si_rep_def)
      obtain di2 S2 where di2: "data_iter_init c t S (snd (idxs ! (j + 1))) = Ok (di2, S2)"
          "cache_sound c tbls S2" "iterates (chunks ! (j + 1)) r di2"
        using data_iter_init_chunk [OF lay S t more] by blast
      let ?di2 = "di2\<lparr>bi_offset := 0\<rparr>" and ?ch2 = "chunks ! (j + 1)"
      have it0: "iterates ?ch2 r ?di2" using di2(3) by (rule iterates_offset) simp
      have ne: "?ch2 \<noteq> []" using len(2) more by simp
      obtain di3 where di3: "iterates ?ch2 r di3" "bi_offset di3 = 1" "bi_try_next ?di2 = Ok (Some (?ch2 ! 0), di3)"
        using bi_try_next_step [OF it0 r(1)] ne by auto
      let ?it3 = "?it2\<lparr>si_data := di3\<rparr>"
      have "sst_try_next c it S = Ok (Some (to_key_value (?ch2 ! 0)), ?it3, S2)"
        using False di(3) ii(3) off more len(1) rep(1) di2 di3(3) bi_seek_First [OF di2(3)]
        by (cases "idxs ! (j + 1)") (simp add: sst_try_next_def data_iter_seek_def)
      moreover have "si_rep chunks idxs r ri t ?it3 (j + 1)"
        using more rep(1) di3(1) ii(1,2) off len(1) by (simp add: si_rep_def)
      moreover have "drop (Suc j) chunks = ?ch2 # drop (Suc (Suc j)) chunks"
        using more by (simp add: Cons_nth_drop_Suc)
      ultimately show ?thesis using di2(2) nil di3(2) ne
        by (intro exI [of _ ?it3] exI [of _ S2] exI [of _ "j + 1"])
          (cases ?ch2, simp_all add: si_rest_def drop_Suc)
    qed
  qed
qed

lemma sst_collect_rest:
  assumes lay: "sst_layout c t kvs chunks blocks idxs ib r ri" and r: "r \<ge> 2" "ri \<ge> 2"
    and t: "tbls (sst_gen t) = Some t"
  shows "cache_sound c tbls S \<Longrightarrow> si_rep chunks idxs r ri t it j \<Longrightarrow> length (si_rest chunks it j) < n \<Longrightarrow>
    sst_collect n c it S = Ok (map to_key_value (si_rest chunks it j))"
proof (induction n arbitrary: it S j)
  case (Suc n)
  obtain it' S' j' where it': "cache_sound c tbls S'" "si_rep chunks idxs r ri t it' j'"
      "sst_try_next c it S = Ok (case si_rest chunks it j of [] \<Rightarrow> None | kv # _ \<Rightarrow> Some (to_key_value kv), it', S')"
      "si_rest chunks it' j' = tl (si_rest chunks it j)"
    using sst_try_next_step [OF lay r Suc.prems(1) t Suc.prems(2)] by blast
  then show ?case using Suc.IH [OF it'(1,2)] Suc.prems(3)
    by (cases "si_rest chunks it j") auto
qed simp

lemma map_to_key_value [simp]: "map to_key_value (block_kvs kvs) = kvs"
  by (induction kvs) (auto simp: block_kvs_def to_key_value_def)

lemma dropWhile_block_kvs:
  "map to_key_value (dropWhile (\<lambda>(k, v). k < key) (block_kvs kvs)) = dropWhile (\<lambda>(k, v). k < key) kvs"
proof (induction kvs)
  case (Cons kv kvs)
  obtain k v where kv: "kv = (k, v)" by force
  have "block_kvs (kv # kvs) = (k, value_from v) # block_kvs kvs" by (simp add: kv block_kvs_def)
  then show ?case using Cons map_to_key_value [of "kv # kvs"] by (simp add: kv)
qed (simp add: block_kvs_def)

text \<open>Seeking moves to the first pair that is not below the key.\<close>

lemma takeWhile_idxs:
  assumes lay: "sst_layout c t kvs chunks blocks idxs ib r ri"
  shows "keys_ascending idxs"
    "length (takeWhile (\<lambda>(k, v). k < key) idxs) = length (takeWhile (\<lambda>ch. fst (last ch) < key) chunks)"
proof -
  have l: "concat chunks = block_kvs kvs" "keys_ascending kvs" "blocks_of r chunks blocks"
      "map fst idxs = map snd blocks"
    using lay by (auto simp: sst_layout_def)
  note len = layout_lengths [OF lay]
  have "length blocks = length chunks" using l(3) by (auto simp: blocks_of_def dest: list_all2_lengthD)
  then have last: "map fst idxs = map (\<lambda>ch. fst (last ch)) chunks"
    unfolding l(4) by (intro nth_equalityI) (use blocks_of_nth(4) [OF l(3)] in auto)
  show "keys_ascending idxs" unfolding last using last_keys_ascending [OF _ len(2)] l(1,2) by simp
  have "length (takeWhile (\<lambda>(k, v). k < key) idxs) = length (takeWhile (\<lambda>k. k < key) (map fst idxs))"
    by (simp add: takeWhile_map comp_def case_prod_unfold)
  then show "length (takeWhile (\<lambda>(k, v). k < key) idxs) = length (takeWhile (\<lambda>ch. fst (last ch) < key) chunks)"
    unfolding last by (simp add: takeWhile_map comp_def)
qed

lemma sst_seek_backward_rep:
  assumes lay: "sst_layout c t kvs chunks blocks idxs ib r ri" and r: "r \<ge> 2" "ri \<ge> 2"
    and S: "cache_sound c tbls S" and t: "tbls (sst_gen t) = Some t" and it: "si_rep chunks idxs r ri t it j"
    and ex: "\<exists>k\<in>fst ` set kvs. key \<le> k"
  shows "\<exists>it' S' j'. sst_seek c it S (Seek_Backward key) = Ok (it', S') \<and> cache_sound c tbls S' \<and>
    si_rep chunks idxs r ri t it' j' \<and>
    si_rest chunks it' j' = dropWhile (\<lambda>(k, v). k < key) (block_kvs kvs)"
proof -
  let ?p = "\<lambda>(k, v). k < key"
  have l: "concat chunks = block_kvs kvs" "keys_ascending kvs" using lay by (auto simp: sst_layout_def)
  note len = layout_lengths [OF lay] and tw = takeWhile_idxs [OF lay]
  have asc: "keys_ascending (concat chunks)" using l by simp
  define n where "n = length (takeWhile (\<lambda>ch. fst (last ch) < key) chunks)"
  have before: "?p kv" if "kv \<in> set (concat (take m chunks))" "m \<le> n" for kv m
    using chunks_before [OF asc len(2), of m key "fst kv" "snd kv"] that by (simp add: n_def case_prod_unfold)
  have "n < length chunks"
  proof (rule ccontr)
    assume "\<not> n < length chunks"
    then have "n = length chunks" using length_takeWhile_le [of _ chunks] by (simp add: n_def le_antisym)
    then have "\<forall>kv\<in>set (block_kvs kvs). ?p kv" using before [of _ n] l(1) by simp
    then show False using ex by (force simp: block_kvs_def)
  qed
  let ?ch = "chunks ! n"
  have ch: "?ch \<noteq> []" "keys_ascending ?ch" "key \<le> fst (last ?ch)"
    using len(2) \<open>n < length chunks\<close> keys_ascending_chunk [OF asc] nth_length_takeWhile [of "\<lambda>ch. fst (last ch) < key" chunks]
    by (auto simp: n_def)
  define m where "m = length (takeWhile ?p ?ch)"
  have "\<not> ?p (last ?ch)" using ch(3) by (simp add: case_prod_unfold)
  then have "takeWhile ?p ?ch \<noteq> ?ch" using ch(1) by (metis last_in_set takeWhile_eq_all_conv)
  then have m: "m < length ?ch"
    unfolding m_def by (metis le_neq_implies_less length_takeWhile_le take_all_iff takeWhile_eq_take order_refl)
  have ii: "iterates idxs ri (si_index it)" "si_table it = t" using it by (auto simp: si_rep_def)
  obtain ii1 where ii1: "bi_seek (si_index it) (Seek_Backward key) = Ok ii1" "iterates idxs ri ii1" "bi_offset ii1 = n"
    using bi_seek_backward [OF ii(1) r(2) tw(1) refl, of key] tw(2) [of key] \<open>n < length chunks\<close> len(1)
    by (auto simp: n_def)
  obtain ii2 where ii2: "bi_try_next ii1 = Ok (Some (idxs ! n), ii2)" "iterates idxs ri ii2" "bi_offset ii2 = n + 1"
    using bi_try_next_step [OF ii1(2) r(2)] ii1(3) \<open>n < length chunks\<close> len(1) by auto
  obtain di S2 where di: "data_iter_init c t S (snd (idxs ! n)) = Ok (di, S2)" "cache_sound c tbls S2"
      "iterates ?ch r di"
    using data_iter_init_chunk [OF lay S t \<open>n < length chunks\<close>] by blast
  obtain di2 where di2: "bi_seek di (Seek_Backward key) = Ok di2" "iterates ?ch r di2" "bi_offset di2 = m"
    using bi_seek_backward [OF di(3) r(1) ch(2) refl, of key] m by (auto simp: m_def)
  let ?it = "it\<lparr>si_index := ii2, si_data := di2\<rparr>"
  have "sst_seek c it S (Seek_Backward key) = Ok (?it, S2)"
    using ii1(1) ii2(1) ii(2) di(1) di2(1)
    by (cases "idxs ! n") (simp add: sst_seek_def data_iter_seek_def)
  moreover have "si_rep chunks idxs r ri t ?it n"
    using ii(2) \<open>n < length chunks\<close> di2(2) ii2(2,3) by (simp add: si_rep_def)
  moreover have "block_kvs kvs = concat (take n chunks) @ ?ch @ concat (drop (Suc n) chunks)"
    unfolding l(1) [symmetric] using \<open>n < length chunks\<close>
    by (metis concat.simps(2) concat_append id_take_nth_drop)
  then have "si_rest chunks ?it n = dropWhile ?p (block_kvs kvs)"
    using dropWhile_append2 [of "concat (take n chunks)" ?p] before [of _ n]
      dropWhile_append1 [of "last ?ch" ?ch ?p] di2(3) ch(1) \<open>\<not> ?p (last ?ch)\<close>
    by (simp add: si_rest_def m_def dropWhile_eq_drop [symmetric])
  ultimately show ?thesis using di(2) by blast
qed

section \<open>Properties\<close>

lemma sample_holds:
  "\<exists>t. ss_table_new le_crates sum_hashing sample_config (11, 22) 5 sample_pairs 0 = Ok t \<and>
    sst_holds le_crates sum_hashing t sample_pairs \<and> sst_gen t = 5 \<and>
    mb_data_restart_interval (sst_meta t) = 2 \<and> mb_index_restart_interval (sst_meta t) = 2"
proof -
  obtain t where t: "ss_table_new le_crates sum_hashing sample_config (11, 22) 5 sample_pairs 0 = Ok t"
      "sst_holds le_crates sum_hashing t sample_pairs" "sst_gen t = 5"
    using ss_table_new_holds [OF le.int_encoding_axioms le.lz4_codec_axioms sample_input_ok] by blast
  moreover have "mb_data_restart_interval (sst_meta t) = 2" "mb_index_restart_interval (sst_meta t) = 2"
    using t(1) by (auto simp: ss_table_new_def and_then_Ok_iff sample_config_def Let_def split: prod.splits)
  ultimately show ?thesis by blast
qed

text \<open>C17: the table iterator is complete and ordered. A loop over \<open>try_next\<close> from a fresh iterator
  returns after finitely many rounds with exactly the pairs of the table, in key order, across block
  boundaries and whatever the cache holds.\<close>

theorem sst_iter_yields_all:
  assumes "sst_holds c hs t kvs" "mb_data_restart_interval (sst_meta t) \<ge> 2"
    "mb_index_restart_interval (sst_meta t) \<ge> 2" "cache_sound c tbls S" "tbls (sst_gen t) = Some t"
  shows "\<exists>it S'. sst_iter_new c t S = Ok (it, S') \<and> sst_collect (length kvs + 1) c it S' = Ok kvs"
proof -
  obtain chunks blocks idxs ib r ri where lay: "sst_layout c t kvs chunks blocks idxs ib r ri"
    using assms(1) by (auto simp: sst_holds_def)
  then have r: "r \<ge> 2" "ri \<ge> 2" using assms(2,3) by (auto simp: sst_layout_def)
  obtain it S' where it: "sst_iter_new c t S = Ok (it, S')" "cache_sound c tbls S'"
      "si_rep chunks idxs r ri t it 0" "si_rest chunks it 0 = block_kvs kvs"
    using sst_iter_new_rep [OF lay r(2) assms(4,5)] by blast
  have "length (si_rest chunks it 0) < length kvs + 1" using it(4) by (simp add: block_kvs_def)
  then show ?thesis using sst_collect_rest [OF lay r assms(5) it(2,3)] it(1,4) by (metis map_to_key_value)
qed

theorem sst_iter_yields_all_witness:
  "\<exists>t S it S'. sst_iter_new le_crates t S = Ok (it, S') \<and> sst_collect 3 le_crates it S' = Ok sample_pairs"
proof -
  obtain t where t: "sst_holds le_crates sum_hashing t sample_pairs" "sst_gen t = 5"
      "mb_data_restart_interval (sst_meta t) = 2" "mb_index_restart_interval (sst_meta t) = 2"
    using sample_holds by blast
  obtain S where S: "cache_sound le_crates [5 \<mapsto> t] S" using empty_cache_sound by blast
  have "length sample_pairs + 1 = 3" by (simp add: sample_pairs_def)
  then show ?thesis using sst_iter_yields_all [OF t(1) _ _ S] t(2-4) by (metis fun_upd_same order_refl)
qed

text \<open>Seeking to a key that is not beyond the last key of the table, from any position, makes
  the iterator continue with exactly the pairs whose keys are not smaller.\<close>

theorem sst_iter_seek_correct:
  assumes "sst_holds c hs t kvs" "mb_data_restart_interval (sst_meta t) \<ge> 2"
    "mb_index_restart_interval (sst_meta t) \<ge> 2" "cache_sound c tbls S" "tbls (sst_gen t) = Some t"
    "\<exists>k\<in>fst ` set kvs. key \<le> k"
  shows "\<exists>it0 S0 it S'. sst_iter_new c t S = Ok (it0, S0) \<and>
    sst_seek c it0 S0 (Seek_Backward key) = Ok (it, S') \<and>
    sst_collect (length kvs + 1) c it S' = Ok (dropWhile (\<lambda>(k, v). k < key) kvs)"
proof -
  obtain chunks blocks idxs ib r ri where lay: "sst_layout c t kvs chunks blocks idxs ib r ri"
    using assms(1) by (auto simp: sst_holds_def)
  then have r: "r \<ge> 2" "ri \<ge> 2" using assms(2,3) by (auto simp: sst_layout_def)
  obtain it0 S0 where it0: "sst_iter_new c t S = Ok (it0, S0)" "cache_sound c tbls S0"
      "si_rep chunks idxs r ri t it0 0"
    using sst_iter_new_rep [OF lay r(2) assms(4,5)] by blast
  obtain it S' j where it: "sst_seek c it0 S0 (Seek_Backward key) = Ok (it, S')" "cache_sound c tbls S'"
      "si_rep chunks idxs r ri t it j"
      "si_rest chunks it j = dropWhile (\<lambda>(k, v). k < key) (block_kvs kvs)"
    using sst_seek_backward_rep [OF lay r it0(2) assms(5) it0(3) assms(6)] by blast
  have "length (si_rest chunks it j) < length kvs + 1"
    using it(4) length_dropWhile_le [of _ "block_kvs kvs"] by (simp add: block_kvs_def less_Suc_eq_le)
  moreover have "map to_key_value (dropWhile (\<lambda>(k, v). k < key) (block_kvs kvs)) = dropWhile (\<lambda>(k, v). k < key) kvs"
    by (rule dropWhile_block_kvs)
  ultimately show ?thesis using sst_collect_rest [OF lay r assms(5) it(2,3)] it0(1) it(1,4) by metis
qed

theorem sst_iter_seek_correct_witness:
  "\<exists>t S it0 S0 it S'. sst_iter_new le_crates t S = Ok (it0, S0) \<and>
    sst_seek le_crates it0 S0 (Seek_Backward [1, 5]) = Ok (it, S') \<and>
    sst_collect 3 le_crates it S' = Ok [([2], None)]"
proof -
  obtain t where t: "sst_holds le_crates sum_hashing t sample_pairs" "sst_gen t = 5"
      "mb_data_restart_interval (sst_meta t) = 2" "mb_index_restart_interval (sst_meta t) = 2"
    using sample_holds by blast
  obtain S where S: "cache_sound le_crates [5 \<mapsto> t] S" using empty_cache_sound by blast
  have "\<exists>k\<in>fst ` set sample_pairs. [1, 5] \<le> k" by (simp add: sample_pairs_def)
  moreover have "length sample_pairs + 1 = 3" by (simp add: sample_pairs_def)
  moreover have "dropWhile (\<lambda>(k, v). k < [1, 5]) sample_pairs = [([2], None)]" by (simp add: sample_pairs_def)
  moreover have "mb_data_restart_interval (sst_meta t) \<ge> 2" "mb_index_restart_interval (sst_meta t) \<ge> 2"
      "[5 \<mapsto> t] (sst_gen t) = Some t"
    using t(2-4) by simp_all
  ultimately show ?thesis using sst_iter_seek_correct [OF t(1) _ _ S, of "[1, 5]"] by metis
qed

lemma sst_seek_last_rep:
  assumes lay: "sst_layout c t kvs chunks blocks idxs ib r ri" and r: "r \<ge> 2" "ri \<ge> 2"
    and it: "si_rep chunks idxs r ri t it j"
  shows "\<exists>it' it''. sst_seek c it S Seek_Last = Ok (it', S) \<and>
    sst_try_prev c it' S = Ok (Some (to_key_value (last (chunks ! j))), it'', S)"
proof -
  have rep: "iterates (chunks ! j) r (si_data it)" "iterates idxs ri (si_index it)" "j < length chunks"
    using it by (auto simp: si_rep_def)
  have ne: "chunks ! j \<noteq> []" using layout_lengths(2) [OF lay] rep(3) by simp
  let ?ii = "(si_index it)\<lparr>bi_offset := length idxs + 1\<rparr>"
  let ?di = "(si_data it)\<lparr>bi_offset := length (chunks ! j) + 1\<rparr>"
  obtain ii where ii: "bi_try_next ?ii = Ok (None, ii)"
    using bi_try_next_step [OF iterates_offset [OF rep(2)] r(2), of "length idxs + 1"] by auto
  have "iterates (chunks ! j) r ?di" using rep(1) by (rule iterates_offset) simp
  then obtain di where "bi_try_prev ?di = Ok (Some (chunks ! j ! (length (chunks ! j) - 1)), di)"
    using bi_try_prev_step [OF _ r(1), of "chunks ! j" ?di] ne by (auto simp: Suc_le_eq)
  then show ?thesis using ii ne bi_seek_Last [OF rep(2)] bi_seek_Last [OF rep(1)]
    by (simp add: sst_seek_def sst_try_prev_def last_conv_nth)
qed

lemma sample_layout:
  "\<exists>t blocks idxs ib. sst_gen t = 5 \<and>
    sst_layout le_crates t sample_pairs
      [[([1], value_from (Some [7]))], [([2], value_from None)]] blocks idxs ib 2 2"
proof -
  note ok = sample_input_ok [unfolded table_input_ok_def]
  obtain flt where flt: "bloom_insert_all sum_hashing (bloom_new (bloom_bits_count sample_config (length sample_pairs))
        (bloom_hashers_count sample_config) (fst (11, 22 :: 64 word)) (snd (11 :: 64 word, 22))) (map fst sample_pairs) = Ok flt"
    using table_filter [OF sample_input_ok] by blast
  obtain chunks blocks ib meta ft where
      built: "table_built le_crates sample_config sample_pairs flt chunks blocks ib meta ft"
    using ss_table_new_file [where c = le_crates and seeds = "(11, 22)" and hs = sum_hashing and flt = flt
        and cfg = sample_config and kvs = sample_pairs and gen = 5 and level = 0] flt ok by auto
  let ?t = "\<lparr>sst_footer = ft, sst_file = table_file le_crates blocks ib meta ft, sst_gen = 5, sst_meta = meta\<rparr>"
  have "blocks_of 2 chunks [(one_entry [1] (value_from (Some [7])), [1]), (one_entry [2] (value_from None), [2])]"
    and cc: "concat chunks = [([1], value_from (Some [7])), ([2], value_from None)]"
    using built sample_table_blocks by (auto simp: table_built_def sample_config_def sample_pairs_def block_kvs_def)
  then obtain ch1 ch2 where "chunks = [ch1, ch2]" "ch1 \<noteq> []" "ch2 \<noteq> []"
    by (auto simp: blocks_of_def list_all2_Cons2)
  then have "chunks = [[([1], value_from (Some [7]))], [([2], value_from None)]]"
    using cc by (cases ch1; cases ch2) (auto simp: append_eq_Cons_conv)
  moreover have "sst_layout le_crates ?t sample_pairs chunks blocks (place 0 (encode_blocks le_crates LZ4 blocks)) ib
      (data_restart_interval sample_config) (index_restart_interval sample_config)"
    by (rule table_built_layout [OF le.int_encoding_axioms le.lz4_codec_axioms _ _ _ built])
      (use ok built in \<open>auto simp: table_built_def\<close>)
  moreover have "sst_gen ?t = 5" "data_restart_interval sample_config = 2" "index_restart_interval sample_config = 2"
    by (simp_all add: sample_config_def)
  ultimately show ?thesis by metis
qed

text \<open>\<open>seek(Seek::Last)\<close> does not go to the last block. The index iterator runs off its end, no
  data block is fetched, and the data iterator goes to the end of the block it happened to stand in:
  on a fresh iterator, \<open>try_prev\<close> then delivers the last pair of the \<^emph>\<open>first\<close> block.\<close>

theorem sst_iter_seek_last_stays_in_first_block:
  assumes "sst_layout c t kvs chunks blocks idxs ib r ri" "r \<ge> 2" "ri \<ge> 2"
    "cache_sound c tbls S" "tbls (sst_gen t) = Some t"
  shows "\<exists>it0 S0 it it'. sst_iter_new c t S = Ok (it0, S0) \<and> sst_seek c it0 S0 Seek_Last = Ok (it, S0) \<and>
    sst_try_prev c it S0 = Ok (Some (to_key_value (last (chunks ! 0))), it', S0)"
proof -
  obtain it0 S0 where it0: "sst_iter_new c t S = Ok (it0, S0)" "si_rep chunks idxs r ri t it0 0"
    using sst_iter_new_rep [OF assms(1,3-5)] by blast
  then show ?thesis using sst_seek_last_rep [OF assms(1-3) it0(2)] by blast
qed

theorem sst_iter_seek_last_stays_in_first_block_witness:
  "\<exists>t S it0 S0 it it'. sst_iter_new le_crates t S = Ok (it0, S0) \<and>
    sst_seek le_crates it0 S0 Seek_Last = Ok (it, S0) \<and>
    sst_try_prev le_crates it S0 = Ok (Some ([1], Some [7]), it', S0)"
proof -
  obtain t blocks idxs ib where t: "sst_gen t = 5" "sst_layout le_crates t sample_pairs
      [[([1], value_from (Some [7]))], [([2], value_from None)]] blocks idxs ib 2 2"
    using sample_layout by blast
  obtain S where S: "cache_sound le_crates [5 \<mapsto> t] S" using empty_cache_sound by blast
  show ?thesis using sst_iter_seek_last_stays_in_first_block [OF t(2) _ _ S] t(1)
    by (fastforce simp: to_key_value_def)
qed

end
