(* ===== verification/Table_Scope.thy ===== *)
theory Table_Scope
  imports Kip_Config
begin

text \<open>
  \<open>src/src/kernel/lsm/table/scope.rs\<close>: the key range of a table with its counter of missed seeks, and
  \<open>src/src/kernel/lsm/table/meta.rs\<close>: the statistics of tables.

  The counter of a scope is an \<open>Arc<AtomicU32>\<close> that all clones share. It is a reference into the list
  of counters, which the operations that create or change counters pass along.
\<close>

section \<open>Scopes\<close>

definition SEEK_COMPACTION_COUNT :: "32 word" where "SEEK_COMPACTION_COUNT = 100"

type_synonym counters = "32 word list"

record scope =
  scope_start :: bytes
  scope_end :: bytes
  scope_gen :: i64
  allowed_seeks :: "nat option"

definition scope_eq :: "counters \<Rightarrow> scope \<Rightarrow> scope \<Rightarrow> bool" where
  "scope_eq cs a b =
     (case (allowed_seeks a, allowed_seeks b) of
        (Some i, Some j) \<Rightarrow> cs ! i = cs ! j \<and> scope_start a = scope_start b \<and> scope_end a = scope_end b \<and>
          scope_gen a = scope_gen b
      | _ \<Rightarrow> False)"

text \<open>\<open>fetch_add\<close> wraps, the addition \<open>current + 1\<close> is checked, and the exchange succeeds because no other
  thread runs in between.\<close>

definition seeks_increase :: "counters \<Rightarrow> scope \<Rightarrow> (bool \<times> counters) outcome" where
  "seeks_increase cs s =
     (case allowed_seeks s of
        None \<Rightarrow> Ok (False, cs)
      | Some i \<Rightarrow>
          (let current = cs ! i; cs' = cs[i := current + 1] in
           if current > SEEK_COMPACTION_COUNT then
             (if current = - 1 then Panic
              else if cs' ! i = current + 1 then Ok (True, cs'[i := 0])
              else Ok (False, cs'))
           else Ok (False, cs')))"

definition scope_from_range :: "counters \<Rightarrow> i64 \<Rightarrow> bytes \<Rightarrow> bytes \<Rightarrow> scope \<times> counters" where
  "scope_from_range cs gen first final =
     (\<lparr>scope_start = first, scope_end = final, scope_gen = gen, allowed_seeks = Some (length cs)\<rparr>, cs @ [0])"

definition scope_from_key :: "bytes \<Rightarrow> scope" where
  "scope_from_key key = \<lparr>scope_start = key, scope_end = key, scope_gen = 0, allowed_seeks = None\<rparr>"

definition scope_fusion :: "scope list \<Rightarrow> scope option" where
  "scope_fusion scopes =
     (case scopes of
        [] \<Rightarrow> None
      | s # ss \<Rightarrow> Some \<lparr>
          scope_start = fold (\<lambda>x m. min m (scope_start x)) ss (scope_start s),
          scope_end = fold (\<lambda>x m. max m (scope_end x)) ss (scope_end s),
          scope_gen = 0, allowed_seeks = None\<rparr>)"

definition scope_meet :: "scope \<Rightarrow> scope \<Rightarrow> bool" where
  "scope_meet s target \<longleftrightarrow>
     scope_start s \<le> scope_start target \<and> scope_end s \<ge> scope_start target \<or>
     scope_start s \<le> scope_end target \<and> scope_end s \<ge> scope_end target \<or>
     scope_start s \<le> scope_start target \<and> scope_end s \<ge> scope_end target \<or>
     scope_start s \<ge> scope_start target \<and> scope_end s \<le> scope_end target"

definition meet_by_key :: "scope \<Rightarrow> bytes \<Rightarrow> bool" where
  "meet_by_key s key \<longleftrightarrow> scope_start s \<le> key \<and> scope_end s \<ge> key"

definition meet_bound :: "scope \<Rightarrow> bytes bound \<Rightarrow> bytes bound \<Rightarrow> bool" where
  "meet_bound s lo hi \<longleftrightarrow>
     (case lo of Included k \<Rightarrow> scope_start s \<le> k | Excluded k \<Rightarrow> scope_start s < k | Unbounded \<Rightarrow> True) \<and>
     (case hi of Included k \<Rightarrow> scope_end s \<ge> k | Excluded k \<Rightarrow> scope_end s > k | Unbounded \<Rightarrow> True)"

definition from_sorted_vec_data :: "counters \<Rightarrow> i64 \<Rightarrow> key_value list \<Rightarrow> (scope \<times> counters) outcome" where
  "from_sorted_vec_data cs gen vec_mem_data =
     (case vec_mem_data of
        [] \<Rightarrow> Err DataEmpty
      | one # rest \<Rightarrow>
          if rest = [] then Ok (scope_from_range cs gen (fst one) (fst one))
          else Ok (scope_from_range cs gen (fst one) (fst (last vec_mem_data))))"

section \<open>Statistics of tables\<close>

record table_meta =
  meta_size_of_disk :: nat
  meta_len :: nat

definition meta_default :: table_meta where
  "meta_default = \<lparr>meta_size_of_disk = 0, meta_len = 0\<rparr>"

definition meta_fusion :: "table_meta list \<Rightarrow> table_meta" where
  "meta_fusion metas =
     fold (\<lambda>m acc. acc\<lparr>meta_len := meta_len acc + meta_len m,
       meta_size_of_disk := meta_size_of_disk acc + meta_size_of_disk m\<rparr>) metas meta_default"

section \<open>Lemmas\<close>

definition scope_wf :: "scope \<Rightarrow> bool" where
  "scope_wf s \<longleftrightarrow> scope_start s \<le> scope_end s"

definition covers :: "scope \<Rightarrow> key_value list \<Rightarrow> bool" where
  "covers s kvs \<longleftrightarrow> (\<forall>k\<in>fst ` set kvs. meet_by_key s k)"

lemma scope_meet_iff:
  assumes "scope_wf a" "scope_wf b"
  shows "scope_meet a b \<longleftrightarrow> scope_start a \<le> scope_end b \<and> scope_start b \<le> scope_end a"
  using assms unfolding scope_meet_def scope_wf_def by (meson order.trans linear)

lemma scope_meet_key:
  assumes "scope_wf a" "scope_wf b" "meet_by_key a k" "meet_by_key b k"
  shows "scope_meet a b"
  using assms(3,4) by (auto simp: scope_meet_iff [OF assms(1,2)] meet_by_key_def intro: order.trans)

lemma scope_meet_overlap:
  assumes "scope_wf a" "scope_wf b"
  shows "scope_meet a b \<longleftrightarrow> (\<exists>key. meet_by_key a key \<and> meet_by_key b key)"
proof
  assume "scope_meet a b"
  then have "meet_by_key a (max (scope_start a) (scope_start b)) \<and> meet_by_key b (max (scope_start a) (scope_start b))"
    using assms by (simp add: scope_meet_iff meet_by_key_def scope_wf_def)
  then show "\<exists>key. meet_by_key a key \<and> meet_by_key b key" by blast
qed (use scope_meet_key [OF assms] in blast)

lemma fold_min_min: "fold (\<lambda>x m. min m (f x)) xs (a :: 'a::linorder) = fold min (map f xs) a"
  by (induction xs arbitrary: a) (simp_all add: min.commute)

lemma fold_max_max: "fold (\<lambda>x m. max m (f x)) xs (a :: 'a::linorder) = fold max (map f xs) a"
  by (induction xs arbitrary: a) (simp_all add: max.commute)

lemma scope_fusion_bounds:
  assumes "scope_fusion scopes = Some u" "s \<in> set scopes"
  shows "scope_start u \<le> scope_start s" "scope_end s \<le> scope_end u"
proof -
  obtain h t where ht: "scopes = h # t" using assms(2) by (cases scopes) auto
  have u: "scope_start u = Min (set (map scope_start (h # t)))" "scope_end u = Max (set (map scope_end (h # t)))"
    using assms(1) unfolding Min.set_eq_fold Max.set_eq_fold
    by (auto simp: ht scope_fusion_def fold_min_min fold_max_max Min.set_eq_fold Max.set_eq_fold simp del: set_map list.set)
  show "scope_start u \<le> scope_start s" unfolding u(1) using assms(2) by (intro Min_le) (auto simp: ht)
  show "scope_end s \<le> scope_end u" unfolding u(2) using assms(2) by (intro Max_ge) (auto simp: ht)
qed

lemma scope_fusion_Some: "scopes \<noteq> [] \<Longrightarrow> \<exists>u. scope_fusion scopes = Some u"
  by (cases scopes) (simp_all add: scope_fusion_def)

lemma scope_fusion_wf:
  assumes "scope_fusion scopes = Some u" "\<forall>s\<in>set scopes. scope_wf s"
  shows "scope_wf u"
proof -
  obtain s where "s \<in> set scopes" using assms(1) by (cases scopes) (auto simp: scope_fusion_def)
  then show ?thesis
    using scope_fusion_bounds [OF assms(1)] assms(2) unfolding scope_wf_def by (meson order.trans)
qed

lemma from_sorted_vec_data_covers:
  assumes "keys_ascending kvs" "kvs \<noteq> []"
  shows "\<exists>s. from_sorted_vec_data cs gen kvs = Ok (s, cs @ [0]) \<and> scope_gen s = gen \<and> scope_wf s \<and>
    allowed_seeks s = Some (length cs) \<and> covers s kvs \<and>
    scope_start s = fst (hd kvs) \<and> scope_end s = fst (last kvs)"
proof -
  have s: "sorted (map fst kvs)" by (rule ascending_sorted [OF assms(1)])
  have le: "\<forall>kv\<in>set kvs. fst (hd kvs) \<le> fst kv \<and> fst kv \<le> fst (last kvs)"
  proof
    fix kv assume kv: "kv \<in> set kvs"
    then have "fst kv \<le> last (map fst kvs)" by (intro sorted_le_last [OF s]) simp
    then show "fst (hd kvs) \<le> fst kv \<and> fst kv \<le> fst (last kvs)"
      using s assms(2) kv by (cases kvs) (auto simp: last_map)
  qed
  then show ?thesis
    using assms(2)
    by (cases kvs) (auto simp: from_sorted_vec_data_def scope_from_range_def scope_wf_def covers_def meet_by_key_def)
qed

lemma meta_fusion_sum:
  "meta_fusion ms = \<lparr>meta_size_of_disk = sum_list (map meta_size_of_disk ms), meta_len = sum_list (map meta_len ms)\<rparr>"
proof -
  have "fold (\<lambda>m acc. acc\<lparr>meta_len := meta_len acc + meta_len m,
      meta_size_of_disk := meta_size_of_disk acc + meta_size_of_disk m\<rparr>) ms \<lparr>meta_size_of_disk = a, meta_len = b\<rparr> =
      \<lparr>meta_size_of_disk = a + sum_list (map meta_size_of_disk ms), meta_len = b + sum_list (map meta_len ms)\<rparr>" for a b
    by (induction ms arbitrary: a b) simp_all
  then show ?thesis by (simp add: meta_fusion_def meta_default_def)
qed

text \<open>\<open>n\<close> calls of \<open>seeks_increase\<close> on the same scope: every 102nd call asks for a compaction and resets
  the counter.\<close>

fun seeks_many :: "nat \<Rightarrow> counters \<Rightarrow> scope \<Rightarrow> (bool list \<times> counters) outcome" where
  "seeks_many 0 cs s = Ok ([], cs)"
| "seeks_many (Suc n) cs s =
     and_then (seeks_many n cs s) (\<lambda>(bs, cs1).
     and_then (seeks_increase cs1 s) (\<lambda>(b, cs2). Ok (bs @ [b], cs2)))"

lemma seeks_increase_step:
  assumes "allowed_seeks s = Some i" "i < length cs" "cs ! i = word_of_nat m" "m < 102"
  shows "\<exists>cs'. seeks_increase cs s = Ok (m = 101, cs') \<and> length cs' = length cs \<and>
    cs' ! i = word_of_nat (if m = 101 then 0 else Suc m)"
proof -
  define w where "w = (word_of_nat m :: 32 word)"
  have u: "unat w = m" unfolding w_def using assms(4) by (intro unat_word_of_nat) simp
  have big: "w > SEEK_COMPACTION_COUNT \<longleftrightarrow> m = 101"
    using assms(4) by (auto simp: SEEK_COMPACTION_COUNT_def word_less_nat_alt u)
  have "w \<noteq> - 1"
  proof
    assume "w = - 1"
    then have "word_of_nat (Suc m) = (0 :: 32 word)" by (simp add: w_def)
    then have "(2 :: nat) ^ 32 dvd Suc m" unfolding word_of_nat_eq_0_iff by simp
    from dvd_imp_le [OF this] show False using assms(4) by simp
  qed
  moreover have "word_of_nat (Suc m) = w + 1" "cs ! i = w" using assms(3) by (simp_all add: w_def)
  ultimately show ?thesis using assms(1,2) big by (simp add: seeks_increase_def Let_def)
qed

lemma seeks_many_periodic:
  assumes "allowed_seeks s = Some i" "i < length cs" "cs ! i = 0"
  shows "\<exists>cs'. seeks_many n cs s = Ok (map (\<lambda>k. k mod 102 = 101) [0..<n], cs') \<and> length cs' = length cs \<and>
    cs' ! i = word_of_nat (n mod 102)"
proof (induction n)
  case 0
  then show ?case using assms(3) by simp
next
  case (Suc n)
  then obtain cs1 where cs1: "seeks_many n cs s = Ok (map (\<lambda>k. k mod 102 = 101) [0..<n], cs1)" "length cs1 = length cs"
      "cs1 ! i = word_of_nat (n mod 102)" by blast
  then obtain cs2 where cs2: "seeks_increase cs1 s = Ok (n mod 102 = 101, cs2)" "length cs2 = length cs1"
      "cs2 ! i = word_of_nat (if n mod 102 = 101 then 0 else Suc (n mod 102))"
    using seeks_increase_step [OF assms(1), of cs1 "n mod 102"] assms(2) by auto
  have "(if n mod 102 = 101 then 0 else Suc (n mod 102)) = Suc n mod 102" by (simp add: mod_Suc)
  then show ?case using cs1 cs2 by simp
qed

section \<open>Properties\<close>

text \<open>C28: the scope built from non-empty sorted data is the range from its first to its last key, so it contains every key of the data.
  It meets another well-formed scope exactly when some key lies in both, and the fusion of scopes contains what each of them
  contains.\<close>

theorem scope_covers_data:
  assumes "keys_ascending kvs" "kvs \<noteq> []" "scope_wf target"
  shows "\<exists>s cs'. from_sorted_vec_data cs gen kvs = Ok (s, cs') \<and> scope_gen s = gen \<and>
    (\<forall>key. meet_by_key s key \<longleftrightarrow> fst (hd kvs) \<le> key \<and> key \<le> fst (last kvs)) \<and> (\<forall>k\<in>fst ` set kvs. meet_by_key s k) \<and>
    (scope_meet s target \<longleftrightarrow> (\<exists>key. meet_by_key s key \<and> meet_by_key target key)) \<and>
    (\<forall>scopes u key. scope_fusion scopes = Some u \<and> s \<in> set scopes \<and> meet_by_key s key \<longrightarrow> meet_by_key u key)"
proof -
  obtain s where s: "from_sorted_vec_data cs gen kvs = Ok (s, cs @ [0])" "scope_gen s = gen" "scope_wf s" "covers s kvs"
      "scope_start s = fst (hd kvs)" "scope_end s = fst (last kvs)"
    using from_sorted_vec_data_covers [OF assms(1,2)] by blast
  have "meet_by_key u key" if "scope_fusion scopes = Some u" "s \<in> set scopes" "meet_by_key s key" for scopes u key
    using scope_fusion_bounds [OF that(1,2)] that(3) by (auto simp: meet_by_key_def intro: order.trans)
  moreover have "\<forall>k\<in>fst ` set kvs. meet_by_key s k" using s(4) by (simp add: covers_def)
  ultimately show ?thesis
    using s(1,2,5,6) scope_meet_overlap [OF s(3) assms(3)]
    by (intro exI [of _ s] exI [of _ "cs @ [0]"]) (auto simp: meet_by_key_def)
qed

theorem scope_covers_data_witness:
  "\<exists>s cs'. from_sorted_vec_data [] 3 [([1], None), ([2], Some [4]), ([5], None)] = Ok (s, cs') \<and>
    meet_by_key s [2] \<and> \<not> meet_by_key s [6] \<and> scope_meet s (scope_from_key [2])"
proof -
  obtain s cs' where s: "from_sorted_vec_data [] 3 [([1], None), ([2], Some [4]), ([5], None)] = Ok (s, cs')"
      "\<forall>key. meet_by_key s key \<longleftrightarrow> [1] \<le> key \<and> key \<le> [5]"
      "scope_meet s (scope_from_key [2]) \<longleftrightarrow> (\<exists>key. meet_by_key s key \<and> meet_by_key (scope_from_key [2]) key)"
    using scope_covers_data [of "[([1], None), ([2], Some [4]), ([5], None)]" "scope_from_key [2]" "[]" 3]
    by (auto simp: scope_from_key_def scope_wf_def)
  moreover have "meet_by_key (scope_from_key [2]) [2]" by (simp add: scope_from_key_def meet_by_key_def)
  moreover have "meet_by_key s [2]" "\<not> meet_by_key s [6]" unfolding s(2) [rule_format] by simp_all
  ultimately show ?thesis by blast
qed

text \<open>Starting from a fresh counter, exactly every 102nd missed seek asks for a seek compaction.\<close>

theorem seek_compaction_period:
  assumes "scope_from_range cs gen first final = (s, cs0)"
  shows "\<exists>cs'. seeks_many n cs0 s = Ok (map (\<lambda>k. k mod 102 = 101) [0..<n], cs')"
  using assms seeks_many_periodic [of s "length cs" cs0 n] by (auto simp: scope_from_range_def)

theorem seek_compaction_period_witness:
  "\<exists>cs'. seeks_many 3 [0] \<lparr>scope_start = [1], scope_end = [2], scope_gen = 4, allowed_seeks = Some 0\<rparr> =
    Ok ([False, False, False], cs')"
  using seek_compaction_period [of "[]" 4 "[1]" "[2]" "\<lparr>scope_start = [1], scope_end = [2], scope_gen = 4, allowed_seeks = Some 0\<rparr>" "[0]" 3]
  by (simp add: scope_from_range_def upt_rec)

end
