(* ===== verification/Log.thy ===== *)
theory Log
  imports Crates Kip_Io
begin

text \<open>
  The write-ahead log format, \<open>src/src/kernel/lsm/log.rs\<close>: \<open>LogWriter\<close> cuts records into fragments
  that never cross a block boundary, \<open>LogReader\<close> puts them together again, \<open>LogLoader::load\<close> replays a
  whole file.

  A writer's destination is a file with a position, because a log can be reopened and writing then
  overwrites what is there. A reader's source is the list of the bytes that are left. \<open>read\<close> may loop
  for ever; it is a partial function with \<open>None\<close> for a run that does not return.
\<close>

section \<open>Writer\<close>

definition BLOCK_SIZE :: nat where "BLOCK_SIZE = 32 * 1024"
definition HEADER_SIZE :: nat where "HEADER_SIZE = 4 + 4 + 1"

datatype record_type = Full | First | Middle | Last

fun record_type_byte :: "record_type \<Rightarrow> byte" where
  "record_type_byte Full = 1"
| "record_type_byte First = 2"
| "record_type_byte Middle = 3"
| "record_type_byte Last = 4"

definition record_type_from :: "byte \<Rightarrow> record_type outcome" where
  "record_type_from b =
     (if b = 1 then Ok Full else if b = 2 then Ok First else if b = 3 then Ok Middle
      else if b = 4 then Ok Last else Panic)"

record log_writer =
  dst :: io_file
  current_block_offset :: nat
  log_block_size :: nat

definition log_writer_new :: "io_file \<Rightarrow> log_writer" where
  "log_writer_new f = \<lparr>dst = f, current_block_offset = 0, log_block_size = BLOCK_SIZE\<rparr>"

definition log_writer_new_with_off :: "io_file \<Rightarrow> nat \<Rightarrow> log_writer" where
  "log_writer_new_with_off f off = (log_writer_new f)\<lparr>current_block_offset := off mod BLOCK_SIZE\<rparr>"

definition seek_end :: "log_writer \<Rightarrow> nat \<times> log_writer" where
  "seek_end w = (let (n, f) = file_seek_end (dst w) in (n, w\<lparr>dst := f\<rparr>))"

definition emit_record :: "crates \<Rightarrow> log_writer \<Rightarrow> record_type \<Rightarrow> bytes \<Rightarrow> nat \<Rightarrow> nat \<times> log_writer" where
  "emit_record c w t data len =
     (let crc = crc32_hash c (take len data);
          header_bytes = encode_fixed32 c crc @ encode_fixed32 c (word_of_nat len) @ [record_type_byte t];
          offset = length header_bytes + length (take len data)
      in (offset, w\<lparr>dst := file_write (file_write (dst w) header_bytes) (take len data),
                    current_block_offset := current_block_offset w + offset\<rparr>))"

definition fragment_type :: "bool \<Rightarrow> bool \<Rightarrow> record_type" where
  "fragment_type first_frag is_rest =
     (if first_frag \<and> is_rest then Full
      else if first_frag then First
      else if is_rest then Last
      else Middle)"

definition fill_block :: "log_writer \<Rightarrow> log_writer" where
  "fill_block w =
     (let space_left = log_block_size w - current_block_offset w in
      if space_left < HEADER_SIZE
      then w\<lparr>dst := (if space_left > 0 then file_write (dst w) (replicate space_left 0) else dst w),
             current_block_offset := 0\<rparr>
      else w)"

text \<open>The loop of \<open>add_record\<close>. A fragment may be empty, when exactly a header fits into the block;
  the next round then starts a new block.\<close>

partial_function (option) add_record_loop ::
  "crates \<Rightarrow> log_writer \<Rightarrow> bytes \<Rightarrow> nat \<Rightarrow> (nat \<times> log_writer) outcome option" where
  "add_record_loop c w rec len =
     (if rec = [] then Some (Ok (len, w))
      else if \<not> log_block_size w > HEADER_SIZE \<or> current_block_offset w > log_block_size w then Some Panic
      else
        (let w1 = fill_block w;
             avail_for_data = log_block_size w1 - current_block_offset w1 - HEADER_SIZE;
             data_frag_len = min (length rec) avail_for_data;
             t = fragment_type (len = 0) (data_frag_len = length rec);
             (len', w2) = emit_record c w1 t rec data_frag_len
         in add_record_loop c w2 (drop data_frag_len rec) len'))"

definition add_record :: "crates \<Rightarrow> log_writer \<Rightarrow> bytes \<Rightarrow> (nat \<times> log_writer) outcome option" where
  "add_record c w r = add_record_loop c w r 0"

section \<open>Reader\<close>

record log_reader =
  src :: bytes
  reader_offset :: nat
  reader_block_size :: nat

definition log_reader_new :: "bytes \<Rightarrow> log_reader" where
  "log_reader_new bs = \<lparr>src = bs, reader_offset = 0, reader_block_size = BLOCK_SIZE\<rparr>"

definition skip_block :: "log_reader \<Rightarrow> log_reader" where
  "skip_block r =
     (let leftover = reader_block_size r - reader_offset r in
      if leftover < HEADER_SIZE
      then r\<lparr>src := (if leftover \<noteq> 0 then drop leftover (src r) else src r), reader_offset := 0\<rparr>
      else r)"

text \<open>The loop of \<open>read\<close>; \<open>head\<close> is the part of \<open>head_scratch\<close> filled so far, \<open>dst_bytes\<close> the
  destination buffer. The number of bytes read is the length of the buffer.\<close>

partial_function (option) read_loop ::
  "crates \<Rightarrow> log_reader \<Rightarrow> bytes \<Rightarrow> bytes \<Rightarrow> (nat \<times> bytes \<times> log_reader) outcome option" where
  "read_loop c r head dst_bytes =
     (if reader_offset r > reader_block_size r then Some Panic
      else
        (let r1 = skip_block r;
             n = HEADER_SIZE - length head;
             head' = head @ take n (src r1);
             r2 = r1\<lparr>src := drop n (src r1)\<rparr>
         in if head' = [] then Some (Ok (length dst_bytes, dst_bytes, r2))
            else if length head' \<noteq> HEADER_SIZE then read_loop c r2 head' dst_bytes
            else
              (let crc = decode_fixed32 c (take 4 head');
                   len = unat (decode_fixed32 c (take 4 (drop 4 head')))
               in if length (src r2) < len then Some (Err Io)
                  else
                    (let buf = take len (src r2);
                         r3 = r2\<lparr>src := drop len (src r2), reader_offset := reader_offset r2 + HEADER_SIZE + len\<rparr>
                     in if crc32_hash c buf \<noteq> crc then Some (Err CrcMisMatch)
                        else
                          (case record_type_from (head' ! 8) of
                             Ok t \<Rightarrow>
                               if t = Full \<or> t = Last
                               then Some (Ok (length (dst_bytes @ buf), dst_bytes @ buf, r3))
                               else read_loop c r3 [] (dst_bytes @ buf)
                           | Err e \<Rightarrow> Some (Err e)
                           | Panic \<Rightarrow> Some Panic)))))"

definition log_read :: "crates \<Rightarrow> log_reader \<Rightarrow> (nat \<times> bytes \<times> log_reader) outcome option" where
  "log_read c r = read_loop c r [] []"

text \<open>\<open>LogLoader::load\<close>: an unreadable record ends the replay without an error.\<close>

partial_function (option) load_loop ::
  "crates \<Rightarrow> (bytes \<Rightarrow> 'r list \<Rightarrow> 'r list outcome) \<Rightarrow> log_reader \<Rightarrow> 'r list \<Rightarrow> 'r list outcome option" where
  "load_loop c fn_decode r records =
     (case log_read c r of
        None \<Rightarrow> None
      | Some res \<Rightarrow>
          (case res of
             Ok x \<Rightarrow>
               (if fst x > 0 then
                  (case fn_decode (fst (snd x)) records of
                     Ok records' \<Rightarrow> load_loop c fn_decode (snd (snd x)) records'
                   | Err e \<Rightarrow> Some (Err e)
                   | Panic \<Rightarrow> Some Panic)
                else Some (Ok records))
           | Err e \<Rightarrow> Some (Ok records)
           | Panic \<Rightarrow> Some Panic))"

definition log_load ::
  "crates \<Rightarrow> (bytes \<Rightarrow> 'r list \<Rightarrow> 'r list outcome) \<Rightarrow> bytes \<Rightarrow> 'r list \<Rightarrow> 'r list outcome option" where
  "log_load c fn_decode file records = load_loop c fn_decode (log_reader_new file) records"

text \<open>\<open>LogLoader\<close>: the directory of the logs is threaded through. \<open>_reload\<close> continues the given or the
  last generation; \<open>unwrap_or(Gen::create())\<close> draws a generation even when it is not needed.\<close>

definition log_loader_load ::
  "crates \<Rightarrow> (bytes \<Rightarrow> 'r list \<Rightarrow> 'r list outcome) \<Rightarrow> directory \<Rightarrow> i64 \<Rightarrow> 'r list \<Rightarrow>
   ('r list \<times> directory) outcome option" where
  "log_loader_load c fn_decode d gen records =
     (let (file, d') = factory_reader d gen in
      map_option (map_outcome_ok (\<lambda>rs. (rs, d'))) (log_load c fn_decode file records))"

definition log_loader_clean :: "directory \<Rightarrow> i64 \<Rightarrow> directory outcome" where
  "log_loader_clean d gen = factory_clean d gen"

definition log_loader_writer :: "directory \<Rightarrow> i64 \<Rightarrow> log_writer \<times> directory" where
  "log_loader_writer d gen = (let (new_fs, d') = factory_writer d gen in (log_writer_new new_fs, d'))"

definition reload_gen :: "directory \<Rightarrow> i64 option \<Rightarrow> i64 \<Rightarrow> i64 \<times> i64" where
  "reload_gen d name gen_buf =
     (let (fresh, gen_buf') = gen_create gen_buf in
      (case name of
         Some g \<Rightarrow> g
       | None \<Rightarrow> (if sorted_gen_list d = [] then fresh else last (sorted_gen_list d)), gen_buf'))"

definition log_loader_reload ::
  "crates \<Rightarrow> (bytes \<Rightarrow> 'r list \<Rightarrow> 'r list outcome) \<Rightarrow> directory \<Rightarrow> i64 option \<Rightarrow> i64 \<Rightarrow> 'r list \<Rightarrow>
   (i64 \<times> 'r list \<times> directory \<times> i64) outcome option" where
  "log_loader_reload c fn_decode d name gen_buf records =
     (let (log_gen, gen_buf') = reload_gen d name gen_buf in
      map_option (map_outcome_ok (\<lambda>(rs, d'). (log_gen, rs, d', gen_buf')))
        (log_loader_load c fn_decode d log_gen records))"

section \<open>The format as a function\<close>

definition frame :: "crates \<Rightarrow> record_type \<Rightarrow> bytes \<Rightarrow> bytes" where
  "frame c t data =
     encode_fixed32 c (crc32_hash c data) @ encode_fixed32 c (word_of_nat (length data)) @
     [record_type_byte t] @ data"

text \<open>The bytes a record occupies when it is written at offset \<open>off\<close> of a block of size \<open>B\<close>, and the
  offset behind it.\<close>

function log_encode :: "crates \<Rightarrow> nat \<Rightarrow> nat \<Rightarrow> bool \<Rightarrow> bytes \<Rightarrow> bytes \<times> nat" where
  "log_encode c B off first_frag rec =
     (if rec = [] \<or> B \<le> HEADER_SIZE then ([], off)
      else
        (let off1 = (if B - off < HEADER_SIZE then 0 else off);
             n = min (length rec) (B - off1 - HEADER_SIZE);
             rest = log_encode c B (off1 + HEADER_SIZE + n) False (drop n rec)
         in (replicate (if B - off < HEADER_SIZE then B - off else 0) 0 @
             frame c (fragment_type first_frag (n = length rec)) (take n rec) @ fst rest, snd rest)))"
  by pat_completeness auto
termination
  by (relation "measure (\<lambda>(c, B, off, first_frag, rec). 2 * length rec + (if B - off = HEADER_SIZE then 1 else 0))")
    (auto simp: HEADER_SIZE_def min_def simp flip: length_greater_0_conv split: if_splits)

declare log_encode.simps [simp del]

lemma log_encode_Nil [simp]: "log_encode c B off first_frag [] = ([], off)"
  by (simp add: log_encode.simps)

lemma log_encode_offset:
  "off \<le> B \<Longrightarrow> snd (log_encode c B off first_frag rec) \<le> B"
proof (induction c B off first_frag rec rule: log_encode.induct)
  case (1 c B off first_frag rec)
  show ?case
  proof (cases "rec = [] \<or> B \<le> HEADER_SIZE")
    case True
    then show ?thesis using "1.prems" by (auto simp: log_encode.simps [of c B off first_frag rec])
  next
    case False
    then show ?thesis using "1.IH" [OF False refl refl] "1.prems"
      by (auto simp: log_encode.simps [of c B off first_frag rec] Let_def)
  qed
qed

context int_encoding
begin

lemma emit_record_at:
  assumes "n \<le> length rec"
  shows "emit_record c \<lparr>dst = file_at xs ys, current_block_offset = off, log_block_size = B\<rparr> t rec n =
    (HEADER_SIZE + n, \<lparr>dst = file_at (xs @ frame c t (take n rec)) (drop (HEADER_SIZE + n) ys),
      current_block_offset = off + HEADER_SIZE + n, log_block_size = B\<rparr>)"
  using assms
  by (simp add: emit_record_def file_write_at frame_def HEADER_SIZE_def Let_def min_def add.commute)

lemma frame_length: "length (frame c t data) = HEADER_SIZE + length data"
  by (simp add: frame_def HEADER_SIZE_def)

lemma add_record_loop_encode:
  assumes "HEADER_SIZE < B" "off \<le> B"
  shows "\<exists>len'. (rec \<noteq> [] \<longrightarrow> len' > 0) \<and> (rec = [] \<longrightarrow> len' = len) \<and>
    add_record_loop c \<lparr>dst = file_at xs ys, current_block_offset = off, log_block_size = B\<rparr> rec len =
    Some (Ok (len', \<lparr>dst = file_at (xs @ fst (log_encode c B off (len = 0) rec))
        (drop (length (fst (log_encode c B off (len = 0) rec))) ys),
      current_block_offset = snd (log_encode c B off (len = 0) rec), log_block_size = B\<rparr>))"
  using assms
proof (induction "2 * length rec + (if B - off = HEADER_SIZE then 1 else 0)" arbitrary: off rec len xs ys rule: less_induct)
  case less
  show ?case
  proof (cases "rec = []")
    case True
    then show ?thesis by (simp add: add_record_loop.simps)
  next
    case False
    define off1 where "off1 = (if B - off < HEADER_SIZE then 0 else off)"
    define pad where "pad = replicate (if B - off < HEADER_SIZE then B - off else 0) (0 :: byte)"
    define n where "n = min (length rec) (B - off1 - HEADER_SIZE)"
    let ?t = "fragment_type (len = 0) (n = length rec)"
    let ?xs1 = "xs @ pad" and ?ys1 = "drop (length pad) ys" and ?off2 = "off1 + HEADER_SIZE + n"
    let ?xs2 = "?xs1 @ frame c ?t (take n rec)" and ?ys2 = "drop (HEADER_SIZE + n) ?ys1"
    have fill: "fill_block \<lparr>dst = file_at xs ys, current_block_offset = off, log_block_size = B\<rparr> =
        \<lparr>dst = file_at ?xs1 ?ys1, current_block_offset = off1, log_block_size = B\<rparr>"
      by (simp add: fill_block_def file_write_at Let_def off1_def pad_def)
    have n: "n \<le> length rec" "?off2 \<le> B" using less.prems by (auto simp: n_def off1_def)
    have step: "add_record_loop c \<lparr>dst = file_at xs ys, current_block_offset = off, log_block_size = B\<rparr> rec len =
        add_record_loop c \<lparr>dst = file_at ?xs2 ?ys2, current_block_offset = ?off2, log_block_size = B\<rparr>
          (drop n rec) (HEADER_SIZE + n)"
      using False less.prems emit_record_at [OF n(1), of ?xs1 ?ys1 off1 B ?t]
      by (subst add_record_loop.simps) (simp add: fill n_def [symmetric] Let_def del: diff_diff_left drop_drop)
    let ?rest = "log_encode c B ?off2 False (drop n rec)"
    have enc: "log_encode c B off (len = 0) rec = (pad @ frame c ?t (take n rec) @ fst ?rest, snd ?rest)"
      using False less.prems by (subst log_encode.simps) (simp add: n_def off1_def pad_def Let_def)
    have pos: "(HEADER_SIZE + n = 0) = False" by (simp add: HEADER_SIZE_def)
    have "2 * length (drop n rec) + (if B - ?off2 = HEADER_SIZE then 1 else 0) <
        2 * length rec + (if B - off = HEADER_SIZE then 1 else 0)"
      using False less.prems by (auto simp: n_def off1_def HEADER_SIZE_def min_def simp flip: length_greater_0_conv
          split: if_splits)
    from less.hyps [OF this less.prems(1) n(2), of "HEADER_SIZE + n" ?xs2 ?ys2]
    obtain len' where len': "drop n rec \<noteq> [] \<longrightarrow> len' > 0" "drop n rec = [] \<longrightarrow> len' = HEADER_SIZE + n"
        "add_record_loop c \<lparr>dst = file_at ?xs2 ?ys2, current_block_offset = ?off2, log_block_size = B\<rparr>
          (drop n rec) (HEADER_SIZE + n) =
         Some (Ok (len', \<lparr>dst = file_at (?xs2 @ fst ?rest) (drop (length (fst ?rest)) ?ys2),
          current_block_offset = snd ?rest, log_block_size = B\<rparr>))"
      unfolding pos by blast
    have "len' > 0" using len'(1,2) by (cases "drop n rec = []") (auto simp: HEADER_SIZE_def)
    then show ?thesis unfolding step enc using False len'(3) n(1)
      by (intro exI [of _ len']) (simp add: frame_length add_ac)
  qed
qed

lemma add_record_at:
  assumes "HEADER_SIZE < B" "off \<le> B"
  shows "\<exists>len'. add_record c \<lparr>dst = file_at xs ys, current_block_offset = off, log_block_size = B\<rparr> rec =
    Some (Ok (len', \<lparr>dst = file_at (xs @ fst (log_encode c B off True rec))
        (drop (length (fst (log_encode c B off True rec))) ys),
      current_block_offset = snd (log_encode c B off True rec), log_block_size = B\<rparr>))"
  using add_record_loop_encode [OF assms, of rec 0] by (auto simp: add_record_def)

end

section \<open>Reading back\<close>

context int_encoding
begin

lemma read_frame:
  assumes "length data < 2 ^ 32" "HEADER_SIZE \<le> B - off" "off \<le> B"
  shows "read_loop c \<lparr>src = frame c t data @ rest, reader_offset = off, reader_block_size = B\<rparr> [] acc =
    (let r3 = \<lparr>src = rest, reader_offset = off + HEADER_SIZE + length data, reader_block_size = B\<rparr> in
     if t = Full \<or> t = Last then Some (Ok (length (acc @ data), acc @ data, r3))
     else read_loop c r3 [] (acc @ data))"
proof -
  let ?a = "encode_fixed32 c (crc32_hash c data)" and ?l = "encode_fixed32 c (word_of_nat (length data))"
  have len: "unat (word_of_nat (length data) :: 32 word) = length data"
    using assms(1) by (intro unat_word_of_nat) simp
  let ?h = "?a @ ?l @ [record_type_byte t]"
  have skip: "skip_block \<lparr>src = xs, reader_offset = off, reader_block_size = B\<rparr> =
      \<lparr>src = xs, reader_offset = off, reader_block_size = B\<rparr>" for xs
    using assms(2) by (simp add: skip_block_def Let_def)
  have h: "length ?h = HEADER_SIZE" "?h \<noteq> []" by (simp_all add: HEADER_SIZE_def)
  have fr: "frame c t data @ rest = ?h @ data @ rest" by (simp add: frame_def)
  have tk: "take HEADER_SIZE (?h @ data @ rest) = ?h" "drop HEADER_SIZE (?h @ data @ rest) = data @ rest"
    using h(1) by (metis append_eq_conv_conj)+
  have sel: "take 4 ?h = ?a" "take 4 (drop 4 ?h) = ?l" "?h ! 8 = record_type_byte t"
    by (simp_all add: nth_append)
  show ?thesis unfolding fr
    by (subst read_loop.simps)
      (simp only: skip tk sel Let_def list.size append_Nil log_reader.simps diff_zero h,
        use assms(3) len in \<open>cases t; simp add: record_type_from_def not_less\<close>)
qed

lemma read_loop_skip:
  assumes "B - off < HEADER_SIZE" "off \<le> B" "HEADER_SIZE < B"
  shows "read_loop c \<lparr>src = replicate (B - off) 0 @ rest, reader_offset = off, reader_block_size = B\<rparr> [] acc =
    read_loop c \<lparr>src = rest, reader_offset = 0, reader_block_size = B\<rparr> [] acc"
proof -
  have "skip_block \<lparr>src = replicate (B - off) 0 @ rest, reader_offset = off, reader_block_size = B\<rparr> =
      skip_block \<lparr>src = rest, reader_offset = 0, reader_block_size = B\<rparr>"
    using assms by (simp add: skip_block_def Let_def)
  then show ?thesis
    using assms(2) by (simp add: read_loop.simps [of c "\<lparr>src = _, reader_offset = _, reader_block_size = _\<rparr>"])
qed

lemma read_loop_encode:
  assumes "HEADER_SIZE < B" "B < 2 ^ 32" "off \<le> B" "rec \<noteq> []"
  shows "read_loop c \<lparr>src = fst (log_encode c B off first_frag rec) @ rest, reader_offset = off, reader_block_size = B\<rparr> [] acc =
    Some (Ok (length (acc @ rec), acc @ rec,
      \<lparr>src = rest, reader_offset = snd (log_encode c B off first_frag rec), reader_block_size = B\<rparr>))"
  using assms
proof (induction "2 * length rec + (if B - off = HEADER_SIZE then 1 else 0)" arbitrary: off rec first_frag acc rule: less_induct)
  case less
  define off1 where "off1 = (if B - off < HEADER_SIZE then 0 else off)"
  define n where "n = min (length rec) (B - off1 - HEADER_SIZE)"
  let ?t = "fragment_type first_frag (n = length rec)" and ?off2 = "off1 + HEADER_SIZE + n"
  let ?more = "log_encode c B ?off2 False (drop n rec)"
  let ?rd = "\<lambda>bs off. \<lparr>src = bs, reader_offset = off, reader_block_size = B\<rparr>"
  have enc: "log_encode c B off first_frag rec =
      (replicate (if B - off < HEADER_SIZE then B - off else 0) 0 @ frame c ?t (take n rec) @ fst ?more, snd ?more)"
    using less.prems by (subst log_encode.simps) (simp add: n_def off1_def Let_def)
  have off1: "HEADER_SIZE \<le> B - off1" "off1 \<le> B" "?off2 \<le> B"
    using less.prems by (auto simp: off1_def n_def)
  have skip: "read_loop c (?rd (fst (log_encode c B off first_frag rec) @ rest) off) [] acc =
      read_loop c (?rd (frame c ?t (take n rec) @ fst ?more @ rest) off1) [] acc"
    using read_loop_skip [OF _ less.prems(3,1)] by (simp add: enc off1_def)
  have lt: "length (take n rec) < 2 ^ 32" using less.prems(2) by (auto simp: n_def)
  note fr = read_frame [OF lt off1(1,2), of ?t "fst ?more @ rest" acc]
  show ?case
  proof (cases "n = length rec")
    case True
    then show ?thesis unfolding skip fr using enc by (simp add: fragment_type_def Let_def)
  next
    case False
    then have ne: "drop n rec \<noteq> []" "n \<le> length rec" by (auto simp: n_def)
    have "2 * length (drop n rec) + (if B - ?off2 = HEADER_SIZE then 1 else 0) <
        2 * length rec + (if B - off = HEADER_SIZE then 1 else 0)"
      using less.prems by (auto simp: n_def off1_def HEADER_SIZE_def min_def simp flip: length_greater_0_conv
          split: if_splits)
    from less.hyps [OF this less.prems(1,2) off1(3) ne(1), of False "acc @ take n rec"]
    have "read_loop c (?rd (fst ?more @ rest) ?off2) [] (acc @ take n rec) =
        Some (Ok (length (acc @ rec), acc @ rec, ?rd rest (snd ?more)))"
      by simp
    moreover have "length (take n rec) = n" using ne(2) by simp
    ultimately show ?thesis unfolding skip fr using enc False by (simp add: fragment_type_def Let_def)
  qed
qed

end

section \<open>Sequences of records\<close>

fun add_records :: "crates \<Rightarrow> log_writer \<Rightarrow> bytes list \<Rightarrow> log_writer outcome option" where
  "add_records c w [] = Some (Ok w)"
| "add_records c w (r # rs) =
     (case add_record c w r of
        Some (Ok x) \<Rightarrow> add_records c (snd x) rs
      | Some (Err e) \<Rightarrow> Some (Err e)
      | Some Panic \<Rightarrow> Some Panic
      | None \<Rightarrow> None)"

fun log_stream :: "crates \<Rightarrow> nat \<Rightarrow> nat \<Rightarrow> bytes list \<Rightarrow> bytes \<times> nat" where
  "log_stream c B off [] = ([], off)"
| "log_stream c B off (r # rs) =
     (let x = log_encode c B off True r; y = log_stream c B (snd x) rs in (fst x @ fst y, snd y))"

definition push_record :: "bytes \<Rightarrow> bytes list \<Rightarrow> bytes list outcome" where
  "push_record buf records = Ok (records @ [buf])"

lemma push_records_fold: "fold (\<lambda>r recs. recs @ [r]) rs recs = recs @ rs"
  by (induction rs arbitrary: recs) simp_all

lemma log_stream_offset: "off \<le> B \<Longrightarrow> snd (log_stream c B off rs) \<le> B"
  by (induction rs arbitrary: off) (auto simp: Let_def log_encode_offset)

lemma HEADER_SIZE_pos [simp]: "0 < HEADER_SIZE"
  by (simp add: HEADER_SIZE_def)

lemma read_loop_eof:
  assumes "HEADER_SIZE < B" "off \<le> B"
  shows "\<exists>r. read_loop c \<lparr>src = [], reader_offset = off, reader_block_size = B\<rparr> [] acc = Some (Ok (length acc, acc, r))"
  using assms by (subst read_loop.simps) (auto simp: skip_block_def Let_def)

context int_encoding
begin

lemma add_records_stream:
  assumes "HEADER_SIZE < B" "off \<le> B"
  shows "add_records c \<lparr>dst = file_at xs [], current_block_offset = off, log_block_size = B\<rparr> rs =
    Some (Ok \<lparr>dst = file_at (xs @ fst (log_stream c B off rs)) [],
      current_block_offset = snd (log_stream c B off rs), log_block_size = B\<rparr>)"
  using assms(2)
proof (induction rs arbitrary: xs off)
  case (Cons r rs)
  then show ?case
    using add_record_at [OF assms(1) Cons.prems, of xs "[]" r]
      Cons.IH [OF log_encode_offset [OF Cons.prems], of "xs @ fst (log_encode c B off True r)"]
    by (auto simp: Let_def)
qed simp

text \<open>Replaying a stream consumes it record by record, whatever follows.\<close>

lemma load_loop_decode:
  assumes "HEADER_SIZE < B" "B < 2 ^ 32" "off \<le> B" "\<forall>r\<in>set rs. r \<noteq> []"
    and "\<forall>r\<in>set rs. \<forall>recs. fn r recs = Ok (g r recs)"
  shows "load_loop c fn \<lparr>src = fst (log_stream c B off rs) @ rest, reader_offset = off, reader_block_size = B\<rparr> recs =
    load_loop c fn \<lparr>src = rest, reader_offset = snd (log_stream c B off rs), reader_block_size = B\<rparr> (fold g rs recs)"
  using assms(3-5)
proof (induction rs arbitrary: off recs)
  case (Cons r rs)
  let ?e = "log_encode c B off True r"
  have "log_read c \<lparr>src = fst ?e @ fst (log_stream c B (snd ?e) rs) @ rest, reader_offset = off, reader_block_size = B\<rparr> =
      Some (Ok (length r, r, \<lparr>src = fst (log_stream c B (snd ?e) rs) @ rest, reader_offset = snd ?e, reader_block_size = B\<rparr>))"
    using read_loop_encode [OF assms(1,2) Cons.prems(1), of r True _ "[]"] Cons.prems(2) by (simp add: log_read_def)
  moreover have "length r > 0" "fn r recs = Ok (g r recs)" using Cons.prems(2,3) by simp_all
  ultimately show ?case
    using Cons.IH [OF log_encode_offset [OF Cons.prems(1)], of c True r "g r recs"] Cons.prems(2,3)
    by (subst load_loop.simps) (simp add: Let_def)
qed simp

lemma load_decode_eof:
  assumes "HEADER_SIZE < B" "B < 2 ^ 32" "off \<le> B" "\<forall>r\<in>set rs. r \<noteq> []"
    and "\<forall>r\<in>set rs. \<forall>recs. fn r recs = Ok (g r recs)"
  shows "load_loop c fn \<lparr>src = fst (log_stream c B off rs), reader_offset = off, reader_block_size = B\<rparr> recs =
    Some (Ok (fold g rs recs))"
proof -
  obtain r where "log_read c \<lparr>src = [], reader_offset = snd (log_stream c B off rs), reader_block_size = B\<rparr> = Some (Ok (0, [], r))"
    using read_loop_eof [OF assms(1) log_stream_offset [OF assms(3)], of c c rs "[]"] by (auto simp: log_read_def)
  then show ?thesis using load_loop_decode [OF assms, of "[]" recs]
    by (simp add: load_loop.simps [of c fn "\<lparr>src = [], reader_offset = _, reader_block_size = _\<rparr>"])
qed

lemma load_loop_stream:
  assumes "HEADER_SIZE < B" "B < 2 ^ 32" "off \<le> B" "\<forall>r\<in>set rs. r \<noteq> []"
  shows "load_loop c push_record \<lparr>src = fst (log_stream c B off rs) @ rest, reader_offset = off, reader_block_size = B\<rparr> recs =
    load_loop c push_record \<lparr>src = rest, reader_offset = snd (log_stream c B off rs), reader_block_size = B\<rparr> (recs @ rs)"
  using load_loop_decode [OF assms, of push_record "\<lambda>r recs. recs @ [r]" rest recs] push_records_fold [of rs recs]
  by (simp add: push_record_def)

lemma load_stream_eof:
  assumes "HEADER_SIZE < B" "B < 2 ^ 32" "off \<le> B" "\<forall>r\<in>set rs. r \<noteq> []"
  shows "load_loop c push_record \<lparr>src = fst (log_stream c B off rs), reader_offset = off, reader_block_size = B\<rparr> recs =
    Some (Ok (recs @ rs))"
  using load_decode_eof [OF assms, of push_record "\<lambda>r recs. recs @ [r]" recs] push_records_fold [of rs recs]
  by (simp add: push_record_def)

end

lemma log_stream_snoc:
  "log_stream c B off (rs @ [r]) =
   (fst (log_stream c B off rs) @ fst (log_encode c B (snd (log_stream c B off rs)) True r),
    snd (log_encode c B (snd (log_stream c B off rs)) True r))"
  by (induction rs arbitrary: off) (simp_all add: Let_def)

lemma log_stream_nonempty: "log_stream c B off (filter (\<lambda>r. r \<noteq> []) rs) = log_stream c B off rs"
  by (induction rs arbitrary: off) (auto simp: Let_def)

text \<open>A record that fits into the first block is one full fragment, as long as the record.\<close>

lemma log_encode_small:
  assumes "r \<noteq> []" "HEADER_SIZE + length r \<le> BLOCK_SIZE"
  shows "log_encode c BLOCK_SIZE 0 True r = (frame c Full r, HEADER_SIZE + length r)"
  using assms by (subst log_encode.simps) (auto simp: HEADER_SIZE_def BLOCK_SIZE_def fragment_type_def Let_def)

section \<open>Properties\<close>

lemma log_writer_new_at: "log_writer_new \<lparr>contents = ys, position = 0\<rparr> = \<lparr>dst = file_at [] ys, current_block_offset = 0, log_block_size = BLOCK_SIZE\<rparr>"
  by (simp add: log_writer_new_def file_at_def)

lemma block_size_facts: "HEADER_SIZE < BLOCK_SIZE" "BLOCK_SIZE < 2 ^ 32"
  by (simp_all add: HEADER_SIZE_def BLOCK_SIZE_def)

text \<open>C24: the log round trip. Non-empty records of any size, written through a fresh \<open>LogWriter\<close> to an
  empty file, are replayed by \<open>LogLoader::load\<close> in order and unchanged, across block boundaries;
  writing and reading both terminate.\<close>

theorem log_roundtrip:
  assumes "int_encoding c" "\<forall>r\<in>set rs. r \<noteq> []"
  shows "\<exists>w. add_records c (log_writer_new \<lparr>contents = [], position = 0\<rparr>) rs = Some (Ok w) \<and>
    log_load c push_record (contents (dst w)) [] = Some (Ok rs)"
  using int_encoding.add_records_stream [OF assms(1) block_size_facts(1) le0, of "[]" rs]
    int_encoding.load_stream_eof [OF assms(1) block_size_facts le0 assms(2), of "[]"]
  by (simp add: log_writer_new_at log_load_def log_reader_new_def file_at_def)

theorem log_roundtrip_witness:
  "\<exists>w. add_records le_crates (log_writer_new \<lparr>contents = [], position = 0\<rparr>) [[1, 2], replicate 70000 9, [3]] =
      Some (Ok w) \<and>
    log_load le_crates push_record (contents (dst w)) [] = Some (Ok [[1, 2], replicate 70000 9, [3]])"
  by (rule log_roundtrip [OF le.int_encoding_axioms]) auto

lemma read_loop_bad_frame:
  assumes "length head = HEADER_SIZE" "HEADER_SIZE \<le> B - off" "off \<le> B"
    and "length rest < unat (decode_fixed32 c (take 4 (drop 4 head))) \<or>
      crc32_hash c (take (unat (decode_fixed32 c (take 4 (drop 4 head)))) rest) \<noteq> decode_fixed32 c (take 4 head)"
  shows "\<exists>e. read_loop c \<lparr>src = head @ rest, reader_offset = off, reader_block_size = B\<rparr> [] acc = Some (Err e)"
proof -
  have skip: "skip_block \<lparr>src = xs, reader_offset = off, reader_block_size = B\<rparr> =
      \<lparr>src = xs, reader_offset = off, reader_block_size = B\<rparr>" for xs
    using assms(2) by (simp add: skip_block_def Let_def)
  have tk: "take HEADER_SIZE (head @ rest) = head" "drop HEADER_SIZE (head @ rest) = rest" "head \<noteq> []"
    using assms(1) by (auto simp: HEADER_SIZE_def)
  show ?thesis using assms(1,3,4) by (subst read_loop.simps) (auto simp: skip tk Let_def not_less HEADER_SIZE_pos)
qed

lemma log_stream_sample: "log_stream le_crates BLOCK_SIZE 0 [[1, 2]] = ([3, 0, 0, 0, 2, 0, 0, 0, 1, 1, 2], 11)"
  by (simp add: log_encode.simps HEADER_SIZE_def BLOCK_SIZE_def frame_def fragment_type_def le_crates_eval
      del: little_endian.simps)

text \<open>A whole header whose payload is cut short or fails its checksum ends the replay.\<close>

lemma log_load_bad_fragment:
  assumes "int_encoding c" "\<forall>r\<in>set rs. r \<noteq> []"
    and "add_records c (log_writer_new \<lparr>contents = [], position = 0\<rparr>) rs = Some (Ok w)"
    and "length head = HEADER_SIZE" "HEADER_SIZE \<le> BLOCK_SIZE - current_block_offset w"
    and "length rest < unat (decode_fixed32 c (take 4 (drop 4 head))) \<or>
      crc32_hash c (take (unat (decode_fixed32 c (take 4 (drop 4 head)))) rest) \<noteq> decode_fixed32 c (take 4 head)"
  shows "log_load c push_record (contents (dst w) @ head @ rest) [] = Some (Ok rs)"
proof -
  let ?off = "snd (log_stream c BLOCK_SIZE 0 rs)"
  have w: "contents (dst w) = fst (log_stream c BLOCK_SIZE 0 rs)" "current_block_offset w = ?off"
    using int_encoding.add_records_stream [OF assms(1) block_size_facts(1) le0, of "[]" rs] assms(3)
    by (auto simp: log_writer_new_at file_at_def)
  obtain e where "log_read c \<lparr>src = head @ rest, reader_offset = ?off, reader_block_size = BLOCK_SIZE\<rparr> = Some (Err e)"
    using read_loop_bad_frame [OF assms(4) _ log_stream_offset [OF le0] assms(6), of BLOCK_SIZE c rs "[]"] assms(5) w(2)
    by (auto simp: log_read_def)
  then show ?thesis
    using int_encoding.load_loop_stream [OF assms(1) block_size_facts le0 assms(2), of "head @ rest" "[]"] w(1)
    by (simp add: log_load_def log_reader_new_def
        load_loop.simps [of c push_record "\<lparr>src = head @ rest, reader_offset = _, reader_block_size = _\<rparr>"])
qed

text \<open>At the end of the file \<open>read\<close> returns no bytes; with a header begun the loop tries again for ever.\<close>

lemma read_loop_torn_header:
  assumes "0 < length head" "length head < HEADER_SIZE" "src r = []" "reader_offset r \<le> reader_block_size r"
  shows "read_loop c r head acc = None"
proof (rule ccontr)
  assume "read_loop c r head acc \<noteq> None"
  then obtain y where "read_loop c r head acc = Some y" by blast
  from this have "\<not> (0 < length head \<and> length head < HEADER_SIZE \<and> src r = [] \<and> reader_offset r \<le> reader_block_size r)"
  proof (induction rule: read_loop.raw_induct [rotated 1, consumes 1])
    case (1 rec c r head acc y)
    note IH = "1.IH" and step = "1.hyps"
    have off: "reader_offset (skip_block r) \<le> reader_block_size (skip_block r)"
      if "reader_offset r \<le> reader_block_size r"
      using that by (simp add: skip_block_def Let_def)
    show ?case
    proof
      assume torn: "0 < length head \<and> length head < HEADER_SIZE \<and> src r = [] \<and> reader_offset r \<le> reader_block_size r"
      then have "src (skip_block r) = []" by (simp add: skip_block_def Let_def)
      then have "rec c ((skip_block r)\<lparr>src := []\<rparr>) head acc = Some y"
        using step torn by (auto simp: Let_def split: if_splits)
      from IH [OF this] show False using torn off by simp
    qed
  qed
  then show False using assms by blast
qed

text \<open>A header that is torn makes \<open>load\<close> loop for ever.\<close>

lemma log_load_torn_header:
  assumes "int_encoding c" "\<forall>r\<in>set rs. r \<noteq> []"
    and "add_records c (log_writer_new \<lparr>contents = [], position = 0\<rparr>) rs = Some (Ok w)"
    and "0 < length head" "length head < HEADER_SIZE" "HEADER_SIZE \<le> BLOCK_SIZE - current_block_offset w"
  shows "log_load c push_record (contents (dst w) @ head) [] = None"
proof -
  let ?off = "snd (log_stream c BLOCK_SIZE 0 rs)"
  have w: "contents (dst w) = fst (log_stream c BLOCK_SIZE 0 rs)" "current_block_offset w = ?off"
    using int_encoding.add_records_stream [OF assms(1) block_size_facts(1) le0, of "[]" rs] assms(3)
    by (auto simp: log_writer_new_at file_at_def)
  have off: "?off \<le> BLOCK_SIZE" by (rule log_stream_offset [OF le0])
  have skip: "skip_block \<lparr>src = head, reader_offset = ?off, reader_block_size = BLOCK_SIZE\<rparr> =
      \<lparr>src = head, reader_offset = ?off, reader_block_size = BLOCK_SIZE\<rparr>"
    using assms(6) w(2) by (simp add: skip_block_def Let_def)
  have "log_read c \<lparr>src = head, reader_offset = ?off, reader_block_size = BLOCK_SIZE\<rparr> = None"
    unfolding log_read_def using assms(4,5) off
    by (subst read_loop.simps) (auto simp: skip Let_def read_loop_torn_header)
  then show ?thesis
    using int_encoding.load_loop_stream [OF assms(1) block_size_facts le0 assms(2), of head "[]"] w(1)
    by (simp add: log_load_def log_reader_new_def
        load_loop.simps [of c push_record "\<lparr>src = head, reader_offset = _, reader_block_size = _\<rparr>"])
qed

text \<open>C25: a log with a damaged tail. Behind complete records, at a place where the block has room for a header, let the file
  continue with a tail that is no intact fragment. If the tail has a whole header, with a payload that is cut short or fails the
  checksum, the replay delivers exactly the complete records and no error. If the tail is shorter than a header (a crash while the
  header of the next fragment is written), \<open>load\<close> never returns.\<close>

theorem log_load_damaged_tail:
  assumes "int_encoding c" "\<forall>r\<in>set rs. r \<noteq> []"
    and "add_records c (log_writer_new \<lparr>contents = [], position = 0\<rparr>) rs = Some (Ok w)"
    and "HEADER_SIZE \<le> BLOCK_SIZE - current_block_offset w" "tail \<noteq> []"
    and "len = unat (decode_fixed32 c (take 4 (drop 4 tail)))" "payload = drop HEADER_SIZE tail"
    and "HEADER_SIZE \<le> length tail \<longrightarrow> length payload < len \<or> crc32_hash c (take len payload) \<noteq> decode_fixed32 c (take 4 tail)"
  shows "log_load c push_record (contents (dst w) @ tail) [] = (if HEADER_SIZE \<le> length tail then Some (Ok rs) else None)"
proof (cases "HEADER_SIZE \<le> length tail")
  case True
  let ?head = "take HEADER_SIZE tail"
  have h: "take 4 (drop 4 ?head) = take 4 (drop 4 tail)" "take 4 ?head = take 4 tail"
    by (simp_all add: HEADER_SIZE_def take_drop)
  have "log_load c push_record (contents (dst w) @ ?head @ payload) [] = Some (Ok rs)"
    by (rule log_load_bad_fragment [OF assms(1-3) _ assms(4)]) (use True assms(6,8) in \<open>simp_all add: h del: take_take\<close>)
  then show ?thesis using True assms(7) by simp
next
  case False
  then show ?thesis using log_load_torn_header [OF assms(1-3) _ _ assms(4), of tail] assms(5) by simp
qed

theorem log_load_damaged_tail_witness:
  "\<exists>w. add_records le_crates (log_writer_new \<lparr>contents = [], position = 0\<rparr>) [[1, 2]] = Some (Ok w) \<and>
    log_load le_crates push_record (contents (dst w) @ [0, 0, 0, 0, 5, 0, 0, 0, 1, 7]) [] = Some (Ok [[1, 2]]) \<and>
    log_load le_crates push_record (contents (dst w) @ [0, 0, 0]) [] = None"
proof -
  have enc: "log_stream le_crates BLOCK_SIZE 0 [[1, 2]] = ([3, 0, 0, 0, 2, 0, 0, 0, 1, 1, 2], 11)"
    by (rule log_stream_sample)
  obtain w where w: "add_records le_crates (log_writer_new \<lparr>contents = [], position = 0\<rparr>) [[1, 2]] = Some (Ok w)"
      "current_block_offset w = 11"
    using int_encoding.add_records_stream [OF le.int_encoding_axioms block_size_facts(1) le0, of "[]" "[[1, 2]]"]
    by (auto simp: log_writer_new_at enc simp del: log_stream.simps add_records.simps)
  have len: "unat (decode_fixed32 le_crates [5, 0, 0, 0]) = 5" by (simp add: le_crates_def)
  note damaged = log_load_damaged_tail [OF le.int_encoding_axioms _ w(1) _ _ refl refl]
  have "log_load le_crates push_record (contents (dst w) @ [0, 0, 0, 0, 5, 0, 0, 0, 1, 7]) [] = Some (Ok [[1, 2]])"
    using damaged [of "[0, 0, 0, 0, 5, 0, 0, 0, 1, 7]"] by (simp add: w(2) len HEADER_SIZE_def BLOCK_SIZE_def)
  moreover have "log_load le_crates push_record (contents (dst w) @ [0, 0, 0]) [] = None"
    using damaged [of "[0, 0, 0]"] by (simp add: w(2) HEADER_SIZE_def BLOCK_SIZE_def)
  ultimately show ?thesis using w(1) by blast
qed

end
