(* ===== verification/Merging_Iter.thy ===== *)
theory Merging_Iter
  imports Ordered_Map Block_Iter
begin

text \<open>
  The merging iterators of \<open>src/src/kernel/lsm/iterator/merging_iter.rs\<close>. The source is generic in the
  iterators it merges (trait objects of \<open>Iter\<close> and \<open>SeekIter\<close>); here the iterator type \<open>'i\<close> and its
  \<open>try_next\<close> and \<open>seek\<close> are arguments, with a state \<open>'s\<close> (the caches) that every call may change. The
  locale \<open>kv_iter\<close> is the contract of the trait: an iterator has a list of pairs left to deliver.

  \<open>MergingIter\<close> and \<open>SeekMergingIter\<close> share \<open>new\<close> and \<open>try_next\<close> (the macros \<open>impl_new\<close> and
  \<open>impl_try_next\<close>). The loop of \<open>try_next\<close> ends only if the merged iterators do; it is a partial function.
\<close>

section \<open>Keys of the buffer\<close>

datatype iter_key = IterKey (ik_num: nat) (ik_bytes: bytes)

definition iter_key_cmp :: "iter_key \<Rightarrow> iter_key \<Rightarrow> ordering" where
  "iter_key_cmp a b = then_with (cmp (ik_bytes a) (ik_bytes b)) (cmp (ik_num a) (ik_num b))"

instantiation iter_key :: linorder
begin

definition less_eq_iter_key :: "iter_key \<Rightarrow> iter_key \<Rightarrow> bool" where
  "a \<le> b \<longleftrightarrow> iter_key_cmp a b \<noteq> Greater"

definition less_iter_key :: "iter_key \<Rightarrow> iter_key \<Rightarrow> bool" where
  "a < b \<longleftrightarrow> iter_key_cmp a b = Less"

instance
  by standard
    (auto simp: less_eq_iter_key_def less_iter_key_def iter_key_cmp_def cmp_def iter_key.expand split: if_splits)

end

lemma iter_key_less: "a < b \<longleftrightarrow> ik_bytes a < ik_bytes b \<or> ik_bytes a = ik_bytes b \<and> ik_num a < ik_num b"
  by (auto simp: less_iter_key_def iter_key_cmp_def cmp_def)

section \<open>The iterators\<close>

record 'i merging_iter =
  vec_iter :: "'i list"
  map_buf :: "(iter_key, bytes option) btree_map"
  next_buf :: "key_value option"

type_synonym ('i, 's) iter_step = "'i \<Rightarrow> 's \<Rightarrow> (key_value option \<times> 'i \<times> 's) outcome option"
type_synonym ('i, 's) iter_seek = "'i \<Rightarrow> 's \<Rightarrow> seek \<Rightarrow> ('i \<times> 's) outcome option"

definition buf_map_insert ::
  "(iter_key, bytes option) btree_map \<Rightarrow> nat \<Rightarrow> key_value option \<Rightarrow> (iter_key, bytes option) btree_map" where
  "buf_map_insert m num item =
     (case item of Some (k, v) \<Rightarrow> btree_insert (IterKey num k) v m | None \<Rightarrow> m)"

definition init_next_buf :: "'i merging_iter \<Rightarrow> 'i merging_iter" where
  "init_next_buf M =
     M\<lparr>next_buf := (case map_buf M of [] \<Rightarrow> None | (ik, v) # _ \<Rightarrow> Some (ik_bytes ik, v))\<rparr>"

text \<open>The loop of \<open>new\<close> over the enumerated iterators.\<close>

fun new_loop ::
  "('i, 's) iter_step \<Rightarrow> nat \<Rightarrow> 'i list \<Rightarrow> (iter_key, bytes option) btree_map \<Rightarrow> 's \<Rightarrow>
   ('i list \<times> (iter_key, bytes option) btree_map \<times> 's) outcome option" where
  "new_loop step num [] m s = Some (Ok ([], m, s))"
| "new_loop step num (it # its) m s =
     bind_oo (step it s) (\<lambda>(item, it', s').
     bind_oo (new_loop step (Suc num) its (buf_map_insert m num item) s') (\<lambda>(its', m', s'').
     Some (Ok (it' # its', m', s''))))"

definition merging_new :: "('i, 's) iter_step \<Rightarrow> 'i list \<Rightarrow> 's \<Rightarrow> ('i merging_iter \<times> 's) outcome option" where
  "merging_new step its s =
     bind_oo (new_loop step 0 its [] s) (\<lambda>(its', m, s').
     Some (Ok (init_next_buf \<lparr>vec_iter = its', map_buf = m, next_buf = None\<rparr>, s')))"

partial_function (option) merge_loop ::
  "('i, 's) iter_step \<Rightarrow> bytes \<Rightarrow> 'i merging_iter \<Rightarrow> 's \<Rightarrow> ('i merging_iter \<times> 's) outcome option" where
  "merge_loop step item_key M s =
     (case btree_pop_first (map_buf M) of
        None \<Rightarrow> Some (Ok (M, s))
      | Some ((ik, v), m) \<Rightarrow>
          (if \<not> ik_num ik < length (vec_iter M) then Some Panic
           else
             (case step (vec_iter M ! ik_num ik) s of
                None \<Rightarrow> None
              | Some (Err e) \<Rightarrow> Some (Err e)
              | Some Panic \<Rightarrow> Some Panic
              | Some (Ok r) \<Rightarrow>
                  (let M1 = M\<lparr>vec_iter := (vec_iter M)[ik_num ik := fst (snd r)],
                              map_buf := buf_map_insert m (ik_num ik) (fst r)\<rparr>
                   in if item_key = ik_bytes ik then merge_loop step item_key M1 (snd (snd r))
                      else Some (Ok (M1\<lparr>next_buf := Some (ik_bytes ik, v)\<rparr>, snd (snd r)))))))"

definition merging_try_next ::
  "('i, 's) iter_step \<Rightarrow> 'i merging_iter \<Rightarrow> 's \<Rightarrow> (key_value option \<times> 'i merging_iter \<times> 's) outcome option" where
  "merging_try_next step M s =
     (case next_buf M of
        Some item_buf \<Rightarrow>
          map_option (map_outcome_ok (\<lambda>(M', s'). (Some item_buf, M', s')))
            (merge_loop step (fst item_buf) (M\<lparr>next_buf := None\<rparr>) s)
      | None \<Rightarrow> Some (Ok (None, M, s)))"

definition merging_is_valid :: "('i \<Rightarrow> bool) \<Rightarrow> 'i merging_iter \<Rightarrow> bool" where
  "merging_is_valid is_valid M = list_all is_valid (vec_iter M)"

text \<open>\<open>SeekMergingIter::seek\<close>.\<close>

fun seek_loop ::
  "('i, 's) iter_step \<Rightarrow> ('i, 's) iter_seek \<Rightarrow> seek \<Rightarrow> nat \<Rightarrow> 'i list \<Rightarrow> (iter_key, bytes option) btree_map \<Rightarrow> 's \<Rightarrow>
   ('i list \<times> (iter_key, bytes option) btree_map \<times> 's) outcome option" where
  "seek_loop step sk to num [] m s = Some (Ok ([], m, s))"
| "seek_loop step sk to num (it # its) m s =
     bind_oo (sk it s to) (\<lambda>(it0, s0).
     bind_oo (step it0 s0) (\<lambda>(item, it', s').
     bind_oo (seek_loop step sk to (Suc num) its (buf_map_insert m num item) s') (\<lambda>(its', m', s'').
     Some (Ok (it' # its', m', s'')))))"

definition merging_seek ::
  "('i, 's) iter_step \<Rightarrow> ('i, 's) iter_seek \<Rightarrow> 'i merging_iter \<Rightarrow> 's \<Rightarrow> seek \<Rightarrow> ('i merging_iter \<times> 's) outcome option" where
  "merging_seek step sk M s to =
     (if to = Seek_Last then Some (Ok (init_next_buf (M\<lparr>map_buf := []\<rparr>), s))
      else
        bind_oo (seek_loop step sk to 0 (vec_iter M) [] s) (\<lambda>(its', seek_map, s').
        Some (Ok (init_next_buf (M\<lparr>vec_iter := its', map_buf := seek_map\<rparr>), s'))))"

section \<open>The contract of an iterator\<close>

locale kv_iter =
  fixes step :: "('i, 's) iter_step"
    and inv :: "'s \<Rightarrow> bool"
    and rest :: "'i \<Rightarrow> key_value list \<Rightarrow> bool"
  assumes step_rest: "inv s \<Longrightarrow> rest it kvs \<Longrightarrow>
    \<exists>it' s'. step it s = Some (Ok (case kvs of [] \<Rightarrow> None | kv # _ \<Rightarrow> Some kv, it', s')) \<and> inv s' \<and> rest it' (tl kvs)"

text \<open>A loop over the merged iterator.\<close>

fun merging_collect ::
  "nat \<Rightarrow> ('i, 's) iter_step \<Rightarrow> 'i merging_iter \<Rightarrow> 's \<Rightarrow> key_value list outcome option" where
  "merging_collect 0 step M s = None"
| "merging_collect (Suc n) step M s =
     (case merging_try_next step M s of
        Some (Ok (Some kv, M', s')) \<Rightarrow> map_option (map_outcome_ok ((#) kv)) (merging_collect n step M' s')
      | Some (Ok (None, M', s')) \<Rightarrow> Some (Ok [])
      | Some (Err e) \<Rightarrow> Some (Err e)
      | Some Panic \<Rightarrow> Some Panic
      | None \<Rightarrow> None)"

text \<open>What the merge of sorted lists is: every key once, with the value of the first list that has it.\<close>

definition merged :: "('k::linorder \<times> 'v) list list \<Rightarrow> ('k \<times> 'v) list" where
  "merged kvss = btree_from_iter (rev (concat kvss))"

lemma merged_ascending [simp]: "keys_ascending (merged kvss)"
  by (simp add: merged_def)

lemma map_of_merged [simp]: "map_of (merged kvss) = map_of (concat kvss)"
  by (simp add: merged_def map_of_btree_from_iter)

abbreviation above_key :: "'k::linorder \<Rightarrow> ('k \<times> 'v) list \<Rightarrow> ('k \<times> 'v) list" where
  "above_key k kvs \<equiv> filter (\<lambda>(k', _). k < k') kvs"

lemma map_of_above_key: "map_of (above_key k kvs) k' = (if k < k' then map_of kvs k' else None)"
  by (rule map_of_filter_key)

lemma map_of_concat_update:
  assumes "i < length kvss" "map_of ys k = map_of (kvss ! i) k"
  shows "map_of (concat (kvss[i := ys])) k = map_of (concat kvss) k"
  using assms
proof (induction kvss arbitrary: i)
  case (Cons kvs kvss)
  then show ?case by (cases i) (auto simp: map_add_def split: option.splits)
qed simp

lemma map_of_concat_first:
  assumes "i < length kvss" "map_of (kvss ! i) k = Some v" "\<forall>j<i. map_of (kvss ! j) k = None"
  shows "map_of (concat kvss) k = Some v"
  using assms
proof (induction kvss arbitrary: i)
  case (Cons kvs kvss)
  show ?case
  proof (cases i)
    case (Suc j)
    have "map_of kvs k = None" using Cons.prems(3) Suc by force
    moreover have "map_of (concat kvss) k = Some v"
      using Cons.prems Suc by (intro Cons.IH [of j]) auto
    ultimately show ?thesis by (simp add: map_add_def)
  qed (use Cons.prems in \<open>simp add: map_add_def\<close>)
qed simp

section \<open>The buffer holds the heads\<close>

definition head_value :: "key_value list list \<Rightarrow> nat \<Rightarrow> bytes \<Rightarrow> bytes option option" where
  "head_value kvss num key =
     (if num < length kvss then (case kvss ! num of [] \<Rightarrow> None | (k, v) # _ \<Rightarrow> if k = key then Some v else None)
      else None)"

definition buf_rep :: "(iter_key, bytes option) btree_map \<Rightarrow> key_value list list \<Rightarrow> bool" where
  "buf_rep m kvss \<longleftrightarrow> keys_ascending m \<and> (\<forall>num key. map_of m (IterKey num key) = head_value kvss num key)"

lemma head_value_Some: "head_value kvss num key = Some v \<longleftrightarrow> num < length kvss \<and> (\<exists>t. kvss ! num = (key, v) # t)"
  by (auto simp: head_value_def split: list.splits)

lemma buf_map_insert_ascending: "keys_ascending m \<Longrightarrow> keys_ascending (buf_map_insert m num item)"
  by (auto simp: buf_map_insert_def split: option.split)

lemma buf_rep_head:
  assumes "buf_rep ((ik, v) # m) kvss"
  shows "ik_num ik < length kvss" "\<exists>t. kvss ! ik_num ik = (ik_bytes ik, v) # t"
    and "\<And>j k' v' t. j < length kvss \<Longrightarrow> kvss ! j = (k', v') # t \<Longrightarrow> ik \<le> IterKey j k'"
proof -
  have "map_of ((ik, v) # m) (IterKey (ik_num ik) (ik_bytes ik)) = Some v" by simp
  then show "ik_num ik < length kvss" "\<exists>t. kvss ! ik_num ik = (ik_bytes ik, v) # t"
    using assms unfolding buf_rep_def by (metis head_value_Some)+
  fix j k' v' t assume j: "j < length kvss" "kvss ! j = (k', v') # t"
  then have "map_of ((ik, v) # m) (IterKey j k') = Some v'"
    using assms unfolding buf_rep_def by (metis head_value_Some)
  then have "(IterKey j k', v') \<in> set ((ik, v) # m)" by (rule map_of_SomeD)
  then show "ik \<le> IterKey j k'" using assms by (auto simp: buf_rep_def less_imp_le)
qed

lemma buf_rep_pop:
  assumes "buf_rep ((ik, v) # m) kvss" "kvss ! ik_num ik = (ik_bytes ik, v) # t"
  shows "buf_rep (buf_map_insert m (ik_num ik) (case t of [] \<Rightarrow> None | kv # _ \<Rightarrow> Some kv)) (kvss[ik_num ik := t])"
proof -
  have asc: "keys_ascending m" "map_of m ik = None"
    using assms(1) ascending_distinct [of "map fst ((ik, v) # m)"] by (auto simp: buf_rep_def map_of_eq_None_iff)
  have m: "map_of m (IterKey num key) = (if IterKey num key = ik then None else map_of ((ik, v) # m) (IterKey num key))" for num key
    using asc(2) by auto
  note lt = buf_rep_head(1) [OF assms(1)]
  have look: "map_of ((ik, v) # m) (IterKey num key) = head_value kvss num key" for num key
    using assms(1) unfolding buf_rep_def by blast
  have "map_of (buf_map_insert m (ik_num ik) (case t of [] \<Rightarrow> None | kv # _ \<Rightarrow> Some kv)) (IterKey num key) =
      head_value (kvss[ik_num ik := t]) num key" for num key
  proof (cases "num = ik_num ik")
    case True
    have "map_of m (IterKey num key) = None"
      unfolding m look using assms(2) lt by (cases ik) (auto simp: True head_value_def)
    then show ?thesis using True lt by (cases t) (auto simp: buf_map_insert_def head_value_def)
  next
    case False
    then have "map_of m (IterKey num key) = head_value kvss num key" unfolding m look by (cases ik) auto
    then show ?thesis using False by (auto simp: head_value_def buf_map_insert_def split: list.split)
  qed
  then show ?thesis using asc(1) by (simp add: buf_rep_def buf_map_insert_ascending)
qed

lemma buf_rep_empty:
  assumes "buf_rep [] kvss" "kvs \<in> set kvss"
  shows "kvs = []"
proof -
  obtain i where i: "i < length kvss" "kvss ! i = kvs" using assms(2) by (auto simp: in_set_conv_nth)
  have "head_value kvss i (fst (hd kvs)) = None" using assms(1) unfolding buf_rep_def by simp
  then show ?thesis using i by (cases kvs) (auto simp: head_value_def)
qed

text \<open>Removing the head of one list.\<close>

lemma length_concat_tl: "i < length xss \<Longrightarrow> xss ! i = x # t \<Longrightarrow> length (concat (xss[i := t])) < length (concat xss)"
proof (induction xss arbitrary: i)
  case (Cons xs xss)
  then show ?case by (cases i) auto
qed simp

lemma concat_tl_other:
  assumes "i < length kvss" "kvss ! i = (k, v) # t" "k' \<noteq> k"
  shows "map_of (concat (kvss[i := t])) k' = map_of (concat kvss) k'"
  using assms by (intro map_of_concat_update) auto

text \<open>All keys of the lists are at least \<open>k\<close>.\<close>

abbreviation keys_ge :: "bytes \<Rightarrow> key_value list list \<Rightarrow> bool" where
  "keys_ge k kvss \<equiv> \<forall>kvs\<in>set kvss. \<forall>k'\<in>fst ` set kvs. k \<le> k'"

lemma buf_head_min:
  assumes "buf_rep ((ik, v) # m) kvss" "\<forall>kvs\<in>set kvss. keys_ascending kvs"
  shows "keys_ge (ik_bytes ik) kvss" "map_of (concat kvss) (ik_bytes ik) = Some v"
proof -
  have head: "ik_bytes ik < k' \<or> ik_bytes ik = k' \<and> ik_num ik \<le> j"
    if "j < length kvss" "kvss ! j = (k', v') # t" for j k' v' t
    using buf_rep_head(3) [OF assms(1) that] by (auto simp: le_less iter_key_less)
  have ge: "ik_bytes ik \<le> k'" if "j < length kvss" "k' \<in> fst ` set (kvss ! j)" for j k'
  proof (cases "kvss ! j")
    case (Cons kv t)
    have "keys_ascending (kv # t)" using assms(2) that(1) Cons by (metis nth_mem)
    then have "fst kv \<le> k'" using that(2) Cons by auto
    moreover have "ik_bytes ik \<le> fst kv" using head [OF that(1), of "fst kv" "snd kv" t] Cons by (cases kv) auto
    ultimately show ?thesis by simp
  qed (use that in simp)
  then show "keys_ge (ik_bytes ik) kvss" by (metis in_set_conv_nth)
  obtain t where t: "kvss ! ik_num ik = (ik_bytes ik, v) # t" using buf_rep_head(2) [OF assms(1)] by blast
  show "map_of (concat kvss) (ik_bytes ik) = Some v"
  proof (rule map_of_concat_first [OF buf_rep_head(1) [OF assms(1)]])
    show "\<forall>j<ik_num ik. map_of (kvss ! j) (ik_bytes ik) = None"
    proof (intro allI impI)
      fix j assume j: "j < ik_num ik"
      then have lt: "j < length kvss" using buf_rep_head(1) [OF assms(1)] by simp
      show "map_of (kvss ! j) (ik_bytes ik) = None"
      proof (cases "kvss ! j")
        case (Cons kv u)
        have asc: "keys_ascending (kv # u)" using assms(2) lt Cons by (metis nth_mem)
        have "ik_bytes ik < fst kv" using head [OF lt, of "fst kv" "snd kv" u] Cons j by (cases kv) auto
        then show ?thesis using asc Cons by (fastforce simp: map_of_eq_None_iff)
      qed simp
    qed
  qed (use t in simp)
qed

section \<open>Merging\<close>

lemma above_key_drop_head:
  assumes "i < length kvss" "kvss ! i = (k, v) # t" "k \<le> key"
  shows "above_key key (merged (kvss[i := t])) = above_key key (merged kvss)"
proof (rule keys_ascending_unique)
  have "map_of (concat (kvss[i := t])) k' = map_of (concat kvss) k'" if "key < k'" for k'
    using concat_tl_other [OF assms(1,2)] assms(3) that by force
  then show "map_of (above_key key (merged (kvss[i := t]))) = map_of (above_key key (merged kvss))"
    by (auto simp: fun_eq_iff map_of_above_key)
qed (simp_all add: ascending_filter)

lemma above_key_next:
  assumes "i < length kvss" "kvss ! i = (k, v) # t" "keys_ge k kvss" "map_of (concat kvss) k = Some v" "key < k"
  shows "above_key key (merged kvss) = (k, v) # above_key k (merged (kvss[i := t]))"
proof (rule keys_ascending_unique)
  show "keys_ascending ((k, v) # above_key k (merged (kvss[i := t])))"
    by (auto simp: ascending_filter)
  have none: "map_of (concat kvss) k' = None" if "k' < k" for k'
    using assms(3) that by (auto simp: map_of_eq_None_iff image_iff) (metis fst_conv imageI linorder_not_le)
  show "map_of (above_key key (merged kvss)) = map_of ((k, v) # above_key k (merged (kvss[i := t])))"
  proof
    fix k'
    consider "k' < k" | "k' = k" | "k < k'" by force
    then show "map_of (above_key key (merged kvss)) k' = map_of ((k, v) # above_key k (merged (kvss[i := t]))) k'"
      using assms(4,5) none concat_tl_other [OF assms(1,2), of k']
      by cases (simp_all only: map_of_above_key map_of_merged, auto simp: map_of_above_key)
  qed
qed (simp_all add: ascending_filter)

context kv_iter
begin

definition mrep :: "'i merging_iter \<Rightarrow> key_value list list \<Rightarrow> bool" where
  "mrep M kvss \<longleftrightarrow> length (vec_iter M) = length kvss \<and> buf_rep (map_buf M) kvss \<and>
     (\<forall>kvs\<in>set kvss. keys_ascending kvs) \<and> (\<forall>i<length kvss. rest (vec_iter M ! i) (tl (kvss ! i)))"

lemma mrep_pop:
  assumes "mrep M kvss" "map_buf M = (ik, v) # m" "inv s"
  shows "\<exists>t item it' s'. kvss ! ik_num ik = (ik_bytes ik, v) # t \<and> ik_num ik < length kvss \<and>
    step (vec_iter M ! ik_num ik) s = Some (Ok (item, it', s')) \<and> inv s' \<and>
    mrep (M\<lparr>vec_iter := (vec_iter M)[ik_num ik := it'], map_buf := buf_map_insert m (ik_num ik) item\<rparr>)
      (kvss[ik_num ik := t])"
proof -
  let ?i = "ik_num ik"
  have rep: "length (vec_iter M) = length kvss" "buf_rep ((ik, v) # m) kvss" "\<forall>kvs\<in>set kvss. keys_ascending kvs"
      "\<forall>i<length kvss. rest (vec_iter M ! i) (tl (kvss ! i))"
    using assms(1,2) by (simp_all add: mrep_def)
  note lt = buf_rep_head(1) [OF rep(2)]
  obtain t where t: "kvss ! ?i = (ik_bytes ik, v) # t" using buf_rep_head(2) [OF rep(2)] by blast
  then have "rest (vec_iter M ! ?i) t" using rep(4) lt by fastforce
  then obtain it' s' where it': "step (vec_iter M ! ?i) s = Some (Ok (case t of [] \<Rightarrow> None | kv # _ \<Rightarrow> Some kv, it', s'))"
      "inv s'" "rest it' (tl t)"
    using step_rest [OF assms(3)] by blast
  have "keys_ascending ((ik_bytes ik, v) # t)" using rep(3) lt t by (metis nth_mem)
  then have asc: "\<forall>kvs\<in>set (kvss[?i := t]). keys_ascending kvs"
    using rep(3) by (auto dest!: set_update_subset_insert [THEN subsetD])
  have "rest ((vec_iter M)[?i := it'] ! i) (tl (kvss[?i := t] ! i))" if "i < length kvss" for i
    using that rep(1,4) it'(3) by (cases "i = ?i") auto
  then have "mrep (M\<lparr>vec_iter := (vec_iter M)[?i := it'],
      map_buf := buf_map_insert m ?i (case t of [] \<Rightarrow> None | kv # _ \<Rightarrow> Some kv)\<rparr>) (kvss[?i := t])"
    using rep(1) buf_rep_pop [OF rep(2) t] asc by (simp add: mrep_def)
  then show ?thesis using t lt it'(1,2) by blast
qed

lemma merge_loop_rep:
  assumes "inv s" "mrep M kvss" "keys_ge key kvss" "next_buf M = None"
  shows "\<exists>M' s' kvss'. merge_loop step key M s = Some (Ok (M', s')) \<and> inv s' \<and> mrep M' kvss' \<and>
    (case next_buf M' of
       None \<Rightarrow> above_key key (merged kvss) = []
     | Some (k, v) \<Rightarrow> keys_ge k kvss' \<and> above_key key (merged kvss) = (k, v) # above_key k (merged kvss'))"
  using assms
proof (induction "length (concat kvss)" arbitrary: M s kvss rule: less_induct)
  case less
  show ?case
  proof (cases "map_buf M")
    case Nil
    then have empty: "concat kvss = []" using less.prems(2) buf_rep_empty by (auto simp: mrep_def)
    have "above_key key (merged kvss) = []" unfolding merged_def empty by (simp add: btree_from_iter_def)
    then show ?thesis using Nil less.prems
      by (subst merge_loop.simps) (auto intro!: exI [of _ kvss])
  next
    case (Cons e m)
    obtain ik v where e: "e = (ik, v)" by (cases e)
    let ?i = "ik_num ik" and ?k = "ik_bytes ik"
    obtain t item it' s' where pop: "kvss ! ?i = (?k, v) # t" "?i < length kvss"
        "step (vec_iter M ! ?i) s = Some (Ok (item, it', s'))" "inv s'"
        "mrep (M\<lparr>vec_iter := (vec_iter M)[?i := it'], map_buf := buf_map_insert m ?i item\<rparr>) (kvss[?i := t])"
      using mrep_pop [OF less.prems(2) _ less.prems(1), of ik v m] Cons e by auto
    let ?M1 = "M\<lparr>vec_iter := (vec_iter M)[?i := it'], map_buf := buf_map_insert m ?i item\<rparr>"
    let ?kvss1 = "kvss[?i := t]"
    have asc: "\<forall>kvs\<in>set kvss. keys_ascending kvs" and len: "?i < length (vec_iter M)"
      using less.prems(2) pop(2) by (auto simp: mrep_def)
    have sub: "keys_ge k' ?kvss1" if "keys_ge k' kvss" for k'
      using that pop(1,2) by (auto dest!: set_update_subset_insert [THEN subsetD]) (metis fst_conv imageI list.set_intros(2) nth_mem)
    have unfold: "merge_loop step key M s =
        (if key = ?k then merge_loop step key ?M1 s' else Some (Ok (?M1\<lparr>next_buf := Some (?k, v)\<rparr>, s')))"
      using len by (subst merge_loop.simps) (simp add: Cons e pop(3) Let_def)
    show ?thesis
    proof (cases "key = ?k")
      case True
      have "length (concat ?kvss1) < length (concat kvss)"
        by (rule length_concat_tl [OF pop(2,1)])
      note IH = less.hyps [OF this pop(4,5) sub [OF less.prems(3)]]
      have "next_buf ?M1 = None" "above_key key (merged ?kvss1) = above_key key (merged kvss)"
        using less.prems(4) True above_key_drop_head [OF pop(2,1), of key] by simp_all
      then show ?thesis unfolding unfold if_P [OF True] using IH by presburger
    next
      case False
      have min: "keys_ge ?k kvss" "map_of (concat kvss) ?k = Some v"
        using buf_head_min [of ik v m kvss] asc less.prems(2) Cons e by (auto simp: mrep_def)
      have "key \<le> ?k" using less.prems(3) pop(1,2) by (metis fst_conv imageI list.set_intros(1) nth_mem)
      then have "above_key key (merged kvss) = (?k, v) # above_key ?k (merged ?kvss1)"
        using above_key_next [OF pop(2,1) min] False by simp
      moreover have "mrep (?M1\<lparr>next_buf := Some (?k, v)\<rparr>) ?kvss1" using pop(5) by (simp add: mrep_def)
      ultimately show ?thesis unfolding unfold using False pop(4) sub [OF min(1)]
        by (intro exI [of _ "?M1\<lparr>next_buf := Some (?k, v)\<rparr>"] exI [of _ s'] exI [of _ ?kvss1]) simp
    qed
  qed
qed

text \<open>The merged iterator: what is left is the buffered item and the merge of everything above it.\<close>

definition mrest :: "'i merging_iter \<Rightarrow> key_value list \<Rightarrow> bool" where
  "mrest M out \<longleftrightarrow> (\<exists>kvss. mrep M kvss \<and>
     (case next_buf M of
        None \<Rightarrow> out = []
      | Some (k, v) \<Rightarrow> keys_ge k kvss \<and> out = (k, v) # above_key k (merged kvss)))"

lemma merging_try_next_rest:
  assumes "inv s" "mrest M out"
  shows "\<exists>M' s'. merging_try_next step M s = Some (Ok (case out of [] \<Rightarrow> None | kv # _ \<Rightarrow> Some kv, M', s')) \<and>
    inv s' \<and> mrest M' (tl out)"
proof -
  obtain kvss where kvss: "mrep M kvss" "case next_buf M of None \<Rightarrow> out = []
      | Some (k, v) \<Rightarrow> keys_ge k kvss \<and> out = (k, v) # above_key k (merged kvss)"
    using assms(2) by (auto simp: mrest_def)
  show ?thesis
  proof (cases "next_buf M")
    case None
    then show ?thesis using kvss assms by (auto simp: merging_try_next_def)
  next
    case (Some item)
    obtain k v where item: "item = (k, v)" by (cases item)
    have "mrep (M\<lparr>next_buf := None\<rparr>) kvss" using kvss(1) by (simp add: mrep_def)
    moreover have ge: "keys_ge k kvss" and out: "out = (k, v) # above_key k (merged kvss)"
      using kvss(2) Some item by auto
    ultimately obtain M' s' kvss' where loop: "merge_loop step k (M\<lparr>next_buf := None\<rparr>) s = Some (Ok (M', s'))" "inv s'"
        "mrep M' kvss'" "case next_buf M' of None \<Rightarrow> above_key k (merged kvss) = []
         | Some (k', v') \<Rightarrow> keys_ge k' kvss' \<and> above_key k (merged kvss) = (k', v') # above_key k' (merged kvss')"
      using merge_loop_rep [OF assms(1), of "M\<lparr>next_buf := None\<rparr>" kvss k] by auto
    have "mrest M' (above_key k (merged kvss))" using loop(3,4) by (auto simp: mrest_def split: option.splits)
    then show ?thesis using Some item loop(1,2) out by (auto simp: merging_try_next_def)
  qed
qed

lemma merging_collect_rest:
  "inv s \<Longrightarrow> mrest M out \<Longrightarrow> length out < n \<Longrightarrow> merging_collect n step M s = Some (Ok out)"
proof (induction n arbitrary: M s out)
  case (Suc n)
  obtain M' s' where "merging_try_next step M s = Some (Ok (case out of [] \<Rightarrow> None | kv # _ \<Rightarrow> Some kv, M', s'))"
      "inv s'" "mrest M' (tl out)"
    using merging_try_next_rest [OF Suc.prems(1,2)] by blast
  then show ?case using Suc by (cases out) auto
qed simp

end

lemma head_value_append:
  "head_value (pre @ [kvs]) num key =
   (if num = length pre then (case kvs of [] \<Rightarrow> None | (k, v) # _ \<Rightarrow> if k = key then Some v else None)
    else head_value pre num key)"
  by (auto simp: head_value_def nth_append split: list.split)

lemma buf_rep_snoc:
  assumes "buf_rep m pre"
  shows "buf_rep (buf_map_insert m (length pre) (case kvs of [] \<Rightarrow> None | kv # _ \<Rightarrow> Some kv)) (pre @ [kvs])"
proof -
  have look: "map_of m (IterKey num key) = head_value pre num key" for num key
    using assms unfolding buf_rep_def by blast
  have "head_value pre (length pre) key = None" for key by (simp add: head_value_def)
  then show ?thesis using assms
    by (cases kvs) (auto simp: buf_rep_def buf_map_insert_def head_value_append look)
qed

lemma merged_first:
  assumes "keys_ge k kvss" "map_of (concat kvss) k = Some v"
  shows "merged kvss = (k, v) # above_key k (merged kvss)"
proof (rule keys_ascending_unique)
  have none: "map_of (concat kvss) k' = None" if "k' < k" for k'
    using assms(1) that by (auto simp: map_of_eq_None_iff image_iff) (metis fst_conv imageI linorder_not_le)
  show "map_of (merged kvss) = map_of ((k, v) # above_key k (merged kvss))"
  proof
    fix k'
    show "map_of (merged kvss) k' = map_of ((k, v) # above_key k (merged kvss)) k'"
      using assms(2) none [of k'] by (cases k' k rule: linorder_cases) (simp_all add: map_of_above_key)
  qed
qed (auto simp: ascending_filter)

context kv_iter
begin

lemma new_loop_rep:
  assumes "inv s" "list_all2 rest its kvss" "buf_rep m pre"
  shows "\<exists>its' m' s'. new_loop step (length pre) its m s = Some (Ok (its', m', s')) \<and> inv s' \<and>
    buf_rep m' (pre @ kvss) \<and> list_all2 (\<lambda>it kvs. rest it (tl kvs)) its' kvss"
  using assms
proof (induction its arbitrary: kvss pre m s)
  case (Cons it its)
  obtain kvs kvss1 where kvss: "kvss = kvs # kvss1" "rest it kvs" "list_all2 rest its kvss1"
    using Cons.prems(2) by (auto simp: list_all2_Cons1)
  let ?item = "case kvs of [] \<Rightarrow> None | kv # _ \<Rightarrow> Some kv"
  obtain it1 s1 where it1: "step it s = Some (Ok (?item, it1, s1))" "inv s1" "rest it1 (tl kvs)"
    using step_rest [OF Cons.prems(1) kvss(2)] by blast
  obtain its' m' s' where "new_loop step (length (pre @ [kvs])) its (buf_map_insert m (length pre) ?item) s1 = Some (Ok (its', m', s'))"
      "inv s'" "buf_rep m' ((pre @ [kvs]) @ kvss1)" "list_all2 (\<lambda>it kvs. rest it (tl kvs)) its' kvss1"
    using Cons.IH [OF it1(2) kvss(3) buf_rep_snoc [OF Cons.prems(3)]] by blast
  then show ?case using it1 kvss(1) by auto
qed simp

lemma mrest_init:
  assumes "list_all2 (\<lambda>it kvs. rest it (tl kvs)) its kvss" "buf_rep m kvss" "\<forall>kvs\<in>set kvss. keys_ascending kvs"
    and "vec_iter M = its" "map_buf M = m"
  shows "mrest (init_next_buf M) (merged kvss)"
proof -
  have rep: "mrep (init_next_buf M) kvss"
    using assms by (simp add: mrep_def init_next_buf_def list_all2_conv_all_nth)
  show ?thesis
  proof (cases m)
    case Nil
    then have empty: "concat kvss = []" using assms(2) buf_rep_empty by auto
    have "merged kvss = []" unfolding merged_def empty by (simp add: btree_from_iter_def)
    then show ?thesis using rep Nil assms(5) by (auto simp: mrest_def init_next_buf_def)
  next
    case (Cons e m')
    obtain ik v where e: "e = (ik, v)" by (cases e)
    have min: "keys_ge (ik_bytes ik) kvss" "map_of (concat kvss) (ik_bytes ik) = Some v"
      using buf_head_min [of ik v m' kvss] assms(2,3) Cons e by auto
    have "next_buf (init_next_buf M) = Some (ik_bytes ik, v)" using Cons e assms(5) by (simp add: init_next_buf_def)
    then show ?thesis
      unfolding mrest_def using rep min(1) merged_first [OF min] by (intro exI [of _ kvss]) simp
  qed
qed

lemma merging_new_rest:
  assumes "inv s" "list_all2 rest its kvss" "\<forall>kvs\<in>set kvss. keys_ascending kvs"
  shows "\<exists>M s'. merging_new step its s = Some (Ok (M, s')) \<and> inv s' \<and> mrest M (merged kvss)"
proof -
  have "buf_rep [] []" by (simp add: buf_rep_def head_value_def)
  from new_loop_rep [OF assms(1,2) this] obtain its' m' s'
    where loop: "new_loop step 0 its [] s = Some (Ok (its', m', s'))" "inv s'" "buf_rep m' kvss"
      "list_all2 (\<lambda>it kvs. rest it (tl kvs)) its' kvss"
    by auto
  let ?M = "\<lparr>vec_iter = its', map_buf = m', next_buf = None\<rparr>"
  have "mrest (init_next_buf ?M) (merged kvss)" by (rule mrest_init [OF loop(4,3) assms(3)]) simp_all
  then show ?thesis using loop(1,2) by (simp add: merging_new_def)
qed

end

text \<open>Iterators that can be moved: \<open>seek_to to kvs r\<close> tells that \<open>r\<close> is an acceptable rest after seeking in \<open>kvs\<close>. After
  \<open>Seek::Backward\<close> the pairs from the key on are there; an iterator may deliver smaller ones in front of them
  (a key beyond the last one leaves a block iterator where it was). \<open>Seek::Last\<close> is not part of the contract.\<close>

definition seek_to :: "seek \<Rightarrow> key_value list \<Rightarrow> key_value list \<Rightarrow> bool" where
  "seek_to to kvs r \<longleftrightarrow> keys_ascending r \<and> set r \<subseteq> set kvs \<and>
     (case to of
        Seek_First \<Rightarrow> r = kvs
      | Seek_Last \<Rightarrow> True
      | Seek_Backward key \<Rightarrow> filter (\<lambda>(k, _). key \<le> k) r = filter (\<lambda>(k, _). key \<le> k) kvs)"

lemma map_of_concat_cong:
  assumes "list_all2 (\<lambda>xs ys. map_of xs k = map_of ys k) xss yss"
  shows "map_of (concat xss) k = map_of (concat yss) k"
  using assms by (induction rule: list_all2_induct) (auto simp: map_add_def split: option.split)

lemma seek_to_map_of: "seek_to (Seek_Backward key) kvs r \<Longrightarrow> key \<le> k \<Longrightarrow> map_of r k = map_of kvs k"
  using map_of_filter_key [of "\<lambda>k. key \<le> k" r k] map_of_filter_key [of "\<lambda>k. key \<le> k" kvs k] by (simp add: seek_to_def)

lemma merged_seek_to:
  assumes "list_all2 (seek_to (Seek_Backward key)) kvss rs"
  shows "filter (\<lambda>(k, _). key \<le> k) (merged rs) = filter (\<lambda>(k, _). key \<le> k) (merged kvss)"
proof (rule keys_ascending_unique)
  show "keys_ascending (filter (\<lambda>(k, _). key \<le> k) (merged rs))" "keys_ascending (filter (\<lambda>(k, _). key \<le> k) (merged kvss))"
    by (simp_all add: ascending_filter)
  have "map_of (concat rs) k = map_of (concat kvss) k" if "key \<le> k" for k
    using assms that by (intro map_of_concat_cong) (auto simp: list_all2_conv_all_nth seek_to_map_of)
  then show "map_of (filter (\<lambda>(k, _). key \<le> k) (merged rs)) = map_of (filter (\<lambda>(k, _). key \<le> k) (merged kvss))"
    by (auto simp: fun_eq_iff map_of_filter_key)
qed

locale kv_seek_iter = kv_iter step inv rest
  for step :: "('i, 's) iter_step" and inv :: "'s \<Rightarrow> bool" and rest :: "'i \<Rightarrow> key_value list \<Rightarrow> bool" +
  fixes sk :: "('i, 's) iter_seek"
    and content :: "'i \<Rightarrow> key_value list \<Rightarrow> bool"
  assumes seek_content: "inv s \<Longrightarrow> content it kvs \<Longrightarrow> to \<noteq> Seek_Last \<Longrightarrow> \<exists>it' s' r. sk it s to = Some (Ok (it', s')) \<and> inv s' \<and>
      content it' kvs \<and> rest it' r \<and> seek_to to kvs r"
    and step_content: "inv s \<Longrightarrow> content it kvs \<Longrightarrow> step it s = Some (Ok (x, it', s')) \<Longrightarrow> content it' kvs"
begin

lemma new_loop_content:
  assumes "inv s" "list_all2 rest its rs" "list_all2 content its kvss" "new_loop step num its m s = Some (Ok (its', m', s'))"
  shows "list_all2 content its' kvss"
  using assms
proof (induction its arbitrary: rs kvss num m s its' m' s')
  case (Cons it its)
  obtain r rs1 kvs kvss1 where split: "rs = r # rs1" "rest it r" "list_all2 rest its rs1" "kvss = kvs # kvss1" "content it kvs"
      "list_all2 content its kvss1"
    using Cons.prems(2,3) by (auto simp: list_all2_Cons1)
  obtain x it1 s1 where it1: "step it s = Some (Ok (x, it1, s1))" "inv s1" using step_rest [OF Cons.prems(1) split(2)] by blast
  have "content it1 kvs" by (rule step_content [OF Cons.prems(1) split(5) it1(1)])
  moreover obtain its1 m1 s2 where "new_loop step (Suc num) its (buf_map_insert m num x) s1 = Some (Ok (its1, m1, s2))" "its' = it1 # its1"
    using Cons.prems(4) it1(1) by (auto elim!: bind_oo_OkE)
  ultimately show ?case using Cons.IH [OF it1(2) split(3,6)] split(4) by auto
qed simp

lemma merging_new_content:
  assumes "inv s" "list_all2 rest its rs" "list_all2 content its kvss" "merging_new step its s = Some (Ok (M, s'))"
  shows "list_all2 content (vec_iter M) kvss"
  using new_loop_content [OF assms(1-3)] assms(4) by (auto simp: merging_new_def init_next_buf_def elim!: bind_oo_OkE)

lemma seek_loop_rep:
  assumes "inv s" "list_all2 content its kvss" "buf_rep m pre" "to \<noteq> Seek_Last"
  shows "\<exists>its' m' s' rs. seek_loop step sk to (length pre) its m s = Some (Ok (its', m', s')) \<and> inv s' \<and>
    list_all2 (seek_to to) kvss rs \<and> buf_rep m' (pre @ rs) \<and> list_all2 (\<lambda>it kvs. rest it (tl kvs)) its' rs"
  using assms
proof (induction its arbitrary: kvss pre m s)
  case (Cons it its)
  obtain kvs kvss1 where kvss: "kvss = kvs # kvss1" "content it kvs" "list_all2 content its kvss1"
    using Cons.prems(2) by (auto simp: list_all2_Cons1)
  obtain it0 s0 r where it0: "sk it s to = Some (Ok (it0, s0))" "inv s0" "rest it0 r" "seek_to to kvs r"
    using seek_content [OF Cons.prems(1) kvss(2) Cons.prems(4)] by auto
  let ?item = "case r of [] \<Rightarrow> None | kv # _ \<Rightarrow> Some kv"
  obtain it1 s1 where it1: "step it0 s0 = Some (Ok (?item, it1, s1))" "inv s1" "rest it1 (tl r)"
    using step_rest [OF it0(2,3)] by blast
  obtain its' m' s' rs where "seek_loop step sk to (length (pre @ [r])) its (buf_map_insert m (length pre) ?item) s1 = Some (Ok (its', m', s'))"
      "inv s'" "list_all2 (seek_to to) kvss1 rs" "buf_rep m' ((pre @ [r]) @ rs)" "list_all2 (\<lambda>it kvs. rest it (tl kvs)) its' rs"
    using Cons.IH [OF it1(2) kvss(3) buf_rep_snoc [OF Cons.prems(3), of r] Cons.prems(4)] by auto
  then show ?case using it0 it1 kvss(1) by (intro exI [of _ "it1 # its'"] exI [of _ m'] exI [of _ s'] exI [of _ "r # rs"]) simp
qed simp

lemma merging_seek_rest:
  assumes "inv s" "list_all2 content (vec_iter M) kvss" "to \<noteq> Seek_Last"
  shows "\<exists>M' s' rs. merging_seek step sk M s to = Some (Ok (M', s')) \<and> inv s' \<and> list_all2 (seek_to to) kvss rs \<and> mrest M' (merged rs)"
proof -
  have "buf_rep [] []" by (simp add: buf_rep_def head_value_def)
  from seek_loop_rep [OF assms(1,2) this assms(3)] obtain its' m' s' rs
    where loop: "seek_loop step sk to 0 (vec_iter M) [] s = Some (Ok (its', m', s'))" "inv s'" "list_all2 (seek_to to) kvss rs"
      "buf_rep m' rs" "list_all2 (\<lambda>it kvs. rest it (tl kvs)) its' rs"
    by auto
  have "\<forall>kvs\<in>set rs. keys_ascending kvs"
    using loop(3) by (auto simp: list_all2_conv_all_nth in_set_conv_nth seek_to_def)
  from mrest_init [OF loop(5,4) this, of "M\<lparr>vec_iter := its', map_buf := m'\<rparr>"] show ?thesis
    using loop(1-3) assms(3) by (auto simp: merging_seek_def)
qed

end

end
