(* ===== verification/Table_Loader.thy ===== *)
theory Table_Loader
  imports Ss_Table_Iter Table_Scope Log Merging_Iter
begin

text \<open>
  Tables behind the trait \<open>Table\<close> (\<open>src/src/kernel/lsm/table/mod.rs\<close>): the in-memory \<open>BTreeTable\<close> with its
  iterator (\<open>btree_table\<close>), the dispatch over both kinds of table, the statistics collected from tables
  (\<open>meta.rs\<close>), and the \<open>TableLoader\<close> (\<open>loader.rs\<close>) that creates tables, keeps them in a cache, reloads
  evicted ones from their file or, failing that, from the write-ahead log, and deletes them.
\<close>

section \<open>The B-tree table\<close>

record btree_table =
  bt_level :: nat
  bt_gen :: i64
  bt_len :: nat
  bt_inner :: "(bytes, key_value) btree_map"

definition btree_table_new :: "nat \<Rightarrow> i64 \<Rightarrow> key_value list \<Rightarrow> btree_table" where
  "btree_table_new level gen data =
     \<lparr>bt_level = level, bt_gen = gen, bt_len = length data,
      bt_inner = btree_from_iter (map (\<lambda>(key, val). (key, (key, val))) data)\<rparr>"

definition btree_table_query :: "btree_table \<Rightarrow> bytes \<Rightarrow> key_value option" where
  "btree_table_query t key = btree_get (bt_inner t) key"

record btree_iter =
  bti_inner :: "(bytes \<times> key_value) list option"
  bti_table :: btree_table

definition bti_seek :: "btree_iter \<Rightarrow> seek \<Rightarrow> btree_iter" where
  "bti_seek it s =
     it\<lparr>bti_inner := (case s of
         Seek_First \<Rightarrow> Some (btree_range (bt_inner (bti_table it)) Unbounded Unbounded)
       | Seek_Last \<Rightarrow> None
       | Seek_Backward key \<Rightarrow> Some (btree_range (bt_inner (bti_table it)) (Included key) Unbounded))\<rparr>"

definition bti_new :: "btree_table \<Rightarrow> btree_iter" where
  "bti_new t = bti_seek \<lparr>bti_inner = None, bti_table = t\<rparr> Seek_First"

definition bti_try_next :: "btree_iter \<Rightarrow> key_value option \<times> btree_iter" where
  "bti_try_next it =
     (case bti_inner it of
        Some ((_, kv) # rest) \<Rightarrow> (Some kv, it\<lparr>bti_inner := Some rest\<rparr>)
      | _ \<Rightarrow> (None, it))"

section \<open>Tables of either kind\<close>

datatype box_table = SST ss_table | BTT btree_table

fun table_query ::
  "crates \<Rightarrow> hashing \<Rightarrow> box_table \<Rightarrow> block_cache \<Rightarrow> bytes \<Rightarrow> (key_value option \<times> block_cache) outcome" where
  "table_query c hs (SST t) S key = ss_table_query c hs t S key"
| "table_query c hs (BTT t) S key = Ok (btree_table_query t key, S)"

fun table_len :: "box_table \<Rightarrow> nat" where
  "table_len (SST t) = ss_table_len t"
| "table_len (BTT t) = bt_len t"

fun table_size_of_disk :: "box_table \<Rightarrow> nat" where
  "table_size_of_disk (SST t) = ss_table_size_of_disk t"
| "table_size_of_disk (BTT t) = 0"

fun table_gen :: "box_table \<Rightarrow> i64" where
  "table_gen (SST t) = sst_gen t"
| "table_gen (BTT t) = bt_gen t"

fun table_level :: "box_table \<Rightarrow> nat" where
  "table_level (SST t) = ss_table_level t"
| "table_level (BTT t) = bt_level t"

datatype table_iter = SST_Iter sst_iter | BTT_Iter btree_iter

fun table_iter_new :: "crates \<Rightarrow> box_table \<Rightarrow> block_cache \<Rightarrow> (table_iter \<times> block_cache) outcome" where
  "table_iter_new c (SST t) S = map_outcome_ok (\<lambda>(it, S'). (SST_Iter it, S')) (sst_iter_new c t S)"
| "table_iter_new c (BTT t) S = Ok (BTT_Iter (bti_new t), S)"

fun ti_try_next :: "crates \<Rightarrow> table_iter \<Rightarrow> block_cache \<Rightarrow> (key_value option \<times> table_iter \<times> block_cache) outcome" where
  "ti_try_next c (SST_Iter it) S = map_outcome_ok (\<lambda>(x, it', S'). (x, SST_Iter it', S')) (sst_try_next c it S)"
| "ti_try_next c (BTT_Iter it) S = (let (x, it') = bti_try_next it in Ok (x, BTT_Iter it', S))"

fun ti_seek :: "crates \<Rightarrow> table_iter \<Rightarrow> block_cache \<Rightarrow> seek \<Rightarrow> (table_iter \<times> block_cache) outcome" where
  "ti_seek c (SST_Iter it) S s = map_outcome_ok (\<lambda>(it', S'). (SST_Iter it', S')) (sst_seek c it S s)"
| "ti_seek c (BTT_Iter it) S s = Ok (BTT_Iter (bti_seek it s), S)"

text \<open>The operations as the merging iterators call them: they always return.\<close>

definition ti_step :: "crates \<Rightarrow> (table_iter, block_cache) iter_step" where
  "ti_step c it S = Some (ti_try_next c it S)"

definition ti_seek_step :: "crates \<Rightarrow> (table_iter, block_cache) iter_seek" where
  "ti_seek_step c it S s = Some (ti_seek c it S s)"

fun ti_is_valid :: "table_iter \<Rightarrow> bool" where
  "ti_is_valid (SST_Iter it) = sst_is_valid it"
| "ti_is_valid (BTT_Iter it) = True"

definition meta_of_table :: "box_table \<Rightarrow> table_meta" where
  "meta_of_table t = \<lparr>meta_size_of_disk = table_size_of_disk t, meta_len = table_len t\<rparr>"

definition meta_of_tables :: "box_table list \<Rightarrow> table_meta" where
  "meta_of_tables ts =
     fold (\<lambda>t m. m\<lparr>meta_len := meta_len m + table_len t,
       meta_size_of_disk := meta_size_of_disk m + table_size_of_disk t\<rparr>) (unique_by table_gen ts) meta_default"

definition collect_gen :: "box_table list \<Rightarrow> i64 list \<times> table_meta" where
  "collect_gen ts = (unique_by (\<lambda>g. g) (map table_gen ts), meta_of_tables ts)"

section \<open>The loader\<close>

record table_loader =
  tl_inner :: "(i64, box_table) sharding_lru_cache"
  tl_files :: directory
  tl_config :: config
  tl_wal :: directory
  tl_cache :: block_cache

definition loader_new ::
  "config \<Rightarrow> directory \<Rightarrow> directory \<Rightarrow> (i64 \<Rightarrow> 64 word) \<Rightarrow> (i64 \<times> block_index option \<Rightarrow> 64 word) \<Rightarrow> table_loader outcome" where
  "loader_new cfg files wal hash1 hash2 =
     and_then (sharding_new (table_cache_size cfg) 16 hash1) (\<lambda>inner.
     and_then (sharding_new (block_cache_size cfg) 16 hash2) (\<lambda>cache.
     Ok \<lparr>tl_inner = inner, tl_files = files, tl_config = cfg, tl_wal = wal, tl_cache = cache\<rparr>))"

text \<open>\<open>SSTable::new\<close> writes through a writer at the start of the file of its generation and reads back
  what is there.\<close>

definition create_ss_table ::
  "crates \<Rightarrow> hashing \<Rightarrow> table_loader \<Rightarrow> 64 word \<times> 64 word \<Rightarrow> i64 \<Rightarrow> key_value list \<Rightarrow> nat \<Rightarrow>
   (ss_table \<times> directory) outcome" where
  "create_ss_table c hs L seeds gen reload_data level =
     and_then (ss_table_new c hs (tl_config L) seeds gen reload_data level) (\<lambda>t.
       let (f, d) = factory_writer (tl_files L) gen;
           written = contents (file_write f (sst_file t))
       in Ok (t\<lparr>sst_file := written\<rparr>, btree_insert gen written d))"

definition loader_create ::
  "crates \<Rightarrow> hashing \<Rightarrow> table_loader \<Rightarrow> counters \<Rightarrow> 64 word \<times> 64 word \<Rightarrow> i64 \<Rightarrow> key_value list \<Rightarrow> nat \<Rightarrow> table_type \<Rightarrow>
   ((scope \<times> table_meta) \<times> table_loader \<times> counters) outcome" where
  "loader_create c hs L cs seeds gen vec_data level ty =
     and_then (from_sorted_vec_data cs gen vec_data) (\<lambda>(scope, cs').
     and_then
       (case ty of
          SortedString \<Rightarrow>
            map_outcome_ok (\<lambda>(t, d). (SST t, L\<lparr>tl_files := d\<rparr>)) (create_ss_table c hs L seeds gen vec_data level)
        | BTree \<Rightarrow> Ok (BTT (btree_table_new level gen vec_data), L)) (\<lambda>(table, L1).
     and_then (sharding_put (tl_inner L1) gen table) (\<lambda>(_, inner').
     Ok ((scope, meta_of_table table), L1\<lparr>tl_inner := inner'\<rparr>, cs'))))"

text \<open>The decoding closure of \<open>get\<close> and the closure itself. Opening a file that is missing creates it.\<close>

definition reload_decode :: "crates \<Rightarrow> bytes \<Rightarrow> key_value list \<Rightarrow> key_value list outcome" where
  "reload_decode c bs records =
     map_outcome_ok (\<lambda>es. records @ map (\<lambda>(i, e). (entry_key e, value_bytes (entry_item e))) es)
       (batch_decode c value_item bs)"

definition load_table :: "crates \<Rightarrow> table_loader \<Rightarrow> i64 \<Rightarrow> (box_table outcome \<times> table_loader) option" where
  "load_table c L gen =
     (let (bs, d) = factory_reader (tl_files L) gen; L1 = L\<lparr>tl_files := d\<rparr> in
      case load_from_file c gen bs of
        Ok t \<Rightarrow> Some (Ok (SST t), L1)
      | Panic \<Rightarrow> Some (Panic, L1)
      | Err _ \<Rightarrow>
          (case log_loader_load c (reload_decode c) (tl_wal L1) gen [] of
             None \<Rightarrow> None
           | Some (Ok (reload_data, w)) \<Rightarrow> Some (Ok (BTT (btree_table_new LEVEL_0 gen reload_data)), L1\<lparr>tl_wal := w\<rparr>)
           | Some (Err e) \<Rightarrow> Some (Err e, L1)
           | Some Panic \<Rightarrow> Some (Panic, L1)))"

text \<open>\<open>get\<close>: the closure runs when the generation is not cached; an error of it is turned into \<open>None\<close>.\<close>

definition loader_get :: "crates \<Rightarrow> table_loader \<Rightarrow> i64 \<Rightarrow> (box_table option \<times> table_loader) outcome option" where
  "loader_get c L gen =
     (case (if sharding_peek (tl_inner L) gen = None then load_table c L gen else Some (Panic, L)) of
        None \<Rightarrow> None
      | Some (loaded, L1) \<Rightarrow>
          Some (case sharding_get_or_insert (tl_inner L1) gen (\<lambda>_. loaded) of
            Ok (t, inner') \<Rightarrow> Ok (Some t, L1\<lparr>tl_inner := inner'\<rparr>)
          | Err _ \<Rightarrow> Ok (None, L1)
          | Panic \<Rightarrow> Panic))"

definition loader_remove :: "table_loader \<Rightarrow> i64 \<Rightarrow> (box_table option \<times> table_loader) outcome" where
  "loader_remove L gen =
     and_then (sharding_remove (tl_inner L) gen) (\<lambda>(t, inner'). Ok (t, L\<lparr>tl_inner := inner'\<rparr>))"

definition loader_is_empty :: "table_loader \<Rightarrow> bool" where
  "loader_is_empty L = sharding_is_empty (tl_inner L)"

text \<open>\<open>clean\<close>: every step that succeeded stays done when a later one fails.\<close>

definition loader_clean :: "table_loader \<Rightarrow> i64 \<Rightarrow> unit outcome \<times> table_loader" where
  "loader_clean L gen =
     (case loader_remove L gen of
        Ok (_, L1) \<Rightarrow>
          (case factory_clean (tl_files L1) gen of
             Ok d \<Rightarrow>
               (let L2 = L1\<lparr>tl_files := d\<rparr> in
                case log_loader_clean (tl_wal L2) gen of
                  Ok w \<Rightarrow> (Ok (), L2\<lparr>tl_wal := w\<rparr>)
                | Err e \<Rightarrow> (Err e, L2)
                | Panic \<Rightarrow> (Panic, L2))
           | Err e \<Rightarrow> (Err e, L1)
           | Panic \<Rightarrow> (Panic, L1))
      | Err e \<Rightarrow> (Err e, L)
      | Panic \<Rightarrow> (Panic, L))"

definition is_table_file_exist :: "table_loader \<Rightarrow> i64 \<Rightarrow> bool" where
  "is_table_file_exist L gen = factory_exists (tl_files L) gen"

section \<open>Tables that hold a list of pairs\<close>

definition keyed :: "key_value list \<Rightarrow> (bytes \<times> key_value) list" where
  "keyed kvs = map (\<lambda>(k, v). (k, (k, v))) kvs"

lemma keyed_simps [simp]: "map fst (keyed kvs) = map fst kvs" "map snd (keyed kvs) = kvs" "length (keyed kvs) = length kvs"
  by (induction kvs) (auto simp: keyed_def)

lemma map_of_keyed: "map_of (keyed kvs) k = map_option (\<lambda>v. (k, v)) (map_of kvs k)"
  by (induction kvs) (auto simp: keyed_def)

lemma map_fst_keyed: "map (fst \<circ> snd) (keyed kvs) = map fst kvs"
    "map (fst \<circ> snd) (filter (\<lambda>(k, v). p k) (keyed kvs)) = map fst (filter (\<lambda>(k, v). p k) kvs)"
  by (induction kvs) (auto simp: keyed_def)

lemma in_keyed: "x \<in> set (keyed kvs) \<longleftrightarrow> snd x \<in> set kvs \<and> fst x = fst (snd x)"
  by (cases x) (auto simp: keyed_def)

lemma filter_keyed: "map snd (filter (\<lambda>(k, v). p k) (keyed kvs)) = filter (\<lambda>(k, v). p k) kvs"
  by (induction kvs) (auto simp: keyed_def)

text \<open>The tables a block cache serves, up to their filters.\<close>

definition served :: "(i64 \<Rightarrow> ss_table option) \<Rightarrow> ss_table \<Rightarrow> bool" where
  "served tbls t \<longleftrightarrow> (\<exists>t0. tbls (sst_gen t) = Some t0 \<and> same_blocks t t0)"

fun table_holds ::
  "crates \<Rightarrow> hashing \<Rightarrow> (i64 \<Rightarrow> ss_table option) \<Rightarrow> box_table \<Rightarrow> i64 \<Rightarrow> key_value list \<Rightarrow> bool" where
  "table_holds c hs tbls (SST t) gen kvs \<longleftrightarrow> sst_holds c hs t kvs \<and> sst_gen t = gen \<and> served tbls t \<and>
     2 \<le> mb_data_restart_interval (sst_meta t) \<and> 2 \<le> mb_index_restart_interval (sst_meta t)"
| "table_holds c hs tbls (BTT t) gen kvs \<longleftrightarrow> bt_inner t = keyed kvs \<and> keys_ascending kvs \<and> bt_gen t = gen"

lemma table_holds_gen: "table_holds c hs tbls t gen kvs \<Longrightarrow> table_gen t = gen"
  by (cases t) auto

lemma table_holds_ascending: "table_holds c hs tbls t gen kvs \<Longrightarrow> keys_ascending kvs"
  by (cases t) (auto simp: sst_holds_def sst_layout_def)

lemma served_cache_sound:
  assumes "served tbls t"
  shows "cache_sound c tbls S \<longleftrightarrow> cache_sound c (tbls(sst_gen t \<mapsto> t)) S"
proof -
  obtain t0 where t0: "tbls (sst_gen t) = Some t0" "same_blocks t t0" using assms by (auto simp: served_def)
  have "table_source c (tbls(sst_gen t \<mapsto> t)) k = table_source c tbls k" for k
    using t0 same_blocks_load [OF t0(2), of c] by (cases "(c, tbls, k)" rule: table_source.cases) auto
  then show ?thesis by (simp add: cache_sound_def)
qed

lemma table_query_holds:
  assumes "table_holds c hs tbls t gen kvs" "cache_sound c tbls S"
  shows "\<exists>S'. table_query c hs t S key = Ok (map_option (\<lambda>v. (key, v)) (map_of kvs key), S') \<and> cache_sound c tbls S'"
proof (cases t)
  case (SST t')
  then have h: "sst_holds c hs t' kvs" "served tbls t'" using assms(1) by auto
  show ?thesis
    using ss_table_query_holds [OF h(1), of "tbls(sst_gen t' \<mapsto> t')" S key] assms(2) served_cache_sound [OF h(2), of c]
    by (auto simp: SST)
next
  case (BTT t')
  then show ?thesis using assms by (auto simp: btree_table_query_def btree_get_def map_of_keyed)
qed

section \<open>Iterators over tables\<close>

definition sst_rest :: "crates \<Rightarrow> (i64 \<Rightarrow> ss_table option) \<Rightarrow> sst_iter \<Rightarrow> key_value list \<Rightarrow> key_value list \<Rightarrow> bool" where
  "sst_rest c tbls it kvs0 kvs \<longleftrightarrow>
     (\<exists>t chunks blocks idxs ib r ri j. sst_layout c t kvs0 chunks blocks idxs ib r ri \<and> 2 \<le> r \<and> 2 \<le> ri \<and>
        served tbls t \<and> si_rep chunks idxs r ri t it j \<and> kvs = map to_key_value (si_rest chunks it j))"

fun ti_rest :: "crates \<Rightarrow> (i64 \<Rightarrow> ss_table option) \<Rightarrow> table_iter \<Rightarrow> key_value list \<Rightarrow> bool" where
  "ti_rest c tbls (SST_Iter it) kvs \<longleftrightarrow> (\<exists>kvs0. sst_rest c tbls it kvs0 kvs)"
| "ti_rest c tbls (BTT_Iter it) kvs \<longleftrightarrow> kvs = map snd (case bti_inner it of None \<Rightarrow> [] | Some xs \<Rightarrow> xs)"

fun ti_content :: "crates \<Rightarrow> (i64 \<Rightarrow> ss_table option) \<Rightarrow> table_iter \<Rightarrow> key_value list \<Rightarrow> bool" where
  "ti_content c tbls (SST_Iter it) kvs \<longleftrightarrow> (\<exists>kvs1. sst_rest c tbls it kvs kvs1)"
| "ti_content c tbls (BTT_Iter it) kvs \<longleftrightarrow> bt_inner (bti_table it) = keyed kvs \<and> keys_ascending kvs"

lemma sst_rest_step:
  assumes "cache_sound c tbls S" "sst_rest c tbls it kvs0 kvs"
  shows "\<exists>it' S'. sst_try_next c it S = Ok (case kvs of [] \<Rightarrow> None | kv # _ \<Rightarrow> Some kv, it', S') \<and>
    cache_sound c tbls S' \<and> sst_rest c tbls it' kvs0 (tl kvs)"
proof -
  obtain t chunks blocks idxs ib r ri j where lay: "sst_layout c t kvs0 chunks blocks idxs ib r ri" "2 \<le> r" "2 \<le> ri"
      and t: "served tbls t" and it: "si_rep chunks idxs r ri t it j" and kvs: "kvs = map to_key_value (si_rest chunks it j)"
    using assms(2) by (auto simp: sst_rest_def)
  have S: "cache_sound c (tbls(sst_gen t \<mapsto> t)) S" using assms(1) served_cache_sound [OF t] by simp
  obtain it' S' j' where "cache_sound c (tbls(sst_gen t \<mapsto> t)) S'" "si_rep chunks idxs r ri t it' j'"
      "sst_try_next c it S = Ok (case si_rest chunks it j of [] \<Rightarrow> None | kv # _ \<Rightarrow> Some (to_key_value kv), it', S')"
      "si_rest chunks it' j' = tl (si_rest chunks it j)"
    using sst_try_next_step [OF lay S _ it] by auto
  then show ?thesis
    using lay t kvs served_cache_sound [OF t] unfolding sst_rest_def
    by (intro exI [of _ it'] exI [of _ S']) (auto simp: map_tl split: list.splits intro!: exI)
qed

lemma sst_seek_first_rep:
  assumes lay: "sst_layout c t kvs chunks blocks idxs ib r ri" and r: "r \<ge> 2" "ri \<ge> 2"
    and S: "cache_sound c tbls S" and t: "tbls (sst_gen t) = Some t" and it: "si_rep chunks idxs r ri t it j"
  shows "\<exists>it' S'. sst_seek c it S Seek_First = Ok (it', S') \<and> cache_sound c tbls S' \<and>
    si_rep chunks idxs r ri t it' 0 \<and> si_rest chunks it' 0 = block_kvs kvs"
proof -
  have rep: "iterates idxs ri (si_index it)" "si_table it = t" using it by (auto simp: si_rep_def)
  have ne: "chunks \<noteq> []" "concat chunks = block_kvs kvs" using lay by (auto simp: sst_layout_def)
  note len = layout_lengths [OF lay]
  let ?ii = "(si_index it)\<lparr>bi_offset := 0\<rparr>"
  have i0: "iterates idxs ri ?ii" by (rule iterates_offset [OF rep(1)]) simp
  obtain ii where ii: "bi_try_next ?ii = Ok (Some (idxs ! 0), ii)" "iterates idxs ri ii" "bi_offset ii = 1"
    using bi_try_next_step [OF i0 r(2)] ne(1) len(1) by auto
  obtain di S' where di: "data_iter_init c t S (snd (idxs ! 0)) = Ok (di, S')" "cache_sound c tbls S'"
      "iterates (chunks ! 0) r di" "bi_offset di = 0"
    using data_iter_init_chunk [OF lay S t, of 0] ne(1) by auto
  have seek: "bi_seek di Seek_First = Ok di" using bi_seek_First [OF di(3)] di(4) by simp
  let ?it = "it\<lparr>si_index := ii, si_data := di\<rparr>"
  have "sst_seek c it S Seek_First = Ok (?it, S')"
    using bi_seek_First [OF rep(1)] ii(1) di(1) seek rep(2)
    by (cases "idxs ! 0") (simp add: sst_seek_def data_iter_seek_def)
  moreover have "si_rep chunks idxs r ri t ?it 0" using ii di rep ne(1) by (simp add: si_rep_def)
  moreover have "si_rest chunks ?it 0 = block_kvs kvs" using ne di(4) by (cases chunks) (auto simp: si_rest_def)
  ultimately show ?thesis using di(2) by blast
qed

lemma filter_dropWhile_ascending:
  "keys_ascending kvs \<Longrightarrow> dropWhile (\<lambda>(k, v). k < key) kvs = filter (\<lambda>(k, v). key \<le> k) kvs"
proof (induction kvs)
  case (Cons kv kvs)
  have "filter (\<lambda>(k, v). key \<le> k) kvs = kvs" if "key \<le> fst kv"
    using that Cons.prems by (auto simp: filter_id_conv)
  then show ?case using Cons by (auto simp: not_less)
qed simp

text \<open>A key beyond the last one: the index iterator does not move, so the next block is opened, if there is one.\<close>

lemma sst_seek_beyond_rep:
  assumes lay: "sst_layout c t kvs chunks blocks idxs ib r ri" and r: "r \<ge> 2" "ri \<ge> 2"
    and S: "cache_sound c tbls S" and t: "tbls (sst_gen t) = Some t" and it: "si_rep chunks idxs r ri t it j"
    and beyond: "\<forall>k\<in>fst ` set kvs. k < key"
  shows "\<exists>it' S' j'. sst_seek c it S (Seek_Backward key) = Ok (it', S') \<and> cache_sound c tbls S' \<and> si_rep chunks idxs r ri t it' j'"
proof -
  note len = layout_lengths [OF lay] and tw = takeWhile_idxs [OF lay]
  have rep: "iterates idxs ri (si_index it)" "si_table it = t" "j < length chunks" "iterates (chunks ! j) r (si_data it)"
    using it by (auto simp: si_rep_def)
  have l: "concat chunks = block_kvs kvs" "keys_ascending kvs" using lay by (auto simp: sst_layout_def)
  have asc: "keys_ascending (concat chunks)" using l by simp
  have small: "fst kv < key" if "kv \<in> set (concat chunks)" for kv using that beyond unfolding l(1) by (auto simp: block_kvs_def)
  have all: "takeWhile (\<lambda>ch. fst (last ch) < key) chunks = chunks"
    unfolding takeWhile_eq_all_conv
  proof
    fix ch assume "ch \<in> set chunks"
    then have "last ch \<in> set (concat chunks)" using len(2) by (auto intro: bexI [of _ ch])
    then show "fst (last ch) < key" by (rule small)
  qed
  have still: "bi_seek (si_index it) (Seek_Backward key) = Ok (si_index it)"
    using bi_seek_backward [OF rep(1) r(2) tw(1) refl, of key] tw(2) [of key] all len(1) by auto
  show ?thesis
  proof (cases "bi_offset (si_index it) < length idxs")
    case True
    then have j: "bi_offset (si_index it) = Suc j" "Suc j < length chunks" using it len(1) by (auto simp: si_rep_def)
    obtain ii where ii: "bi_try_next (si_index it) = Ok (Some (idxs ! Suc j), ii)" "iterates idxs ri ii" "bi_offset ii = Suc j + 1"
      using bi_try_next_step [OF rep(1) r(2)] True j(1) by auto
    obtain di S2 where di: "data_iter_init c t S (snd (idxs ! Suc j)) = Ok (di, S2)" "cache_sound c tbls S2" "iterates (chunks ! Suc j) r di"
      using data_iter_init_chunk [OF lay S t j(2)] by blast
    have "keys_ascending (chunks ! Suc j)" by (rule keys_ascending_chunk [OF asc nth_mem [OF j(2)]])
    moreover have "\<forall>(k, v)\<in>set (chunks ! Suc j). k < key" using small nth_mem [OF j(2)] by fastforce
    ultimately have di2: "bi_seek di (Seek_Backward key) = Ok di" by (rule block_iter_seek_past_end [OF di(3) r(1)])
    let ?it = "it\<lparr>si_index := ii, si_data := di\<rparr>"
    have "sst_seek c it S (Seek_Backward key) = Ok (?it, S2)"
      using still ii(1) rep(2) di(1) di2 by (cases "idxs ! Suc j") (simp add: sst_seek_def data_iter_seek_def)
    moreover have "si_rep chunks idxs r ri t ?it (Suc j)" using rep(2) j(2) di(3) ii(2,3) by (simp add: si_rep_def)
    ultimately show ?thesis using di(2) by blast
  next
    case False
    then have j: "Suc j = length chunks" "length idxs = length chunks" using it len(1) by (auto simp: si_rep_def)
    obtain ii where ii: "bi_try_next (si_index it) = Ok (None, ii)" "iterates idxs ri ii" "bi_offset ii = length idxs + 1"
      using bi_try_next_step [OF rep(1) r(2)] False by auto
    let ?it = "it\<lparr>si_index := ii\<rparr>"
    have "sst_seek c it S (Seek_Backward key) = Ok (?it, S)" using still ii(1) by (simp add: sst_seek_def)
    moreover have "si_rep chunks idxs r ri t ?it j" using rep j ii(2,3) by (simp add: si_rep_def)
    ultimately show ?thesis using S by blast
  qed
qed

lemma si_rest_suffix: "j < length chunks \<Longrightarrow> \<exists>n. si_rest chunks it j = drop n (concat chunks)"
proof -
  assume "j < length chunks"
  then have "concat chunks = concat (take j chunks) @ chunks ! j @ concat (drop (Suc j) chunks)"
    by (metis concat.simps(2) concat_append id_take_nth_drop)
  then show ?thesis
    by (cases "bi_offset (si_data it) \<le> length (chunks ! j)")
      (auto simp: si_rest_def intro: exI [of _ "length (concat (take j chunks)) + min (length (chunks ! j)) (bi_offset (si_data it))"])
qed

lemma sst_rest_seek:
  assumes "cache_sound c tbls S" "sst_rest c tbls it kvs kvs1" "to \<noteq> Seek_Last"
  shows "\<exists>it' S' r. sst_seek c it S to = Ok (it', S') \<and> cache_sound c tbls S' \<and> sst_rest c tbls it' kvs r \<and> seek_to to kvs r"
proof -
  obtain t chunks blocks idxs ib r ri j where lay: "sst_layout c t kvs chunks blocks idxs ib r ri" "2 \<le> r" "2 \<le> ri"
      and t: "served tbls t" and it: "si_rep chunks idxs r ri t it j"
    using assms(2) by (auto simp: sst_rest_def)
  let ?tbls = "tbls(sst_gen t \<mapsto> t)"
  have S: "cache_sound c ?tbls S" using assms(1) served_cache_sound [OF t] by simp
  have l: "keys_ascending kvs" "concat chunks = block_kvs kvs" using lay(1) by (auto simp: sst_layout_def)
  have "\<exists>it' S' j'. sst_seek c it S to = Ok (it', S') \<and> cache_sound c ?tbls S' \<and> si_rep chunks idxs r ri t it' j' \<and>
      seek_to to kvs (map to_key_value (si_rest chunks it' j'))"
  proof (cases to)
    case Seek_First
    then show ?thesis using sst_seek_first_rep [OF lay S _ it] l(1) by (fastforce simp: seek_to_def)
  next
    case (Seek_Backward key)
    show ?thesis
    proof (cases "\<exists>k\<in>fst ` set kvs. key \<le> k")
      case True
      from sst_seek_backward_rep [OF lay S _ it this] obtain it' S' j' where
        "sst_seek c it S to = Ok (it', S')" "cache_sound c ?tbls S'" "si_rep chunks idxs r ri t it' j'"
        "si_rest chunks it' j' = dropWhile (\<lambda>(k, v). k < key) (block_kvs kvs)"
        by (auto simp: Seek_Backward)
      moreover from this(4) have "map to_key_value (si_rest chunks it' j') = filter (\<lambda>(k, v). key \<le> k) kvs"
        using dropWhile_block_kvs filter_dropWhile_ascending [OF l(1)] by metis
      moreover have "seek_to to kvs (filter (\<lambda>(k, v). key \<le> k) kvs)"
        using l(1) Seek_Backward by (simp add: seek_to_def ascending_filter)
      ultimately show ?thesis by metis
    next
      case False
      then obtain it' S' j' where it': "sst_seek c it S to = Ok (it', S')" "cache_sound c ?tbls S'" "si_rep chunks idxs r ri t it' j'"
        using sst_seek_beyond_rep [OF lay S _ it, of key] by (auto simp: Seek_Backward not_le)
      then obtain n where "si_rest chunks it' j' = drop n (block_kvs kvs)"
        using si_rest_suffix [of j' chunks it'] l(2) by (auto simp: si_rep_def)
      then have r: "map to_key_value (si_rest chunks it' j') = drop n kvs" by (metis drop_map map_to_key_value)
      have "filter (\<lambda>(k, _). key \<le> k) kvs = []" "filter (\<lambda>(k, _). key \<le> k) (drop n kvs) = []"
        using False by (auto simp: filter_empty_conv dest!: in_set_dropD)
      then have "seek_to to kvs (drop n kvs)" using l(1) Seek_Backward by (simp add: seek_to_def drop_map [symmetric] sorted_wrt_drop set_drop_subset)
      then show ?thesis using it' r by metis
    qed
  qed (use assms(3) in simp)
  then show ?thesis using lay t served_cache_sound [OF t] unfolding sst_rest_def by blast
qed

interpretation ti: kv_iter "ti_step c" "cache_sound c tbls" "ti_rest c tbls" for c tbls
proof unfold_locales
  fix S it kvs assume S: "cache_sound c tbls S" and rest: "ti_rest c tbls it kvs"
  show "\<exists>it' S'. ti_step c it S = Some (Ok (case kvs of [] \<Rightarrow> None | kv # _ \<Rightarrow> Some kv, it', S')) \<and>
      cache_sound c tbls S' \<and> ti_rest c tbls it' (tl kvs)"
  proof (cases it)
    case (SST_Iter it0)
    then show ?thesis using sst_rest_step [OF S] rest by (fastforce simp: ti_step_def)
  next
    case (BTT_Iter it0)
    then show ?thesis using S rest
      by (auto simp: ti_step_def bti_try_next_def split: option.splits list.splits)
  qed
qed

interpretation ti: kv_seek_iter "ti_step c" "cache_sound c tbls" "ti_rest c tbls" "ti_seek_step c" "ti_content c tbls" for c tbls
proof unfold_locales
  fix S it kvs to assume S: "cache_sound c tbls S" and con: "ti_content c tbls it kvs" and to: "to \<noteq> Seek_Last"
  show "\<exists>it' S' r. ti_seek_step c it S to = Some (Ok (it', S')) \<and> cache_sound c tbls S' \<and> ti_content c tbls it' kvs \<and>
      ti_rest c tbls it' r \<and> seek_to to kvs r"
  proof (cases it)
    case (SST_Iter it0)
    then show ?thesis using sst_rest_seek [OF S _ to] con by (fastforce simp: ti_seek_step_def)
  next
    case (BTT_Iter it0)
    then show ?thesis using S con to
      by (auto simp: ti_seek_step_def bti_seek_def btree_range_def seek_to_def filter_keyed ascending_filter map_fst_keyed in_keyed split: seek.splits)
  qed
next
  fix S it kvs x it' S' assume S: "cache_sound c tbls S" and con: "ti_content c tbls it kvs" and run: "ti_step c it S = Some (Ok (x, it', S'))"
  show "ti_content c tbls it' kvs"
  proof (cases it)
    case (SST_Iter it0)
    then obtain kvs1 where "sst_rest c tbls it0 kvs kvs1" using con by auto
    from sst_rest_step [OF S this] show ?thesis using run SST_Iter by (fastforce simp: ti_step_def)
  next
    case (BTT_Iter it0)
    then show ?thesis using con run by (auto simp: ti_step_def bti_try_next_def split: option.splits list.splits)
  qed
qed

lemma table_iter_new_rest:
  assumes "table_holds c hs tbls t gen kvs" "cache_sound c tbls S"
  shows "\<exists>it S'. table_iter_new c t S = Ok (it, S') \<and> cache_sound c tbls S' \<and> ti_rest c tbls it kvs \<and> ti_content c tbls it kvs"
proof (cases t)
  case (SST t')
  then have h: "sst_holds c hs t' kvs" and sv: "served tbls t'"
      and r: "2 \<le> mb_data_restart_interval (sst_meta t')" "2 \<le> mb_index_restart_interval (sst_meta t')"
    using assms(1) by auto
  obtain chunks blocks idxs ib r ri where lay: "sst_layout c t' kvs chunks blocks idxs ib r ri"
    using h by (auto simp: sst_holds_def)
  then have r2: "2 \<le> r" "2 \<le> ri" using r by (auto simp: sst_layout_def)
  have S: "cache_sound c (tbls(sst_gen t' \<mapsto> t')) S" using assms(2) served_cache_sound [OF sv] by simp
  obtain it S' where it: "sst_iter_new c t' S = Ok (it, S')" "cache_sound c (tbls(sst_gen t' \<mapsto> t')) S'"
      "si_rep chunks idxs r ri t' it 0" "si_rest chunks it 0 = block_kvs kvs"
    using sst_iter_new_rep [OF lay r2(2) S] by auto
  have "sst_rest c tbls it kvs kvs"
    unfolding sst_rest_def using lay r2 sv it(3,4) by (intro exI conjI) (assumption | simp)+
  then show ?thesis using it(1,2) served_cache_sound [OF sv] by (auto simp: SST)
next
  case (BTT t')
  then show ?thesis using assms by (auto simp: bti_new_def bti_seek_def btree_range_def filter_keyed)
qed

section \<open>The contract of the loader\<close>

text \<open>What reopening generation \<open>gen\<close> finds: its file holds the pairs or, when the file is missing or
  damaged, its write-ahead log does. A missing file is opened as an empty one.\<close>

definition stored_bytes :: "directory \<Rightarrow> i64 \<Rightarrow> bytes" where
  "stored_bytes d gen = fst (open_or_create d gen)"

definition wal_restores :: "crates \<Rightarrow> bytes \<Rightarrow> key_value list \<Rightarrow> bool" where
  "wal_restores c bs kvs \<longleftrightarrow> keys_ascending kvs \<and>
     (\<exists>data. log_load c (reload_decode c) bs [] = Some (Ok data) \<and>
       btree_from_iter (map (\<lambda>(key, val). (key, (key, val))) data) = keyed kvs)"

definition backed ::
  "crates \<Rightarrow> hashing \<Rightarrow> (i64 \<Rightarrow> ss_table option) \<Rightarrow> directory \<Rightarrow> directory \<Rightarrow> i64 \<Rightarrow> key_value list \<Rightarrow> bool" where
  "backed c hs tbls files wal gen kvs \<longleftrightarrow>
     (case load_from_file c gen (stored_bytes files gen) of
        Ok t \<Rightarrow> table_holds c hs tbls (SST t) gen kvs
      | Err e \<Rightarrow> wal_restores c (stored_bytes wal gen) kvs
      | Panic \<Rightarrow> False)"

text \<open>\<open>content\<close> gives the pairs of every live generation. A cached table holds them, and every live
  generation can be reopened.\<close>

lemma backed_cong:
  "stored_bytes files gen = stored_bytes files' gen \<Longrightarrow> stored_bytes wal gen = stored_bytes wal' gen \<Longrightarrow>
   backed c hs tbls files wal gen kvs = backed c hs tbls files' wal' gen kvs"
  by (simp add: backed_def split: outcome.split)

definition loader_inv ::
  "crates \<Rightarrow> hashing \<Rightarrow> (i64 \<Rightarrow> ss_table option) \<Rightarrow> (i64 \<Rightarrow> key_value list option) \<Rightarrow> table_loader \<Rightarrow> bool" where
  "loader_inv c hs tbls content L \<longleftrightarrow> sharding_inv (tl_inner L) \<and> cache_sound c tbls (tl_cache L) \<and>
     (\<forall>gen t kvs. sharding_peek (tl_inner L) gen = Some t \<and> content gen = Some kvs \<longrightarrow> table_holds c hs tbls t gen kvs) \<and>
     (\<forall>gen kvs. content gen = Some kvs \<longrightarrow> backed c hs tbls (tl_files L) (tl_wal L) gen kvs)"

lemma stored_bytes_open [simp]:
  "stored_bytes (snd (open_or_create d gen)) gen' = stored_bytes d gen'"
  by (auto simp: stored_bytes_def open_or_create_def btree_get_def split: option.splits if_splits)

lemma load_table_backed:
  assumes "backed c hs tbls (tl_files L) (tl_wal L) gen kvs"
  shows "\<exists>t L'. load_table c L gen = Some (Ok t, L') \<and> table_holds c hs tbls t gen kvs \<and>
    tl_inner L' = tl_inner L \<and> tl_cache L' = tl_cache L \<and> tl_config L' = tl_config L \<and>
    stored_bytes (tl_files L') = stored_bytes (tl_files L) \<and> stored_bytes (tl_wal L') = stored_bytes (tl_wal L)"
proof -
  obtain bs d where bs: "open_or_create (tl_files L) gen = (bs, d)" by fastforce
  then have d: "stored_bytes d = stored_bytes (tl_files L)" "stored_bytes (tl_files L) gen = bs"
    using stored_bytes_open [of "tl_files L" gen] by (auto simp: fun_eq_iff) (simp add: stored_bytes_def)
  obtain ws w where ws: "open_or_create (tl_wal L) gen = (ws, w)" by fastforce
  then have w: "stored_bytes w = stored_bytes (tl_wal L)" "stored_bytes (tl_wal L) gen = ws"
    using stored_bytes_open [of "tl_wal L" gen] by (auto simp: fun_eq_iff) (simp add: stored_bytes_def)
  show ?thesis
  proof (cases "load_from_file c gen bs")
    case (Ok t)
    then show ?thesis using assms d bs by (simp add: backed_def load_table_def factory_reader_def)
  next
    case (Err e)
    then obtain data where "log_load c (reload_decode c) ws [] = Some (Ok data)" "keys_ascending kvs"
        "btree_from_iter (map (\<lambda>(key, val). (key, (key, val))) data) = keyed kvs"
      using assms d w by (auto simp: backed_def wal_restores_def)
    then show ?thesis using Err d w bs ws
      by (simp add: load_table_def factory_reader_def log_loader_load_def btree_table_new_def)
  qed (use assms d in \<open>simp add: backed_def\<close>)
qed

lemma loader_get_holds:
  assumes inv: "loader_inv c hs tbls content L" and kvs: "content gen = Some kvs"
  shows "\<exists>t L'. loader_get c L gen = Some (Ok (Some t, L')) \<and> table_holds c hs tbls t gen kvs \<and>
    loader_inv c hs tbls content L' \<and> tl_cache L' = tl_cache L \<and> tl_config L' = tl_config L \<and>
    stored_bytes (tl_files L') = stored_bytes (tl_files L) \<and> stored_bytes (tl_wal L') = stored_bytes (tl_wal L)"
proof (cases "sharding_peek (tl_inner L) gen")
  case (Some t)
  have "table_holds c hs tbls t gen kvs" using inv kvs Some by (auto simp: loader_inv_def)
  moreover obtain S' where "sharding_get_or_insert (tl_inner L) gen (\<lambda>_. Panic) = Ok (t, S')" "sharding_inv S'"
      "sharding_peek S' = sharding_peek (tl_inner L)"
    using sharded.hit [OF _ Some, of "\<lambda>_. Panic"] inv by (auto simp: loader_inv_def)
  ultimately show ?thesis using inv Some by (auto simp: loader_get_def loader_inv_def)
next
  case None
  obtain t L1 where L1: "load_table c L gen = Some (Ok t, L1)" "table_holds c hs tbls t gen kvs"
      "tl_inner L1 = tl_inner L" "tl_cache L1 = tl_cache L" "tl_config L1 = tl_config L"
      "stored_bytes (tl_files L1) = stored_bytes (tl_files L)" "stored_bytes (tl_wal L1) = stored_bytes (tl_wal L)"
    using load_table_backed [of c hs tbls L gen kvs] inv kvs by (auto simp: loader_inv_def)
  obtain S' where S': "sharding_get_or_insert (tl_inner L) gen (\<lambda>_. Ok t) = Ok (t, S')" "sharding_inv S'"
      "sharding_peek S' \<subseteq>\<^sub>m (sharding_peek (tl_inner L))(gen \<mapsto> t)"
    using sharded.load [OF _ None, of "\<lambda>_. Ok t" t] inv by (auto simp: loader_inv_def)
  have "table_holds c hs tbls u g l" if "sharding_peek S' g = Some u" "content g = Some l" for g u l
  proof -
    have "((sharding_peek (tl_inner L))(gen \<mapsto> t)) g = Some u" using S'(3) that(1) by (auto simp: map_le_def dom_def)
    then show ?thesis using inv that(2) kvs L1(2) by (auto simp: loader_inv_def split: if_splits)
  qed
  moreover have "backed c hs tbls (tl_files L1) (tl_wal L1) g l" if "content g = Some l" for g l
    using inv that L1(6,7) backed_cong [of "tl_files L1" g "tl_files L" "tl_wal L1" "tl_wal L"] by (simp add: loader_inv_def)
  ultimately show ?thesis using L1 S'(1,2) inv by (auto simp: loader_get_def None loader_inv_def)
qed

text \<open>Looking a key up in the table of a live generation.\<close>

lemma loader_query_holds:
  assumes inv: "loader_inv c hs tbls content L" and kvs: "content gen = Some kvs"
  shows "\<exists>t L' S'. loader_get c L gen = Some (Ok (Some t, L')) \<and> table_holds c hs tbls t gen kvs \<and>
    table_query c hs t (tl_cache L') key = Ok (map_option (\<lambda>v. (key, v)) (map_of kvs key), S') \<and>
    loader_inv c hs tbls content (L'\<lparr>tl_cache := S'\<rparr>)"
proof -
  obtain t L' where t: "loader_get c L gen = Some (Ok (Some t, L'))" "table_holds c hs tbls t gen kvs"
      "loader_inv c hs tbls content L'"
    using loader_get_holds [OF assms] by blast
  then have "cache_sound c tbls (tl_cache L')" by (simp add: loader_inv_def)
  then obtain S' where "table_query c hs t (tl_cache L') key = Ok (map_option (\<lambda>v. (key, v)) (map_of kvs key), S')"
      "cache_sound c tbls S'"
    using table_query_holds [OF t(2)] by blast
  then show ?thesis using t by (auto simp: loader_inv_def)
qed

text \<open>Adding a table of a fresh generation leaves the blocks of the others alone.\<close>

lemma table_holds_fresh:
  "table_holds c hs tbls t g kvs \<Longrightarrow> tbls gen = None \<Longrightarrow> table_holds c hs (tbls(gen \<mapsto> t')) t g kvs"
  by (cases t) (auto simp: served_def)

lemma backed_fresh:
  "backed c hs tbls files wal g kvs \<Longrightarrow> tbls gen = None \<Longrightarrow> backed c hs (tbls(gen \<mapsto> t')) files wal g kvs"
  by (auto simp: backed_def simp del: table_holds.simps intro: table_holds_fresh split: outcome.splits)

lemma cache_sound_fresh:
  assumes "cache_sound c tbls S" "tbls gen = None"
  shows "cache_sound c (tbls(gen \<mapsto> t)) S"
proof -
  have "table_source c (tbls(gen \<mapsto> t)) k = Ok v" if "table_source c tbls k = Ok v" for k v
    using that assms(2) by (cases "(c, tbls, k)" rule: table_source.cases) auto
  then show ?thesis using assms(1) by (simp add: cache_sound_def)
qed

lemma loader_inv_insert:
  assumes inv: "loader_inv c hs tbls content L" and S': "sharding_inv S'"
      "sharding_peek S' \<subseteq>\<^sub>m (sharding_peek (tl_inner L))(gen \<mapsto> t)"
    and t: "table_holds c hs tbls' t gen kvs" "backed c hs tbls' files wal gen kvs" "cache_sound c tbls' (tl_cache L)"
    and mono: "\<And>u g l. table_holds c hs tbls u g l \<Longrightarrow> table_holds c hs tbls' u g l"
    and other: "\<And>g l. g \<noteq> gen \<Longrightarrow> backed c hs tbls (tl_files L) (tl_wal L) g l \<Longrightarrow> backed c hs tbls' files wal g l"
  shows "loader_inv c hs tbls' (content(gen \<mapsto> kvs)) (L\<lparr>tl_files := files, tl_wal := wal, tl_inner := S'\<rparr>)"
proof -
  have "table_holds c hs tbls' u g l" if "sharding_peek S' g = Some u" "(content(gen \<mapsto> kvs)) g = Some l" for g u l
  proof -
    have "((sharding_peek (tl_inner L))(gen \<mapsto> t)) g = Some u" using S'(2) that(1) by (auto simp: map_le_def dom_def)
    then show ?thesis using inv that(2) t(1) mono by (auto simp: loader_inv_def split: if_splits)
  qed
  then show ?thesis using inv S'(1) t(2,3) other by (auto simp: loader_inv_def)
qed

text \<open>Data that a table of the configuration can hold and read back.\<close>

definition table_storable :: "crates \<Rightarrow> hashing \<Rightarrow> config \<Rightarrow> key_value list \<Rightarrow> bool" where
  "table_storable c hs cfg kvs \<longleftrightarrow> table_input_ok c cfg kvs \<and> length kvs < 2 ^ 32 \<and>
     2 \<le> data_restart_interval cfg \<and> data_restart_interval cfg < 2 ^ 32 \<and>
     2 \<le> index_restart_interval cfg \<and> index_restart_interval cfg < 2 ^ 32 \<and>
     (\<forall>seeds gen level t. ss_table_new c hs cfg seeds gen kvs level = Ok t \<longrightarrow> length (sst_file t) < 2 ^ 31)"

lemma create_ss_table_holds:
  assumes c: "int_encoding c" "lz4_codec c" and ok: "table_storable c hs (tl_config L) kvs"
    and new: "btree_get (tl_files L) gen = None"
  shows "\<exists>t d. create_ss_table c hs L seeds gen kvs level = Ok (t, d) \<and> table_holds c hs [gen \<mapsto> t] (SST t) gen kvs \<and>
    ss_table_len t = length kvs \<and> (\<exists>t'. load_from_file c gen (stored_bytes d gen) = Ok t' \<and> table_holds c hs [gen \<mapsto> t] (SST t') gen kvs) \<and>
    (\<forall>g. g \<noteq> gen \<longrightarrow> stored_bytes d g = stored_bytes (tl_files L) g)"
proof -
  obtain t where t: "ss_table_new c hs (tl_config L) seeds gen kvs level = Ok t" "sst_holds c hs t kvs"
      "sst_gen t = gen" "ss_table_len t = length kvs"
      "mb_index_restart_interval (sst_meta t) = index_restart_interval (tl_config L)"
      "mb_data_restart_interval (sst_meta t) = data_restart_interval (tl_config L)"
      "\<exists>t'. load_from_file c gen (sst_file t) = Ok t' \<and> sst_holds c hs t' kvs \<and> sst_gen t' = gen \<and> same_blocks t' t"
    using ss_table_new_holds [OF c, of "tl_config L" kvs hs seeds gen level] ok unfolding table_storable_def by blast
  let ?d = "btree_insert gen (sst_file t) (btree_insert gen [] (tl_files L))"
  have "create_ss_table c hs L seeds gen kvs level = Ok (t, ?d)"
    using new t(1) by (simp add: create_ss_table_def factory_writer_def open_or_create_new file_write_def)
  moreover have "stored_bytes ?d gen = sst_file t" "\<forall>g. g \<noteq> gen \<longrightarrow> stored_bytes ?d g = stored_bytes (tl_files L) g"
    by (auto simp: stored_bytes_def open_or_create_def btree_get_def split: option.splits)
  moreover have "table_holds c hs [gen \<mapsto> t] (SST t) gen kvs"
    using t ok by (auto simp: table_storable_def served_def same_blocks_def)
  moreover have "\<exists>t'. load_from_file c gen (sst_file t) = Ok t' \<and> table_holds c hs [gen \<mapsto> t] (SST t') gen kvs"
    using t ok by (auto simp: table_storable_def served_def same_blocks_def)
  ultimately show ?thesis using t(4) by auto
qed

lemma loader_create_holds:
  assumes c: "int_encoding c" "lz4_codec c" and inv: "loader_inv c hs tbls content L"
    and ok: "table_storable c hs (tl_config L) kvs"
    and fresh: "tbls gen = None" "btree_get (tl_files L) gen = None"
  shows "\<exists>scope meta L' cs' t. loader_create c hs L cs seeds gen kvs level SortedString = Ok ((scope, meta), L', cs') \<and>
    from_sorted_vec_data cs gen kvs = Ok (scope, cs') \<and> meta_len meta = length kvs \<and>
    loader_inv c hs (tbls(gen \<mapsto> t)) (content(gen \<mapsto> kvs)) L' \<and> tl_config L' = tl_config L \<and> tl_wal L' = tl_wal L \<and>
    (\<forall>g. g \<noteq> gen \<longrightarrow> stored_bytes (tl_files L') g = stored_bytes (tl_files L) g)"
proof -
  have kvs: "keys_ascending kvs" "kvs \<noteq> []" using ok by (auto simp: table_storable_def table_input_ok_def)
  obtain scope cs' where scope: "from_sorted_vec_data cs gen kvs = Ok (scope, cs')"
    using from_sorted_vec_data_covers [OF kvs] by blast
  obtain t d where t: "create_ss_table c hs L seeds gen kvs level = Ok (t, d)" "table_holds c hs [gen \<mapsto> t] (SST t) gen kvs"
      "ss_table_len t = length kvs" "\<forall>g. g \<noteq> gen \<longrightarrow> stored_bytes d g = stored_bytes (tl_files L) g"
      "\<exists>t'. load_from_file c gen (stored_bytes d gen) = Ok t' \<and> table_holds c hs [gen \<mapsto> t] (SST t') gen kvs"
    using create_ss_table_holds [OF c ok fresh(2), of seeds level] by blast
  have here: "table_holds c hs (tbls(gen \<mapsto> t)) (SST u) gen kvs" if "table_holds c hs [gen \<mapsto> t] (SST u) gen kvs" for u
    using that by (auto simp: served_def)
  obtain old S' where S': "sharding_put (tl_inner L) gen (SST t) = Ok (old, S')" "sharding_inv S'"
      "sharding_peek S' \<subseteq>\<^sub>m (sharding_peek (tl_inner L))(gen \<mapsto> SST t)"
    using sharding_put_peek [of "tl_inner L"] inv unfolding loader_inv_def by blast
  have "backed c hs (tbls(gen \<mapsto> t)) d (tl_wal L) g l" if "g \<noteq> gen" "backed c hs tbls (tl_files L) (tl_wal L) g l" for g l
    using backed_fresh [OF that(2) fresh(1), of t] that(1) t(4) backed_cong [of d g "tl_files L" "tl_wal L" "tl_wal L"] by simp
  moreover have "backed c hs (tbls(gen \<mapsto> t)) d (tl_wal L) gen kvs" using t(5) here by (auto simp: backed_def)
  moreover have "cache_sound c (tbls(gen \<mapsto> t)) (tl_cache L)"
    using inv cache_sound_fresh [of c tbls _ gen t] fresh(1) by (simp add: loader_inv_def)
  ultimately have "loader_inv c hs (tbls(gen \<mapsto> t)) (content(gen \<mapsto> kvs)) (L\<lparr>tl_files := d, tl_wal := tl_wal L, tl_inner := S'\<rparr>)"
    using loader_inv_insert [OF inv S'(2,3) here [OF t(2)]] table_holds_fresh [where tbls = tbls and gen = gen and t' = t] fresh(1) by blast
  then show ?thesis using t(1,3,4) S'(1) scope by (simp add: loader_create_def meta_of_table_def) blast
qed

text \<open>The statistics of one table: its size is a field of 32 bits in its footer, its length one in its meta block.\<close>

definition small_meta :: "table_meta \<Rightarrow> bool" where
  "small_meta m \<longleftrightarrow> meta_size_of_disk m < 2 ^ 32 \<and> meta_len m < 2 ^ 32"

lemma sst_size_small: "ss_table_size_of_disk t < 2 ^ 32"
  using unsigned_less [where w = "ft_size_of_disk (sst_footer t)", where 'a = nat] by (simp add: ss_table_size_of_disk_def)

lemma loaded_small:
  assumes "load_from_file c gen bs = Ok t"
  shows "small_meta (meta_of_table (SST t))"
proof -
  have small: "unat (w :: 32 word) < 2 ^ 32" for w using unsigned_less [of w, where 'a = nat] by simp
  have "ss_table_len t < 2 ^ 32"
    using assms small by (auto simp: load_from_file_def meta_from_raw_def ss_table_len_def and_then_Ok_iff Let_def)
  then show ?thesis using sst_size_small [of t] by (simp add: small_meta_def meta_of_table_def)
qed

lemma loader_create_size:
  assumes "loader_create c hs L cs seeds gen kvs level SortedString = Ok ((scope, meta), L', cs')"
  shows "meta_size_of_disk meta < 2 ^ 32"
proof -
  obtain t where "meta = meta_of_table (SST t)" using assms by (auto simp: loader_create_def and_then_Ok_iff map_outcome_ok_Ok_iff)
  then show ?thesis using sst_size_small [of t] by (simp add: meta_of_table_def)
qed

lemma loader_create_small:
  assumes "int_encoding c" "lz4_codec c" "loader_inv c hs tbls content L" "table_storable c hs (tl_config L) kvs"
    and "tbls gen = None" "btree_get (tl_files L) gen = None"
    and run: "loader_create c hs L cs seeds gen kvs level SortedString = Ok ((scope, meta), L', cs')"
  shows "meta_size_of_disk meta < 2 ^ 32" "meta_len meta < 2 ^ 32"
proof -
  show "meta_size_of_disk meta < 2 ^ 32" by (rule loader_create_size [OF run])
  have "meta_len meta = length kvs" using loader_create_holds [OF assms(1-6), of cs seeds level] run by auto
  then show "meta_len meta < 2 ^ 32" using assms(4) by (simp add: table_storable_def)
qed

lemma loader_create_get:
  assumes c: "int_encoding c" "lz4_codec c" and inv: "loader_inv c hs tbls content L" and ok: "table_storable c hs (tl_config L) kvs"
    and fresh: "tbls gen = None" "btree_get (tl_files L) gen = None"
    and run: "loader_create c hs L cs seeds gen kvs level SortedString = Ok ((scope, meta), L', cs')"
    and get: "loader_get c L' gen = Some (Ok (Some t, L''))"
  shows "small_meta (meta_of_table t)"
proof -
  obtain u d where u: "create_ss_table c hs L seeds gen kvs level = Ok (u, d)" "ss_table_len u = length kvs"
      "\<exists>t'. load_from_file c gen (stored_bytes d gen) = Ok t'"
    using create_ss_table_holds [OF c ok fresh(2), of seeds level] by blast
  obtain old S' where S': "sharding_put (tl_inner L) gen (SST u) = Ok (old, S')" "sharding_inv S'"
      "sharding_peek S' \<subseteq>\<^sub>m (sharding_peek (tl_inner L))(gen \<mapsto> SST u)"
    using sharding_put_peek [of "tl_inner L"] inv unfolding loader_inv_def by blast
  have L': "tl_inner L' = S'" "tl_files L' = d"
    using run u(1) S'(1) by (auto simp: loader_create_def and_then_Ok_iff map_outcome_ok_Ok_iff)
  show ?thesis
  proof (cases "sharding_peek S' gen")
    case (Some v)
    then have "v = SST u" using S'(3) by (auto simp: map_le_def dom_def)
    moreover have "t = v"
      using get Some sharded.hit [OF S'(2) Some, of "\<lambda>_. Panic"] L'(1) by (auto simp: loader_get_def split: outcome.splits)
    ultimately show ?thesis using u(2) ok sst_size_small [of u] by (simp add: small_meta_def meta_of_table_def table_storable_def)
  next
    case None
    obtain bs d' where bs: "open_or_create d gen = (bs, d')" by fastforce
    then have "bs = stored_bytes d gen" by (simp add: stored_bytes_def)
    then obtain t' L1 where t': "load_from_file c gen bs = Ok t'" "load_table c L' gen = Some (Ok (SST t'), L1)" "tl_inner L1 = S'"
      using u(3) bs L' by (auto simp: load_table_def factory_reader_def)
    have "t = SST t'"
      using get None t'(2,3) sharded.load [OF S'(2) None, of "\<lambda>_. Ok (SST t')" "SST t'"] L'(1)
      by (auto simp: loader_get_def split: outcome.splits)
    then show ?thesis using loaded_small [OF t'(1)] by simp
  qed
qed

text \<open>An in-memory table is only as durable as the log of its generation.\<close>

lemma loader_create_memory_holds:
  assumes inv: "loader_inv c hs tbls content L" and kvs: "keys_ascending kvs" "kvs \<noteq> []"
    and wal: "backed c hs tbls (tl_files L) (tl_wal L) gen kvs"
  shows "\<exists>scope meta L' cs'. loader_create c hs L cs seeds gen kvs level BTree = Ok ((scope, meta), L', cs') \<and>
    from_sorted_vec_data cs gen kvs = Ok (scope, cs') \<and> meta_len meta = length kvs \<and>
    loader_inv c hs tbls (content(gen \<mapsto> kvs)) L' \<and> tl_files L' = tl_files L \<and> tl_wal L' = tl_wal L"
proof -
  obtain scope cs' where scope: "from_sorted_vec_data cs gen kvs = Ok (scope, cs')"
    using from_sorted_vec_data_covers [OF kvs] by blast
  let ?t = "BTT (btree_table_new level gen kvs)"
  have t: "table_holds c hs tbls ?t gen kvs"
    using kvs(1) btree_from_iter_id [of "keyed kvs"] by (simp add: btree_table_new_def keyed_def comp_def case_prod_unfold)
  obtain old S' where S': "sharding_put (tl_inner L) gen ?t = Ok (old, S')" "sharding_inv S'"
      "sharding_peek S' \<subseteq>\<^sub>m (sharding_peek (tl_inner L))(gen \<mapsto> ?t)"
    using sharding_put_peek [of "tl_inner L"] inv unfolding loader_inv_def by blast
  have "cache_sound c tbls (tl_cache L)" using inv by (simp add: loader_inv_def)
  then have "loader_inv c hs tbls (content(gen \<mapsto> kvs)) (L\<lparr>tl_files := tl_files L, tl_wal := tl_wal L, tl_inner := S'\<rparr>)"
    using loader_inv_insert [OF inv S'(2,3) t wal] by blast
  then show ?thesis using S'(1) scope by (simp add: loader_create_def meta_of_table_def btree_table_new_def)
qed

text \<open>\<open>clean\<close> keeps every other generation, whatever fails.\<close>

lemma stored_bytes_filter:
  "stored_bytes (filter (\<lambda>(g, bs). g \<noteq> gen) d) g = (if g = gen then [] else stored_bytes d g)"
  by (auto simp: stored_bytes_def open_or_create_def btree_get_def map_of_filter_key split: option.splits)

lemma loader_inv_remove:
  assumes inv: "loader_inv c hs tbls content L" and S': "sharding_inv S'"
      "sharding_peek S' \<subseteq>\<^sub>m (sharding_peek (tl_inner L))(gen := None)"
    and bytes: "\<And>g. g \<noteq> gen \<Longrightarrow> stored_bytes d g = stored_bytes (tl_files L) g \<and> stored_bytes w g = stored_bytes (tl_wal L) g"
  shows "loader_inv c hs tbls (content(gen := None)) (L\<lparr>tl_inner := S', tl_files := d, tl_wal := w\<rparr>)"
proof -
  have "table_holds c hs tbls u g l" if "sharding_peek S' g = Some u" "(content(gen := None)) g = Some l" for g u l
  proof -
    have "((sharding_peek (tl_inner L))(gen := None)) g = Some u" using S'(2) that(1) by (auto simp: map_le_def dom_def)
    then show ?thesis using inv that(2) by (auto simp: loader_inv_def split: if_splits)
  qed
  moreover have "backed c hs tbls d w g l" if "(content(gen := None)) g = Some l" for g l
  proof -
    have "g \<noteq> gen" "content g = Some l" using that by (auto split: if_splits)
    then show ?thesis using inv bytes [of g] backed_cong [of d g "tl_files L" w "tl_wal L"] by (simp add: loader_inv_def)
  qed
  ultimately show ?thesis using inv S'(1) by (simp add: loader_inv_def)
qed

lemma loader_clean_holds:
  assumes inv: "loader_inv c hs tbls content L"
  shows "\<exists>res L'. loader_clean L gen = (res, L') \<and> loader_inv c hs tbls (content(gen := None)) L' \<and> res \<noteq> Panic \<and>
    (res = Ok () \<longleftrightarrow> btree_get (tl_files L) gen \<noteq> None \<and> btree_get (tl_wal L) gen \<noteq> None) \<and>
    btree_get (tl_files L') gen = None \<and>
    btree_get (tl_wal L') gen = (if btree_get (tl_files L) gen = None then btree_get (tl_wal L) gen else None)"
proof -
  obtain old S' where S': "sharding_remove (tl_inner L) gen = Ok (old, S')" "sharding_inv S'"
      "sharding_peek S' \<subseteq>\<^sub>m (sharding_peek (tl_inner L))(gen := None)"
    using sharding_remove_peek [of "tl_inner L"] inv unfolding loader_inv_def by blast
  let ?rem = "filter (\<lambda>(g, bs). g \<noteq> gen)"
  note keep = loader_inv_remove [OF inv S'(2,3)]
  have inv': "loader_inv c hs tbls (content(gen := None)) (L\<lparr>tl_inner := S'\<rparr>)"
      "loader_inv c hs tbls (content(gen := None)) (L\<lparr>tl_inner := S', tl_files := ?rem (tl_files L)\<rparr>)"
      "loader_inv c hs tbls (content(gen := None)) (L\<lparr>tl_inner := S', tl_files := ?rem (tl_files L), tl_wal := ?rem (tl_wal L)\<rparr>)"
    using keep [of "tl_files L" "tl_wal L"] keep [of "?rem (tl_files L)" "tl_wal L"] keep [of "?rem (tl_files L)" "?rem (tl_wal L)"]
    by (simp_all add: stored_bytes_filter)
  show ?thesis
    using S'(1) inv'
    by (auto simp: loader_clean_def loader_remove_def factory_clean_def log_loader_clean_def btree_get_def map_of_filter_key Let_def)
qed

section \<open>Properties of the loader\<close>

lemma loader_new_inv:
  assumes "table_cache_size cfg mod 16 = 0" "0 < table_cache_size cfg" "block_cache_size cfg mod 16 = 0" "0 < block_cache_size cfg"
  shows "\<exists>L. loader_new cfg files wal hash1 hash2 = Ok L \<and> loader_inv c hs Map.empty Map.empty L \<and>
    tl_config L = cfg \<and> tl_files L = files \<and> tl_wal L = wal"
proof -
  obtain S :: "(i64, box_table) sharding_lru_cache"
    where S: "sharding_new (table_cache_size cfg) 16 hash1 = Ok S" "sharding_inv S" "sharding_peek S = (\<lambda>_. None)"
    using sharding_new_inv [of 16 "table_cache_size cfg" hash1] assms by auto
  obtain T :: block_cache
    where T: "sharding_new (block_cache_size cfg) 16 hash2 = Ok T" "sharding_inv T" "sharding_peek T = (\<lambda>_. None)"
    using sharding_new_inv [of 16 "block_cache_size cfg" hash2] assms by auto
  show ?thesis using S T by (auto simp: loader_new_def loader_inv_def cache_sound_def)
qed

text \<open>C29: for every live generation \<open>TableLoader::get\<close> returns a table, from the cache, reloaded from its file
  or restored from the write-ahead log, and that table answers every query as the pairs the generation
  was created with; caches and files stay in a state where the same holds for every generation.\<close>

theorem loader_get_correct:
  assumes "loader_inv c hs tbls content L" "content gen = Some kvs"
  shows "\<exists>t L' S'. loader_get c L gen = Some (Ok (Some t, L')) \<and>
    table_query c hs t (tl_cache L') key = Ok (map_option (\<lambda>v. (key, v)) (map_of kvs key), S') \<and>
    loader_inv c hs tbls content (L'\<lparr>tl_cache := S'\<rparr>)"
  using loader_query_holds [OF assms] by blast

text \<open>C30: \<open>TableLoader::create\<close> with sorted data and a fresh generation succeeds, returns the scope and the
  statistics of the data, and makes the generation live with exactly that data next to all the others.\<close>

theorem loader_create_correct:
  assumes "int_encoding c" "lz4_codec c" "loader_inv c hs tbls content L"
    and "table_storable c hs (tl_config L) kvs" "tbls gen = None" "btree_get (tl_files L) gen = None"
  shows "\<exists>scope meta L' cs' t. loader_create c hs L cs seeds gen kvs level SortedString = Ok ((scope, meta), L', cs') \<and>
    scope_start scope = fst (hd kvs) \<and> scope_end scope = fst (last kvs) \<and> scope_gen scope = gen \<and>
    meta_len meta = length kvs \<and> loader_inv c hs (tbls(gen \<mapsto> t)) (content(gen \<mapsto> kvs)) L'"
proof -
  obtain scope meta L' cs' t where "loader_create c hs L cs seeds gen kvs level SortedString = Ok ((scope, meta), L', cs')"
      "from_sorted_vec_data cs gen kvs = Ok (scope, cs')" "meta_len meta = length kvs"
      "loader_inv c hs (tbls(gen \<mapsto> t)) (content(gen \<mapsto> kvs)) L'"
    using loader_create_holds [OF assms] by blast
  moreover have "scope_start scope = fst (hd kvs) \<and> scope_end scope = fst (last kvs) \<and> scope_gen scope = gen"
    using \<open>from_sorted_vec_data cs gen kvs = Ok (scope, cs')\<close>
    by (auto simp: from_sorted_vec_data_def scope_from_range_def split: list.splits)
  ultimately show ?thesis by blast
qed

text \<open>\<open>TableLoader::clean\<close> never disturbs another generation, but it succeeds only when both the table file and
  the log of the generation exist. A table kept in memory has no table file: then \<open>clean\<close> stops with an
  error before it reaches the log, which stays on disk; a table of a level above 0 has no log and always
  reports an error.\<close>

theorem loader_clean_correct:
  assumes "loader_inv c hs tbls content L"
  shows "\<exists>res L'. loader_clean L gen = (res, L') \<and> loader_inv c hs tbls (content(gen := None)) L' \<and> res \<noteq> Panic \<and>
    (res = Ok () \<longleftrightarrow> btree_get (tl_files L) gen \<noteq> None \<and> btree_get (tl_wal L) gen \<noteq> None) \<and>
    btree_get (tl_files L') gen = None \<and>
    btree_get (tl_wal L') gen = (if btree_get (tl_files L) gen = None then btree_get (tl_wal L) gen else None)"
  by (rule loader_clean_holds [OF assms])

lemma sample_storable: "table_storable le_crates hs sample_config0 sample_pairs"
  using sample_input_ok0 sample_table_length
  by (auto simp: table_storable_def sample_pairs_def sample_config0_def sample_config_def)

lemma sample_ends: "fst (hd sample_pairs) = [1]" "fst (last sample_pairs) = [2]" "length sample_pairs = 2"
  by (simp_all add: sample_pairs_def)

lemma sample_loader:
  "\<exists>L. loader_new sample_config0 [] [(7, [])] (\<lambda>_. 0) (\<lambda>_. 0) = Ok L \<and> loader_inv le_crates hs Map.empty Map.empty L \<and>
    tl_config L = sample_config0 \<and> tl_files L = [] \<and> tl_wal L = [(7, [])]"
  by (rule loader_new_inv) (simp_all add: sample_config0_def sample_config_def config_new_def
      DEFAULT_TABLE_CACHE_SIZE_def DEFAULT_BLOCK_CACHE_SIZE_def)

theorem loader_create_correct_witness:
  "\<exists>L scope meta L' cs'. loader_new sample_config0 [] [(7, [])] (\<lambda>_. 0) (\<lambda>_. 0) = Ok L \<and>
    loader_create le_crates sum_hashing L [] (11, 22) 5 sample_pairs 0 SortedString = Ok ((scope, meta), L', cs') \<and>
    scope_start scope = [1] \<and> scope_end scope = [2] \<and> meta_len meta = 2"
proof -
  obtain L where L: "loader_new sample_config0 [] [(7, [])] (\<lambda>_. 0) (\<lambda>_. 0) = Ok L"
      "loader_inv le_crates sum_hashing Map.empty Map.empty L" "tl_config L = sample_config0" "tl_files L = []"
    using sample_loader by blast
  show ?thesis
    using loader_create_correct [OF le.int_encoding_axioms le.lz4_codec_axioms L(2), of sample_pairs 5 "[]" "(11, 22)" 0] L
    by (auto simp: sample_storable btree_get_def sample_ends)
qed

theorem loader_get_correct_witness:
  "\<exists>L r L1 cs t L2 S. loader_new sample_config0 [] [(7, [])] (\<lambda>_. 0) (\<lambda>_. 0) = Ok L \<and>
    loader_create le_crates sum_hashing L [] (11, 22) 5 sample_pairs 0 SortedString = Ok (r, L1, cs) \<and>
    loader_get le_crates L1 5 = Some (Ok (Some t, L2)) \<and>
    table_query le_crates sum_hashing t (tl_cache L2) [1] = Ok (Some ([1], Some [7]), S)"
proof -
  obtain L where L: "loader_new sample_config0 [] [(7, [])] (\<lambda>_. 0) (\<lambda>_. 0) = Ok L"
      "loader_inv le_crates sum_hashing Map.empty Map.empty L" "tl_config L = sample_config0" "tl_files L = []"
    using sample_loader by blast
  obtain r L1 cs t0 where L1: "loader_create le_crates sum_hashing L [] (11, 22) 5 sample_pairs 0 SortedString = Ok (r, L1, cs)"
      "loader_inv le_crates sum_hashing [5 \<mapsto> t0] [5 \<mapsto> sample_pairs] L1"
    using loader_create_holds [OF le.int_encoding_axioms le.lz4_codec_axioms L(2), of sample_pairs 5 "[]" "(11, 22)" 0] L
    by (fastforce simp: sample_storable btree_get_def)
  show ?thesis
    using loader_get_correct [OF L1(2), of 5 sample_pairs "[1]"] L(1) L1(1) by (fastforce simp: sample_pairs_def)
qed

theorem loader_clean_correct_witness:
  "\<exists>L e L'. loader_new sample_config0 [] [(7, [])] (\<lambda>_. 0) (\<lambda>_. 0) = Ok L \<and> loader_clean L 7 = (Err e, L') \<and>
    btree_get (tl_wal L') 7 = Some []"
proof -
  obtain L where L: "loader_new sample_config0 [] [(7, [])] (\<lambda>_. 0) (\<lambda>_. 0) = Ok L"
      "loader_inv le_crates sum_hashing Map.empty Map.empty L" "tl_files L = []" "tl_wal L = [(7, [])]"
    using sample_loader by blast
  obtain res L' where res: "loader_clean L 7 = (res, L')" "res \<noteq> Panic" "res \<noteq> Ok ()" "btree_get (tl_wal L') 7 = Some []"
    using loader_clean_correct [OF L(2), of 7] L by (auto simp: btree_get_def)
  then show ?thesis using L(1) by (cases res) auto
qed

end
