(* ===== verification/Version.thy ===== *)
theory Version
  imports Table_Loader
begin

text \<open>
  \<open>src/src/kernel/lsm/version\<close>: the edits of \<open>edit.rs\<close>, the statistics of \<open>meta.rs\<close> and \<open>Version\<close> of
  \<open>mod.rs\<close>, the matrix of table scopes per level with its queries and the application of edits.

  The table loader is shared by all versions and its counters of missed seeks by all clones of a
  scope; both are passed along. The channel to the cleaner is unbounded and its receiver lives as long
  as a sender does, so sending a tag succeeds: \<open>version_apply\<close> returns the tag it sends.
  \<open>u64\<close> and \<open>usize\<close> statistics are natural numbers whose addition and subtraction are checked.
\<close>

section \<open>Edits and statistics\<close>

datatype version_edit =
    DeleteFile "i64 list" nat table_meta
  | NewFile "scope list" nat nat table_meta

datatype edit_type = Add table_meta | Del table_meta

fun ord_num :: "edit_type \<Rightarrow> nat" where
  "ord_num (Add _) = 0"
| "ord_num (Del _) = 1"

definition edit_type_cmp :: "edit_type \<Rightarrow> edit_type \<Rightarrow> ordering" where
  "edit_type_cmp a b = cmp (ord_num a) (ord_num b)"

record version_meta =
  vm_size_of_disk :: nat
  vm_len :: nat

fun statistics_loop :: "edit_type list \<Rightarrow> version_meta \<Rightarrow> version_meta outcome" where
  "statistics_loop [] m = Ok m"
| "statistics_loop (Add t # es) m =
     and_then (checked_add u64_MAX (vm_size_of_disk m) (meta_size_of_disk t)) (\<lambda>disk.
     and_then (checked_add usize_MAX (vm_len m) (meta_len t)) (\<lambda>len.
     statistics_loop es (m\<lparr>vm_size_of_disk := disk, vm_len := len\<rparr>)))"
| "statistics_loop (Del t # es) m =
     and_then (checked_sub (vm_size_of_disk m) (meta_size_of_disk t)) (\<lambda>disk.
     and_then (checked_sub (vm_len m) (meta_len t)) (\<lambda>len.
     statistics_loop es (m\<lparr>vm_size_of_disk := disk, vm_len := len\<rparr>)))"

definition statistical_process :: "version_meta \<Rightarrow> edit_type list \<Rightarrow> version_meta outcome" where
  "statistical_process m es = statistics_loop (sort_key ord_num es) m"

section \<open>Versions\<close>

record version =
  version_num :: nat
  level_slice :: "scope list list"
  meta_data :: version_meta

datatype clean_tag = Tag_Clean nat | Tag_Add nat "i64 list"

definition level_slice_new :: "scope list list" where
  "level_slice_new = [[], [], [], []]"

definition version_len :: "version \<Rightarrow> nat" where
  "version_len V = vm_len (meta_data V)"

definition version_is_empty :: "version \<Rightarrow> bool" where
  "version_is_empty V \<longleftrightarrow> version_len V = 0"

definition version_size_of_disk :: "version \<Rightarrow> nat" where
  "version_size_of_disk V = vm_size_of_disk (meta_data V)"

definition level_len :: "version \<Rightarrow> nat \<Rightarrow> nat outcome" where
  "level_len V level = map_outcome_ok length (index_slice (level_slice V) level)"

definition vec_insert :: "'a list \<Rightarrow> nat \<Rightarrow> 'a \<Rightarrow> 'a list outcome" where
  "vec_insert xs i x = (if i \<le> length xs then Ok (take i xs @ x # drop i xs) else Panic)"

fun push_scopes :: "scope list \<Rightarrow> nat \<Rightarrow> scope list list \<Rightarrow> scope list list outcome" where
  "push_scopes [] level ls = Ok ls"
| "push_scopes (s # ss) level ls =
     and_then (index_slice ls level) (\<lambda>l. push_scopes ss level (ls[level := l @ [s]]))"

fun insert_scopes :: "scope list \<Rightarrow> nat \<Rightarrow> nat \<Rightarrow> scope list list \<Rightarrow> scope list list outcome" where
  "insert_scopes [] level index ls = Ok ls"
| "insert_scopes (s # ss) level index ls =
     and_then (index_slice ls level) (\<lambda>l.
     and_then (vec_insert l index s) (\<lambda>l'. insert_scopes ss level index (ls[level := l'])))"

text \<open>One edit: the levels, the generations to delete and the statistics to process so far.\<close>

fun apply_edit ::
  "version_edit \<Rightarrow> scope list list \<times> i64 list \<times> edit_type list \<Rightarrow>
   (scope list list \<times> i64 list \<times> edit_type list) outcome" where
  "apply_edit (DeleteFile vec_gen level tm) (ls, del_gens, stats) =
     and_then (index_slice ls level) (\<lambda>l.
       Ok (ls[level := filter (\<lambda>scope. scope_gen scope \<notin> set vec_gen) l], del_gens @ vec_gen, stats @ [Del tm]))"
| "apply_edit (NewFile vec_scope level index tm) (ls, del_gens, stats) =
     map_outcome_ok (\<lambda>ls'. (ls', del_gens, stats @ [Add tm]))
       (let scopes = sort_key scope_gen vec_scope in
        if level = LEVEL_0 then push_scopes scopes level ls else insert_scopes (rev scopes) level index ls)"

fun apply_loop ::
  "version_edit list \<Rightarrow> scope list list \<times> i64 list \<times> edit_type list \<Rightarrow>
   (scope list list \<times> i64 list \<times> edit_type list) outcome" where
  "apply_loop [] st = Ok st"
| "apply_loop (e # es) st = and_then (apply_edit e st) (apply_loop es)"

definition version_apply :: "version \<Rightarrow> version_edit list \<Rightarrow> (version \<times> clean_tag) outcome" where
  "version_apply V edits =
     and_then (apply_loop edits (level_slice V, [], [])) (\<lambda>(ls, del_gens, stats).
     and_then (statistical_process (meta_data V) stats) (\<lambda>m.
     let num = version_num V + 1 in
     Ok (V\<lparr>version_num := num, level_slice := ls, meta_data := m\<rparr>, Tag_Add num del_gens)))"

definition load_from_log :: "version_edit list \<Rightarrow> (version \<times> clean_tag) outcome" where
  "load_from_log vec_log =
     version_apply \<lparr>version_num = 0, level_slice = level_slice_new,
       meta_data = \<lparr>vm_size_of_disk = 0, vm_len = 0\<rparr>\<rparr> vec_log"

definition version_drop :: "version \<Rightarrow> clean_tag" where
  "version_drop V = Tag_Clean (version_num V)"

definition sst_meta_by_level :: "nat \<Rightarrow> nat \<Rightarrow> nat \<Rightarrow> table_meta" where
  "sst_meta_by_level level disk len =
     (if LEVEL_0 = level then \<lparr>meta_size_of_disk = disk, meta_len = len\<rparr> else meta_default)"

definition to_vec_edit :: "version \<Rightarrow> version_edit list" where
  "to_vec_edit V =
     List.map_filter (\<lambda>(level, vec_scope).
       if vec_scope \<noteq> []
       then Some (NewFile vec_scope level 0 (sst_meta_by_level level (version_size_of_disk V) (version_len V)))
       else None) (enumerate 0 (level_slice V))"

section \<open>Tables of a version\<close>

definition version_table ::
  "crates \<Rightarrow> version \<Rightarrow> table_loader \<Rightarrow> nat \<Rightarrow> nat \<Rightarrow> (box_table option \<times> table_loader) outcome option" where
  "version_table c V L level offset =
     bind_oo (Some (index_slice (level_slice V) level)) (\<lambda>l.
       case get_slice l offset of
         None \<Rightarrow> Some (Ok (None, L))
       | Some scope \<Rightarrow> loader_get c L (scope_gen scope))"

text \<open>Reversing the lazy \<open>filter_map\<close> asks the loader from the last scope to the first.\<close>

fun get_tables :: "crates \<Rightarrow> scope list \<Rightarrow> table_loader \<Rightarrow> (box_table list \<times> table_loader) outcome option" where
  "get_tables c [] L = Some (Ok ([], L))"
| "get_tables c (s # ss) L =
     bind_oo (loader_get c L (scope_gen s)) (\<lambda>(t, L1).
     bind_oo (get_tables c ss L1) (\<lambda>(ts, L2).
     Some (Ok (case t of None \<Rightarrow> ts | Some t' \<Rightarrow> t' # ts, L2))))"

definition tables_by_level_0 :: "crates \<Rightarrow> version \<Rightarrow> table_loader \<Rightarrow> (box_table list \<times> table_loader) outcome option" where
  "tables_by_level_0 c V L =
     bind_oo (Some (index_slice (level_slice V) LEVEL_0)) (\<lambda>l. get_tables c (rev l) L)"

fun scopes_loop ::
  "crates \<Rightarrow> (nat \<times> scope) list \<Rightarrow> table_loader \<Rightarrow> ((nat \<times> box_table \<times> scope) list \<times> table_loader) outcome option" where
  "scopes_loop c [] L = Some (Ok ([], L))"
| "scopes_loop c ((index, scope) # rest) L =
     bind_oo (loader_get c L (scope_gen scope)) (\<lambda>(t, L1).
     bind_oo (scopes_loop c rest L1) (\<lambda>(ts, L2).
     Some (Ok (case t of None \<Rightarrow> ts | Some ss_table \<Rightarrow> (index, ss_table, scope) # ts, L2))))"

definition tables_by_scopes ::
  "crates \<Rightarrow> version \<Rightarrow> table_loader \<Rightarrow> nat \<Rightarrow> scope \<Rightarrow>
   ((box_table list \<times> scope list \<times> nat) \<times> table_loader) outcome option" where
  "tables_by_scopes c V L level target_scope =
     bind_oo (Some (index_slice (level_slice V) level)) (\<lambda>l.
     bind_oo (scopes_loop c (filter (\<lambda>(_, scope). scope_meet scope target_scope) (enumerate 0 l)) L) (\<lambda>(found, L').
       let first_index = (case found of [] \<Rightarrow> None | (index, _) # _ \<Rightarrow> Some index) in
       Some (Ok ((map (fst \<circ> snd) found, map (snd \<circ> snd) found, case first_index of None \<Rightarrow> 0 | Some i \<Rightarrow> i), L'))))"

section \<open>Queries\<close>

datatype seek_option = Hit key_value | Miss "(scope \<times> nat) option"

definition query_by_scope ::
  "crates \<Rightarrow> hashing \<Rightarrow> bytes \<Rightarrow> scope \<Rightarrow> nat \<Rightarrow> table_loader \<Rightarrow> counters \<Rightarrow>
   (seek_option \<times> table_loader \<times> counters) outcome option" where
  "query_by_scope c hs key scope level L cs =
     (if meet_by_key scope key then
        bind_oo (loader_get c L (scope_gen scope)) (\<lambda>(table, L1).
          case table of
            None \<Rightarrow> Some (Ok (Miss None, L1, cs))
          | Some ss_table \<Rightarrow>
              bind_oo (Some (table_query c hs ss_table (tl_cache L1) key)) (\<lambda>(value, S).
                let L2 = L1\<lparr>tl_cache := S\<rparr> in
                case value of
                  Some kv \<Rightarrow> Some (Ok (Hit kv, L2, cs))
                | None \<Rightarrow>
                    if level > LEVEL_0 then
                      bind_oo (Some (seeks_increase cs scope)) (\<lambda>(increased, cs').
                        Some (Ok (if increased then Miss (Some (scope, table_level ss_table)) else Miss None, L2, cs')))
                    else Some (Ok (Miss None, L2, cs))))
      else Some (Ok (Miss None, L, cs)))"

definition query_meet_index :: "version \<Rightarrow> bytes \<Rightarrow> nat \<Rightarrow> nat outcome" where
  "query_meet_index V key level =
     map_outcome_ok (\<lambda>l.
       case binary_search_by (\<lambda>scope. cmp (scope_start scope) key) l of Found i \<Rightarrow> i | Insert_at i \<Rightarrow> i - 1)
       (index_slice (level_slice V) level)"

fun query_level_0 ::
  "crates \<Rightarrow> hashing \<Rightarrow> bytes \<Rightarrow> scope list \<Rightarrow> table_loader \<Rightarrow> counters \<Rightarrow>
   (key_value option \<times> table_loader \<times> counters) outcome option" where
  "query_level_0 c hs key [] L cs = Some (Ok (None, L, cs))"
| "query_level_0 c hs key (scope # scopes) L cs =
     bind_oo (query_by_scope c hs key scope LEVEL_0 L cs) (\<lambda>(r, L', cs').
       case r of
         Hit key_value \<Rightarrow> Some (Ok (Some key_value, L', cs'))
       | Miss _ \<Rightarrow> query_level_0 c hs key scopes L' cs')"

fun query_levels ::
  "crates \<Rightarrow> hashing \<Rightarrow> version \<Rightarrow> bytes \<Rightarrow> nat list \<Rightarrow> (scope \<times> nat) option \<Rightarrow> table_loader \<Rightarrow> counters \<Rightarrow>
   ((key_value option \<times> (scope \<times> nat) option) \<times> table_loader \<times> counters) outcome option" where
  "query_levels c hs V key [] miss_seek L cs = Some (Ok ((None, miss_seek), L, cs))"
| "query_levels c hs V key (level # levels) miss_seek L cs =
     bind_oo (Some (query_meet_index V key level)) (\<lambda>offset.
     bind_oo (Some (index_slice (level_slice V) level)) (\<lambda>l.
       case get_slice l offset of
         None \<Rightarrow> query_levels c hs V key levels miss_seek L cs
       | Some scope \<Rightarrow>
           bind_oo (query_by_scope c hs key scope level L cs) (\<lambda>(r, L', cs').
             case r of
               Hit value \<Rightarrow> Some (Ok ((Some value, miss_seek), L', cs'))
             | Miss (Some seek_scope) \<Rightarrow>
                 query_levels c hs V key levels (case miss_seek of None \<Rightarrow> Some seek_scope | Some s \<Rightarrow> Some s) L' cs'
             | Miss None \<Rightarrow> query_levels c hs V key levels miss_seek L' cs')))"

definition version_query ::
  "crates \<Rightarrow> hashing \<Rightarrow> version \<Rightarrow> bytes \<Rightarrow> table_loader \<Rightarrow> counters \<Rightarrow>
   ((key_value option \<times> (scope \<times> nat) option) \<times> table_loader \<times> counters) outcome option" where
  "version_query c hs V key L cs =
     bind_oo (Some (index_slice (level_slice V) LEVEL_0)) (\<lambda>l0.
     bind_oo (query_level_0 c hs key (rev l0) L cs) (\<lambda>(r, L1, cs1).
       case r of
         Some key_value \<Rightarrow> Some (Ok ((Some key_value, None), L1, cs1))
       | None \<Rightarrow> query_levels c hs V key [1..<MAX_LEVEL] None L1 cs1))"

definition is_threshold_exceeded_major :: "version \<Rightarrow> config \<Rightarrow> nat \<Rightarrow> bool outcome" where
  "is_threshold_exceeded_major V cfg level =
     and_then (index_slice (level_slice V) level) (\<lambda>l.
     and_then (usize_pow (level_sst_magnification cfg) level) (\<lambda>p.
     and_then (usize_mul (major_threshold_with_sst_size cfg) p) (\<lambda>n.
     Ok (length l \<ge> n))))"

section \<open>The contract of a version\<close>

text \<open>The counters never exceed 101 and the scopes refer to existing ones.\<close>

definition counters_ok :: "counters \<Rightarrow> bool" where
  "counters_ok cs \<longleftrightarrow> (\<forall>w\<in>set cs. w \<le> 101)"

definition seeks_ok :: "counters \<Rightarrow> scope \<Rightarrow> bool" where
  "seeks_ok cs s \<longleftrightarrow> (case allowed_seeks s of None \<Rightarrow> True | Some i \<Rightarrow> i < length cs)"

text \<open>The pairs of the table a scope stands for, and a scope whose table is live and covered by it.\<close>

definition scope_data :: "(i64 \<Rightarrow> key_value list option) \<Rightarrow> scope \<Rightarrow> key_value list" where
  "scope_data content s = (case content (scope_gen s) of None \<Rightarrow> [] | Some kvs \<Rightarrow> kvs)"

definition scope_live :: "(i64 \<Rightarrow> key_value list option) \<Rightarrow> scope \<Rightarrow> bool" where
  "scope_live content s \<longleftrightarrow> content (scope_gen s) = Some (scope_data content s) \<and> covers s (scope_data content s) \<and> scope_wf s"

definition level_sorted :: "scope list \<Rightarrow> bool" where
  "level_sorted l \<longleftrightarrow> sorted_wrt (\<lambda>a b. scope_end a < scope_start b) l"

definition version_ok :: "(i64 \<Rightarrow> key_value list option) \<Rightarrow> counters \<Rightarrow> version \<Rightarrow> bool" where
  "version_ok content cs V \<longleftrightarrow> length (level_slice V) = MAX_LEVEL \<and>
     (\<forall>l\<in>set (level_slice V). \<forall>s\<in>set l. scope_live content s \<and> seeks_ok cs s) \<and>
     (\<forall>level. 0 < level \<and> level < MAX_LEVEL \<longrightarrow> level_sorted (level_slice V ! level))"

text \<open>What a version stores: the newest pair of a key is the first one in this list.\<close>

definition level_data :: "(i64 \<Rightarrow> key_value list option) \<Rightarrow> scope list \<Rightarrow> key_value list" where
  "level_data content l = concat (map (scope_data content) l)"

definition version_gens :: "version \<Rightarrow> i64 set" where
  "version_gens V = scope_gen ` (\<Union>l\<in>set (level_slice V). set l)"

definition version_data :: "(i64 \<Rightarrow> key_value list option) \<Rightarrow> version \<Rightarrow> key_value list" where
  "version_data content V =
     level_data content (rev (level_slice V ! 0)) @
     concat (map (\<lambda>level. level_data content (level_slice V ! level)) [1..<MAX_LEVEL])"

lemma level_data_simps [simp]:
  "level_data content [] = []" "level_data content (s # l) = scope_data content s @ level_data content l"
  "level_data content (l @ m) = level_data content l @ level_data content m"
  by (simp_all add: level_data_def)

lemma seeks_increase_ok:
  assumes "counters_ok cs" "seeks_ok cs s"
  shows "\<exists>b cs'. seeks_increase cs s = Ok (b, cs') \<and> counters_ok cs' \<and> length cs' = length cs"
proof (cases "allowed_seeks s")
  case (Some i)
  then have i: "i < length cs" "cs ! i \<le> 101" using assms by (auto simp: seeks_ok_def counters_ok_def)
  have "\<not> (- 1 :: 32 word) \<le> 101" by code_simp
  then have ne: "cs ! i \<noteq> - 1" using i(2) by metis
  have le: "w + 1 \<le> 101" if "w \<le> (100 :: 32 word)" for w
    using that by (simp add: word_le_nat_alt unat_word_ariths)
  have "counters_ok (cs[i := cs ! i + 1])" if "\<not> 100 < cs ! i"
    using that assms(1) le [of "cs ! i"] by (auto simp: counters_ok_def not_less dest: set_update_subset_insert [THEN subsetD])
  moreover have "counters_ok ((cs[i := cs ! i + 1])[i := 0])"
    using assms(1) by (auto simp: counters_ok_def dest: set_update_subset_insert [THEN subsetD])
  ultimately show ?thesis using i ne Some by (auto simp: seeks_increase_def SEEK_COMPACTION_COUNT_def Let_def)
qed (use assms in \<open>auto simp: seeks_increase_def\<close>)

lemma live_ascending:
  assumes "loader_inv c hs tbls content L" "scope_live content s"
  shows "keys_ascending (scope_data content s)"
proof -
  obtain t where "table_holds c hs tbls t (scope_gen s) (scope_data content s)"
    using loader_get_holds [OF assms(1)] assms(2) unfolding scope_live_def by blast
  then show ?thesis by (rule table_holds_ascending)
qed

lemma query_by_scope_holds:
  assumes inv: "loader_inv c hs tbls content L" and live: "scope_live content s" and cs: "counters_ok cs" "seeks_ok cs s"
  shows "\<exists>r L' cs'. query_by_scope c hs key s level L cs = Some (Ok (r, L', cs')) \<and>
    loader_inv c hs tbls content L' \<and> counters_ok cs' \<and> length cs' = length cs \<and>
    (case map_of (scope_data content s) key of Some v \<Rightarrow> r = Hit (key, v) | None \<Rightarrow> \<exists>m. r = Miss m)"
proof (cases "meet_by_key s key")
  case True
  obtain t L' S' where t: "loader_get c L (scope_gen s) = Some (Ok (Some t, L'))"
      "table_query c hs t (tl_cache L') key = Ok (map_option (\<lambda>v. (key, v)) (map_of (scope_data content s) key), S')"
      "loader_inv c hs tbls content (L'\<lparr>tl_cache := S'\<rparr>)"
    using loader_query_holds [OF inv, of "scope_gen s" "scope_data content s" key] live by (auto simp: scope_live_def)
  obtain b cs' where "seeks_increase cs s = Ok (b, cs')" "counters_ok cs'" "length cs' = length cs"
    using seeks_increase_ok [OF cs] by blast
  then show ?thesis using t True cs(1) by (auto simp: query_by_scope_def Let_def split: option.splits)
next
  case False
  then have "key \<notin> fst ` set (scope_data content s)" using live unfolding scope_live_def covers_def by blast
  then have "map_of (scope_data content s) key = None" by (simp add: map_of_eq_None_iff)
  then show ?thesis using inv cs False by (simp add: query_by_scope_def)
qed

lemma seeks_ok_length: "seeks_ok cs s \<Longrightarrow> length cs' = length cs \<Longrightarrow> seeks_ok cs' s"
  by (simp add: seeks_ok_def split: option.splits)

lemma query_level_0_holds:
  assumes "loader_inv c hs tbls content L" "counters_ok cs" "\<forall>s\<in>set ss. scope_live content s \<and> seeks_ok cs s"
  shows "\<exists>L' cs'. query_level_0 c hs key ss L cs =
      Some (Ok (map_option (\<lambda>v. (key, v)) (map_of (level_data content ss) key), L', cs')) \<and>
    loader_inv c hs tbls content L' \<and> counters_ok cs' \<and> length cs' = length cs"
  using assms
proof (induction ss arbitrary: L cs)
  case (Cons s ss)
  obtain r L1 cs1 where r: "query_by_scope c hs key s LEVEL_0 L cs = Some (Ok (r, L1, cs1))"
      "loader_inv c hs tbls content L1" "counters_ok cs1" "length cs1 = length cs"
      "case map_of (scope_data content s) key of Some v \<Rightarrow> r = Hit (key, v) | None \<Rightarrow> \<exists>m. r = Miss m"
    using query_by_scope_holds [OF Cons.prems(1) _ Cons.prems(2), of s key LEVEL_0] Cons.prems(3) by auto
  have "\<forall>s\<in>set ss. scope_live content s \<and> seeks_ok cs1 s" using Cons.prems(3) r(4) seeks_ok_length by auto
  from Cons.IH [OF r(2,3) this] show ?case using r by (auto simp: map_add_def split: option.splits)
qed simp

lemma map_of_level_unique:
  assumes "i < length l" "\<And>j. j < length l \<Longrightarrow> j \<noteq> i \<Longrightarrow> key \<notin> fst ` set (scope_data content (l ! j))"
  shows "map_of (level_data content l) key = map_of (scope_data content (l ! i)) key"
  using assms
proof (induction l arbitrary: i)
  case (Cons s l)
  show ?case
  proof (cases i)
    case 0
    have "key \<notin> fst ` set (scope_data content (l ! j))" if "j < length l" for j using Cons.prems(2) [of "Suc j"] that 0 by simp
    then have "key \<notin> fst ` set (level_data content l)" by (force simp: level_data_def in_set_conv_nth)
    then have "map_of (level_data content l) key = None" by (simp add: map_of_eq_None_iff)
    then show ?thesis using 0 by (simp add: map_add_def split: option.split)
  next
    case (Suc i')
    have "key \<notin> fst ` set (scope_data content s)" using Cons.prems(2) [of 0] Suc by simp
    then have "map_of (scope_data content s) key = None" by (simp add: map_of_eq_None_iff)
    moreover have "map_of (level_data content l) key = map_of (scope_data content (l ! i')) key"
      using Cons.IH [of i'] Cons.prems(1) Cons.prems(2) [of "Suc j" for j] Suc by simp
    ultimately show ?thesis using Suc by (simp add: map_add_def split: option.splits)
  qed
qed simp

text \<open>In a sorted level the scope found by binary search is the only one that can contain the key.\<close>

lemma level_sorted_start:
  assumes "level_sorted l" "\<forall>s\<in>set l. scope_wf s"
  shows "partitioned (\<lambda>scope. cmp (scope_start scope) key) l"
proof -
  have "scope_start (l ! i) < scope_start (l ! j)" if "i < j" "j < length l" for i j
  proof -
    have "l ! i \<in> set l" using that by simp
    then have "scope_start (l ! i) \<le> scope_end (l ! i)" using assms(2) by (simp add: scope_wf_def)
    also have "\<dots> < scope_start (l ! j)" using assms(1) that sorted_wrt_nth_less unfolding level_sorted_def by blast
    finally show ?thesis .
  qed
  then have "keys_ascending (map (\<lambda>s. (scope_start s, s)) l)"
    by (simp add: sorted_wrt_iff_nth_less)
  from partitioned_ascending [OF this, of key] show ?thesis by (simp add: partitioned_def)
qed

lemma level_find:
  assumes sorted: "level_sorted l" and live: "\<forall>s\<in>set l. scope_live content s"
    and i: "i = (case binary_search_by (\<lambda>scope. cmp (scope_start scope) key) l of Found i \<Rightarrow> i | Insert_at i \<Rightarrow> i - 1)"
  shows "map_of (level_data content l) key =
    (case get_slice l i of None \<Rightarrow> None | Some s \<Rightarrow> map_of (scope_data content s) key)"
proof (cases "l = []")
  case False
  let ?b = "binary_search_by (\<lambda>scope. cmp (scope_start scope) key) l"
  have wf: "\<forall>s\<in>set l. scope_wf s" using live by (simp add: scope_live_def)
  have ok: "search_ok (\<lambda>scope. cmp (scope_start scope) key) l ?b"
    by (rule binary_search_by_ok [OF level_sorted_start [OF sorted wf]])
  moreover have "1 \<le> length l" using False by (cases l) auto
  ultimately have lt: "i < length l" using i by (cases ?b) auto
  have meets: "scope_start (l ! j) \<le> key \<and> key \<le> scope_end (l ! j)"
    if "j < length l" "key \<in> fst ` set (scope_data content (l ! j))" for j
    using live that nth_mem [OF that(1)] unfolding scope_live_def covers_def meet_by_key_def by blast
  have apart: "scope_end (l ! j) < scope_start (l ! k)" if "j < k" "k < length l" for j k
    using sorted that sorted_wrt_nth_less unfolding level_sorted_def by blast
  have "j = i" if j: "j < length l" "key \<in> fst ` set (scope_data content (l ! j))" for j
  proof (cases ?b)
    case (Found k)
    then have k: "k = i" "scope_start (l ! i) = key" using ok i by auto
    have "scope_start (l ! i) \<le> scope_end (l ! i)" using wf lt by (simp add: scope_wf_def)
    then show ?thesis using meets [OF j] apart [of j i] apart [of i j] lt j(1) k(2)
      by (cases j i rule: linorder_cases) auto
  next
    case (Insert_at k)
    then have k: "i = k - 1" "\<forall>j<k. scope_start (l ! j) < key" "\<forall>j. k \<le> j \<longrightarrow> j < length l \<longrightarrow> key < scope_start (l ! j)"
      using ok i by auto
    have "j < k" using k(3) meets [OF j] j(1) by (meson leD not_le_imp_less)
    moreover have "\<not> j < i" if "0 < k" using apart [of j i] k(1,2) lt meets [OF j] that
      by (metis diff_less less_numeral_extra(1) not_less_iff_gr_or_eq order.strict_trans order.strict_trans1)
    ultimately show ?thesis using k(1) by linarith
  qed
  then have "map_of (level_data content l) key = map_of (scope_data content (l ! i)) key"
    by (intro map_of_level_unique [OF lt]) blast
  then show ?thesis using lt by (simp add: get_slice_def)
qed (simp add: get_slice_def)

lemma query_levels_holds:
  assumes "loader_inv c hs tbls content L" "counters_ok cs" "version_ok content cs V" "\<forall>level\<in>set levels. 0 < level \<and> level < MAX_LEVEL"
  shows "\<exists>miss L' cs'. query_levels c hs V key levels m L cs =
      Some (Ok ((map_option (\<lambda>v. (key, v))
        (map_of (concat (map (\<lambda>level. level_data content (level_slice V ! level)) levels)) key), miss), L', cs')) \<and>
    loader_inv c hs tbls content L' \<and> counters_ok cs' \<and> length cs' = length cs"
  using assms
proof (induction levels arbitrary: m L cs)
  case (Cons level levels)
  let ?l = "level_slice V ! level"
  have level: "level < length (level_slice V)" "level_sorted ?l"
    using Cons.prems(3,4) by (auto simp: version_ok_def)
  then have live: "\<forall>s\<in>set ?l. scope_live content s \<and> seeks_ok cs s"
    using Cons.prems(3) nth_mem unfolding version_ok_def by blast
  define i where "i = (case binary_search_by (\<lambda>scope. cmp (scope_start scope) key) ?l of Found i \<Rightarrow> i | Insert_at i \<Rightarrow> i - 1)"
  have find: "map_of (level_data content ?l) key =
      (case get_slice ?l i of None \<Rightarrow> None | Some s \<Rightarrow> map_of (scope_data content s) key)"
    using level_find [OF level(2) _ i_def] live by blast
  have index: "query_meet_index V key level = Ok i" "index_slice (level_slice V) level = Ok ?l"
    using level(1) by (simp_all add: query_meet_index_def index_slice_def i_def)
  show ?case
  proof (cases "get_slice ?l i")
    case None
    then show ?thesis using Cons.IH [of L cs m] Cons.prems index find by (auto simp: map_add_def)
  next
    case (Some s)
    then have s: "scope_live content s" "seeks_ok cs s" using live by (auto simp: get_slice_def split: if_splits)
    obtain r L1 cs1 where r: "query_by_scope c hs key s level L cs = Some (Ok (r, L1, cs1))"
        "loader_inv c hs tbls content L1" "counters_ok cs1" "length cs1 = length cs"
        "case map_of (scope_data content s) key of Some v \<Rightarrow> r = Hit (key, v) | None \<Rightarrow> \<exists>m. r = Miss m"
      using query_by_scope_holds [OF Cons.prems(1) s(1) Cons.prems(2) s(2), of key level] by blast
    have "version_ok content cs1 V" using Cons.prems(3) r(4) seeks_ok_length unfolding version_ok_def by blast
    note IH = Cons.IH [OF r(2,3) this]
    show ?thesis
    proof (cases "map_of (scope_data content s) key")
      case None
      then obtain m' where "r = Miss m'" using r(5) by auto
      then show ?thesis using IH [of m] IH [of "case m of None \<Rightarrow> m' | Some s \<Rightarrow> Some s"] Cons.prems(4) index find Some None r
        by (cases m') (auto simp: map_add_def split: option.splits)
    next
      case (Some v)
      then show ?thesis using index find \<open>get_slice ?l i = Some s\<close> r by (auto simp: map_add_def)
    qed
  qed
qed simp

lemma version_query_holds:
  assumes "loader_inv c hs tbls content L" "counters_ok cs" "version_ok content cs V"
  shows "\<exists>miss L' cs'. version_query c hs V key L cs =
      Some (Ok ((map_option (\<lambda>v. (key, v)) (map_of (version_data content V) key), miss), L', cs')) \<and>
    loader_inv c hs tbls content L' \<and> counters_ok cs' \<and> length cs' = length cs"
proof -
  let ?l = "level_slice V ! 0"
  have l: "0 < length (level_slice V)" using assms(3) by (simp add: version_ok_def MAX_LEVEL_def)
  then have "?l \<in> set (level_slice V)" by simp
  then have live: "\<forall>s\<in>set (rev ?l). scope_live content s \<and> seeks_ok cs s"
    using assms(3) unfolding version_ok_def set_rev by blast
  obtain L1 cs1 where 1: "query_level_0 c hs key (rev ?l) L cs =
        Some (Ok (map_option (\<lambda>v. (key, v)) (map_of (level_data content (rev ?l)) key), L1, cs1))"
      "loader_inv c hs tbls content L1" "counters_ok cs1" "length cs1 = length cs"
    using query_level_0_holds [OF assms(1,2) live, of key] by blast
  have "version_ok content cs1 V" using assms(3) 1(4) seeks_ok_length unfolding version_ok_def by blast
  then obtain miss L2 cs2 where 2: "query_levels c hs V key [1..<MAX_LEVEL] None L1 cs1 =
        Some (Ok ((map_option (\<lambda>v. (key, v))
          (map_of (concat (map (\<lambda>level. level_data content (level_slice V ! level)) [1..<MAX_LEVEL])) key), miss), L2, cs2))"
      "loader_inv c hs tbls content L2" "counters_ok cs2" "length cs2 = length cs1"
    using query_levels_holds [OF 1(2,3), of V "[1..<MAX_LEVEL]" key None] by auto
  have l0: "index_slice (level_slice V) LEVEL_0 = Ok ?l" using l by (simp add: index_slice_def LEVEL_0_def)
  show ?thesis
  proof (cases "map_of (level_data content (rev ?l)) key")
    case None
    then have "version_query c hs V key L cs = query_levels c hs V key [1..<MAX_LEVEL] None L1 cs1"
      using 1(1) by (simp add: version_query_def l0)
    then show ?thesis using 1(4) 2 None by (simp add: version_data_def map_add_def)
  next
    case (Some v)
    then have "version_query c hs V key L cs = Some (Ok ((Some (key, v), None), L1, cs1))"
      using 1(1) by (simp add: version_query_def l0)
    then show ?thesis using 1 Some by (simp add: version_data_def map_add_def)
  qed
qed

section \<open>Application of edits\<close>

lemma push_scopes_eq:
  "level < length ls \<Longrightarrow> push_scopes ss level ls = Ok (ls[level := ls ! level @ ss])"
  by (induction ss arbitrary: ls) (simp_all add: index_slice_def)

lemma insert_scopes_eq:
  assumes "level < length ls" "index \<le> length (ls ! level)"
  shows "insert_scopes (rev ss) level index ls = Ok (ls[level := take index (ls ! level) @ ss @ drop index (ls ! level)])"
proof -
  have "insert_scopes xs level index (ls[level := take index (ls ! level) @ ys @ drop index (ls ! level)]) =
      Ok (ls[level := take index (ls ! level) @ rev xs @ ys @ drop index (ls ! level)])" for xs ys
  proof (induction xs arbitrary: ys)
    case (Cons x xs)
    then show ?case using assms Cons.IH [of "x # ys"] by (simp add: index_slice_def vec_insert_def min_def)
  qed simp
  from this [of "rev ss" "[]"] assms(1) show ?thesis by simp
qed

lemma apply_new_file:
  assumes "level < length ls" "level = LEVEL_0 \<or> index \<le> length (ls ! level)"
  shows "apply_edit (NewFile ss level index m) (ls, del, stats) =
    Ok (ls[level := (let l = ls ! level; new = sort_key scope_gen ss in
          if level = LEVEL_0 then l @ new else take index l @ new @ drop index l)], del, stats @ [Add m])"
  using assms by (auto simp: push_scopes_eq insert_scopes_eq Let_def)

text \<open>Sizes and lengths added and deleted by a list of edits.\<close>

fun added :: "(table_meta \<Rightarrow> nat) \<Rightarrow> edit_type list \<Rightarrow> nat" where
  "added f [] = 0"
| "added f (Add m # es) = f m + added f es"
| "added f (Del m # es) = added f es"

fun deleted :: "(table_meta \<Rightarrow> nat) \<Rightarrow> edit_type list \<Rightarrow> nat" where
  "deleted f [] = 0"
| "deleted f (Add m # es) = deleted f es"
| "deleted f (Del m # es) = f m + deleted f es"

lemma added_deleted_insort:
  "added f (insort_key ord_num e es) = added f (e # es)" "deleted f (insort_key ord_num e es) = deleted f (e # es)"
proof (induction es)
  case (Cons e' es)
  { case 1 show ?case using Cons by (cases e; cases e') auto }
  { case 2 show ?case using Cons by (cases e; cases e') auto }
qed simp_all

lemma added_deleted_sort [simp]:
  "added f (sort_key ord_num es) = added f es" "deleted f (sort_key ord_num es) = deleted f es"
proof (induction es)
  case (Cons e es)
  { case 1 show ?case using Cons by (cases e) (auto simp: added_deleted_insort) }
  { case 2 show ?case using Cons by (cases e) (auto simp: added_deleted_insort) }
qed simp_all

text \<open>Statistics that a \<open>u64\<close> and a \<open>usize\<close> can hold.\<close>

definition meta_in_range :: "version_meta \<Rightarrow> bool" where
  "meta_in_range m \<longleftrightarrow> vm_size_of_disk m \<le> u64_MAX \<and> vm_len m \<le> usize_MAX"

definition room_for :: "version_meta \<Rightarrow> edit_type list \<Rightarrow> bool" where
  "room_for m es \<longleftrightarrow> vm_size_of_disk m + added meta_size_of_disk es \<le> u64_MAX \<and> vm_len m + added meta_len es \<le> usize_MAX"

lemma statistics_loop_sorted:
  "sorted (map ord_num es) \<Longrightarrow> meta_in_range m \<Longrightarrow> statistics_loop es m =
    (if room_for m es \<and> deleted meta_size_of_disk es \<le> vm_size_of_disk m + added meta_size_of_disk es \<and>
        deleted meta_len es \<le> vm_len m + added meta_len es
     then Ok (m\<lparr>vm_size_of_disk := vm_size_of_disk m + added meta_size_of_disk es - deleted meta_size_of_disk es,
            vm_len := vm_len m + added meta_len es - deleted meta_len es\<rparr>)
     else Panic)"
proof (induction es arbitrary: m)
  case (Cons e es)
  show ?case
  proof (cases e)
    case (Add t)
    then show ?thesis using Cons by (auto simp: add.assoc checked_add_def room_for_def meta_in_range_def)
  next
    case (Del t)
    then have "added f es = 0" for f using Cons.prems
    proof (induction es)
      case (Cons e' es)
      then show ?case by (cases e') auto
    qed simp
    moreover have "statistics_loop es m' = (if deleted meta_size_of_disk es \<le> vm_size_of_disk m' \<and> deleted meta_len es \<le> vm_len m'
        then Ok (m'\<lparr>vm_size_of_disk := vm_size_of_disk m' - deleted meta_size_of_disk es, vm_len := vm_len m' - deleted meta_len es\<rparr>) else Panic)"
      if "vm_size_of_disk m' \<le> vm_size_of_disk m" "vm_len m' \<le> vm_len m" for m'
      using Cons that calculation by (simp add: room_for_def meta_in_range_def)
    ultimately show ?thesis using Cons.prems Del by (auto simp: checked_sub_def room_for_def meta_in_range_def)
  qed
qed (simp add: room_for_def meta_in_range_def)

lemma statistical_process_eq:
  assumes "meta_in_range m"
  shows "statistical_process m es =
    (if room_for m es \<and> deleted meta_size_of_disk es \<le> vm_size_of_disk m + added meta_size_of_disk es \<and>
        deleted meta_len es \<le> vm_len m + added meta_len es
     then Ok \<lparr>vm_size_of_disk = vm_size_of_disk m + added meta_size_of_disk es - deleted meta_size_of_disk es,
            vm_len = vm_len m + added meta_len es - deleted meta_len es\<rparr>
     else Panic)"
  unfolding statistical_process_def using assms by (subst statistics_loop_sorted) (auto simp: sorted_sort_key room_for_def)

lemma room_for_in_range: "room_for m es \<Longrightarrow> meta_in_range m"
  by (simp add: room_for_def meta_in_range_def)

lemma statistical_process_room:
  assumes "room_for m es" "deleted meta_size_of_disk es \<le> vm_size_of_disk m + added meta_size_of_disk es"
    "deleted meta_len es \<le> vm_len m + added meta_len es"
  shows "statistical_process m es =
    Ok \<lparr>vm_size_of_disk = vm_size_of_disk m + added meta_size_of_disk es - deleted meta_size_of_disk es,
       vm_len = vm_len m + added meta_len es - deleted meta_len es\<rparr>"
  using assms by (simp add: statistical_process_eq [OF room_for_in_range])

lemma statistical_process_in_range:
  assumes "meta_in_range m" "statistical_process m es = Ok m'"
  shows "meta_in_range m'"
  using assms by (auto simp: statistical_process_eq room_for_def meta_in_range_def split: if_splits)

lemma snapshot_load:
  assumes "length (level_slice V) = MAX_LEVEL" "meta_in_range (meta_data V)"
  shows "\<exists>num. load_from_log (to_vec_edit V) = Ok (\<lparr>version_num = num, level_slice = map (sort_key scope_gen) (level_slice V),
    meta_data = (if level_slice V ! 0 = [] then \<lparr>vm_size_of_disk = 0, vm_len = 0\<rparr> else meta_data V)\<rparr>, Tag_Add num [])"
proof -
  obtain l0 l1 l2 l3 where V: "level_slice V = [l0, l1, l2, l3]"
    using assms(1) by (auto simp: MAX_LEVEL_def numeral_eq_Suc length_Suc_conv)
  have [simp]: "statistical_process \<lparr>vm_size_of_disk = 0, vm_len = 0\<rparr> es =
      Ok \<lparr>vm_size_of_disk = added meta_size_of_disk es, vm_len = added meta_len es\<rparr>"
    if "added meta_size_of_disk es \<le> vm_size_of_disk (meta_data V)" "added meta_len es \<le> vm_len (meta_data V)"
      "deleted meta_size_of_disk es = 0" "deleted meta_len es = 0" for es
    using that assms(2) by (subst statistical_process_room) (simp_all add: room_for_def meta_in_range_def)
  have [simp]: "sst_meta_by_level (Suc n) a b = meta_default" "sst_meta_by_level 0 a b = \<lparr>meta_size_of_disk = a, meta_len = b\<rparr>" for n a b
    by (simp_all add: sst_meta_by_level_def LEVEL_0_def)
  show ?thesis
    by (cases "l0 = []"; cases "l1 = []"; cases "l2 = []"; cases "l3 = []")
      (simp_all add: load_from_log_def version_apply_def to_vec_edit_def V map_filter_simps level_slice_new_def apply_new_file
        meta_default_def version_size_of_disk_def version_len_def LEVEL_0_def del: apply_edit.simps)
qed

lemma load_one_table:
  assumes "meta_size_of_disk meta < 2 ^ 32" "meta_len meta < 2 ^ 32"
  shows "load_from_log [NewFile [scope] 1 0 meta] = Ok (\<lparr>version_num = 1, level_slice = [[], [scope], [], []],
    meta_data = \<lparr>vm_size_of_disk = meta_size_of_disk meta, vm_len = meta_len meta\<rparr>\<rparr>, Tag_Add 1 [])"
  using assms
  by (simp add: load_from_log_def version_apply_def level_slice_new_def index_slice_def vec_insert_def LEVEL_0_def
      statistical_process_room room_for_def u64_MAX_def usize_MAX_def)

section \<open>Properties\<close>

text \<open>C15: \<open>Version::query\<close> always returns and answers with the newest pair of the key: the youngest level 0
  table that has it, otherwise the first of the levels 1 to 3 that has it; it looks at one table per
  level above 0 and never misses one, and leaves loader, caches and seek counters in order.\<close>

theorem version_query_correct:
  assumes "loader_inv c hs tbls content L" "counters_ok cs" "version_ok content cs V"
  shows "\<exists>miss L' cs'. version_query c hs V key L cs =
      Some (Ok ((map_option (\<lambda>v. (key, v)) (map_of (version_data content V) key), miss), L', cs')) \<and>
    loader_inv c hs tbls content L' \<and> counters_ok cs' \<and> version_ok content cs' V"
  using version_query_holds [OF assms] assms(3) seeks_ok_length unfolding version_ok_def by fastforce

text \<open>C31: the statistics of a version do not depend on the order of the edits: they are the old ones plus everything
  added minus everything deleted. The code, with checked arithmetic, panics exactly when the old statistics and all additions
  together exceed a \<open>u64\<close> or \<open>usize\<close>, or when more is deleted than there is then.\<close>

theorem statistical_process_correct:
  assumes "vm_size_of_disk m \<le> u64_MAX" "vm_len m \<le> usize_MAX"
  shows "statistical_process m es =
    (if vm_size_of_disk m + added meta_size_of_disk es \<le> u64_MAX \<and> vm_len m + added meta_len es \<le> usize_MAX \<and>
        deleted meta_size_of_disk es \<le> vm_size_of_disk m + added meta_size_of_disk es \<and>
        deleted meta_len es \<le> vm_len m + added meta_len es
     then Ok \<lparr>vm_size_of_disk = vm_size_of_disk m + added meta_size_of_disk es - deleted meta_size_of_disk es,
            vm_len = vm_len m + added meta_len es - deleted meta_len es\<rparr>
     else Panic)"
  using statistical_process_eq [of m es] assms by (simp add: meta_in_range_def room_for_def)

theorem statistical_process_correct_witness:
  "statistical_process \<lparr>vm_size_of_disk = 5, vm_len = 1\<rparr> [Del \<lparr>meta_size_of_disk = 12, meta_len = 3\<rparr>, Add \<lparr>meta_size_of_disk = 10, meta_len = 2\<rparr>] =
     Ok \<lparr>vm_size_of_disk = 3, vm_len = 0\<rparr> \<and>
   statistical_process \<lparr>vm_size_of_disk = 5, vm_len = 1\<rparr> [Add \<lparr>meta_size_of_disk = u64_MAX - 4, meta_len = 2\<rparr>] = Panic"
proof
  show "statistical_process \<lparr>vm_size_of_disk = 5, vm_len = 1\<rparr> [Del \<lparr>meta_size_of_disk = 12, meta_len = 3\<rparr>, Add \<lparr>meta_size_of_disk = 10, meta_len = 2\<rparr>] =
      Ok \<lparr>vm_size_of_disk = 3, vm_len = 0\<rparr>"
    by (subst statistical_process_correct) (simp_all add: u64_MAX_def usize_MAX_def)
  show "statistical_process \<lparr>vm_size_of_disk = 5, vm_len = 1\<rparr> [Add \<lparr>meta_size_of_disk = u64_MAX - 4, meta_len = 2\<rparr>] = Panic"
    by (subst statistical_process_correct) (simp_all add: u64_MAX_def usize_MAX_def)
qed

text \<open>Loading the snapshot of a version succeeds and gives back every level with the same scopes, but sorted
  by generation, so the levels are unchanged if they were sorted that way; the statistics come back only if
  level 0 is not empty.\<close>

theorem snapshot_roundtrip:
  assumes "length (level_slice V) = MAX_LEVEL" "meta_in_range (meta_data V)"
  shows "\<exists>V' tag. load_from_log (to_vec_edit V) = Ok (V', tag) \<and>
    (\<forall>level<MAX_LEVEL. level_slice V' ! level = sort_key scope_gen (level_slice V ! level)) \<and>
    ((\<forall>l\<in>set (level_slice V). sorted (map scope_gen l)) \<longrightarrow> level_slice V' = level_slice V) \<and>
    meta_data V' = (if level_slice V ! 0 = [] then \<lparr>vm_size_of_disk = 0, vm_len = 0\<rparr> else meta_data V)"
  using snapshot_load [OF assms] assms by (fastforce simp: sorted_sort_id sort_key_id_if_sorted map_idI)

definition sample_scope :: "bytes \<Rightarrow> i64 \<Rightarrow> scope" where
  "sample_scope key gen = \<lparr>scope_start = key, scope_end = key, scope_gen = gen, allowed_seeks = None\<rparr>"

definition sample_version :: version where
  "sample_version = \<lparr>version_num = 4, level_slice = [[], [sample_scope [1] 9, sample_scope [2] 8], [], []],
     meta_data = \<lparr>vm_size_of_disk = 70, vm_len = 2\<rparr>\<rparr>"

theorem snapshot_roundtrip_witness:
  "\<exists>V' tag. load_from_log (to_vec_edit sample_version) = Ok (V', tag) \<and>
    level_slice V' ! 1 = [sample_scope [2] 8, sample_scope [1] 9] \<and> meta_data V' = \<lparr>vm_size_of_disk = 0, vm_len = 0\<rparr>"
  using snapshot_roundtrip [of sample_version]
  by (auto simp: sample_version_def sample_scope_def MAX_LEVEL_def meta_in_range_def u64_MAX_def usize_MAX_def)

text \<open>A snapshot can hide a table. In a level above 0 with two tables, in key order but with the older one last,
  every key of the second table is found before the snapshot; in the version loaded from it the binary
  search leads to the first table, whose scope the key does not meet, so the table that has the key is
  never asked.\<close>

theorem snapshot_hides_table:
  assumes "length (level_slice V) = MAX_LEVEL" "meta_in_range (meta_data V)" "0 < level" "level < MAX_LEVEL" "level_slice V ! level = [a, b]"
    and "level_sorted [a, b]" "scope_wf a" "scope_gen b < scope_gen a" "meet_by_key b key"
  shows "query_meet_index V key level = Ok 1 \<and> level_slice V ! level ! 1 = b \<and>
    (\<exists>V' tag. load_from_log (to_vec_edit V) = Ok (V', tag) \<and> level_slice V' ! level = [b, a] \<and>
      query_meet_index V' key level = Ok 1 \<and> \<not> meet_by_key (level_slice V' ! level ! 1) key)"
proof -
  obtain V' tag where V': "load_from_log (to_vec_edit V) = Ok (V', tag)" "length (level_slice V') = MAX_LEVEL"
      "level_slice V' ! level = [b, a]"
    using snapshot_load [OF assms(1,2)] assms(1,4,5,8) by auto
  have lt: "scope_start a \<le> scope_end a" "scope_end a < scope_start b" "scope_start b \<le> key"
    using assms(6,7,9) by (auto simp: level_sorted_def scope_wf_def meet_by_key_def)
  then have "scope_start a < key" "scope_end a < key" by order+
  then have "query_meet_index V key level = Ok 1" "query_meet_index V' key level = Ok 1" "\<not> meet_by_key a key"
    using assms(1,4,5) lt(3) V'(2,3)
    by (auto simp: query_meet_index_def index_slice_def binary_search_by_def bsearch_loop.simps [of _ _ _ "Suc (Suc 0)"]
        bsearch_loop.simps [of _ _ "Suc (Suc 0)"] bsearch_loop.simps [of _ _ "Suc 0" "Suc 0"] cmp_def meet_by_key_def)
  then show ?thesis using V' assms(5) by simp
qed

theorem snapshot_hides_table_witness:
  "query_meet_index sample_version [2] 1 = Ok 1 \<and>
   (\<exists>V' tag. load_from_log (to_vec_edit sample_version) = Ok (V', tag) \<and> query_meet_index V' [2] 1 = Ok 1 \<and>
     \<not> meet_by_key (level_slice V' ! 1 ! 1) [2])"
  using snapshot_hides_table [of sample_version 1 "sample_scope [1] 9" "sample_scope [2] 8" "[2]"]
  by (auto simp: sample_version_def sample_scope_def MAX_LEVEL_def level_sorted_def scope_wf_def meet_by_key_def meta_in_range_def u64_MAX_def usize_MAX_def)

theorem version_query_correct_witness:
  "\<exists>L r L1 cs scope V miss L2 cs2. loader_new sample_config0 [] [(7, [])] (\<lambda>_. 0) (\<lambda>_. 0) = Ok L \<and>
    loader_create le_crates sum_hashing L [] (11, 22) 5 sample_pairs 1 SortedString = Ok (r, L1, cs) \<and>
    load_from_log [NewFile [fst r] 1 0 (snd r)] = Ok (V, Tag_Add 1 []) \<and>
    version_query le_crates sum_hashing V [1] L1 cs = Some (Ok ((Some ([1], Some [7]), miss), L2, cs2))"
proof -
  obtain L where L: "loader_new sample_config0 [] [(7, [])] (\<lambda>_. 0) (\<lambda>_. 0) = Ok L"
      "loader_inv le_crates sum_hashing Map.empty Map.empty L" "tl_config L = sample_config0" "tl_files L = []"
    using sample_loader by blast
  have kvs: "keys_ascending sample_pairs" "sample_pairs \<noteq> []" by (simp_all add: sample_pairs_def)
  obtain scope meta L1 cs t0 where L1: "loader_create le_crates sum_hashing L [] (11, 22) 5 sample_pairs 1 SortedString =
        Ok ((scope, meta), L1, cs)" "from_sorted_vec_data [] 5 sample_pairs = Ok (scope, cs)"
      "loader_inv le_crates sum_hashing [5 \<mapsto> t0] [5 \<mapsto> sample_pairs] L1"
    using loader_create_holds [OF le.int_encoding_axioms le.lz4_codec_axioms L(2), of sample_pairs 5 "[]" "(11, 22)" 1] L
    by (fastforce simp: sample_storable btree_get_def)
  let ?V = "\<lparr>version_num = 1, level_slice = [[], [scope], [], []],
    meta_data = \<lparr>vm_size_of_disk = meta_size_of_disk meta, vm_len = meta_len meta\<rparr>\<rparr>"
  have "meta_size_of_disk meta < 2 ^ 32" "meta_len meta < 2 ^ 32"
    using loader_create_small [OF le.int_encoding_axioms le.lz4_codec_axioms L(2) _ _ _ L1(1)] L by (simp_all add: sample_storable btree_get_def)
  then have "load_from_log [NewFile [scope] 1 0 meta] = Ok (?V, Tag_Add 1 [])" by (rule load_one_table)
  moreover have s: "scope = \<lparr>scope_start = [1], scope_end = [2], scope_gen = 5, allowed_seeks = Some 0\<rparr>" "cs = [0]"
    using L1(2) by (auto simp: from_sorted_vec_data_def scope_from_range_def sample_pairs_def)
  moreover have "version_ok [5 \<mapsto> sample_pairs] cs ?V"
    by (auto simp: version_ok_def MAX_LEVEL_def scope_live_def scope_data_def covers_def meet_by_key_def scope_wf_def seeks_ok_def
        level_sorted_def s sample_pairs_def less_Suc_eq numeral_eq_Suc nth_Cons')
  moreover have "counters_ok cs" by (simp add: s counters_ok_def)
  moreover have "version_data [5 \<mapsto> sample_pairs] ?V = sample_pairs"
    by (simp add: version_data_def MAX_LEVEL_def upt_rec s scope_data_def)
  ultimately show ?thesis
    using version_query_correct [OF L1(3), of cs ?V "[1]"] L(1) L1(1) by (fastforce simp: sample_pairs_def)
qed

end
