(* ===== verification/Cleaner.thy ===== *)
theory Cleaner
  imports Version
begin

text \<open>
  \<open>src/src/kernel/lsm/version/cleaner.rs\<close>: the task that deletes the files of tables no version needs any
  more. Every applied edit announces the generations its version no longer uses (\<open>CleanTag::Add\<close>), every
  dropped version asks for its own to be deleted (\<open>CleanTag::Clean\<close>). Versions, channel, cleaner and
  loader form a transition system whose steps are the ones the code takes.
\<close>

section \<open>The cleaner\<close>

type_synonym del_gens = "(nat \<times> i64 list) list"

definition find_index_with_ver_num :: "del_gens \<Rightarrow> nat \<Rightarrow> nat option" where
  "find_index_with_ver_num del_gen ver_num = map_option fst (List.find (\<lambda>(_, vn, _). vn = ver_num) (enumerate 0 del_gen))"

text \<open>A failing \<open>clean\<close> of the loader is logged and the loop goes on.\<close>

fun clean_gens :: "i64 list \<Rightarrow> table_loader \<Rightarrow> table_loader outcome" where
  "clean_gens [] L = Ok L"
| "clean_gens (gen # gens) L =
     (case loader_clean L gen of
        (Panic, _) \<Rightarrow> Panic
      | (_, L') \<Rightarrow> clean_gens gens L')"

definition cleaner_clean :: "nat \<Rightarrow> del_gens \<times> table_loader \<Rightarrow> (del_gens \<times> table_loader) outcome" where
  "cleaner_clean ver_num st =
     (let (dg, L) = st in
      case find_index_with_ver_num dg ver_num of
        None \<Rightarrow> Ok (dg, L)
      | Some index \<Rightarrow>
          let vec_gen = snd (dg ! index); rest = take index dg @ drop (Suc index) dg in
          if index = 0 then map_outcome_ok (\<lambda>L'. (rest, L')) (clean_gens vec_gen L)
          else Ok (rest[index - 1 := (fst (rest ! (index - 1)), snd (rest ! (index - 1)) @ vec_gen)], L))"

fun clean_all :: "nat list \<Rightarrow> del_gens \<times> table_loader \<Rightarrow> (del_gens \<times> table_loader) outcome" where
  "clean_all [] st = Ok st"
| "clean_all (ver_num # nums) st = and_then (cleaner_clean ver_num st) (clean_all nums)"

text \<open>The arms of \<open>listen\<close>: a message, and the closing of the channel.\<close>

fun handle_tag :: "clean_tag \<Rightarrow> del_gens \<times> table_loader \<Rightarrow> (del_gens \<times> table_loader) outcome" where
  "handle_tag (Tag_Clean ver_num) st = cleaner_clean ver_num st"
| "handle_tag (Tag_Add version gens) (dg, L) = Ok (dg @ [(version, gens)], L)"

definition handle_close :: "del_gens \<times> table_loader \<Rightarrow> (del_gens \<times> table_loader) outcome" where
  "handle_close st = clean_all (map fst (fst st)) st"

fun listen :: "clean_tag list \<Rightarrow> del_gens \<times> table_loader \<Rightarrow> (del_gens \<times> table_loader) outcome" where
  "listen [] st = handle_close st"
| "listen (tag # tags) st = and_then (handle_tag tag st) (listen tags)"

section \<open>Versions, channel and cleaner as a transition system\<close>

text \<open>The versions alive, the number of the newest one, the messages on their way, the state of the cleaner
  and the loader. The last two fields are specification only: the pairs of every table that exists.\<close>

record vsystem =
  sy_live :: "version list"
  sy_top :: nat
  sy_queue :: "clean_tag list"
  sy_dels :: del_gens
  sy_loader :: table_loader
  sy_content :: "i64 \<Rightarrow> key_value list option"
  sy_tables :: "i64 \<Rightarrow> ss_table option"

fun announced :: "clean_tag \<Rightarrow> del_gens" where
  "announced (Tag_Clean _) = []"
| "announced (Tag_Add v gens) = [(v, gens)]"

text \<open>Everything announced and not yet cleaned, in the order of the versions.\<close>

definition pending :: "vsystem \<Rightarrow> del_gens" where
  "pending s = sy_dels s @ concat (map announced (sy_queue s))"

definition pending_gens :: "vsystem \<Rightarrow> i64 set" where
  "pending_gens s = (\<Union>(v, gens)\<in>set (pending s). set gens)"

text \<open>The generations a message makes the cleaner delete.\<close>

fun cleaned :: "clean_tag \<Rightarrow> del_gens \<Rightarrow> i64 set" where
  "cleaned (Tag_Add v gens) dg = {}"
| "cleaned (Tag_Clean n) dg = (case dg of (m, gens) # _ \<Rightarrow> if m = n then set gens else {} | [] \<Rightarrow> {})"

inductive vstep :: "crates \<Rightarrow> hashing \<Rightarrow> vsystem \<Rightarrow> vsystem \<Rightarrow> bool" for c hs where
  apply_edits: "V \<in> set (sy_live s) \<Longrightarrow> version_num V = sy_top s \<Longrightarrow> version_apply V edits = Ok (V', Tag_Add n del) \<Longrightarrow>
     set del \<inter> version_gens V' = {} \<Longrightarrow>
     (\<forall>g\<in>version_gens V' - version_gens V. sy_content s g \<noteq> None \<and> g \<notin> pending_gens s) \<Longrightarrow>
     vstep c hs s (s\<lparr>sy_live := V' # sy_live s, sy_top := n, sy_queue := sy_queue s @ [Tag_Add n del]\<rparr>)"
| drop_version: "V \<in> set (sy_live s) \<Longrightarrow>
     vstep c hs s (s\<lparr>sy_live := remove1 V (sy_live s), sy_queue := sy_queue s @ [version_drop V]\<rparr>)"
| receive: "sy_queue s = tag # tags \<Longrightarrow> handle_tag tag (sy_dels s, sy_loader s) = Ok (dg, L) \<Longrightarrow>
     vstep c hs s (s\<lparr>sy_queue := tags, sy_dels := dg, sy_loader := L,
       sy_content := (\<lambda>g. if g \<in> cleaned tag (sy_dels s) then None else sy_content s g)\<rparr>)"
| use_loader: "loader_inv c hs tbls cont L \<Longrightarrow> sy_content s \<subseteq>\<^sub>m cont \<Longrightarrow>
     vstep c hs s (s\<lparr>sy_loader := L, sy_content := cont, sy_tables := tbls\<rparr>)"

section \<open>Invariant\<close>

definition vsystem_inv :: "crates \<Rightarrow> hashing \<Rightarrow> vsystem \<Rightarrow> bool" where
  "vsystem_inv c hs s \<longleftrightarrow>
     loader_inv c hs (sy_tables s) (sy_content s) (sy_loader s) \<and>
     ascending (map fst (pending s)) \<and> (\<forall>n\<in>fst ` set (pending s). n \<le> sy_top s) \<and>
     (\<forall>n. Tag_Clean n \<in> set (sy_queue s) \<longrightarrow> n \<le> sy_top s) \<and>
     distinct (map version_num (sy_live s)) \<and>
     (\<forall>V\<in>set (sy_live s). version_num V \<in> fst ` set (pending s) \<and> Tag_Clean (version_num V) \<notin> set (sy_queue s) \<and>
        version_gens V \<subseteq> dom (sy_content s) \<and>
        (\<forall>n gens g. (n, gens) \<in> set (pending s) \<and> g \<in> set gens \<and> g \<in> version_gens V \<longrightarrow> version_num V \<le> n) \<and>
        (version_num V = sy_top s \<longrightarrow> version_gens V \<inter> pending_gens s = {}))"

lemma ascending_pred:
  "ascending (xs @ m # n # ys) \<Longrightarrow> k \<in> set (xs @ m # n # ys) \<Longrightarrow> k < n \<Longrightarrow> k \<le> (m :: nat)"
  by (auto simp: sorted_wrt_append)

lemma vsystem_invI:
  assumes "loader_inv c hs (sy_tables s) (sy_content s) (sy_loader s)" "ascending (map fst (pending s))"
    and "fst ` set (pending s) \<subseteq> {..sy_top s}" "\<And>n. Tag_Clean n \<in> set (sy_queue s) \<Longrightarrow> n \<le> sy_top s"
    and "distinct (map version_num (sy_live s))"
    and "\<And>V. V \<in> set (sy_live s) \<Longrightarrow> version_num V \<in> fst ` set (pending s)"
    and "\<And>V. V \<in> set (sy_live s) \<Longrightarrow> Tag_Clean (version_num V) \<notin> set (sy_queue s)"
    and "\<And>V. V \<in> set (sy_live s) \<Longrightarrow> version_gens V \<subseteq> dom (sy_content s)"
    and "\<And>V n gens g. V \<in> set (sy_live s) \<Longrightarrow> (n, gens) \<in> set (pending s) \<Longrightarrow> g \<in> set gens \<Longrightarrow> g \<in> version_gens V \<Longrightarrow>
      version_num V \<le> n"
    and "\<And>V. V \<in> set (sy_live s) \<Longrightarrow> version_num V = sy_top s \<Longrightarrow> version_gens V \<inter> pending_gens s = {}"
  shows "vsystem_inv c hs s"
  using assms unfolding vsystem_inv_def by auto

lemma vsystem_invD:
  assumes "vsystem_inv c hs s"
  shows "loader_inv c hs (sy_tables s) (sy_content s) (sy_loader s)" "ascending (map fst (pending s))"
    "fst ` set (pending s) \<subseteq> {..sy_top s}" "\<And>n. Tag_Clean n \<in> set (sy_queue s) \<Longrightarrow> n \<le> sy_top s"
    "distinct (map version_num (sy_live s))"
    "\<And>V. V \<in> set (sy_live s) \<Longrightarrow> version_num V \<in> fst ` set (pending s)"
    "\<And>V. V \<in> set (sy_live s) \<Longrightarrow> Tag_Clean (version_num V) \<notin> set (sy_queue s)"
    "\<And>V. V \<in> set (sy_live s) \<Longrightarrow> version_gens V \<subseteq> dom (sy_content s)"
    "\<And>V n gens g. V \<in> set (sy_live s) \<Longrightarrow> (n, gens) \<in> set (pending s) \<Longrightarrow> g \<in> set gens \<Longrightarrow> g \<in> version_gens V \<Longrightarrow>
      version_num V \<le> n"
    "\<And>V. V \<in> set (sy_live s) \<Longrightarrow> version_num V = sy_top s \<Longrightarrow> version_gens V \<inter> pending_gens s = {}"
  using assms unfolding vsystem_inv_def by (blast | auto)+

lemma find_enumerate:
  "map_option fst (List.find (\<lambda>(_, vn, _). vn = n) (enumerate k dg)) = Some i \<Longrightarrow>
   k \<le> i \<and> i - k < length dg \<and> fst (dg ! (i - k)) = n \<and> (\<forall>j<i - k. fst (dg ! j) \<noteq> n)"
proof (induction dg arbitrary: k)
  case (Cons p dg)
  show ?case
  proof (cases "fst p = n")
    case True
    then show ?thesis using Cons.prems by (cases p) auto
  next
    case False
    then have "map_option fst (List.find (\<lambda>(_, vn, _). vn = n) (enumerate (Suc k) dg)) = Some i"
      using Cons.prems by (cases p) auto
    note IH = Cons.IH [OF this]
    then have "i - k = Suc (i - Suc k)" by (metis Suc_diff_Suc Suc_le_eq)
    then show ?thesis using IH False by (auto simp: less_Suc_eq_0_disj)
  qed
qed simp

lemma find_index_Some:
  "find_index_with_ver_num dg n = Some i \<Longrightarrow> i < length dg \<and> fst (dg ! i) = n \<and> (\<forall>j<i. fst (dg ! j) \<noteq> n)"
  using find_enumerate [of n 0 dg i] by (simp add: find_index_with_ver_num_def)

lemma find_index_None: "find_index_with_ver_num dg n = None \<Longrightarrow> n \<notin> fst ` set dg"
  by (auto simp: find_index_with_ver_num_def find_None_iff in_set_enumerate_eq in_set_conv_nth)
    (metis add.left_neutral nth_enumerate_eq)

lemma cleaner_clean_cases:
  obtains (none) "n \<notin> fst ` set dg" "cleaner_clean n (dg, L) = Ok (dg, L)"
  | (first) gens rest where "dg = (n, gens) # rest" "cleaner_clean n (dg, L) = map_outcome_ok (\<lambda>L'. (rest, L')) (clean_gens gens L)"
  | (later) pre m gm gn post where "dg = pre @ (m, gm) # (n, gn) # post" "m \<noteq> n"
      "cleaner_clean n (dg, L) = Ok (pre @ (m, gm @ gn) # post, L)"
proof (cases "find_index_with_ver_num dg n")
  case None
  then show ?thesis using none find_index_None [OF None] by (simp add: cleaner_clean_def)
next
  case (Some i)
  note i = find_index_Some [OF Some]
  show ?thesis
  proof (cases i)
    case 0
    then show ?thesis using i Some first [of "snd (hd dg)" "tl dg"] by (cases dg) (auto simp: cleaner_clean_def)
  next
    case (Suc k)
    let ?m = "dg ! k" and ?n = "dg ! Suc k"
    have split: "dg = take k dg @ ?m # ?n # drop (Suc (Suc k)) dg"
      using i Suc by (metis Cons_nth_drop_Suc Suc_lessD id_take_nth_drop)
    have "take (Suc k) dg = take k dg @ [?m]" using i Suc by (simp add: take_Suc_conv_app_nth)
    then have "cleaner_clean n (dg, L) = Ok (take k dg @ (fst ?m, snd ?m @ snd ?n) # drop (Suc (Suc k)) dg, L)"
      using i Suc Some by (simp add: cleaner_clean_def nth_append list_update_append min_def)
    moreover have "fst ?m \<noteq> n" using i Suc by simp
    moreover have "dg = take k dg @ (fst ?m, snd ?m) # (n, snd ?n) # drop (Suc (Suc k)) dg"
      using split i Suc by (metis prod.collapse)
    ultimately show ?thesis using later by blast
  qed
qed

lemma clean_gens_holds:
  assumes "loader_inv c hs tbls cont L" "clean_gens gens L = Ok L'"
  shows "loader_inv c hs tbls (\<lambda>g. if g \<in> set gens then None else cont g) L'"
  using assms
proof (induction gens arbitrary: L cont)
  case (Cons gen gens)
  obtain res L1 where L1: "loader_clean L gen = (res, L1)" "loader_inv c hs tbls (cont(gen := None)) L1" "res \<noteq> Panic"
    using loader_clean_holds [OF Cons.prems(1)] by blast
  then have "clean_gens gens L1 = Ok L'" using Cons.prems(2) by (cases res) auto
  moreover have "(\<lambda>g. if g \<in> set gens then None else (cont(gen := None)) g) = (\<lambda>g. if g \<in> set (gen # gens) then None else cont g)"
    by auto
  ultimately show ?case using Cons.IH [OF L1(2)] by metis
qed simp

lemma clean_gens_returns:
  assumes "loader_inv c hs tbls cont L"
  shows "\<exists>L'. clean_gens gens L = Ok L'"
  using assms
proof (induction gens arbitrary: L cont)
  case (Cons gen gens)
  obtain res L1 where "loader_clean L gen = (res, L1)" "loader_inv c hs tbls (cont(gen := None)) L1" "res \<noteq> Panic"
    using loader_clean_holds [OF Cons.prems] by blast
  then show ?case using Cons.IH by (cases res) auto
qed simp

text \<open>The version whose number a message carries is not alive; the rest of the invariant after a message.\<close>

lemma receive_clean_inv:
  assumes inv: "vsystem_inv c hs s" and queue: "sy_queue s = Tag_Clean n # tags"
    and step: "handle_tag (Tag_Clean n) (sy_dels s, sy_loader s) = Ok (dg, L)"
  shows "vsystem_inv c hs (s\<lparr>sy_queue := tags, sy_dels := dg, sy_loader := L,
    sy_content := (\<lambda>g. if g \<in> cleaned (Tag_Clean n) (sy_dels s) then None else sy_content s g)\<rparr>)"
    (is "vsystem_inv c hs ?s")
proof -
  let ?rest = "concat (map announced tags)"
  have pend: "pending s = sy_dels s @ ?rest" "pending ?s = dg @ ?rest" by (simp_all add: pending_def queue)
  have dead: "version_num V \<noteq> n" if "V \<in> set (sy_live s)" for V using inv that by (auto simp: vsystem_inv_def queue)
  note inv' = vsystem_invD [OF inv]
  have asc: "ascending (map fst (sy_dels s @ ?rest))" using inv'(2) pend by simp
  have keys: "version_num V \<in> fst ` set (sy_dels s @ ?rest) - {n}" if "V \<in> set (sy_live s)" for V
    using inv'(6) [OF that] dead [OF that] unfolding pend(1) by blast
  have before: "version_num V \<le> k" if "V \<in> set (sy_live s)" "(k, gs) \<in> set (sy_dels s @ ?rest)" "g \<in> set gs" "g \<in> version_gens V"
    for V k gs g using inv'(9) [OF that(1) _ that(3,4)] that(2) unfolding pend(1) by blast
  consider (none) "n \<notin> fst ` set (sy_dels s)" "cleaner_clean n (sy_dels s, sy_loader s) = Ok (sy_dels s, sy_loader s)"
    | (first) gens rest where "sy_dels s = (n, gens) # rest"
        "cleaner_clean n (sy_dels s, sy_loader s) = map_outcome_ok (\<lambda>L'. (rest, L')) (clean_gens gens (sy_loader s))"
    | (later) pre m gm gn post where "sy_dels s = pre @ (m, gm) # (n, gn) # post" "m \<noteq> n"
        "cleaner_clean n (sy_dels s, sy_loader s) = Ok (pre @ (m, gm @ gn) # post, sy_loader s)"
    by (rule cleaner_clean_cases)
  then show ?thesis
  proof cases
    case none
    then have "cleaned (Tag_Clean n) (sy_dels s) = {}" by (auto split: list.splits)
    moreover have "dg = sy_dels s" "L = sy_loader s" using none step by auto
    ultimately show ?thesis using inv pend by (auto simp: vsystem_inv_def pending_gens_def queue)
  next
    case first
    then have dg: "dg = rest" "clean_gens gens (sy_loader s) = Ok L" using step by (cases "clean_gens gens (sy_loader s)"; auto)+
    have cl: "cleaned (Tag_Clean n) (sy_dels s) = set gens" using first by simp
    have key: "version_num V \<in> fst ` set (rest @ ?rest)" "n < version_num V" if "V \<in> set (sy_live s)" for V
      using keys [OF that] asc first(1) by auto
    have "g \<notin> version_gens V" if "V \<in> set (sy_live s)" "g \<in> set gens" for V g
      using before [OF that(1) _ that(2), of n] key(2) [OF that(1)] first(1) by fastforce
    then have cont: "version_gens V \<subseteq> dom (\<lambda>g. if g \<in> set gens then None else sy_content s g)" if "V \<in> set (sy_live s)" for V
      using inv'(8) [OF that] that by (fastforce simp: dom_def)
    have "loader_inv c hs (sy_tables s) (\<lambda>g. if g \<in> set gens then None else sy_content s g) L"
      using clean_gens_holds [OF inv'(1) dg(2)] .
    moreover have sub: "pending_gens ?s \<subseteq> pending_gens s" "set (pending ?s) \<subseteq> set (pending s)"
      using pend first(1) dg by (auto simp: pending_gens_def)
    moreover have "ascending (map fst (pending ?s))" using asc first(1) dg pend by simp
    moreover have "fst ` set (pending ?s) \<subseteq> {..sy_top s}" using sub(2) inv'(3) by blast
    moreover have "version_gens V \<inter> pending_gens ?s = {}" if "V \<in> set (sy_live s)" "version_num V = sy_top s" for V
      using inv'(10) [OF that] sub(1) by blast
    moreover have "version_num V \<le> k" if "V \<in> set (sy_live s)" "(k, gs) \<in> set (pending ?s)" "g \<in> set gs" "g \<in> version_gens V"
      for V k gs g using inv'(9) [OF that(1) _ that(3,4)] that(2) sub(2) by blast
    moreover have "version_num V \<in> fst ` set (pending ?s)" if "V \<in> set (sy_live s)" for V using key(1) [OF that] pend(2) dg(1) by simp
    ultimately show ?thesis
      using inv'(4,5,7) cont unfolding cl by (intro vsystem_invI) (simp_all add: queue)
  next
    case later
    then have dg: "dg = pre @ (m, gm @ gn) # post" "L = sy_loader s" using step by auto
    have cl: "cleaned (Tag_Clean n) (sy_dels s) = {}" using later(1,2) asc by (cases pre) auto
    have key: "version_num V \<in> fst ` set (pending ?s)" if "V \<in> set (sy_live s)" for V
      using keys [OF that] later(1) dg pend(2) by auto
    have order: "k \<le> m" if "k \<in> fst ` set (sy_dels s @ ?rest)" "k < n" for k
      using ascending_pred [of "map fst pre" m n "map fst (post @ ?rest)" k] asc later(1) that by (simp add: image_Un)
    have "version_num V \<le> m" if "V \<in> set (sy_live s)" "g \<in> set gn" "g \<in> version_gens V" for V g
    proof -
      have "version_num V \<le> n" by (rule before [OF that(1) _ that(2,3)]) (simp add: later(1))
      then show ?thesis using keys [OF that(1)] order [of "version_num V"] by auto
    qed
    note gn = this
    have le: "version_num V \<le> k" if "V \<in> set (sy_live s)" "(k, gs) \<in> set (pending ?s)" "g \<in> set gs" "g \<in> version_gens V" for V k gs g
    proof -
      have "(k, gs) = (m, gm @ gn) \<or> (k, gs) \<in> set (sy_dels s @ ?rest)" using that(2) pend(2) later(1) dg(1) by auto
      then show ?thesis
        using before [OF that(1) _ that(3,4)] before [OF that(1) _ _ that(4), of m gm] gn [OF that(1) _ that(4)] that(3) later(1)
        by auto
    qed
    have "pending_gens ?s = pending_gens s" using pend later(1) dg by (auto simp: pending_gens_def)
    moreover have "fst ` set (pending ?s) \<subseteq> {..sy_top s}" using inv'(3) pend later(1) dg by auto
    moreover have "ascending (map fst (pending ?s))" using asc later(1) dg pend by (auto simp: sorted_wrt_append)
    ultimately show ?thesis
      using inv'(1,4,5,7,8,10) key le dg(2) unfolding cl by (intro vsystem_invI) (simp_all add: queue)
  qed
qed

lemma apply_edits_inv:
  assumes inv: "vsystem_inv c hs s" and V: "V \<in> set (sy_live s)" "version_num V = sy_top s"
    and app: "version_apply V edits = Ok (V', Tag_Add n del)" "set del \<inter> version_gens V' = {}"
    and fresh: "\<forall>g\<in>version_gens V' - version_gens V. sy_content s g \<noteq> None \<and> g \<notin> pending_gens s"
  shows "vsystem_inv c hs (s\<lparr>sy_live := V' # sy_live s, sy_top := n, sy_queue := sy_queue s @ [Tag_Add n del]\<rparr>)"
    (is "vsystem_inv c hs ?s")
proof -
  note inv' = vsystem_invD [OF inv]
  have n: "n = Suc (sy_top s)" "version_num V' = n"
    using V(2) app(1) by (auto simp: version_apply_def and_then_Ok_iff Let_def)
  have pend: "pending ?s = pending s @ [(n, del)]" by (simp add: pending_def)
  then have pg: "pending_gens ?s = pending_gens s \<union> set del" by (auto simp: pending_gens_def)
  have V': "version_gens V' \<inter> pending_gens ?s = {}" "version_gens V' \<subseteq> dom (sy_content s)"
    using inv'(8,10) V app(2) fresh unfolding pg by blast+
  have old: "version_num W \<le> sy_top s" if "W \<in> set (sy_live s)" for W using inv'(3,6) that by blast
  show ?thesis
  proof (rule vsystem_invI)
    have "\<forall>k\<in>fst ` set (pending s). k < n" using inv'(3) n(1) by auto
    then show "ascending (map fst (pending ?s))" using inv'(2) unfolding pend by (simp add: sorted_wrt_append)
    show "fst ` set (pending ?s) \<subseteq> {..sy_top ?s}" using inv'(3) unfolding pend by (auto simp: n(1))
    show "distinct (map version_num (sy_live ?s))" using inv'(5) old by (fastforce simp: n)
    show "m \<le> sy_top ?s" if "Tag_Clean m \<in> set (sy_queue ?s)" for m using inv'(4) [of m] that by (simp add: n(1))
    fix W assume W: "W \<in> set (sy_live ?s)"
    show "version_num W \<in> fst ` set (pending ?s)" using W inv'(6) n(2) by (auto simp: pend)
    show "Tag_Clean (version_num W) \<notin> set (sy_queue ?s)" using W inv'(4,7) n by fastforce
    show "version_gens W \<subseteq> dom (sy_content ?s)" using W inv'(8) V'(2) by auto
    show "version_gens W \<inter> pending_gens ?s = {}" if "version_num W = sy_top ?s" using that W old V'(1) n by fastforce
    show "version_num W \<le> k" if "(k, gens) \<in> set (pending ?s)" "g \<in> set gens" "g \<in> version_gens W" for k gens g
    proof (cases "W = V'")
      case True
      then show ?thesis using that V'(1) by (fastforce simp: pending_gens_def)
    next
      case False
      then have "W \<in> set (sy_live s)" using W by simp
      then show ?thesis using inv'(9) [of W k gens g] old [of W] that(2,3) that(1) [unfolded pend] n(1) by auto
    qed
  qed (use inv'(1) in simp)
qed

lemma drop_version_inv:
  assumes inv: "vsystem_inv c hs s" and V: "V \<in> set (sy_live s)"
  shows "vsystem_inv c hs (s\<lparr>sy_live := remove1 V (sy_live s), sy_queue := sy_queue s @ [version_drop V]\<rparr>)"
    (is "vsystem_inv c hs ?s")
proof -
  note inv' = vsystem_invD [OF inv]
  have pend: "pending ?s = pending s" "pending_gens ?s = pending_gens s"
    by (simp_all add: pending_gens_def pending_def version_drop_def)
  have dist: "distinct (sy_live s)" using inv'(5) by (simp add: distinct_map)
  have rest: "W \<in> set (sy_live s)" "version_num W \<noteq> version_num V" if "W \<in> set (sy_live ?s)" for W
    using that inv'(5) V dist by (auto simp: distinct_map inj_on_def)
  have "version_num V \<le> sy_top s" using inv'(3,6) V by blast
  moreover have "distinct (map version_num (sy_live ?s))"
    using inv'(5) dist by (auto simp: distinct_map inj_on_def)
  moreover have "Tag_Clean (version_num W) \<notin> set (sy_queue ?s)" if "W \<in> set (sy_live ?s)" for W
    using inv'(7) [OF rest(1) [OF that]] rest(2) [OF that] by (simp add: version_drop_def)
  moreover have "n \<le> sy_top s" if "Tag_Clean n \<in> set (sy_queue ?s)" for n
    using inv'(4) [of n] that \<open>version_num V \<le> sy_top s\<close> by (auto simp: version_drop_def)
  ultimately show ?thesis
    using inv'(1-3) inv'(6,8-10) [OF rest(1)] unfolding pend [symmetric]
    by (intro vsystem_invI) (assumption | simp)+
qed

lemma vstep_inv:
  assumes "vstep c hs s s'" "vsystem_inv c hs s"
  shows "vsystem_inv c hs s'"
  using assms
proof (induction rule: vstep.induct)
  case (apply_edits V s edits V' n del)
  then show ?case by (intro apply_edits_inv)
next
  case (drop_version V s)
  then show ?case by (intro drop_version_inv)
next
  case (receive s tag tags dg L)
  show ?case
  proof (cases tag)
    case (Tag_Clean n)
    then show ?thesis using receive_clean_inv [OF receive.prems] receive.hyps by blast
  next
    case (Tag_Add v gens)
    then have "dg = sy_dels s @ [(v, gens)]" "L = sy_loader s" using receive.hyps(2) by auto
    then show ?thesis using receive.prems receive.hyps(1) Tag_Add
      by (simp add: vsystem_inv_def pending_gens_def pending_def)
  qed
next
  case (use_loader tbls cont L s)
  have "dom (sy_content s) \<subseteq> dom cont" using use_loader.hyps(2) by (rule map_le_implies_dom_le)
  then show ?case using use_loader.hyps(1) use_loader.prems
    unfolding vsystem_inv_def pending_gens_def pending_def by simp (meson subset_trans)
qed

lemma vsteps_inv: "(vstep c hs)\<^sup>*\<^sup>* s s' \<Longrightarrow> vsystem_inv c hs s \<Longrightarrow> vsystem_inv c hs s'"
  by (induction rule: rtranclp_induct) (auto intro: vstep_inv)

text \<open>The state after a start: the version loaded from the log and its announcement.\<close>

definition vsystem_start ::
  "version \<Rightarrow> clean_tag \<Rightarrow> table_loader \<Rightarrow> (i64 \<Rightarrow> key_value list option) \<Rightarrow> (i64 \<Rightarrow> ss_table option) \<Rightarrow> vsystem" where
  "vsystem_start V tag L cont tbls = \<lparr>sy_live = [V], sy_top = version_num V, sy_queue = [tag], sy_dels = [],
     sy_loader = L, sy_content = cont, sy_tables = tbls\<rparr>"

lemma vsystem_start_inv:
  assumes "loader_inv c hs tbls cont L" "load_from_log edits = Ok (V, Tag_Add n del)"
    and "set del \<inter> version_gens V = {}" "version_gens V \<subseteq> dom cont"
  shows "vsystem_inv c hs (vsystem_start V (Tag_Add n del) L cont tbls)"
proof -
  have n: "n = version_num V" using assms(2) by (auto simp: load_from_log_def version_apply_def and_then_Ok_iff Let_def)
  show ?thesis
    by (rule vsystem_invI) (use assms in \<open>auto simp: vsystem_start_def pending_def pending_gens_def n\<close>)
qed

lemma handle_tag_returns:
  assumes "loader_inv c hs tbls cont L"
  shows "\<exists>dg' L'. handle_tag tag (dg, L) = Ok (dg', L')"
proof (cases tag)
  case (Tag_Clean n)
  have "\<exists>L'. clean_gens gens L = Ok L'" for gens by (rule clean_gens_returns [OF assms])
  then show ?thesis by (cases rule: cleaner_clean_cases [of n dg L]) (auto simp: Tag_Clean, metis map_outcome_ok.simps(1))
qed simp

lemma loader_clean_files:
  "loader_clean L gen = (res, L') \<Longrightarrow> btree_get (tl_files L) g = None \<Longrightarrow> btree_get (tl_files L') g = None"
  by (auto simp: loader_clean_def loader_remove_def and_then_Ok_iff factory_clean_def btree_get_def map_of_filter_key Let_def
      split: outcome.splits if_splits)

lemma clean_gens_files:
  assumes "loader_inv c hs tbls cont L" "clean_gens gens L = Ok L'" "g \<in> set gens \<or> btree_get (tl_files L) g = None"
  shows "btree_get (tl_files L') g = None"
  using assms
proof (induction gens arbitrary: L cont)
  case (Cons gen gens)
  obtain res L1 where L1: "loader_clean L gen = (res, L1)" "loader_inv c hs tbls (cont(gen := None)) L1" "res \<noteq> Panic"
      "btree_get (tl_files L1) gen = None"
    using loader_clean_holds [OF Cons.prems(1)] by blast
  then have "clean_gens gens L1 = Ok L'" using Cons.prems(2) by (cases res) auto
  then show ?case using Cons.IH [OF L1(2)] Cons.prems(3) L1(4) loader_clean_files [OF L1(1)] by auto
qed simp

lemma handle_close_eq: "handle_close (dg, L) = map_outcome_ok (\<lambda>L'. ([], L')) (clean_gens (concat (map snd dg)) L)"
proof -
  have app: "clean_gens (xs @ ys) L = and_then (clean_gens xs L) (clean_gens ys)" for xs ys L
    by (induction xs arbitrary: L) (auto split: outcome.splits prod.splits)
  have "clean_all (map fst dg) (dg, L) = map_outcome_ok (\<lambda>L'. ([], L')) (clean_gens (concat (map snd dg)) L)"
  proof (induction dg arbitrary: L)
    case (Cons p dg)
    have "cleaner_clean (fst p) (p # dg, L) = map_outcome_ok (\<lambda>L'. (dg, L')) (clean_gens (snd p) L)"
      by (cases p) (simp add: cleaner_clean_def find_index_with_ver_num_def)
    then show ?case using Cons by (cases "clean_gens (snd p) L") (auto simp: app)
  qed simp
  then show ?thesis by (simp add: handle_close_def)
qed

section \<open>Properties\<close>

text \<open>C12: however commits, readers and the cleaner interleave, the cleaner never deletes a table that a live version
  refers to: in every state reachable from a start, the loader still returns, for every generation of
  every version alive, a table with its pairs; and the cleaner is never stuck on a message.\<close>

theorem cleaner_keeps_live_tables:
  assumes "loader_inv c hs tbls cont L" "load_from_log edits = Ok (V, Tag_Add n del)"
    and "set del \<inter> version_gens V = {}" "version_gens V \<subseteq> dom cont"
    and "(vstep c hs)\<^sup>*\<^sup>* (vsystem_start V (Tag_Add n del) L cont tbls) s"
  shows "(\<forall>W g. W \<in> set (sy_live s) \<and> g \<in> version_gens W \<longrightarrow>
      (\<exists>kvs t L'. sy_content s g = Some kvs \<and> loader_get c (sy_loader s) g = Some (Ok (Some t, L')) \<and>
        table_holds c hs (sy_tables s) t g kvs)) \<and>
    (sy_queue s \<noteq> [] \<longrightarrow> (\<exists>s'. vstep c hs s s' \<and> sy_queue s' = tl (sy_queue s)))"
proof -
  have inv: "vsystem_inv c hs s" using vsteps_inv [OF assms(5) vsystem_start_inv [OF assms(1-4)]] .
  note inv' = vsystem_invD [OF inv]
  have "\<exists>kvs t L'. sy_content s g = Some kvs \<and> loader_get c (sy_loader s) g = Some (Ok (Some t, L')) \<and>
      table_holds c hs (sy_tables s) t g kvs" if "W \<in> set (sy_live s)" "g \<in> version_gens W" for W g
    using inv'(8) [OF that(1)] that(2) loader_get_holds [OF inv'(1), of g] by blast
  moreover have "\<exists>s'. vstep c hs s s' \<and> sy_queue s' = tl (sy_queue s)" if nonempty: "sy_queue s \<noteq> []"
  proof -
    obtain tag tags where q: "sy_queue s = tag # tags" using nonempty by (meson neq_Nil_conv)
    obtain dg L' where "handle_tag tag (sy_dels s, sy_loader s) = Ok (dg, L')" using handle_tag_returns [OF inv'(1)] by blast
    from vstep.receive [OF q this, of c hs] show ?thesis using q by (intro exI conjI) auto
  qed
  ultimately show ?thesis by blast
qed

text \<open>When the channel closes, the cleaner returns having deleted the file of every generation announced and not yet
  cleaned, and no other table.\<close>

theorem cleaner_close_deletes_all:
  assumes "loader_inv c hs tbls cont L"
  shows "\<exists>L'. handle_close (dg, L) = Ok ([], L') \<and>
    (\<forall>n gens g. (n, gens) \<in> set dg \<and> g \<in> set gens \<longrightarrow> btree_get (tl_files L') g = None) \<and>
    loader_inv c hs tbls (\<lambda>g. if g \<in> (\<Union>(n, gens)\<in>set dg. set gens) then None else cont g) L'"
proof -
  obtain L' where L': "clean_gens (concat (map snd dg)) L = Ok L'" using clean_gens_returns [OF assms] by blast
  have "set (concat (map snd dg)) = (\<Union>(n, gens)\<in>set dg. set gens)" by auto
  then show ?thesis
    using L' clean_gens_holds [OF assms L'] clean_gens_files [OF assms L'] by (auto simp: handle_close_eq)
qed

theorem cleaner_keeps_live_tables_witness:
  "\<exists>L r L1 cs V t L2. loader_new sample_config0 [] [(7, [])] (\<lambda>_. 0) (\<lambda>_. 0) = Ok L \<and>
    loader_create le_crates sum_hashing L [] (11, 22) 5 sample_pairs 1 SortedString = Ok (r, L1, cs) \<and>
    load_from_log [NewFile [fst r] 1 0 (snd r)] = Ok (V, Tag_Add 1 []) \<and> 5 \<in> version_gens V \<and>
    loader_get le_crates L1 5 = Some (Ok (Some t, L2))"
proof -
  obtain L where L: "loader_new sample_config0 [] [(7, [])] (\<lambda>_. 0) (\<lambda>_. 0) = Ok L"
      "loader_inv le_crates sum_hashing Map.empty Map.empty L" "tl_config L = sample_config0" "tl_files L = []"
    using sample_loader by blast
  obtain scope meta L1 cs t0 where L1: "loader_create le_crates sum_hashing L [] (11, 22) 5 sample_pairs 1 SortedString =
        Ok ((scope, meta), L1, cs)" "from_sorted_vec_data [] 5 sample_pairs = Ok (scope, cs)"
      "loader_inv le_crates sum_hashing [5 \<mapsto> t0] [5 \<mapsto> sample_pairs] L1"
    using loader_create_holds [OF le.int_encoding_axioms le.lz4_codec_axioms L(2), of sample_pairs 5 "[]" "(11, 22)" 1] L
    by (fastforce simp: sample_storable btree_get_def)
  have s: "scope_gen scope = 5" using L1(2) by (auto simp: from_sorted_vec_data_def scope_from_range_def sample_pairs_def)
  let ?V = "\<lparr>version_num = 1, level_slice = [[], [scope], [], []],
    meta_data = \<lparr>vm_size_of_disk = meta_size_of_disk meta, vm_len = meta_len meta\<rparr>\<rparr>"
  have "meta_size_of_disk meta < 2 ^ 32" "meta_len meta < 2 ^ 32"
    using loader_create_small [OF le.int_encoding_axioms le.lz4_codec_axioms L(2) _ _ _ L1(1)] L by (simp_all add: sample_storable btree_get_def)
  then have load: "load_from_log [NewFile [scope] 1 0 meta] = Ok (?V, Tag_Add 1 [])" by (rule load_one_table)
  have gens: "version_gens ?V = {5}" by (simp add: version_gens_def s)
  from cleaner_keeps_live_tables [OF L1(3) load _ _ rtranclp.rtrancl_refl] gens
  obtain t L2 where "loader_get le_crates L1 5 = Some (Ok (Some t, L2))"
    by (auto simp: vsystem_start_def)
  then show ?thesis using L(1) L1(1) load gens by fastforce
qed

theorem cleaner_close_deletes_all_witness:
  "\<exists>L L'. loader_new sample_config0 [] [(7, [])] (\<lambda>_. 0) (\<lambda>_. 0) = Ok L \<and> handle_close ([(3, [7])], L) = Ok ([], L') \<and>
    btree_get (tl_files L') 7 = None"
proof -
  obtain L where L: "loader_new sample_config0 [] [(7, [])] (\<lambda>_. 0) (\<lambda>_. 0) = Ok L"
      "loader_inv le_crates sum_hashing Map.empty Map.empty L"
    using sample_loader by blast
  show ?thesis using cleaner_close_deletes_all [OF L(2), of "[(3, [7])]"] L(1) by auto
qed

end
