(* ===== verification/Version_Status.thy ===== *)
theory Version_Status
  imports Version
begin

text \<open>
  \<open>src/src/kernel/lsm/version/status.rs\<close>: the current version, the log of its edits and its recovery.

  Edits are written with \<open>bincode\<close>, a crate that is not part of the repository: its two functions are a
  parameter, the record \<open>bincode\<close>, with the round trip as its contract. What is written of a scope is
  its range, its generation and the present value of its counter of missed seeks (\<open>serde\<close> with the
  feature \<open>rc\<close>); reading it back makes a counter of its own. \<open>wire_scope\<close> and \<open>wire_edit\<close> are that form.

  The write lock makes \<open>log_and_apply\<close> one step. The old version is dropped when its last reader lets go of
  it, which is a step of the system of theory \<open>Cleaner\<close>.
\<close>

section \<open>Edits on disk\<close>

record wire_scope =
  ws_start :: bytes
  ws_end :: bytes
  ws_gen :: i64
  ws_seeks :: "32 word option"

datatype wire_edit =
    Wire_DeleteFile "i64 list" nat table_meta
  | Wire_NewFile "wire_scope list" nat nat table_meta

definition scope_to_wire :: "counters \<Rightarrow> scope \<Rightarrow> wire_scope" where
  "scope_to_wire cs s =
     \<lparr>ws_start = scope_start s, ws_end = scope_end s, ws_gen = scope_gen s,
      ws_seeks = map_option (\<lambda>i. cs ! i) (allowed_seeks s)\<rparr>"

fun edit_to_wire :: "counters \<Rightarrow> version_edit \<Rightarrow> wire_edit" where
  "edit_to_wire cs (DeleteFile gens level m) = Wire_DeleteFile gens level m"
| "edit_to_wire cs (NewFile scopes level index m) = Wire_NewFile (map (scope_to_wire cs) scopes) level index m"

definition scope_from_wire :: "wire_scope \<Rightarrow> counters \<Rightarrow> scope \<times> counters" where
  "scope_from_wire w cs =
     (case ws_seeks w of
        None \<Rightarrow> (\<lparr>scope_start = ws_start w, scope_end = ws_end w, scope_gen = ws_gen w, allowed_seeks = None\<rparr>, cs)
      | Some n \<Rightarrow>
          (\<lparr>scope_start = ws_start w, scope_end = ws_end w, scope_gen = ws_gen w, allowed_seeks = Some (length cs)\<rparr>,
           cs @ [n]))"

fun scopes_from_wire :: "wire_scope list \<Rightarrow> counters \<Rightarrow> scope list \<times> counters" where
  "scopes_from_wire [] cs = ([], cs)"
| "scopes_from_wire (w # ws) cs =
     (let (s, cs1) = scope_from_wire w cs; (ss, cs2) = scopes_from_wire ws cs1 in (s # ss, cs2))"

fun edits_from_wire :: "wire_edit list \<Rightarrow> counters \<Rightarrow> version_edit list \<times> counters" where
  "edits_from_wire [] cs = ([], cs)"
| "edits_from_wire (Wire_DeleteFile gens level m # ws) cs =
     (let (es, cs') = edits_from_wire ws cs in (DeleteFile gens level m # es, cs'))"
| "edits_from_wire (Wire_NewFile scopes level index m # ws) cs =
     (let (ss, cs1) = scopes_from_wire scopes cs; (es, cs2) = edits_from_wire ws cs1
      in (NewFile ss level index m # es, cs2))"

record bincode =
  bc_serialize :: "wire_edit list \<Rightarrow> bytes"
  bc_deserialize :: "bytes \<Rightarrow> wire_edit list option"

text \<open>The decoding closure of \<open>load_with_path\<close>.\<close>

definition version_decode :: "bincode \<Rightarrow> bytes \<Rightarrow> wire_edit list \<Rightarrow> wire_edit list outcome" where
  "version_decode bc bs records =
     (case bc_deserialize bc bs of None \<Rightarrow> Err SerdeBinCode | Some es \<Rightarrow> Ok (records @ es))"

section \<open>The status\<close>

record version_status =
  vs_version :: version
  ver_log_writer :: "log_writer \<times> i64"
  vs_loader :: table_loader
  vs_logs :: directory
  edit_approximate_count :: nat

definition snapshot_gen :: "directory \<Rightarrow> i64 \<Rightarrow> (i64 \<times> directory \<times> i64) outcome" where
  "snapshot_gen d gen_buf =
     (case rev (sorted_gen_list d) of
        new_snapshot # old_snapshot # _ \<Rightarrow> map_outcome_ok (\<lambda>d'. (old_snapshot, d', gen_buf)) (factory_clean d new_snapshot)
      | [snapshot] \<Rightarrow> Ok (snapshot, d, gen_buf)
      | [] \<Rightarrow> (let (gen, gen_buf') = gen_create gen_buf in Ok (gen, d, gen_buf')))"

text \<open>\<open>load_with_path\<close> on the directories of the tables, the write-ahead logs and the version logs. It returns the
  tag the first version sends to the cleaner.\<close>

definition load_with_path ::
  "crates \<Rightarrow> bincode \<Rightarrow> config \<Rightarrow> directory \<Rightarrow> directory \<Rightarrow> directory \<Rightarrow> (i64 \<Rightarrow> 64 word) \<Rightarrow>
   (i64 \<times> block_index option \<Rightarrow> 64 word) \<Rightarrow> i64 \<Rightarrow> counters \<Rightarrow>
   ((version_status \<times> clean_tag) \<times> i64 \<times> counters) outcome option" where
  "load_with_path c bc cfg files wals logs hash1 hash2 gen_buf cs =
     bind_oo (Some (loader_new cfg files wals hash1 hash2)) (\<lambda>ss_table_loader.
     bind_oo (Some (snapshot_gen logs gen_buf)) (\<lambda>(snapshot, logs1, gen_buf1).
     bind_oo (log_loader_reload c (version_decode bc) logs1 (Some snapshot) gen_buf1 []) (\<lambda>(log_gen, version_logs, logs2, gen_buf2).
       let (edits, cs') = edits_from_wire version_logs cs in
       bind_oo (Some (load_from_log edits)) (\<lambda>(V, tag).
         let (w, logs3) = log_loader_writer logs2 log_gen; (_, w') = seek_end w in
         Some (Ok ((\<lparr>vs_version = V, ver_log_writer = (w', log_gen), vs_loader = ss_table_loader, vs_logs = logs3,
             edit_approximate_count = length version_logs\<rparr>, tag), gen_buf2, cs'))))))"

definition status_add_record :: "crates \<Rightarrow> version_status \<Rightarrow> bytes \<Rightarrow> version_status outcome option" where
  "status_add_record c st r =
     bind_oo (add_record c (fst (ver_log_writer st)) r) (\<lambda>(n, w).
       Some (Ok (st\<lparr>ver_log_writer := (w, snd (ver_log_writer st)),
         vs_logs := btree_insert (snd (ver_log_writer st)) (contents (dst w)) (vs_logs st)\<rparr>)))"

definition write_snap_shot ::
  "crates \<Rightarrow> bincode \<Rightarrow> counters \<Rightarrow> version_status \<Rightarrow> i64 \<Rightarrow> (version_status \<times> i64) outcome option" where
  "write_snap_shot c bc cs st gen_buf =
     (let (new_gen, gen_buf') = gen_create gen_buf;
          (new_writer, d) = factory_writer (vs_logs st) new_gen;
          old_gen = snd (ver_log_writer st);
          st1 = st\<lparr>ver_log_writer := (log_writer_new new_writer, new_gen), vs_logs := d\<rparr>;
          snap_shot_version_edits = to_vec_edit (vs_version st)
      in bind_oo (status_add_record c st1 (bc_serialize bc (map (edit_to_wire cs) snap_shot_version_edits))) (\<lambda>st2.
         bind_oo (Some (factory_clean (vs_logs st2) old_gen)) (\<lambda>d'. Some (Ok (st2\<lparr>vs_logs := d'\<rparr>, gen_buf')))))"

definition log_and_apply ::
  "crates \<Rightarrow> bincode \<Rightarrow> counters \<Rightarrow> version_status \<Rightarrow> version_edit list \<Rightarrow> nat \<Rightarrow> i64 \<Rightarrow>
   ((version_status \<times> clean_tag) \<times> i64) outcome option" where
  "log_and_apply c bc cs st vec_version_edit snapshot_threshold gen_buf =
     bind_oo
       (if edit_approximate_count st \<ge> snapshot_threshold then write_snap_shot c bc cs st gen_buf
        else Some (Ok (st\<lparr>edit_approximate_count := edit_approximate_count st + 1\<rparr>, gen_buf))) (\<lambda>(st1, gen_buf').
     bind_oo (status_add_record c st1 (bc_serialize bc (map (edit_to_wire cs) vec_version_edit))) (\<lambda>st2.
     bind_oo (Some (version_apply (vs_version st) vec_version_edit)) (\<lambda>(new_version, tag).
       Some (Ok ((st2\<lparr>vs_version := new_version\<rparr>, tag), gen_buf')))))"

section \<open>The contract of the encoding\<close>

locale bincode_codec =
  fixes bc :: bincode
  assumes bincode_roundtrip: "bc_deserialize bc (bc_serialize bc es) = Some es"
    and bincode_nonempty: "bc_serialize bc es \<noteq> []"
begin

lemma version_decode_serialized: "version_decode bc (bc_serialize bc es) records = Ok (records @ es)"
  by (simp add: version_decode_def bincode_roundtrip)

lemma serialized_nonempty: "\<forall>r\<in>set (map (bc_serialize bc) ws). r \<noteq> []"
  by (auto simp: bincode_nonempty)

lemma fold_version_decode:
  "fold (\<lambda>r recs. recs @ the (bc_deserialize bc r)) (map (bc_serialize bc) ws) recs = recs @ concat ws"
  by (induction ws arbitrary: recs) (simp_all add: bincode_roundtrip)

text \<open>Replaying a log of serialised edits.\<close>

lemma load_edits:
  assumes "int_encoding c"
  shows "log_load c (version_decode bc) (fst (log_stream c BLOCK_SIZE 0 (map (bc_serialize bc) ws))) [] = Some (Ok (concat ws))"
  using int_encoding.load_decode_eof [OF assms block_size_facts le0 serialized_nonempty [of ws],
      of "version_decode bc" "\<lambda>r recs. recs @ the (bc_deserialize bc r)" "[]"]
    fold_version_decode [of ws "[]"]
  by (auto simp: log_load_def log_reader_new_def version_decode_def bincode_roundtrip)

end

text \<open>A concrete encoding with that contract: numbers in groups of seven bits, lists with their length in
  front, one byte for every tag.\<close>

fun wire_nat :: "nat \<Rightarrow> bytes" where
  "wire_nat n = (if n < 128 then [word_of_nat n] else word_of_nat (n mod 128 + 128) # wire_nat (n div 128))"

declare wire_nat.simps [simp del]

fun un_wire_nat :: "bytes \<Rightarrow> (nat \<times> bytes) option" where
  "un_wire_nat [] = None"
| "un_wire_nat (b # bs) =
     (if unat b < 128 then Some (unat b, bs)
      else map_option (\<lambda>(n, rest). (unat b - 128 + 128 * n, rest)) (un_wire_nat bs))"

definition wire_int :: "int \<Rightarrow> bytes" where
  "wire_int i = (if i < 0 then 1 else 0) # wire_nat (nat \<bar>i\<bar>)"

definition un_wire_int :: "bytes \<Rightarrow> (int \<times> bytes) option" where
  "un_wire_int bs =
     (case bs of [] \<Rightarrow> None
      | s # bs' \<Rightarrow> map_option (\<lambda>(n, rest). (if s = 1 then - int n else int n, rest)) (un_wire_nat bs'))"

fun un_wire_many :: "(bytes \<Rightarrow> ('a \<times> bytes) option) \<Rightarrow> nat \<Rightarrow> bytes \<Rightarrow> ('a list \<times> bytes) option" where
  "un_wire_many f 0 bs = Some ([], bs)"
| "un_wire_many f (Suc n) bs =
     Option.bind (f bs) (\<lambda>(x, bs1). map_option (\<lambda>(xs, rest). (x # xs, rest)) (un_wire_many f n bs1))"

definition wire_list :: "('a \<Rightarrow> bytes) \<Rightarrow> 'a list \<Rightarrow> bytes" where
  "wire_list f xs = wire_nat (length xs) @ concat (map f xs)"

definition un_wire_list :: "(bytes \<Rightarrow> ('a \<times> bytes) option) \<Rightarrow> bytes \<Rightarrow> ('a list \<times> bytes) option" where
  "un_wire_list f bs = Option.bind (un_wire_nat bs) (\<lambda>(n, rest). un_wire_many f n rest)"

definition un_wire_byte :: "bytes \<Rightarrow> (byte \<times> bytes) option" where
  "un_wire_byte bs = (case bs of [] \<Rightarrow> None | b # rest \<Rightarrow> Some (b, rest))"

definition wire_scope_bytes :: "wire_scope \<Rightarrow> bytes" where
  "wire_scope_bytes s =
     wire_list (\<lambda>b. [b]) (ws_start s) @ wire_list (\<lambda>b. [b]) (ws_end s) @ wire_int (ws_gen s) @
     wire_list (\<lambda>w. wire_nat (unat w)) (case ws_seeks s of None \<Rightarrow> [] | Some w \<Rightarrow> [w])"

definition un_wire_scope :: "bytes \<Rightarrow> (wire_scope \<times> bytes) option" where
  "un_wire_scope bs =
     Option.bind (un_wire_list un_wire_byte bs) (\<lambda>(st, bs1).
     Option.bind (un_wire_list un_wire_byte bs1) (\<lambda>(en, bs2).
     Option.bind (un_wire_int bs2) (\<lambda>(gen, bs3).
     Option.bind (un_wire_list (\<lambda>bs. map_option (\<lambda>(n, r). (word_of_nat n, r)) (un_wire_nat bs)) bs3) (\<lambda>(ws, bs4).
       Some (\<lparr>ws_start = st, ws_end = en, ws_gen = gen, ws_seeks = (case ws of [] \<Rightarrow> None | w # _ \<Rightarrow> Some w)\<rparr>, bs4)))))"

definition wire_meta_bytes :: "table_meta \<Rightarrow> bytes" where
  "wire_meta_bytes m = wire_nat (meta_size_of_disk m) @ wire_nat (meta_len m)"

definition un_wire_meta :: "bytes \<Rightarrow> (table_meta \<times> bytes) option" where
  "un_wire_meta bs =
     Option.bind (un_wire_nat bs) (\<lambda>(d, bs1).
     Option.bind (un_wire_nat bs1) (\<lambda>(n, bs2). Some (\<lparr>meta_size_of_disk = d, meta_len = n\<rparr>, bs2)))"

fun wire_edit_bytes :: "wire_edit \<Rightarrow> bytes" where
  "wire_edit_bytes (Wire_DeleteFile gens level m) = 0 # wire_list wire_int gens @ wire_nat level @ wire_meta_bytes m"
| "wire_edit_bytes (Wire_NewFile scopes level index m) =
     1 # wire_list wire_scope_bytes scopes @ wire_nat level @ wire_nat index @ wire_meta_bytes m"

definition un_wire_edit :: "bytes \<Rightarrow> (wire_edit \<times> bytes) option" where
  "un_wire_edit bs =
     (case bs of [] \<Rightarrow> None
      | b # bs0 \<Rightarrow>
          if b = 0 then
            Option.bind (un_wire_list un_wire_int bs0) (\<lambda>(gens, bs1).
            Option.bind (un_wire_nat bs1) (\<lambda>(level, bs2).
            Option.bind (un_wire_meta bs2) (\<lambda>(m, bs3). Some (Wire_DeleteFile gens level m, bs3))))
          else
            Option.bind (un_wire_list un_wire_scope bs0) (\<lambda>(scopes, bs1).
            Option.bind (un_wire_nat bs1) (\<lambda>(level, bs2).
            Option.bind (un_wire_nat bs2) (\<lambda>(index, bs3).
            Option.bind (un_wire_meta bs3) (\<lambda>(m, bs4). Some (Wire_NewFile scopes level index m, bs4))))))"

definition wire_bincode :: bincode where
  "wire_bincode = \<lparr>bc_serialize = wire_list wire_edit_bytes, bc_deserialize = (\<lambda>bs. map_option fst (un_wire_list un_wire_edit bs))\<rparr>"

lemma un_wire_nat_append [simp]: "un_wire_nat (wire_nat n @ rest) = Some (n, rest)"
proof (induction n rule: wire_nat.induct)
  case (1 n)
  show ?case
  proof (cases "n < 128")
    case True
    then have "unat (word_of_nat n :: 8 word) = n" by (simp add: unat_word_of_nat)
    then show ?thesis using True by (simp add: wire_nat.simps [of n])
  next
    case False
    have "n mod 128 + 128 < 2 ^ LENGTH(8)" using mod_less_divisor [of 128 n] by (simp del: mod_less_divisor)
    then have u: "unat (word_of_nat (n mod 128 + 128) :: 8 word) = n mod 128 + 128"
      by (rule unat_word_of_nat)
    show ?thesis using False 1 [OF False] u by (simp add: wire_nat.simps [of n] del: of_nat_add)
  qed
qed

lemma wire_nat_nonempty [simp]: "wire_nat n \<noteq> []"
  by (subst wire_nat.simps) simp

lemma un_wire_int_append [simp]: "un_wire_int (wire_int i @ rest) = Some (i, rest)"
  by (auto simp: un_wire_int_def wire_int_def)

lemma un_wire_list_append:
  assumes "\<And>x rest. x \<in> set xs \<Longrightarrow> f (g x @ rest) = Some (x, rest)"
  shows "un_wire_list f (wire_list g xs @ rest) = Some (xs, rest)"
proof -
  have "un_wire_many f (length xs) (concat (map g xs) @ rest) = Some (xs, rest)"
    using assms by (induction xs) auto
  then show ?thesis by (simp add: un_wire_list_def wire_list_def)
qed

lemma un_wire_bytes_append [simp]: "un_wire_list un_wire_byte (wire_list (\<lambda>b. [b]) bs @ rest) = Some (bs, rest)"
  by (rule un_wire_list_append) (simp add: un_wire_byte_def)

lemma un_wire_scope_append: "un_wire_scope (wire_scope_bytes s @ rest) = Some (s, rest)"
  by (simp add: un_wire_scope_def wire_scope_bytes_def un_wire_list_append split: option.split)

lemma un_wire_meta_append [simp]: "un_wire_meta (wire_meta_bytes m @ rest) = Some (m, rest)"
  by (simp add: un_wire_meta_def wire_meta_bytes_def)

lemma un_wire_edit_append: "un_wire_edit (wire_edit_bytes e @ rest) = Some (e, rest)"
  by (cases e) (simp_all add: un_wire_edit_def un_wire_list_append un_wire_scope_append)

interpretation wire: bincode_codec wire_bincode
  by unfold_locales
    (use un_wire_list_append [of _ un_wire_edit wire_edit_bytes "[]"] in
      \<open>simp_all add: wire_bincode_def un_wire_edit_append wire_list_def\<close>)

section \<open>Versions up to their counters\<close>

text \<open>Recovery gives every scope a counter of its own, so versions are compared without them.\<close>

definition strip :: "scope \<Rightarrow> scope" where
  "strip s = s\<lparr>allowed_seeks := None\<rparr>"

fun strip_edit :: "version_edit \<Rightarrow> version_edit" where
  "strip_edit (DeleteFile gens level m) = DeleteFile gens level m"
| "strip_edit (NewFile scopes level index m) = NewFile (map strip scopes) level index m"

fun wire_strip :: "wire_edit \<Rightarrow> version_edit" where
  "wire_strip (Wire_DeleteFile gens level m) = DeleteFile gens level m"
| "wire_strip (Wire_NewFile ws level index m) =
     NewFile (map (\<lambda>w. \<lparr>scope_start = ws_start w, scope_end = ws_end w, scope_gen = ws_gen w, allowed_seeks = None\<rparr>) ws)
       level index m"

definition same_tables :: "version \<Rightarrow> version \<Rightarrow> bool" where
  "same_tables V W \<longleftrightarrow> map (map strip) (level_slice V) = map (map strip) (level_slice W) \<and> meta_data V = meta_data W"

lemma strip_simps [simp]:
  "scope_gen (strip s) = scope_gen s" "scope_start (strip s) = scope_start s" "scope_end (strip s) = scope_end s"
  "scope_gen \<circ> strip = scope_gen"
  by (auto simp: strip_def)

lemma wire_strip_to_wire [simp]: "wire_strip (edit_to_wire cs e) = strip_edit e"
  by (cases e) (auto simp: scope_to_wire_def strip_def)

lemma strip_scopes_from_wire:
  "map strip (fst (scopes_from_wire ws cs)) =
   map (\<lambda>w. \<lparr>scope_start = ws_start w, scope_end = ws_end w, scope_gen = ws_gen w, allowed_seeks = None\<rparr>) ws"
  by (induction ws cs rule: scopes_from_wire.induct)
    (auto simp: scope_from_wire_def strip_def split: option.splits prod.splits)

lemma strip_edits_from_wire: "map strip_edit (fst (edits_from_wire ws cs)) = map wire_strip ws"
proof (induction ws arbitrary: cs)
  case (Cons w ws)
  then show ?case by (cases w) (auto simp: split_beta strip_scopes_from_wire)
qed simp

lemma map_strip_sort: "map strip (sort_key scope_gen ss) = sort_key scope_gen (map strip ss)"
proof (induction ss)
  case (Cons s ss)
  have "map strip (insort_key scope_gen s xs) = insort_key scope_gen (strip s) (map strip xs)" for xs
    by (induction xs) auto
  then show ?case using Cons by simp
qed simp

lemma apply_edit_strip:
  "apply_edit (strip_edit e) (map (map strip) ls, del, stats) =
   map_outcome_ok (\<lambda>(ls', d, s). (map (map strip) ls', d, s)) (apply_edit e (ls, del, stats))"
proof (cases e)
  case (DeleteFile gens level m)
  then show ?thesis by (auto simp: index_slice_def map_update filter_map comp_def)
next
  case (NewFile ss level index m)
  have push: "push_scopes (map strip xs) level (map (map strip) ls) = map_outcome_ok (map (map strip)) (push_scopes xs level ls)"
    for xs
  proof (induction xs arbitrary: ls)
    case (Cons x xs)
    show ?case using Cons [of "ls[level := ls ! level @ [x]]"] by (auto simp: index_slice_def map_update)
  qed simp
  have insert: "insert_scopes (map strip xs) level index (map (map strip) ls) =
      map_outcome_ok (map (map strip)) (insert_scopes xs level index ls)" for xs
  proof (induction xs arbitrary: ls)
    case (Cons x xs)
    show ?case using Cons [of "ls[level := take index (ls ! level) @ x # drop index (ls ! level)]"]
      by (auto simp: index_slice_def vec_insert_def map_update take_map drop_map)
  qed simp
  show ?thesis
    using push [of "sort_key scope_gen ss"] insert [of "rev (sort_key scope_gen ss)"]
    by (auto simp: NewFile Let_def rev_map [symmetric] map_strip_sort [symmetric] map_outcome_ok_comp)
qed

lemma apply_loop_strip:
  "apply_loop (map strip_edit es) (map (map strip) ls, del, stats) =
   map_outcome_ok (\<lambda>(ls', d, s). (map (map strip) ls', d, s)) (apply_loop es (ls, del, stats))"
proof (induction es arbitrary: ls del stats)
  case (Cons e es)
  show ?case
  proof (cases "apply_edit e (ls, del, stats)")
    case (Ok x)
    then show ?thesis using Cons apply_edit_strip [of e ls del stats] by (cases x) simp
  qed (use apply_edit_strip [of e ls del stats] in simp_all)
qed simp

text \<open>The log of edits behaves like one long edit.\<close>

lemma apply_edit_acc:
  "apply_edit e (ls, del @ d, stats @ s) =
   map_outcome_ok (\<lambda>(ls', d', s'). (ls', del @ d', stats @ s')) (apply_edit e (ls, d, s))"
  by (cases e) (auto simp: index_slice_def Let_def map_outcome_ok_comp)

lemma apply_loop_acc:
  "apply_loop es (ls, del @ d, stats @ s) =
   map_outcome_ok (\<lambda>(ls', d', s'). (ls', del @ d', stats @ s')) (apply_loop es (ls, d, s))"
proof (induction es arbitrary: ls d s)
  case (Cons e es)
  show ?case
  proof (cases "apply_edit e (ls, d, s)")
    case (Ok x)
    then show ?thesis using Cons apply_edit_acc [of e ls del d stats s] by (cases x) simp
  qed (use apply_edit_acc [of e ls del d stats s] in simp_all)
qed simp

lemma apply_loop_append: "apply_loop (es @ fs) st = and_then (apply_loop es st) (apply_loop fs)"
proof (induction es arbitrary: st)
  case (Cons e es)
  show ?case by (cases "apply_edit e st") (simp_all add: Cons)
qed simp

lemma added_deleted_append [simp]:
  "added f (xs @ ys) = added f xs + added f ys" "deleted f (xs @ ys) = deleted f xs + deleted f ys"
proof (induction xs)
  case (Cons e xs)
  { case 1 show ?case using Cons by (cases e) auto }
  { case 2 show ?case using Cons by (cases e) auto }
qed simp_all

lemma statistical_process_append:
  assumes "statistical_process m es = Ok m1" "statistical_process m1 fs = Ok m2" "room_for m (es @ fs)"
  shows "statistical_process m (es @ fs) = Ok m2"
proof -
  have m: "meta_in_range m" by (rule room_for_in_range [OF assms(3)])
  show ?thesis
    using assms by (auto simp: statistical_process_eq [OF m] statistical_process_eq [OF statistical_process_in_range [OF m assms(1)]] split: if_splits)
qed

text \<open>What edits add to the statistics. A log is replayed in one go, all additions first, so what a log adds has to fit
  the statistics although tables may have been deleted in between.\<close>

fun edit_weight :: "version_edit \<Rightarrow> nat" where
  "edit_weight (DeleteFile gens level m) = 0"
| "edit_weight (NewFile scopes level index m) = meta_size_of_disk m + meta_len m"

definition edits_weight :: "version_edit list \<Rightarrow> nat" where
  "edits_weight es = sum_list (map edit_weight es)"

definition log_weight :: "wire_edit list list \<Rightarrow> nat" where
  "log_weight ws = edits_weight (map wire_strip (concat ws))"

lemma edits_weight_simps [simp]: "edits_weight [] = 0" "edits_weight (e # es) = edit_weight e + edits_weight es"
    "edits_weight (es @ fs) = edits_weight es + edits_weight fs"
  by (simp_all add: edits_weight_def)

lemma apply_loop_weight:
  assumes "apply_loop es (ls, d, s) = Ok (ls', d', s')"
  shows "added meta_size_of_disk s' + added meta_len s' = added meta_size_of_disk s + added meta_len s + edits_weight es"
  using assms
proof (induction es arbitrary: ls d s)
  case (Cons e es)
  obtain ls1 d1 s1 where 1: "apply_edit e (ls, d, s) = Ok (ls1, d1, s1)" "apply_loop es (ls1, d1, s1) = Ok (ls', d', s')"
    using Cons.prems by (auto simp: and_then_Ok_iff)
  have "added meta_size_of_disk s1 + added meta_len s1 = added meta_size_of_disk s + added meta_len s + edit_weight e"
    using 1(1) by (cases e) (auto simp: and_then_Ok_iff map_outcome_ok_Ok_iff Let_def split: if_splits)
  then show ?case using Cons.IH [OF 1(2)] by simp
qed simp

lemma version_apply_weight:
  assumes "version_apply V es = Ok (V', t)" "meta_in_range (meta_data V)"
  shows "vm_size_of_disk (meta_data V') + vm_len (meta_data V') \<le> vm_size_of_disk (meta_data V) + vm_len (meta_data V) + edits_weight es"
proof -
  obtain ls d s where "apply_loop es (level_slice V, [], []) = Ok (ls, d, s)" "statistical_process (meta_data V) s = Ok (meta_data V')"
    using assms(1) by (auto simp: version_apply_def Let_def and_then_Ok_iff)
  then show ?thesis
    using apply_loop_weight [of es "level_slice V" "[]" "[]"] by (cases "meta_data V'") (auto simp: statistical_process_eq [OF assms(2)] split: if_splits)
qed

lemma version_apply_append:
  assumes "version_apply V es = Ok (V1, t1)" "version_apply V1 fs = Ok (V2, t2)"
    and room: "vm_size_of_disk (meta_data V) + vm_len (meta_data V) + edits_weight es + edits_weight fs \<le> u64_MAX"
  shows "\<exists>V' t. version_apply V (es @ fs) = Ok (V', t) \<and> level_slice V' = level_slice V2 \<and> meta_data V' = meta_data V2"
proof -
  obtain ls1 d1 s1 where 1: "apply_loop es (level_slice V, [], []) = Ok (ls1, d1, s1)"
      "statistical_process (meta_data V) s1 = Ok (meta_data V1)" "level_slice V1 = ls1"
    using assms(1) by (auto simp: version_apply_def Let_def and_then_Ok_iff)
  obtain ls2 d2 s2 where 2: "apply_loop fs (ls1, [], []) = Ok (ls2, d2, s2)"
      "statistical_process (meta_data V1) s2 = Ok (meta_data V2)" "level_slice V2 = ls2"
    using assms(2) 1(3) by (auto simp: version_apply_def Let_def and_then_Ok_iff)
  have "apply_loop (es @ fs) (level_slice V, [], []) = Ok (ls2, d1 @ d2, s1 @ s2)"
    using 1(1) 2(1) apply_loop_acc [of fs ls1 d1 "[]" s1 "[]"] by (simp add: apply_loop_append)
  moreover have "room_for (meta_data V) (s1 @ s2)"
    using apply_loop_weight [OF 1(1)] apply_loop_weight [OF 2(1)] room by (simp add: room_for_def u64_MAX_def usize_MAX_def)
  ultimately show ?thesis
    using statistical_process_append [OF 1(2) 2(2)] 2(3) by (simp add: version_apply_def Let_def)
qed

lemma version_apply_same:
  assumes "same_tables V W" "map strip_edit es = map strip_edit fs" "version_apply V es = Ok (V', t)"
  shows "\<exists>W' t'. version_apply W fs = Ok (W', t') \<and> same_tables V' W'"
proof -
  obtain ls d s where 1: "apply_loop es (level_slice V, [], []) = Ok (ls, d, s)"
      "statistical_process (meta_data V) s = Ok (meta_data V')" "level_slice V' = ls"
    using assms(3) by (auto simp: version_apply_def Let_def and_then_Ok_iff)
  have "map_outcome_ok (\<lambda>(ls', d, s). (map (map strip) ls', d, s)) (apply_loop fs (level_slice W, [], [])) =
      Ok (map (map strip) ls, d, s)"
    using apply_loop_strip [of es "level_slice V" "[]" "[]"] apply_loop_strip [of fs "level_slice W" "[]" "[]"] assms(1,2) 1(1)
    by (simp add: same_tables_def)
  then obtain ls' where "apply_loop fs (level_slice W, [], []) = Ok (ls', d, s)" "map (map strip) ls' = map (map strip) ls"
    by (cases "apply_loop fs (level_slice W, [], [])") auto
  then show ?thesis using 1 assms(1) by (auto simp: version_apply_def Let_def same_tables_def)
qed

section \<open>Logging and recovery\<close>

text \<open>The writer can append: it is what every reachable status satisfies.\<close>

definition vlog_writer_ok :: "log_writer \<Rightarrow> bool" where
  "vlog_writer_ok w \<longleftrightarrow> (\<exists>xs ys. dst w = file_at xs ys) \<and> current_block_offset w \<le> BLOCK_SIZE \<and> log_block_size w = BLOCK_SIZE"

definition status_ok :: "version_status \<Rightarrow> bool" where
  "status_ok st \<longleftrightarrow> vlog_writer_ok (fst (ver_log_writer st)) \<and> btree_get (vs_logs st) (snd (ver_log_writer st)) \<noteq> None"

lemma add_record_ok:
  assumes "int_encoding c" "vlog_writer_ok w"
  shows "\<exists>n w'. add_record c w r = Some (Ok (n, w')) \<and> vlog_writer_ok w'"
proof -
  obtain xs ys off where w: "w = \<lparr>dst = file_at xs ys, current_block_offset = off, log_block_size = BLOCK_SIZE\<rparr>" "off \<le> BLOCK_SIZE"
    using assms(2) by (cases w) (auto simp: vlog_writer_ok_def)
  show ?thesis
    using int_encoding.add_record_at [OF assms(1) block_size_facts(1) w(2), of xs ys r] log_encode_offset [OF w(2)]
    by (auto simp: w(1) vlog_writer_ok_def) blast
qed

lemma vlog_writer_ok_new: "vlog_writer_ok (log_writer_new \<lparr>contents = bs, position = 0\<rparr>)"
  by (auto simp: vlog_writer_ok_def log_writer_new_at)

text \<open>The log of the status is the stream of the edits \<open>ws\<close>, written from the start of the file.\<close>

definition log_of :: "crates \<Rightarrow> bincode \<Rightarrow> wire_edit list list \<Rightarrow> bytes \<times> nat" where
  "log_of c bc ws = log_stream c BLOCK_SIZE 0 (map (bc_serialize bc) ws)"

fun wire_ok :: "wire_edit \<Rightarrow> bool" where
  "wire_ok (Wire_DeleteFile gens level m) \<longleftrightarrow> True"
| "wire_ok (Wire_NewFile ws level index m) \<longleftrightarrow>
     (\<forall>w\<in>set ws. case ws_seeks w of None \<Rightarrow> True | Some n \<Rightarrow> n \<le> 101)"

fun edit_scopes :: "version_edit \<Rightarrow> scope set" where
  "edit_scopes (DeleteFile gens level m) = {}"
| "edit_scopes (NewFile scopes level index m) = set scopes"

lemma wire_ok_to_wire:
  assumes "counters_ok cs" "\<forall>s\<in>edit_scopes e. seeks_ok cs s"
  shows "wire_ok (edit_to_wire cs e)"
proof (cases e)
  case (NewFile ss level index m)
  have "cs ! i \<le> 101" if "s \<in> set ss" "allowed_seeks s = Some i" for s i
    using assms NewFile that by (auto simp: seeks_ok_def counters_ok_def)
  then show ?thesis by (auto simp: NewFile scope_to_wire_def split: option.splits)
qed simp

definition status_logs :: "crates \<Rightarrow> bincode \<Rightarrow> version_status \<Rightarrow> wire_edit list list \<Rightarrow> bool" where
  "status_logs c bc st ws \<longleftrightarrow>
     (\<exists>gen. vs_logs st = [(gen, fst (log_of c bc ws))] \<and>
        ver_log_writer st = (\<lparr>dst = file_at (fst (log_of c bc ws)) [], current_block_offset = snd (log_of c bc ws),
          log_block_size = BLOCK_SIZE\<rparr>, gen)) \<and>
     (\<exists>V tag. load_from_log (map wire_strip (concat ws)) = Ok (V, tag) \<and> same_tables V (vs_version st)) \<and>
     (\<forall>w\<in>set (concat ws). wire_ok w)"

lemma log_of_snoc:
  "log_of c bc (ws @ [w]) =
   (fst (log_of c bc ws) @ fst (log_encode c BLOCK_SIZE (snd (log_of c bc ws)) True (bc_serialize bc w)),
    snd (log_encode c BLOCK_SIZE (snd (log_of c bc ws)) True (bc_serialize bc w)))"
  by (simp add: log_of_def log_stream_snoc)

lemma log_of_offset: "snd (log_of c bc ws) \<le> BLOCK_SIZE"
  by (simp add: log_of_def log_stream_offset)

lemma status_add_record_ok:
  assumes "int_encoding c" "vlog_writer_ok (fst (ver_log_writer st))"
  shows "\<exists>st'. status_add_record c st r = Some (Ok st') \<and> status_ok st' \<and> vs_version st' = vs_version st \<and>
    vs_loader st' = vs_loader st \<and>
    (\<forall>g. btree_get (vs_logs st) g \<noteq> None \<longrightarrow> btree_get (vs_logs st') g \<noteq> None)"
  using add_record_ok [OF assms, of r] by (auto simp: status_add_record_def status_ok_def btree_get_def)

lemma write_snap_shot_ok:
  assumes "int_encoding c" "status_ok st"
  shows "\<exists>st' gen_buf'. write_snap_shot c bc cs st gen_buf = Some (Ok (st', gen_buf')) \<and> vs_version st' = vs_version st \<and>
    vs_loader st' = vs_loader st \<and> vlog_writer_ok (fst (ver_log_writer st'))"
proof -
  obtain new_gen gen_buf' bs d where g: "gen_create gen_buf = (new_gen, gen_buf')" "open_or_create (vs_logs st) new_gen = (bs, d)"
    by fastforce
  let ?old = "snd (ver_log_writer st)"
  let ?st1 = "st\<lparr>ver_log_writer := (log_writer_new \<lparr>contents = bs, position = 0\<rparr>, new_gen), vs_logs := d\<rparr>"
  let ?r = "bc_serialize bc (map (edit_to_wire cs) (to_vec_edit (vs_version st)))"
  have old: "btree_get d ?old \<noteq> None"
    using assms(2) g(2) by (auto simp: status_ok_def open_or_create_def btree_get_def split: option.splits)
  obtain st2 where st2: "status_add_record c ?st1 ?r = Some (Ok st2)" "status_ok st2" "vs_version st2 = vs_version st"
      "vs_loader st2 = vs_loader st" "btree_get (vs_logs st2) ?old \<noteq> None"
    using status_add_record_ok [OF assms(1), of ?st1 ?r] old vlog_writer_ok_new by auto
  then show ?thesis
    using g by (auto simp: write_snap_shot_def factory_writer_def factory_clean_def status_ok_def Let_def)
qed

lemma log_and_apply_ok:
  assumes "int_encoding c" "status_ok st" "version_apply (vs_version st) edits = Ok (V, tag)"
  shows "\<exists>st' gen_buf'. log_and_apply c bc cs st edits threshold gen_buf = Some (Ok ((st', tag), gen_buf')) \<and>
    status_ok st' \<and> vs_version st' = V \<and> vs_loader st' = vs_loader st"
proof -
  let ?st = "st\<lparr>edit_approximate_count := edit_approximate_count st + 1\<rparr>"
  let ?first = "if edit_approximate_count st \<ge> threshold then write_snap_shot c bc cs st gen_buf else Some (Ok (?st, gen_buf))"
  have "\<exists>st1 gen_buf'. ?first = Some (Ok (st1, gen_buf')) \<and> vs_loader st1 = vs_loader st \<and> vlog_writer_ok (fst (ver_log_writer st1))"
    using write_snap_shot_ok [OF assms(1,2), of bc cs gen_buf] assms(2) by (auto simp: status_ok_def)
  then obtain st1 gen_buf' where st1: "?first = Some (Ok (st1, gen_buf'))"
      "vs_loader st1 = vs_loader st" "vlog_writer_ok (fst (ver_log_writer st1))" by blast
  obtain st2 where "status_add_record c st1 (bc_serialize bc (map (edit_to_wire cs) edits)) = Some (Ok st2)"
      "status_ok st2" "vs_loader st2 = vs_loader st"
    using status_add_record_ok [OF assms(1) st1(3)] st1(2) by metis
  then show ?thesis using st1(1) assms(3) by (auto simp: log_and_apply_def status_ok_def)
qed

text \<open>A snapshot is faithful if level 0 is not empty and every level is in the order of the generations.\<close>

definition snapshot_safe :: "version \<Rightarrow> bool" where
  "snapshot_safe V \<longleftrightarrow> length (level_slice V) = MAX_LEVEL \<and> level_slice V ! 0 \<noteq> [] \<and>
     (\<forall>l\<in>set (level_slice V). sorted (map scope_gen l))"

lemma snapshot_weight: "edits_weight (to_vec_edit V) \<le> vm_size_of_disk (meta_data V) + vm_len (meta_data V)"
proof -
  let ?f = "\<lambda>(level, vec_scope). if vec_scope \<noteq> []
      then Some (NewFile vec_scope level 0 (sst_meta_by_level level (version_size_of_disk V) (version_len V))) else None"
  have "edits_weight (List.map_filter ?f (enumerate (Suc n) ls)) = 0" for n ls
    by (induction ls arbitrary: n) (auto simp: map_filter_simps sst_meta_by_level_def meta_default_def LEVEL_0_def)
  then show ?thesis
    by (cases "level_slice V")
      (simp_all add: to_vec_edit_def map_filter_simps sst_meta_by_level_def LEVEL_0_def version_size_of_disk_def version_len_def)
qed

lemma edit_weight_strip: "edit_weight (strip_edit e) = edit_weight e"
  by (cases e) simp_all

lemma log_weight_edits: "log_weight [map (edit_to_wire cs) es] = edits_weight es"
    "log_weight (ws @ [map (edit_to_wire cs) es]) = log_weight ws + edits_weight es"
  by (simp_all add: log_weight_def edits_weight_def edit_weight_strip comp_def)

lemma snapshot_safe_load:
  assumes "snapshot_safe V" "meta_in_range (meta_data V)"
  shows "\<exists>V' tag. load_from_log (map wire_strip (map (edit_to_wire cs) (to_vec_edit V))) = Ok (V', tag) \<and> same_tables V' V"
proof -
  obtain V1 t where V1: "load_from_log (to_vec_edit V) = Ok (V1, t)" "level_slice V1 = level_slice V" "meta_data V1 = meta_data V"
    using snapshot_load [OF _ assms(2)] assms(1) unfolding snapshot_safe_def
    by (fastforce simp: sort_key_id_if_sorted map_idI)
  have "same_tables (\<lparr>version_num = 0, level_slice = level_slice_new, meta_data = \<lparr>vm_size_of_disk = 0, vm_len = 0\<rparr>\<rparr>)
     \<lparr>version_num = 0, level_slice = level_slice_new, meta_data = \<lparr>vm_size_of_disk = 0, vm_len = 0\<rparr>\<rparr>"
    by (simp add: same_tables_def)
  moreover have "map strip_edit (to_vec_edit V) = map strip_edit (map wire_strip (map (edit_to_wire cs) (to_vec_edit V)))"
  proof -
    have "strip_edit (strip_edit e) = strip_edit e" for e by (cases e) (simp_all add: strip_def)
    then show ?thesis by simp
  qed
  ultimately obtain V2 t2 where "load_from_log (map wire_strip (map (edit_to_wire cs) (to_vec_edit V))) = Ok (V2, t2)"
      "same_tables V1 V2"
    using version_apply_same V1(1) unfolding load_from_log_def by blast
  then show ?thesis using V1(2,3) by (auto simp: same_tables_def)
qed

lemma status_logs_ok: "status_logs c bc st ws \<Longrightarrow> status_ok st"
  by (auto simp: status_logs_def status_ok_def vlog_writer_ok_def log_of_offset btree_get_def) blast

text \<open>Appending edits to a log that holds the versions so far, and starting a new log with a snapshot.\<close>

lemma status_add_record_logs:
  assumes "int_encoding c" "status_logs c bc st ws" and cs: "counters_ok cs" "\<forall>e\<in>set edits. \<forall>s\<in>edit_scopes e. seeks_ok cs s"
    and "version_apply (vs_version st) edits = Ok (V, tag)" "status_add_record c st (bc_serialize bc (map (edit_to_wire cs) edits)) = Some (Ok st')"
    and room: "log_weight ws + edits_weight edits \<le> u64_MAX"
  shows "status_logs c bc (st'\<lparr>vs_version := V\<rparr>) (ws @ [map (edit_to_wire cs) edits])"
proof -
  let ?w = "map (edit_to_wire cs) edits"
  obtain gen where gen: "vs_logs st = [(gen, fst (log_of c bc ws))]"
      "ver_log_writer st = (\<lparr>dst = file_at (fst (log_of c bc ws)) [], current_block_offset = snd (log_of c bc ws),
        log_block_size = BLOCK_SIZE\<rparr>, gen)"
    using assms(2) by (auto simp: status_logs_def)
  obtain V0 t0 where V0: "load_from_log (map wire_strip (concat ws)) = Ok (V0, t0)" "same_tables V0 (vs_version st)"
    using assms(2) by (auto simp: status_logs_def)
  have "same_tables (vs_version st) V0" using V0(2) by (simp add: same_tables_def)
  moreover have "map strip_edit edits = map strip_edit (map wire_strip ?w)"
  proof -
    have "strip_edit (strip_edit e) = strip_edit e" for e by (cases e) (simp_all add: strip_def)
    then show ?thesis by simp
  qed
  ultimately obtain V1 t1 where V1: "version_apply V0 (map wire_strip ?w) = Ok (V1, t1)" "same_tables V V1"
    using version_apply_same assms(5) by blast
  have "\<exists>V2 t2. load_from_log (map wire_strip (concat (ws @ [?w]))) = Ok (V2, t2) \<and> same_tables V2 V"
    using version_apply_append [OF V0(1) [unfolded load_from_log_def] V1(1)] V1(2) room
    by (auto simp: load_from_log_def same_tables_def log_weight_def edits_weight_def edit_weight_strip comp_def)
  then show ?thesis
    using assms(6) gen wire_ok_to_wire [OF cs(1)] cs(2) assms(2) int_encoding.add_record_at [OF assms(1) block_size_facts(1) log_of_offset [of c bc ws], of "fst (log_of c bc ws)" "[]" "bc_serialize bc ?w"]
    by (auto simp: status_add_record_def status_logs_def log_of_snoc)
qed

lemma status_logs_weight:
  assumes "status_logs c bc st ws"
  shows "vm_size_of_disk (meta_data (vs_version st)) + vm_len (meta_data (vs_version st)) \<le> log_weight ws"
proof -
  obtain V tag where V: "load_from_log (map wire_strip (concat ws)) = Ok (V, tag)" "meta_data V = meta_data (vs_version st)"
    using assms by (auto simp: status_logs_def same_tables_def)
  then show ?thesis using version_apply_weight [OF V(1) [unfolded load_from_log_def]] by (simp add: log_weight_def meta_in_range_def)
qed

lemma write_snap_shot_logs:
  assumes "int_encoding c" "status_logs c bc st ws" "snapshot_safe (vs_version st)"
    and cs: "counters_ok cs" "\<forall>l\<in>set (level_slice (vs_version st)). \<forall>s\<in>set l. seeks_ok cs s"
    and "snd (ver_log_writer st) < gen_buf" "write_snap_shot c bc cs st gen_buf = Some (Ok (st', gen_buf'))"
    and room: "log_weight ws \<le> u64_MAX"
  shows "status_logs c bc st' [map (edit_to_wire cs) (to_vec_edit (vs_version st))] \<and>
    log_weight [map (edit_to_wire cs) (to_vec_edit (vs_version st))] \<le> log_weight ws \<and> vs_version st' = vs_version st \<and>
    snd (ver_log_writer st') = gen_buf \<and> gen_buf' = snd (gen_create gen_buf)"
proof -
  let ?w = "map (edit_to_wire cs) (to_vec_edit (vs_version st))"
  obtain gen where gen: "vs_logs st = [(gen, fst (log_of c bc ws))]" "snd (ver_log_writer st) = gen"
    using assms(2) by (auto simp: status_logs_def)
  let ?new = "fst (gen_create gen_buf)"
  have new: "?new = gen_buf" by (simp add: gen_create_def)
  let ?writer = "\<lparr>dst = file_at [] [], current_block_offset = 0, log_block_size = BLOCK_SIZE\<rparr>"
  have first: "log_writer_new \<lparr>contents = [], position = 0\<rparr> = ?writer" by (simp add: log_writer_new_at)
  have nil: "log_of c bc [?w] = log_encode c BLOCK_SIZE 0 True (bc_serialize bc ?w)"
    by (simp add: log_of_def Let_def prod_eq_iff)
  obtain n where n: "add_record c ?writer (bc_serialize bc ?w) = Some (Ok (n, \<lparr>dst = file_at (fst (log_of c bc [?w])) [],
      current_block_offset = snd (log_of c bc [?w]), log_block_size = BLOCK_SIZE\<rparr>))"
    using int_encoding.add_record_at [OF assms(1) block_size_facts(1) le0, of "[]" "[]" "bc_serialize bc ?w"]
    unfolding nil by auto
  have "\<forall>e\<in>set (to_vec_edit (vs_version st)). \<forall>s\<in>edit_scopes e. seeks_ok cs s"
    using cs(2) by (auto simp: to_vec_edit_def map_filter_def in_set_enumerate_eq split: if_splits)
  then have "\<forall>w\<in>set ?w. wire_ok w" using wire_ok_to_wire [OF cs(1)] by auto
  moreover have "log_weight [?w] \<le> log_weight ws"
    using snapshot_weight [of "vs_version st"] status_logs_weight [OF assms(2)] by (simp only: log_weight_edits)
  moreover have "meta_in_range (meta_data (vs_version st))"
    using status_logs_weight [OF assms(2)] room by (simp add: meta_in_range_def u64_MAX_def usize_MAX_def)
  ultimately show ?thesis
    using assms(6,7) gen n snapshot_safe_load [OF assms(3), of cs] new
    by (auto simp: write_snap_shot_def status_add_record_def factory_writer_def open_or_create_def btree_get_def first Let_def
        factory_clean_def status_logs_def gen_create_def)
qed

lemma log_and_apply_logs:
  assumes "int_encoding c" "status_logs c bc st ws" "snd (ver_log_writer st) < gen_buf" "0 \<le> gen_buf" "gen_buf < i64_MAX"
    and "log_and_apply c bc cs st edits threshold gen_buf = Some (Ok ((st', tag), gen_buf'))"
    and cs: "counters_ok cs" "\<forall>e\<in>set edits. \<forall>s\<in>edit_scopes e. seeks_ok cs s"
      "\<forall>l\<in>set (level_slice (vs_version st)). \<forall>s\<in>set l. seeks_ok cs s"
    and safe: "threshold \<le> edit_approximate_count st \<Longrightarrow> snapshot_safe (vs_version st)"
    and room: "log_weight ws + edits_weight edits \<le> u64_MAX"
  shows "(\<exists>ws'. status_logs c bc st' ws' \<and> log_weight ws' \<le> log_weight ws + edits_weight edits) \<and> snd (ver_log_writer st') < gen_buf' \<and> gen_buf \<le> gen_buf'"
proof -
  let ?st = "st\<lparr>edit_approximate_count := edit_approximate_count st + 1\<rparr>"
  let ?first = "if edit_approximate_count st \<ge> threshold then write_snap_shot c bc cs st gen_buf else Some (Ok (?st, gen_buf))"
  obtain st1 g1 st2 V where run: "?first = Some (Ok (st1, g1))"
      "status_add_record c st1 (bc_serialize bc (map (edit_to_wire cs) edits)) = Some (Ok st2)"
      "version_apply (vs_version st) edits = Ok (V, tag)" "st' = st2\<lparr>vs_version := V\<rparr>" "g1 = gen_buf'"
    using assms(6) unfolding log_and_apply_def by (auto elim!: bind_oo_OkE split: prod.splits)
  have first: "\<exists>ws1. status_logs c bc st1 ws1 \<and> log_weight ws1 \<le> log_weight ws \<and> vs_version st1 = vs_version st \<and> snd (ver_log_writer st1) < g1 \<and> gen_buf \<le> g1"
  proof (cases "threshold \<le> edit_approximate_count st")
    case True
    then show ?thesis using run(1) write_snap_shot_logs [OF assms(1,2) safe cs(1,3) assms(3)] create_next(2) [OF assms(4,5)] room by auto
  next
    case False
    then have "st1 = ?st" "g1 = gen_buf" using run(1) by simp_all
    moreover have "status_logs c bc ?st ws" using assms(2) by (simp add: status_logs_def)
    ultimately show ?thesis using assms(3) by auto
  qed
  then obtain ws1 where ws1: "status_logs c bc st1 ws1" "log_weight ws1 \<le> log_weight ws" "vs_version st1 = vs_version st"
      "snd (ver_log_writer st1) < g1" "gen_buf \<le> g1" by blast
  have "snd (ver_log_writer st2) = snd (ver_log_writer st1)"
    using run(2) by (auto simp: status_add_record_def elim!: bind_oo_OkE)
  moreover have "status_logs c bc st' (ws1 @ [map (edit_to_wire cs) edits])"
    unfolding run(4) using run(3) ws1(2,3) room by (intro status_add_record_logs [OF assms(1) ws1(1) cs(1,2) _ run(2)]) simp_all
  moreover have "log_weight (ws1 @ [map (edit_to_wire cs) edits]) \<le> log_weight ws + edits_weight edits"
    using ws1(2) by (simp add: log_weight_edits)
  ultimately show ?thesis using run(4,5) ws1(4,5) by auto
qed

text \<open>Reading edits back extends the counters; the new scopes refer to counters in range.\<close>

lemma seeks_ok_append: "seeks_ok cs s \<Longrightarrow> seeks_ok (cs @ ext) s"
  by (auto simp: seeks_ok_def split: option.splits)

lemma scopes_from_wire_counters:
  assumes "counters_ok cs" "\<forall>w\<in>set ws. case ws_seeks w of None \<Rightarrow> True | Some n \<Rightarrow> n \<le> 101"
  shows "\<exists>ss ext. scopes_from_wire ws cs = (ss, cs @ ext) \<and> counters_ok (cs @ ext) \<and> (\<forall>s\<in>set ss. seeks_ok (cs @ ext) s)"
  using assms
proof (induction ws arbitrary: cs)
  case (Cons w ws)
  have "\<exists>s m1. scope_from_wire w cs = (s, cs @ m1) \<and> counters_ok (cs @ m1) \<and> seeks_ok (cs @ m1) s"
    using Cons.prems by (auto simp: scope_from_wire_def counters_ok_def seeks_ok_def split: option.splits)
  then obtain s m1 where s: "scope_from_wire w cs = (s, cs @ m1)" "counters_ok (cs @ m1)" "seeks_ok (cs @ m1) s" by blast
  obtain ss m2 where "scopes_from_wire ws (cs @ m1) = (ss, (cs @ m1) @ m2)" "counters_ok ((cs @ m1) @ m2)"
      "\<forall>s\<in>set ss. seeks_ok ((cs @ m1) @ m2) s"
    using Cons.IH [OF s(2)] Cons.prems(2) by auto
  then show ?case using s seeks_ok_append [OF s(3), of m2] by auto
qed simp

lemma edits_from_wire_counters:
  assumes "counters_ok cs" "\<forall>w\<in>set ws. wire_ok w"
  shows "\<exists>es ext. edits_from_wire ws cs = (es, cs @ ext) \<and> counters_ok (cs @ ext) \<and>
    (\<forall>e\<in>set es. \<forall>s\<in>edit_scopes e. seeks_ok (cs @ ext) s)"
  using assms
proof (induction ws arbitrary: cs)
  case (Cons w ws)
  show ?case
  proof (cases w)
    case (Wire_DeleteFile gens level m)
    then show ?thesis using Cons.IH [OF Cons.prems(1)] Cons.prems(2) by auto
  next
    case (Wire_NewFile scopes level index m)
    then obtain ss m1 where ss: "scopes_from_wire scopes cs = (ss, cs @ m1)" "counters_ok (cs @ m1)" "\<forall>s\<in>set ss. seeks_ok (cs @ m1) s"
      using scopes_from_wire_counters [OF Cons.prems(1), of scopes] Cons.prems(2) by auto
    obtain es m2 where "edits_from_wire ws (cs @ m1) = (es, (cs @ m1) @ m2)" "counters_ok ((cs @ m1) @ m2)"
        "\<forall>e\<in>set es. \<forall>s\<in>edit_scopes e. seeks_ok ((cs @ m1) @ m2) s"
      using Cons.IH [OF ss(2)] Cons.prems(2) by auto
    then show ?thesis using ss seeks_ok_append [of "cs @ m1" _ m2] Wire_NewFile by auto
  qed
qed simp

text \<open>The scopes of a version come from its predecessor and the edits.\<close>

lemma apply_edit_scopes:
  assumes "apply_edit e (ls, del, stats) = Ok (ls', del', stats')" "\<forall>l\<in>set ls. \<forall>s\<in>set l. P s" "\<forall>s\<in>edit_scopes e. P s"
  shows "\<forall>l\<in>set ls'. \<forall>s\<in>set l. P s"
proof (cases e)
  case (DeleteFile gens level m)
  then have "level < length ls" "ls' = ls[level := filter (\<lambda>scope. scope_gen scope \<notin> set gens) (ls ! level)]"
    using assms(1) by (auto simp: index_slice_def split: if_splits)
  then show ?thesis using assms(2) nth_mem by (fastforce dest!: set_update_subset_insert [THEN subsetD])
next
  case (NewFile ss level index m)
  have push: "push_scopes xs level ls = Ok ls1 \<Longrightarrow> \<forall>l\<in>set ls. \<forall>s\<in>set l. P s \<Longrightarrow> \<forall>s\<in>set xs. P s \<Longrightarrow> \<forall>l\<in>set ls1. \<forall>s\<in>set l. P s" for xs ls ls1
    by (induction xs arbitrary: ls)
      (fastforce simp: index_slice_def and_then_Ok_iff split: if_splits dest!: set_update_subset_insert [THEN subsetD])+
  have insert: "insert_scopes xs level index ls = Ok ls1 \<Longrightarrow> \<forall>l\<in>set ls. \<forall>s\<in>set l. P s \<Longrightarrow> \<forall>s\<in>set xs. P s \<Longrightarrow> \<forall>l\<in>set ls1. \<forall>s\<in>set l. P s" for xs ls ls1
  proof (induction xs arbitrary: ls)
    case (Cons x xs)
    then obtain l where l: "level < length ls" "insert_scopes xs level index (ls[level := take index (ls ! level) @ x # drop index (ls ! level)]) = Ok ls1"
      by (auto simp: index_slice_def vec_insert_def and_then_Ok_iff split: if_splits)
    then have "\<forall>s\<in>set (ls ! level). P s" using Cons.prems(2) nth_mem by blast
    then have "\<forall>l\<in>set (ls[level := take index (ls ! level) @ x # drop index (ls ! level)]). \<forall>s\<in>set l. P s"
      using Cons.prems(2,3) by (auto dest!: set_update_subset_insert [THEN subsetD] in_set_takeD in_set_dropD)
    then show ?case using Cons.IH [OF l(2)] Cons.prems(3) by simp
  qed simp
  have "\<forall>s\<in>set (sort_key scope_gen ss). P s" "\<forall>s\<in>set (rev (sort_key scope_gen ss)). P s"
    using assms(3) NewFile by simp_all
  moreover have "push_scopes (sort_key scope_gen ss) level ls = Ok ls' \<or>
      insert_scopes (rev (sort_key scope_gen ss)) level index ls = Ok ls'"
    using assms(1) by (auto simp: NewFile Let_def map_outcome_ok_Ok_iff split: if_splits)
  ultimately show ?thesis using push [OF _ assms(2)] insert [OF _ assms(2)] by blast
qed

lemma apply_loop_scopes:
  assumes "apply_loop es (ls, del, stats) = Ok (ls', del', stats')" "\<forall>l\<in>set ls. \<forall>s\<in>set l. P s" "\<forall>e\<in>set es. \<forall>s\<in>edit_scopes e. P s"
  shows "\<forall>l\<in>set ls'. \<forall>s\<in>set l. P s"
  using assms
proof (induction es arbitrary: ls del stats)
  case (Cons e es)
  obtain ls1 del1 stats1 where "apply_edit e (ls, del, stats) = Ok (ls1, del1, stats1)" "apply_loop es (ls1, del1, stats1) = Ok (ls', del', stats')"
    using Cons.prems(1) by (auto simp: and_then_Ok_iff)
  then show ?case using apply_edit_scopes [of e ls del stats ls1 del1 stats1 P] Cons.IH Cons.prems(2,3) by auto
qed simp

lemma loader_new_restart:
  assumes "table_cache_size cfg mod 16 = 0" "0 < table_cache_size cfg" "block_cache_size cfg mod 16 = 0" "0 < block_cache_size cfg"
    and "\<And>gen kvs. content gen = Some kvs \<Longrightarrow> backed c hs tbls files wal gen kvs"
  shows "\<exists>L. loader_new cfg files wal hash1 hash2 = Ok L \<and> loader_inv c hs tbls content L"
proof -
  obtain S :: "(i64, box_table) sharding_lru_cache"
    where S: "sharding_new (table_cache_size cfg) 16 hash1 = Ok S" "sharding_inv S" "sharding_peek S = (\<lambda>_. None)"
    using sharding_new_inv [of 16 "table_cache_size cfg" hash1] assms by auto
  obtain T :: block_cache
    where T: "sharding_new (block_cache_size cfg) 16 hash2 = Ok T" "sharding_inv T" "sharding_peek T = (\<lambda>_. None)"
    using sharding_new_inv [of 16 "block_cache_size cfg" hash2] assms by auto
  show ?thesis using S T assms(5) by (auto simp: loader_new_def loader_inv_def cache_sound_def)
qed

lemma same_tables_ok:
  assumes same: "same_tables V W" and W: "version_ok content cs W" and seeks: "\<forall>l\<in>set (level_slice V). \<forall>s\<in>set l. seeks_ok cs' s"
  shows "version_ok content cs' V" "version_data content V = version_data content W"
proof -
  have len: "length (level_slice V) = MAX_LEVEL" "length (level_slice W) = MAX_LEVEL"
    using same W by (metis same_tables_def length_map version_ok_def, simp add: version_ok_def)
  have eq: "map strip (level_slice V ! i) = map strip (level_slice W ! i)" if "i < MAX_LEVEL" for i
    using same len that unfolding same_tables_def by (metis nth_map)
  have live: "scope_live content (strip s) = scope_live content s" "scope_data content (strip s) = scope_data content s" for s
    by (simp_all add: scope_live_def scope_data_def covers_def meet_by_key_def scope_wf_def)
  have data: "level_data content l = level_data content m" "level_data content (rev l) = level_data content (rev m)"
    if "map strip l = map strip m" for l m
  proof -
    have *: "level_data content (map strip l) = level_data content l" for l by (simp add: level_data_def live comp_def)
    show "level_data content l = level_data content m" using that * by metis
    show "level_data content (rev l) = level_data content (rev m)" using that * by (metis rev_map)
  qed
  have sorted: "level_sorted l = level_sorted m" if "map strip l = map strip m" for l m
  proof -
    have "level_sorted (map strip l) = level_sorted l" for l by (simp add: level_sorted_def sorted_wrt_map)
    then show ?thesis using that by metis
  qed
  have "scope_live content s" if s: "l \<in> set (level_slice V)" "s \<in> set l" for l s
  proof -
    obtain i where i: "i < MAX_LEVEL" "l = level_slice V ! i" using s(1) len(1) by (metis in_set_conv_nth)
    then have "strip s \<in> set (map strip (level_slice W ! i))" using eq [of i] s(2) by (metis image_eqI list.set_map)
    then obtain s' where "s' \<in> set (level_slice W ! i)" "strip s = strip s'" by auto
    moreover have "scope_live content s'"
      using W len(2) i(1) \<open>s' \<in> _\<close> nth_mem unfolding version_ok_def by metis
    ultimately show ?thesis using live by metis
  qed
  then show "version_ok content cs' V"
    using len seeks W sorted [OF eq] unfolding version_ok_def by blast
  have "level_data content (level_slice V ! i) = level_data content (level_slice W ! i)" if "i < MAX_LEVEL" for i
    using data(1) [OF eq [OF that]] .
  moreover have "level_data content (rev (level_slice V ! 0)) = level_data content (rev (level_slice W ! 0))"
    by (rule data(2), rule eq) (simp add: MAX_LEVEL_def)
  ultimately show "version_data content V = version_data content W"
    by (auto simp: version_data_def intro!: arg_cong [of _ _ concat])
qed

text \<open>The life of a status: created in an empty directory, then edits. The loader changes in between. The last argument is
  what the edits so far have added to the statistics, table sizes and lengths together, and stays within a \<open>u64\<close>.\<close>

inductive status_run :: "crates \<Rightarrow> bincode \<Rightarrow> version_status \<Rightarrow> i64 \<Rightarrow> nat \<Rightarrow> bool" for c bc where
  start: "load_with_path c bc cfg files wals [] hash1 hash2 g cs = Some (Ok ((st, tag), g', cs')) \<Longrightarrow>
     0 \<le> g \<Longrightarrow> g + 1 < i64_MAX \<Longrightarrow> status_run c bc st g' 0"
| edit: "status_run c bc st g n \<Longrightarrow> g \<le> g' \<Longrightarrow> g' < i64_MAX \<Longrightarrow>
     log_and_apply c bc cs st edits threshold g' = Some (Ok ((st', tag), g'')) \<Longrightarrow>
     counters_ok cs \<Longrightarrow> \<forall>e\<in>set edits. \<forall>s\<in>edit_scopes e. seeks_ok cs s \<Longrightarrow>
     \<forall>l\<in>set (level_slice (vs_version st)). \<forall>s\<in>set l. seeks_ok cs s \<Longrightarrow>
     threshold \<le> edit_approximate_count st \<longrightarrow> snapshot_safe (vs_version st) \<Longrightarrow>
     n + edits_weight edits \<le> u64_MAX \<Longrightarrow> status_run c bc st' g'' (n + edits_weight edits)"
| tables: "status_run c bc st g n \<Longrightarrow> status_run c bc (st\<lparr>vs_loader := L\<rparr>) g n"

lemma load_empty_log: "log_load c (version_decode bc) [] [] = Some (Ok [])"
  using read_loop_eof [OF block_size_facts(1) le0, of c "[]"]
  by (auto simp: log_load_def log_reader_new_def log_read_def load_loop.simps)

lemma load_with_path_empty:
  assumes "load_with_path c bc cfg files wals [] hash1 hash2 g cs = Some (Ok ((st, tag), g', cs'))" "0 \<le> g" "g + 1 < i64_MAX"
  shows "status_logs c bc st [] \<and> g' = g + 2 \<and> snd (ver_log_writer st) = g \<and> vs_version st =
    \<lparr>version_num = 1, level_slice = level_slice_new, meta_data = \<lparr>vm_size_of_disk = 0, vm_len = 0\<rparr>\<rparr> \<and> edit_approximate_count st = 0"
proof -
  have g: "gen_create g = (g, g + 1)" "gen_create (g + 1) = (g + 1, g + 2)"
    using create_next(2) [of g] create_next(2) [of "g + 1"] assms(2,3) by auto
  have "load_from_log [] = Ok (\<lparr>version_num = 1, level_slice = level_slice_new, meta_data = \<lparr>vm_size_of_disk = 0, vm_len = 0\<rparr>\<rparr>, Tag_Add 1 [])"
    by (simp add: load_from_log_def version_apply_def statistical_process_def)
  then show ?thesis
    using assms(1) unfolding load_with_path_def
    by (auto simp: snapshot_gen_def sorted_gen_list_def g log_loader_reload_def reload_gen_def log_loader_load_def
        factory_reader_def open_or_create_def btree_get_def load_empty_log log_loader_writer_def factory_writer_def seek_end_def
        file_seek_end_def log_writer_new_def status_logs_def log_of_def file_at_def same_tables_def elim!: bind_oo_OkE)
qed

lemma status_run_logs:
  assumes "int_encoding c" "status_run c bc st g n"
  shows "(\<exists>ws. status_logs c bc st ws \<and> log_weight ws \<le> n) \<and> snd (ver_log_writer st) < g \<and> 0 \<le> g"
  using assms(2)
proof induction
  case (start cfg files wals hash1 hash2 g cs st tag g' cs')
  then show ?case using load_with_path_empty [OF start] by (auto simp: log_weight_def intro!: exI [of _ "[]"])
next
  case (edit st g n g' cs edits threshold st' tag g'')
  then obtain ws where ws: "status_logs c bc st ws" "snd (ver_log_writer st) < g'" "0 \<le> g'" and le: "log_weight ws \<le> n" by auto
  have room: "log_weight ws + edits_weight edits \<le> u64_MAX" using le edit.hyps(9) by simp
  then obtain ws' where ws': "status_logs c bc st' ws'" "log_weight ws' \<le> log_weight ws + edits_weight edits"
      "snd (ver_log_writer st') < g''" "g' \<le> g''"
    using log_and_apply_logs [OF assms(1) ws edit.hyps(3,4,5,6,7) _ room] edit.hyps(8) by auto
  have "log_weight ws' \<le> n + edits_weight edits" using ws'(2) le by simp
  then show ?case using ws' ws(3) by auto
next
  case (tables st g n L)
  then show ?case by (auto simp: status_logs_def)
qed

text \<open>Reopening the log of a status.\<close>

lemma load_with_path_logs:
  assumes "int_encoding c" "bincode_codec bc" "status_logs c bc st ws" "counters_ok cs"
    and "loader_new cfg files wals hash1 hash2 = Ok L"
  shows "\<exists>st' tag g' cs'. load_with_path c bc cfg files wals (vs_logs st) hash1 hash2 g cs = Some (Ok ((st', tag), g', cs')) \<and>
    same_tables (vs_version st') (vs_version st) \<and> vs_loader st' = L \<and> counters_ok cs' \<and> g' = snd (gen_create g) \<and>
    edit_approximate_count st' = length (concat ws) \<and> status_ok st' \<and>
    (\<forall>l\<in>set (level_slice (vs_version st')). \<forall>s\<in>set l. seeks_ok cs' s)"
proof -
  obtain gen where gen: "vs_logs st = [(gen, fst (log_of c bc ws))]" using assms(3) by (auto simp: status_logs_def)
  obtain V0 t0 where V0: "load_from_log (map wire_strip (concat ws)) = Ok (V0, t0)" "same_tables V0 (vs_version st)"
    using assms(3) by (auto simp: status_logs_def)
  have "\<forall>w\<in>set (concat ws). wire_ok w" using assms(3) by (auto simp: status_logs_def)
  then obtain es cs' where es: "edits_from_wire (concat ws) cs = (es, cs')" "counters_ok cs'"
      "\<forall>e\<in>set es. \<forall>s\<in>edit_scopes e. seeks_ok cs' s"
    using edits_from_wire_counters [OF assms(4)] by blast
  let ?init = "\<lparr>version_num = 0, level_slice = level_slice_new, meta_data = \<lparr>vm_size_of_disk = 0, vm_len = 0\<rparr>\<rparr>"
  have idem: "strip_edit (wire_strip w) = wire_strip w" for w by (cases w) (simp_all add: strip_def)
  have "map strip_edit (map wire_strip (concat ws)) = map strip_edit es"
    using strip_edits_from_wire [of "concat ws" cs] es(1) idem by simp
  moreover have "same_tables ?init ?init" by (simp add: same_tables_def)
  ultimately obtain V tag where V: "load_from_log es = Ok (V, tag)" "same_tables V0 V"
    using version_apply_same V0(1) unfolding load_from_log_def by blast
  obtain ls del stats where "apply_loop es (level_slice_new, [], []) = Ok (ls, del, stats)" "level_slice V = ls"
    using V(1) by (auto simp: load_from_log_def version_apply_def Let_def and_then_Ok_iff)
  then have seeks: "\<forall>l\<in>set (level_slice V). \<forall>s\<in>set l. seeks_ok cs' s"
    using apply_loop_scopes [OF _ _ es(3)] by (simp add: level_slice_new_def)
  have "log_load c (version_decode bc) (fst (log_of c bc ws)) [] = Some (Ok (concat ws))"
    unfolding log_of_def by (rule bincode_codec.load_edits [OF assms(2,1)])
  then have reload: "log_loader_reload c (version_decode bc) (vs_logs st) (Some gen) g [] =
      Some (Ok (gen, concat ws, vs_logs st, snd (gen_create g)))"
    by (simp add: gen log_loader_reload_def reload_gen_def log_loader_load_def factory_reader_def open_or_create_def
        btree_get_def gen_create_def)
  have snap: "snapshot_gen (vs_logs st) g = Ok (gen, vs_logs st, g)"
    by (simp add: gen snapshot_gen_def sorted_gen_list_def)
  obtain w logs n w' where w: "log_loader_writer (vs_logs st) gen = (w, logs)" "seek_end w = (n, w')" by fastforce
  let ?st = "\<lparr>vs_version = V, ver_log_writer = (w', gen), vs_loader = L, vs_logs = logs, edit_approximate_count = length (concat ws)\<rparr>"
  have "load_with_path c bc cfg files wals (vs_logs st) hash1 hash2 g cs = Some (Ok ((?st, tag), snd (gen_create g), cs'))"
    using V(1) by (simp add: load_with_path_def assms(5) snap reload es(1) w del: length_concat)
  moreover have "same_tables V (vs_version st)" using V(2) V0(2) by (simp add: same_tables_def)
  moreover have "status_ok ?st"
    using w by (auto simp: gen log_loader_writer_def factory_writer_def open_or_create_def btree_get_def seek_end_def file_seek_end_def
        log_writer_new_def status_ok_def vlog_writer_ok_def file_at_def) (metis append_Nil2)
  ultimately show ?thesis using es(2) seeks by fastforce
qed

section \<open>Properties\<close>

text \<open>C10: \<open>VersionStatus\<close> survives the first crash. Take any edits that are logged and applied since the database was created, in one
  session, where snapshots are only taken of versions with a table in level 0 and with every level in generation order
  (\<open>snapshot_safe\<close>; \<open>snapshot_hides_table\<close> shows what happens otherwise) and the sizes and lengths of all tables ever added
  sum up to at most a \<open>u64\<close>. Opening the directories again succeeds, gives a version with the same tables in the same places and the same
  statistics, and that version answers every query as the one before the crash.\<close>

theorem version_recovery:
  assumes "int_encoding c" "bincode_codec bc" "status_run c bc st g n"
    and "loader_inv c hs tbls content (vs_loader st)" "version_ok content cs (vs_version st)"
    and "table_cache_size cfg mod 16 = 0" "0 < table_cache_size cfg" "block_cache_size cfg mod 16 = 0" "0 < block_cache_size cfg"
  shows "\<exists>st' tag g' cs'.
    load_with_path c bc cfg (tl_files (vs_loader st)) (tl_wal (vs_loader st)) (vs_logs st) hash1 hash2 g [] =
      Some (Ok ((st', tag), g', cs')) \<and>
    same_tables (vs_version st') (vs_version st) \<and>
    (\<forall>key. \<exists>miss L' cs''. version_query c hs (vs_version st') key (vs_loader st') cs' =
      Some (Ok ((map_option (\<lambda>v. (key, v)) (map_of (version_data content (vs_version st)) key), miss), L', cs'')))"
proof -
  obtain ws where ws: "status_logs c bc st ws" using status_run_logs [OF assms(1,3)] by blast
  have "backed c hs tbls (tl_files (vs_loader st)) (tl_wal (vs_loader st)) gen kvs" if "content gen = Some kvs" for gen kvs
    using assms(4) that by (simp add: loader_inv_def)
  then obtain L where L: "loader_new cfg (tl_files (vs_loader st)) (tl_wal (vs_loader st)) hash1 hash2 = Ok L"
      "loader_inv c hs tbls content L"
    using loader_new_restart [OF assms(6-9), of content c hs tbls] by blast
  obtain st' tag g' cs' where st': "load_with_path c bc cfg (tl_files (vs_loader st)) (tl_wal (vs_loader st)) (vs_logs st) hash1 hash2 g [] =
        Some (Ok ((st', tag), g', cs'))" "same_tables (vs_version st') (vs_version st)" "vs_loader st' = L" "counters_ok cs'"
      "\<forall>l\<in>set (level_slice (vs_version st')). \<forall>s\<in>set l. seeks_ok cs' s"
    using load_with_path_logs [OF assms(1,2) ws _ L(1), of "[]" g] by (auto simp: counters_ok_def)
  note ok = same_tables_ok [OF st'(2) assms(5) st'(5)]
  show ?thesis using st' version_query_holds [OF L(2) st'(4) ok(1)] ok(2) by fastforce
qed

text \<open>\<open>log_and_apply\<close> always returns if the edits fit the version: it installs exactly the edited version, with
  and without a snapshot, and leaves the log in a state where the next call works.\<close>

theorem log_and_apply_correct:
  assumes "int_encoding c" "status_ok st" "version_apply (vs_version st) edits = Ok (V, tag)"
  shows "\<exists>st' gen_buf'. log_and_apply c bc cs st edits threshold gen_buf = Some (Ok ((st', tag), gen_buf')) \<and>
    status_ok st' \<and> vs_version st' = V \<and> vs_loader st' = vs_loader st"
  by (rule log_and_apply_ok [OF assms])

lemma load_with_path_fresh:
  assumes "loader_new cfg files wals hash1 hash2 = Ok L" "0 \<le> g" "g + 1 < i64_MAX"
  shows "\<exists>st tag. load_with_path c bc cfg files wals [] hash1 hash2 g cs = Some (Ok ((st, tag), g + 2, cs)) \<and> vs_loader st = L"
proof -
  have g: "gen_create g = (g, g + 1)" "gen_create (g + 1) = (g + 1, g + 2)"
    using create_next(2) [of g] create_next(2) [of "g + 1"] assms(2,3) by auto
  have "load_from_log [] = Ok (\<lparr>version_num = 1, level_slice = level_slice_new, meta_data = \<lparr>vm_size_of_disk = 0, vm_len = 0\<rparr>\<rparr>, Tag_Add 1 [])"
    by (simp add: load_from_log_def version_apply_def statistical_process_def)
  then show ?thesis
    using assms(1)
    by (simp add: load_with_path_def snapshot_gen_def sorted_gen_list_def g log_loader_reload_def reload_gen_def log_loader_load_def
        factory_reader_def open_or_create_def btree_get_def load_empty_log log_loader_writer_def factory_writer_def seek_end_def file_seek_end_def)
qed


theorem version_recovery_witness:
  "\<exists>st g n st' tag g' cs'. status_run le_crates wire_bincode st g n \<and> level_slice (vs_version st) ! 1 \<noteq> [] \<and>
    load_with_path le_crates wire_bincode sample_config0 (tl_files (vs_loader st)) (tl_wal (vs_loader st)) (vs_logs st)
      (\<lambda>_. 0) (\<lambda>_. 0) g [] = Some (Ok ((st', tag), g', cs')) \<and>
    (\<exists>miss L' cs''. version_query le_crates sum_hashing (vs_version st') [1] (vs_loader st') cs' =
      Some (Ok ((Some ([1], Some [7]), miss), L', cs'')))"
proof -
  obtain L where L: "loader_new sample_config0 [] [(7, [])] (\<lambda>_. 0) (\<lambda>_. 0) = Ok L"
      "loader_inv le_crates sum_hashing Map.empty Map.empty L" "tl_config L = sample_config0" "tl_files L = []"
    using sample_loader by blast
  obtain st0 tag where st0: "load_with_path le_crates wire_bincode sample_config0 [] [(7, [])] [] (\<lambda>_. 0) (\<lambda>_. 0) 0 [] =
      Some (Ok ((st0, tag), 2, []))" "vs_loader st0 = L"
    using load_with_path_fresh [OF L(1), of 0 le_crates wire_bincode "[]"] by (auto simp: i64_MAX_def)
  have run0: "status_run le_crates wire_bincode st0 2 0" by (rule status_run.start [OF st0(1)]) (simp_all add: i64_MAX_def)
  have V0: "status_ok st0" "vs_version st0 = \<lparr>version_num = 1, level_slice = level_slice_new, meta_data = \<lparr>vm_size_of_disk = 0, vm_len = 0\<rparr>\<rparr>"
    using load_with_path_empty [OF st0(1)] status_logs_ok by (auto simp: i64_MAX_def)
  obtain scope meta L1 cs t0 where L1: "loader_create le_crates sum_hashing L [] (11, 22) 5 sample_pairs 1 SortedString =
        Ok ((scope, meta), L1, cs)" "from_sorted_vec_data [] 5 sample_pairs = Ok (scope, cs)"
      "loader_inv le_crates sum_hashing [5 \<mapsto> t0] [5 \<mapsto> sample_pairs] L1"
    using loader_create_holds [OF le.int_encoding_axioms le.lz4_codec_axioms L(2), of sample_pairs 5 "[]" "(11, 22)" 1] L
    by (fastforce simp: sample_storable btree_get_def)
  have s: "scope = \<lparr>scope_start = [1], scope_end = [2], scope_gen = 5, allowed_seeks = Some 0\<rparr>" "cs = [0]"
    using L1(2) by (auto simp: from_sorted_vec_data_def scope_from_range_def sample_pairs_def)
  have small: "meta_size_of_disk meta < 2 ^ 32" "meta_len meta < 2 ^ 32"
    using loader_create_small [OF le.int_encoding_axioms le.lz4_codec_axioms L(2) _ _ _ L1(1)] L by (simp_all add: sample_storable btree_get_def)
  let ?st1 = "st0\<lparr>vs_loader := L1\<rparr>" and ?edit = "NewFile [scope] 1 0 meta"
  let ?V = "\<lparr>version_num = 2, level_slice = [[], [scope], [], []],
    meta_data = \<lparr>vm_size_of_disk = meta_size_of_disk meta, vm_len = meta_len meta\<rparr>\<rparr>"
  have "version_apply (vs_version ?st1) [?edit] = Ok (?V, Tag_Add 2 [])"
    using small by (simp add: V0 version_apply_def level_slice_new_def apply_new_file LEVEL_0_def statistical_process_room room_for_def
        u64_MAX_def usize_MAX_def del: apply_edit.simps)
  moreover have "status_ok ?st1" using V0(1) by (simp add: status_ok_def)
  ultimately obtain st g where st: "log_and_apply le_crates wire_bincode cs ?st1 [?edit] 10 2 = Some (Ok ((st, Tag_Add 2 []), g))"
      "vs_version st = ?V" "vs_loader st = L1"
    using log_and_apply_ok [OF le.int_encoding_axioms, of ?st1 "[?edit]" ?V "Tag_Add 2 []" wire_bincode cs 10 2] by auto
  have count: "edit_approximate_count st0 = 0" using load_with_path_empty [OF st0(1)] by (simp add: i64_MAX_def)
  have run: "status_run le_crates wire_bincode st g (0 + edits_weight [?edit])"
    by (rule status_run.edit [OF status_run.tables [OF run0] _ _ st(1)])
      (use small in \<open>auto simp: i64_MAX_def counters_ok_def s seeks_ok_def V0(2) level_slice_new_def count u64_MAX_def\<close>)
  have ok: "version_ok [5 \<mapsto> sample_pairs] cs (vs_version st)"
    by (auto simp: st(2) version_ok_def MAX_LEVEL_def scope_live_def scope_data_def covers_def meet_by_key_def scope_wf_def seeks_ok_def
        level_sorted_def s sample_pairs_def less_Suc_eq numeral_eq_Suc nth_Cons')
  have data: "version_data [5 \<mapsto> sample_pairs] (vs_version st) = sample_pairs"
    by (simp add: st(2) version_data_def MAX_LEVEL_def upt_rec s scope_data_def)
  have inv: "loader_inv le_crates sum_hashing [5 \<mapsto> t0] [5 \<mapsto> sample_pairs] (vs_loader st)" using L1(3) st(3) by simp
  have sizes: "table_cache_size sample_config0 mod 16 = 0" "0 < table_cache_size sample_config0"
      "block_cache_size sample_config0 mod 16 = 0" "0 < block_cache_size sample_config0"
    by (simp_all add: sample_config0_def sample_config_def config_new_def DEFAULT_TABLE_CACHE_SIZE_def DEFAULT_BLOCK_CACHE_SIZE_def)
  have "level_slice (vs_version st) ! 1 \<noteq> []" by (simp add: st(2))
  moreover have "map_option (\<lambda>v. ([1], v)) (map_of sample_pairs [1]) = Some ([1], Some [7])" by (simp add: sample_pairs_def)
  ultimately show ?thesis
    using version_recovery [OF le.int_encoding_axioms wire.bincode_codec_axioms run inv ok sizes, of "\<lambda>_. 0" "\<lambda>_. 0"] run
    unfolding data by metis
qed

theorem log_and_apply_correct_witness:
  "\<exists>st g cs st' gen_buf' tag. load_with_path le_crates wire_bincode sample_config0 [] [] [] (\<lambda>_. 0) (\<lambda>_. 0) 0 [] =
      Some (Ok ((st, tag), g, cs)) \<and>
    log_and_apply le_crates wire_bincode cs st [NewFile [sample_scope [1] 9] 1 0 meta_default] 0 g =
      Some (Ok ((st', Tag_Add 2 []), gen_buf')) \<and>
    level_slice (vs_version st') = [[], [sample_scope [1] 9], [], []]"
proof -
  obtain L where "loader_new sample_config0 [] [] (\<lambda>_. 0) (\<lambda>_. 0) = Ok L"
    using loader_new_inv [of sample_config0 "[]" "[]" "\<lambda>_. 0" "\<lambda>_. 0"] by (auto simp: sample_config0_def sample_config_def config_new_def DEFAULT_TABLE_CACHE_SIZE_def DEFAULT_BLOCK_CACHE_SIZE_def)
  then obtain st tag where st: "load_with_path le_crates wire_bincode sample_config0 [] [] [] (\<lambda>_. 0) (\<lambda>_. 0) 0 [] =
      Some (Ok ((st, tag), 2, []))"
    using load_with_path_fresh [of sample_config0 "[]" "[]" "\<lambda>_. 0" "\<lambda>_. 0" L 0 le_crates wire_bincode "[]"]
    by (auto simp: i64_MAX_def)
  have V: "status_ok st" "vs_version st = \<lparr>version_num = 1, level_slice = level_slice_new, meta_data = \<lparr>vm_size_of_disk = 0, vm_len = 0\<rparr>\<rparr>"
    using load_with_path_empty [OF st] status_logs_ok by (auto simp: i64_MAX_def)
  then have "version_apply (vs_version st) [NewFile [sample_scope [1] 9] 1 0 meta_default] =
      Ok (\<lparr>version_num = 2, level_slice = [[], [sample_scope [1] 9], [], []], meta_data = \<lparr>vm_size_of_disk = 0, vm_len = 0\<rparr>\<rparr>, Tag_Add 2 [])"
    by (simp add: version_apply_def level_slice_new_def apply_new_file LEVEL_0_def statistical_process_room room_for_def meta_default_def
        u64_MAX_def usize_MAX_def del: apply_edit.simps)
  then show ?thesis
    using log_and_apply_correct [OF le.int_encoding_axioms V(1), of "[NewFile [sample_scope [1] 9] 1 0 meta_default]" _ _ wire_bincode "[]" 0 2] st
    by fastforce
qed


text \<open>Replaying a log whose last record crosses a block boundary without being split.\<close>

lemma load_misaligned:
  assumes "int_encoding c" "bincode_codec bc" "HEADER_SIZE \<le> BLOCK_SIZE - snd (log_of c bc ws)"
    and "HEADER_SIZE + length (bc_serialize bc w) \<le> BLOCK_SIZE" "BLOCK_SIZE < snd (log_of c bc ws) + HEADER_SIZE + length (bc_serialize bc w)"
  shows "log_load c (version_decode bc) (fst (log_of c bc ws) @ frame c Full (bc_serialize bc w)) [] = Some Panic"
proof -
  let ?r = "bc_serialize bc w" and ?off = "snd (log_of c bc ws)"
  have len: "length ?r < 2 ^ 32" using assms(4) block_size_facts(2) by simp
  have "log_load c (version_decode bc) (fst (log_of c bc ws) @ frame c Full ?r) [] =
      load_loop c (version_decode bc) \<lparr>src = frame c Full ?r, reader_offset = ?off, reader_block_size = BLOCK_SIZE\<rparr> (concat ws)"
    using int_encoding.load_loop_decode [OF assms(1) block_size_facts le0 bincode_codec.serialized_nonempty [OF assms(2), of ws],
        of "version_decode bc" "\<lambda>r recs. recs @ the (bc_deserialize bc r)" "frame c Full ?r" "[]"]
      bincode_codec.fold_version_decode [OF assms(2), of ws "[]"] bincode_codec.bincode_roundtrip [OF assms(2)]
    by (simp add: log_load_def log_reader_new_def log_of_def version_decode_def)
  moreover have "log_read c \<lparr>src = frame c Full ?r, reader_offset = ?off, reader_block_size = BLOCK_SIZE\<rparr> =
      Some (Ok (length ?r, ?r, \<lparr>src = [], reader_offset = ?off + HEADER_SIZE + length ?r, reader_block_size = BLOCK_SIZE\<rparr>))"
    using int_encoding.read_frame [OF assms(1) len assms(3) log_of_offset, of Full "[]" "[]"] by (simp add: log_read_def)
  moreover have "log_read c \<lparr>src = [], reader_offset = ?off + HEADER_SIZE + length ?r, reader_block_size = BLOCK_SIZE\<rparr> = Some Panic"
    using assms(5) by (simp add: log_read_def read_loop.simps)
  ultimately show ?thesis
    using bincode_codec.bincode_nonempty [OF assms(2), of w] bincode_codec.version_decode_serialized [OF assms(2), of w]
    by (simp add: load_loop.simps [of c _ "\<lparr>src = _, reader_offset = _, reader_block_size = _\<rparr>"])
qed

text \<open>A record that fits, written by a writer at the start of a block.\<close>

lemma log_and_apply_small:
  assumes "int_encoding c" "bincode_codec bc"
    and "ver_log_writer st = (\<lparr>dst = file_at xs [], current_block_offset = 0, log_block_size = BLOCK_SIZE\<rparr>, gen)"
    and "log_and_apply c bc cs st edits threshold g = Some (Ok ((st', tag), g'))" "edit_approximate_count st < threshold"
    and "r = bc_serialize bc (map (edit_to_wire cs) edits)" "HEADER_SIZE + length r \<le> BLOCK_SIZE"
  shows "ver_log_writer st' = (\<lparr>dst = file_at (xs @ frame c Full r) [], current_block_offset = HEADER_SIZE + length r,
      log_block_size = BLOCK_SIZE\<rparr>, gen)" "vs_logs st' = btree_insert gen (xs @ frame c Full r) (vs_logs st)"
proof -
  have r: "r \<noteq> []" using bincode_codec.bincode_nonempty [OF assms(2)] assms(6) by simp
  have "status_add_record c (st\<lparr>edit_approximate_count := edit_approximate_count st + 1\<rparr>) r =
      Some (Ok (st\<lparr>edit_approximate_count := edit_approximate_count st + 1,
        ver_log_writer := (\<lparr>dst = file_at (xs @ frame c Full r) [], current_block_offset = HEADER_SIZE + length r,
          log_block_size = BLOCK_SIZE\<rparr>, gen), vs_logs := btree_insert gen (xs @ frame c Full r) (vs_logs st)\<rparr>))"
    using int_encoding.add_record_at [OF assms(1) block_size_facts(1) le0, of xs "[]" r] assms(3)
    by (auto simp: status_add_record_def log_encode_small [OF r assms(7)])
  then show "ver_log_writer st' = (\<lparr>dst = file_at (xs @ frame c Full r) [], current_block_offset = HEADER_SIZE + length r,
      log_block_size = BLOCK_SIZE\<rparr>, gen)" "vs_logs st' = btree_insert gen (xs @ frame c Full r) (vs_logs st)"
    using assms(4-6) unfolding log_and_apply_def by (auto elim!: bind_oo_OkE split: if_splits)
qed

text \<open>C36: the version log does not survive a second restart. \<open>load_with_path\<close> appends with a \<open>LogWriter\<close> that takes
  the end of the file for the start of a block; the first edit after the restart that should have been
  split at a block boundary is written in one piece, and from then on opening the database panics.\<close>

theorem second_restart_panics:
  assumes "int_encoding c" "bincode_codec bc" "status_run c bc st g n" "counters_ok cs"
    and "loader_new cfg files wals hash1 hash2 = Ok L"
    and "load_with_path c bc cfg files wals (vs_logs st) hash1 hash2 g1 cs = Some (Ok ((st1, tag1), g2, cs1))"
    and "log_and_apply c bc cs2 st1 edits threshold g3 = Some (Ok ((st2, tag2), g4))" "edit_approximate_count st1 < threshold"
    and "r = bc_serialize bc (map (edit_to_wire cs2) edits)" "off = current_block_offset (fst (ver_log_writer st))"
    and "HEADER_SIZE + length r \<le> BLOCK_SIZE" "off + HEADER_SIZE \<le> BLOCK_SIZE" "BLOCK_SIZE < off + HEADER_SIZE + length r"
  shows "load_with_path c bc cfg files wals (vs_logs st2) hash1 hash2 g4 cs = Some Panic"
proof -
  obtain ws where ws: "status_logs c bc st ws" using status_run_logs [OF assms(1,3)] by blast
  then obtain gen where gen: "vs_logs st = [(gen, fst (log_of c bc ws))]" and off: "off = snd (log_of c bc ws)"
    using assms(10) by (auto simp: status_logs_def)
  let ?xs = "fst (log_of c bc ws)"
  have load: "log_load c (version_decode bc) ?xs [] = Some (Ok (concat ws))"
    unfolding log_of_def by (rule bincode_codec.load_edits [OF assms(2,1)])
  have st1: "vs_logs st1 = [(gen, ?xs)]"
      "ver_log_writer st1 = (\<lparr>dst = file_at ?xs [], current_block_offset = 0, log_block_size = BLOCK_SIZE\<rparr>, gen)"
    using assms(6) load unfolding load_with_path_def
    by (auto simp: gen snapshot_gen_def sorted_gen_list_def log_loader_reload_def reload_gen_def gen_create_def log_loader_load_def
        factory_reader_def open_or_create_def btree_get_def log_loader_writer_def factory_writer_def seek_end_def
        file_seek_end_def log_writer_new_def file_at_def Let_def split: prod.splits elim!: bind_oo_OkE)
  have logs: "vs_logs st2 = [(gen, ?xs @ frame c Full r)]"
    using log_and_apply_small(2) [OF assms(1,2) st1(2) assms(7,8,9,11)] st1(1) by simp
  have "log_load c (version_decode bc) (?xs @ frame c Full r) [] = Some Panic"
    using load_misaligned [OF assms(1,2)] assms(9,11,12,13) off by simp
  then show ?thesis
    by (simp add: load_with_path_def assms(5) logs snapshot_gen_def sorted_gen_list_def log_loader_reload_def reload_gen_def
        gen_create_def log_loader_load_def factory_reader_def open_or_create_def btree_get_def)
qed


definition large_edit :: version_edit where
  "large_edit = DeleteFile (replicate 10000 0) 1 meta_default"

lemma large_edit_length: "length (bc_serialize wire_bincode [edit_to_wire cs large_edit]) = 20007"
proof -
  have n: "length (wire_nat 10000) = 2" "length (wire_nat (Suc 0)) = 1" "length (wire_nat 0) = 1"
    by (simp_all add: wire_nat.simps)
  show ?thesis
    by (simp add: wire_bincode_def wire_list_def large_edit_def wire_meta_bytes_def meta_default_def wire_int_def n sum_list_replicate length_concat)
qed

lemma large_edit_apply:
  assumes "length (level_slice V) = MAX_LEVEL" "meta_in_range (meta_data V)"
  shows "\<exists>V' tag. version_apply V [large_edit] = Ok (V', tag) \<and> meta_in_range (meta_data V')"
  using assms by (simp add: version_apply_def large_edit_def index_slice_def MAX_LEVEL_def statistical_process_eq room_for_def meta_in_range_def
      meta_default_def Let_def)

lemma large_edit_levels:
  assumes "log_and_apply c bc cs st [large_edit] threshold g = Some (Ok ((st', tag), g'))"
  shows "length (level_slice (vs_version st')) = length (level_slice (vs_version st))"
  using assms unfolding log_and_apply_def
  by (auto simp: version_apply_def large_edit_def index_slice_def and_then_Ok_iff Let_def split: if_splits elim!: bind_oo_OkE)

theorem second_restart_panics_witness:
  "\<exists>st g n st1 tag1 g1 cs1 st2 tag2 g2 threshold. status_run le_crates wire_bincode st g n \<and>
    load_with_path le_crates wire_bincode sample_config0 [] [] (vs_logs st) (\<lambda>_. 0) (\<lambda>_. 0) g [] = Some (Ok ((st1, tag1), g1, cs1)) \<and>
    log_and_apply le_crates wire_bincode cs1 st1 [large_edit] threshold g1 = Some (Ok ((st2, tag2), g2)) \<and>
    load_with_path le_crates wire_bincode sample_config0 [] [] (vs_logs st2) (\<lambda>_. 0) (\<lambda>_. 0) g2 [] = Some Panic"
proof -
  obtain L where L: "loader_new sample_config0 [] [] (\<lambda>_. 0) (\<lambda>_. 0) = Ok L"
    using loader_new_inv [of sample_config0 "[]" "[]" "\<lambda>_. 0" "\<lambda>_. 0"]
    by (auto simp: sample_config0_def sample_config_def config_new_def DEFAULT_TABLE_CACHE_SIZE_def DEFAULT_BLOCK_CACHE_SIZE_def)
  obtain st0 tag where st0: "load_with_path le_crates wire_bincode sample_config0 [] [] [] (\<lambda>_. 0) (\<lambda>_. 0) 0 [] =
      Some (Ok ((st0, tag), 2, []))"
    using load_with_path_fresh [OF L, of 0 le_crates wire_bincode "[]"] by (auto simp: i64_MAX_def)
  have run0: "status_run le_crates wire_bincode st0 2 0" by (rule status_run.start [OF st0]) (simp_all add: i64_MAX_def)
  have V0: "status_logs le_crates wire_bincode st0 []" "vs_version st0 = \<lparr>version_num = 1, level_slice = level_slice_new, meta_data = \<lparr>vm_size_of_disk = 0, vm_len = 0\<rparr>\<rparr>"
    using load_with_path_empty [OF st0] by (auto simp: i64_MAX_def)
  obtain V1 t1 where "version_apply (vs_version st0) [large_edit] = Ok (V1, t1)" and V1: "meta_in_range (meta_data V1)"
    using large_edit_apply [of "vs_version st0"] by (auto simp: V0(2) level_slice_new_def MAX_LEVEL_def meta_in_range_def)
  then obtain st g where st: "log_and_apply le_crates wire_bincode [] st0 [large_edit] 1000 2 = Some (Ok ((st, t1), g))" "vs_version st = V1"
    using log_and_apply_ok [OF le.int_encoding_axioms status_logs_ok [OF V0(1)]] by blast
  have count0: "edit_approximate_count st0 = 0" "snd (ver_log_writer st0) = 0"
    using load_with_path_empty [OF st0] by (simp_all add: i64_MAX_def)
  have run: "status_run le_crates wire_bincode st g (0 + edits_weight [large_edit])"
    by (rule status_run.edit [OF run0 _ _ st(1)]) (auto simp: i64_MAX_def counters_ok_def V0(2) level_slice_new_def count0 large_edit_def)
  have w0: "ver_log_writer st0 = (\<lparr>dst = file_at [] [], current_block_offset = 0, log_block_size = BLOCK_SIZE\<rparr>, 0)"
    using V0(1) count0(2) by (auto simp: status_logs_def log_of_def)
  have off: "current_block_offset (fst (ver_log_writer st)) = 20016"
    using log_and_apply_small(1) [OF le.int_encoding_axioms wire.bincode_codec_axioms w0 st(1) _ refl]
    by (simp add: count0 large_edit_length HEADER_SIZE_def BLOCK_SIZE_def)
  obtain ws where ws: "status_logs le_crates wire_bincode st ws" using status_run_logs [OF le.int_encoding_axioms run] by blast
  obtain st1 tag1 g1 cs1 where st1: "load_with_path le_crates wire_bincode sample_config0 [] [] (vs_logs st) (\<lambda>_. 0) (\<lambda>_. 0) g [] =
      Some (Ok ((st1, tag1), g1, cs1))" "same_tables (vs_version st1) (vs_version st)" "status_ok st1"
    using load_with_path_logs [OF le.int_encoding_axioms wire.bincode_codec_axioms ws _ L, of "[]" g] by (auto simp: counters_ok_def)
  have "length (level_slice (vs_version st)) = MAX_LEVEL"
    using large_edit_levels [OF st(1)] by (simp add: V0(2) level_slice_new_def MAX_LEVEL_def)
  then have "length (level_slice (vs_version st1)) = MAX_LEVEL" "meta_in_range (meta_data (vs_version st1))"
    using st1(2) V1 st(2) unfolding same_tables_def by (metis length_map, simp)
  then obtain V2 tag2 where "version_apply (vs_version st1) [large_edit] = Ok (V2, tag2)" using large_edit_apply by blast
  then obtain st2 g2 where st2: "log_and_apply le_crates wire_bincode cs1 st1 [large_edit] (edit_approximate_count st1 + 1) g1 =
      Some (Ok ((st2, tag2), g2))"
    using log_and_apply_ok [OF le.int_encoding_axioms st1(3)] by blast
  have "load_with_path le_crates wire_bincode sample_config0 [] [] (vs_logs st2) (\<lambda>_. 0) (\<lambda>_. 0) g2 [] = Some Panic"
    by (rule second_restart_panics [OF le.int_encoding_axioms wire.bincode_codec_axioms run _ L st1(1) st2 _ refl refl])
      (simp_all add: counters_ok_def large_edit_length off HEADER_SIZE_def BLOCK_SIZE_def)
  then show ?thesis using run st1(1) st2 by blast
qed

end
