(* ===== verification/Mem_Table.thy ===== *)
theory Mem_Table
  imports Log Block_Iter Kip_Config
begin

text \<open>
  The memory table, \<open>src/src/kernel/lsm/mem_table.rs\<close>: versioned keys, the mutable and the immutable
  map, inserts that go to the write-ahead log as well, snapshot reads, range scans, the swap that
  starts a flush, recovery from the log, and the iterator \<open>MemMapIter\<close>.

  The skip list is a parameter (\<open>sm\<close>, contract \<open>ordered_map\<close>). The mutex makes every operation one
  step. \<open>swap\<close> spins while transactions are open; \<open>None\<close> stands for a call that has to wait.
\<close>

section \<open>Internal keys\<close>

datatype internal_key = InternalKey (ik_key: bytes) (ik_seq: i64)

definition internal_key_cmp :: "internal_key \<Rightarrow> internal_key \<Rightarrow> ordering" where
  "internal_key_cmp a b = then_with (cmp (ik_key a) (ik_key b)) (cmp (ik_seq a) (ik_seq b))"

instantiation internal_key :: linorder
begin

definition less_eq_internal_key :: "internal_key \<Rightarrow> internal_key \<Rightarrow> bool" where
  "a \<le> b \<longleftrightarrow> internal_key_cmp a b \<noteq> Greater"

definition less_internal_key :: "internal_key \<Rightarrow> internal_key \<Rightarrow> bool" where
  "a < b \<longleftrightarrow> internal_key_cmp a b = Less"

instance
  by standard
    (auto simp: less_eq_internal_key_def less_internal_key_def internal_key_cmp_def cmp_def
      internal_key.expand split: if_splits)

end

definition SEQ_MAX :: i64 where "SEQ_MAX = i64_MAX"

section \<open>The table\<close>

type_synonym 'm mem_ops = "(internal_key, bytes option, 'm) skip_map"

record 'm mem_table =
  mem :: 'm
  immut :: "'m option"
  wal :: directory
  wal_writer :: "log_writer \<times> i64"
  mem_trigger :: trigger
  tx_count :: nat

definition data_to_bytes :: "crates \<Rightarrow> key_value \<Rightarrow> bytes" where
  "data_to_bytes c data =
     entry_encode c value_item (entry_new 0 (length (fst data)) (fst data) (value_from (snd data)))"

text \<open>The decoding closure of \<open>MemTable::new\<close>: all records of one log entry, at sequence number 0.\<close>

definition wal_decode ::
  "crates \<Rightarrow> bytes \<Rightarrow> (internal_key \<times> bytes option) list \<Rightarrow> (internal_key \<times> bytes option) list outcome" where
  "wal_decode c bs records =
     map_outcome_ok
       (\<lambda>es. records @ map (\<lambda>(i, e). (InternalKey (entry_key e) 0, value_bytes (entry_item e))) es)
       (batch_decode c value_item bs)"

definition mem_table_new ::
  "'m mem_ops \<Rightarrow> crates \<Rightarrow> config \<Rightarrow> directory \<Rightarrow> i64 \<Rightarrow> (i64 \<times> 'm mem_table) outcome option" where
  "mem_table_new sm c cfg d gen_buf =
     map_option (map_outcome_ok (\<lambda>(log_gen, log_records, d1, gen_buf').
       let (w, d2) = log_loader_writer d1 log_gen;
           (trigger_type, threshold) = minor_trigger_with_threshold cfg
       in (gen_buf', \<lparr>mem = sm_from_iter sm log_records, immut = None, wal = d2, wal_writer = (w, log_gen),
             mem_trigger = trigger_create trigger_type threshold, tx_count = 0\<rparr>)))
       (log_loader_reload c (wal_decode c) d None gen_buf [])"

definition check_key_conflict :: "'m mem_ops \<Rightarrow> 'm mem_table \<Rightarrow> key_value list \<Rightarrow> i64 \<Rightarrow> bool" where
  "check_key_conflict sm t kvs seq_id =
     list_ex (\<lambda>(key, _).
       case sm_lower_bound sm (mem t) (Excluded (InternalKey key seq_id)) of
         Some (lower_key, _) \<Rightarrow> ik_key lower_key = key
       | None \<Rightarrow> False) kvs"

text \<open>\<open>inner.log_writer.0.add_record\<close>.\<close>

definition wal_append :: "crates \<Rightarrow> 'm mem_table \<Rightarrow> bytes \<Rightarrow> 'm mem_table outcome option" where
  "wal_append c t r =
     map_option (map_outcome_ok (\<lambda>(n, w).
       t\<lparr>wal_writer := (w, snd (wal_writer t)),
         wal := btree_insert (snd (wal_writer t)) (contents (dst w)) (wal t)\<rparr>))
       (add_record c (fst (wal_writer t)) r)"

definition insert_data ::
  "'m mem_ops \<Rightarrow> crates \<Rightarrow> key_value \<Rightarrow> i64 \<Rightarrow> 'm mem_table \<Rightarrow> (bool \<times> i64 \<times> 'm mem_table) outcome option" where
  "insert_data sm c data seq_count t =
     map_option (map_outcome_ok (\<lambda>t1.
       let trg = item_process (mem_trigger t1) data;
           (seq, seq_count') = sequence_create seq_count
       in (is_exceeded trg, seq_count',
           t1\<lparr>mem_trigger := trg, mem := sm_insert sm (InternalKey (fst data) seq) (snd data) (mem t1)\<rparr>)))
       (wal_append c t (data_to_bytes c data))"

definition batch_item :: "'m mem_ops \<Rightarrow> i64 \<Rightarrow> key_value \<Rightarrow> 'm mem_table \<Rightarrow> 'm mem_table" where
  "batch_item sm seq_id item t =
     t\<lparr>mem_trigger := item_process (mem_trigger t) item,
       mem := sm_insert sm (InternalKey (fst item) seq_id) (snd item) (mem t)\<rparr>"

definition insert_batch_data ::
  "'m mem_ops \<Rightarrow> crates \<Rightarrow> key_value list \<Rightarrow> i64 \<Rightarrow> 'm mem_table \<Rightarrow> (bool \<times> 'm mem_table) outcome option" where
  "insert_batch_data sm c vec_data seq_id t =
     (let t1 = fold (batch_item sm seq_id) vec_data t in
      map_option (map_outcome_ok (\<lambda>t2. (is_exceeded (mem_trigger t2), t2)))
        (wal_append c t1 (concat (map (data_to_bytes c) vec_data))))"

definition mem_is_empty :: "'m mem_ops \<Rightarrow> 'm mem_table \<Rightarrow> bool" where
  "mem_is_empty sm t = sm_is_empty sm (mem t)"

definition mem_len :: "'m mem_ops \<Rightarrow> 'm mem_table \<Rightarrow> nat" where
  "mem_len sm t = sm_len sm (mem t)"

text \<open>\<open>swap\<close>: the data handed to the compactor, the new generation counter and the new table.\<close>

definition swap_data :: "'m mem_ops \<Rightarrow> 'm \<Rightarrow> key_value list" where
  "swap_data sm m = rev (unique_by fst (rev (map (\<lambda>(k, v). (ik_key k, v)) (sm_iter sm m))))"

definition swap ::
  "'m mem_ops \<Rightarrow> i64 \<Rightarrow> 'm mem_table \<Rightarrow> ((i64 \<times> key_value list) option \<times> i64 \<times> 'm mem_table) option" where
  "swap sm gen_buf t =
     (if tx_count t \<noteq> 0 then None
      else Some
        (if \<not> sm_is_empty sm (mem t) then
           (let vec_data = swap_data sm (mem t);
                (new_gen, gen_buf') = gen_create gen_buf;
                (w, d) = log_loader_writer (wal t) new_gen;
                old_gen = snd (wal_writer t)
            in (Some (old_gen, vec_data), gen_buf',
                t\<lparr>mem_trigger := trigger_reset (mem_trigger t), immut := Some (mem t), mem := sm_new sm,
                  wal := d, wal_writer := (w, new_gen)\<rparr>))
         else (None, gen_buf, t)))"

section \<open>Lookup\<close>

definition find_in :: "'m mem_ops \<Rightarrow> internal_key \<Rightarrow> 'm \<Rightarrow> key_value option" where
  "find_in sm ik m =
     (case sm_upper_bound sm m (Included ik) of
        None \<Rightarrow> None
      | Some (upper_key, v) \<Rightarrow> if ik_key ik = ik_key upper_key then Some (ik_key ik, v) else None)"

definition mem_find :: "'m mem_ops \<Rightarrow> 'm mem_table \<Rightarrow> bytes \<Rightarrow> key_value option" where
  "mem_find sm t key =
     (let ik = InternalKey key SEQ_MAX in
      case find_in sm ik (mem t) of
        Some kv \<Rightarrow> Some kv
      | None \<Rightarrow> Option.bind (immut t) (find_in sm ik))"

definition find_with_sequence_id :: "'m mem_ops \<Rightarrow> 'm mem_table \<Rightarrow> bytes \<Rightarrow> i64 \<Rightarrow> key_value option" where
  "find_with_sequence_id sm t key seq_id =
     (let ik = InternalKey key seq_id in
      case find_in sm ik (mem t) of
        Some kv \<Rightarrow> Some kv
      | None \<Rightarrow> (case immut t of Some m \<Rightarrow> find_in sm ik m | None \<Rightarrow> None))"

section \<open>Range scans\<close>

fun to_internal_key :: "bytes bound \<Rightarrow> i64 \<Rightarrow> i64 \<Rightarrow> internal_key bound" where
  "to_internal_key (Included k) inc exc = Included (InternalKey k inc)"
| "to_internal_key (Excluded k) inc exc = Excluded (InternalKey k exc)"
| "to_internal_key Unbounded inc exc = Unbounded"

definition scan_iter ::
  "'m mem_ops \<Rightarrow> 'm \<Rightarrow> internal_key bound \<Rightarrow> internal_key bound \<Rightarrow> i64 option \<Rightarrow> key_value list" where
  "scan_iter sm m min_key max_key option_seq =
     map (\<lambda>(ik, v). (ik_key ik, v))
       (filter (\<lambda>(ik, _). case option_seq of None \<Rightarrow> True | Some s \<Rightarrow> ik_seq ik \<le> s)
         (rev (sm_range sm m min_key max_key)))"

definition duplicates_push :: "key_value \<Rightarrow> key_value list \<Rightarrow> key_value list" where
  "duplicates_push kv results =
     (if results \<noteq> [] \<and> fst (last results) = fst kv then results else results @ [kv])"

fun scan_merge :: "key_value list \<Rightarrow> key_value list \<Rightarrow> key_value list \<Rightarrow> key_value list" where
  "scan_merge (x # xs) (y # ys) merged =
     (case cmp (fst x) (fst y) of
        Greater \<Rightarrow> scan_merge xs (y # ys) (duplicates_push x merged)
      | Less \<Rightarrow> scan_merge (x # xs) ys (duplicates_push y merged)
      | Equal \<Rightarrow> scan_merge xs ys (duplicates_push x merged))"
| "scan_merge xs ys merged = fold duplicates_push (xs @ ys) merged"

definition range_scan ::
  "'m mem_ops \<Rightarrow> 'm mem_table \<Rightarrow> bytes bound \<Rightarrow> bytes bound \<Rightarrow> i64 option \<Rightarrow> key_value list outcome" where
  "range_scan sm t lo hi option_seq =
     (let min_key = to_internal_key lo i64_MIN i64_MAX;
          max_key = to_internal_key hi i64_MAX i64_MIN;
          mem_iter = scan_iter sm (mem t) min_key max_key option_seq;
          merged = rev (case immut t of
            Some m \<Rightarrow> scan_merge mem_iter (scan_iter sm m min_key max_key option_seq) []
          | None \<Rightarrow> fold duplicates_push mem_iter [])
      in if sorted (map fst merged) \<and> distinct merged then Ok merged else Panic)"

section \<open>The iterator over a memory map\<close>

record 'm mem_map_iter =
  mmi_map :: 'm
  prev_item :: "key_value option"
  mmi_iter :: "(internal_key \<times> bytes option) list option"

definition mem_map_iter_new :: "'m mem_ops \<Rightarrow> 'm \<Rightarrow> 'm mem_map_iter" where
  "mem_map_iter_new sm m = \<lparr>mmi_map = m, prev_item = None, mmi_iter = Some (sm_iter sm m)\<rparr>"

text \<open>The loop of \<open>try_next\<close>: the item returned, the new \<open>prev_item\<close> and the rest of the iterator.\<close>

fun mmi_loop ::
  "key_value option \<Rightarrow> (internal_key \<times> bytes option) list \<Rightarrow>
   key_value option \<times> key_value option \<times> (internal_key \<times> bytes option) list" where
  "mmi_loop prev [] = (prev, None, [])"
| "mmi_loop prev ((ik, v) # xs) =
     (case prev of
        Some p \<Rightarrow>
          if ik_key ik \<noteq> fst p then (Some p, Some (ik_key ik, v), xs)
          else mmi_loop (Some (ik_key ik, v)) xs
      | None \<Rightarrow> mmi_loop (Some (ik_key ik, v)) xs)"

definition mmi_try_next :: "'m mem_map_iter \<Rightarrow> key_value option \<times> 'm mem_map_iter" where
  "mmi_try_next it =
     (case mmi_iter it of
        Some xs \<Rightarrow>
          (let (item, prev, rest) = mmi_loop (prev_item it) xs
           in (item, it\<lparr>prev_item := prev, mmi_iter := Some rest\<rparr>))
      | None \<Rightarrow> (None, it))"

definition mmi_seek :: "'m mem_ops \<Rightarrow> seek \<Rightarrow> 'm mem_map_iter \<Rightarrow> 'm mem_map_iter" where
  "mmi_seek sm s it =
     it\<lparr>prev_item := None,
        mmi_iter := (case s of
            Seek_First \<Rightarrow> Some (sm_iter sm (mmi_map it))
          | Seek_Last \<Rightarrow> None
          | Seek_Backward key \<Rightarrow> Some (sm_range sm (mmi_map it) (Included (InternalKey key 0)) Unbounded))\<rparr>"

section \<open>Order of internal keys\<close>

lemma internal_key_less: "a < b \<longleftrightarrow> ik_key a < ik_key b \<or> ik_key a = ik_key b \<and> ik_seq a < ik_seq b"
  by (auto simp: less_internal_key_def internal_key_cmp_def cmp_def)

lemma internal_key_le: "a \<le> b \<longleftrightarrow> ik_key a < ik_key b \<or> ik_key a = ik_key b \<and> ik_seq a \<le> ik_seq b"
  by (auto simp: less_eq_internal_key_def internal_key_cmp_def cmp_def)

text \<open>The specification of a versioned read: among the versions of a key that are not newer than the
  sequence number, the newest.\<close>

definition latest :: "(internal_key \<times> 'v) list \<Rightarrow> bytes \<Rightarrow> i64 \<Rightarrow> 'v option" where
  "latest xs key seq = map_option snd (find_last (\<lambda>(ik, v). ik_key ik = key \<and> ik_seq ik \<le> seq) xs)"

lemma latest_Nil [simp]: "latest [] key seq = None"
  by (simp add: latest_def)

lemma latest_Cons:
  "latest ((ik, v) # xs) key seq =
   (case latest xs key seq of Some w \<Rightarrow> Some w | None \<Rightarrow> if ik_key ik = key \<and> ik_seq ik \<le> seq then Some v else None)"
  by (auto simp: latest_def split: option.splits)

lemma latest_Some_iff:
  assumes "keys_ascending xs"
  shows "latest xs key seq = Some v \<longleftrightarrow>
    (\<exists>s. s \<le> seq \<and> (InternalKey key s, v) \<in> set xs \<and> (\<forall>s' v'. (InternalKey key s', v') \<in> set xs \<longrightarrow> s' \<le> seq \<longrightarrow> s' \<le> s))"
  using assms
proof (induction xs)
  case (Cons x xs)
  obtain k s w where x: "x = (InternalKey k s, w)" by (metis internal_key.exhaust surj_pair)
  have up: "\<forall>s' v'. (InternalKey k s', v') \<in> set xs \<longrightarrow> s < s'"
    using Cons.prems by (force simp: x internal_key_less)
  have IH: "latest xs key seq = Some v \<longleftrightarrow>
    (\<exists>s. s \<le> seq \<and> (InternalKey key s, v) \<in> set xs \<and> (\<forall>s' v'. (InternalKey key s', v') \<in> set xs \<longrightarrow> s' \<le> seq \<longrightarrow> s' \<le> s))"
    using Cons by simp
  show ?case
  proof (cases "latest xs key seq")
    case None
    then have no: "\<forall>s' v'. (InternalKey key s', v') \<in> set xs \<longrightarrow> \<not> s' \<le> seq"
      by (auto simp: latest_def find_last_None_iff)
    then show ?thesis using None
      by (auto simp: latest_def x split: option.splits)
  next
    case (Some u)
    then have eq: "latest (x # xs) key seq = latest xs key seq"
      by (auto simp: latest_def split: option.splits)
    obtain s0 v0 where "(InternalKey key s0, v0) \<in> set xs" "s0 \<le> seq"
      using Some by (auto simp: latest_def dest!: find_last_SomeD) (metis internal_key.collapse)
    then show ?thesis unfolding eq IH using up
      by (auto simp: x) (metis order_less_imp_le, metis linorder_not_le)
  qed
qed simp

lemma latest_None_iff:
  "latest xs key seq = None \<longleftrightarrow> (\<forall>s v. (InternalKey key s, v) \<in> set xs \<longrightarrow> \<not> s \<le> seq)"
  by (auto simp: latest_def find_last_None_iff) (metis internal_key.collapse)

section \<open>Reads against the contract of the skip list\<close>

lemma latest_le_seq: "(\<forall>(ik, v)\<in>set xs. ik_seq ik \<le> seq) \<Longrightarrow> seq \<le> seq' \<Longrightarrow> latest xs key seq' = latest xs key seq"
  unfolding latest_def by (induction xs) (auto split: option.splits)

text \<open>The last version of any key not above \<open>(key, seq)\<close> belongs to \<open>key\<close> if a version of \<open>key\<close> is
  visible at all.\<close>

lemma find_last_below_latest:
  assumes "keys_ascending xs"
  shows "(case find_last (\<lambda>(ik, v). below (Included (InternalKey key seq)) ik) xs of
      None \<Rightarrow> None
    | Some (ik, v) \<Rightarrow> if key = ik_key ik then Some (key, v) else None) =
    map_option (\<lambda>v. (key, v)) (latest xs key seq)"
  using assms
proof (induction xs)
  case (Cons x xs)
  obtain ik v where x: "x = (ik, v)" by (cases x)
  show ?case
  proof (cases "find_last (\<lambda>(ik, v). below (Included (InternalKey key seq)) ik) xs")
    case None
    then have none: "latest xs key seq = None"
      by (auto simp: latest_def find_last_None_iff internal_key_le)
    then show ?thesis using None
      by (auto simp: latest_def x internal_key_le split: option.splits)
  next
    case (Some y)
    then have y: "y \<in> set xs" "fst y \<le> InternalKey key seq"
      using find_last_SomeD [OF Some] by (auto split: prod.splits)
    then have lt: "ik < fst y" using Cons.prems by (auto simp: x)
    have eq: "latest (x # xs) key seq = latest xs key seq"
    proof (cases "latest xs key seq")
      case None
      have "ik_key ik \<noteq> key \<or> \<not> ik_seq ik \<le> seq"
      proof (rule ccontr)
        assume "\<not> ?thesis"
        then have "ik_key (fst y) = key" "ik_seq (fst y) \<le> seq"
          using lt y(2) by (auto simp: internal_key_le internal_key_less)
        then show False using None y(1) by (cases y) (auto simp: latest_def find_last_None_iff)
      qed
      then show ?thesis using None by (auto simp: latest_def x)
    qed (auto simp: latest_def split: option.splits)
    show ?thesis unfolding eq using Cons Some by simp
  qed
qed simp

text \<open>The invariant of a memory table at sequence counter \<open>seq_count\<close>: the maps are well formed, all
  versions are older than the counter, the log writer is inside its block and its file is the one of
  its generation.\<close>

definition entries_before :: "'m mem_ops \<Rightarrow> i64 \<Rightarrow> 'm \<Rightarrow> bool" where
  "entries_before sm seq_count m \<longleftrightarrow> (\<forall>ik\<in>fst ` set (sm_iter sm m). 0 \<le> ik_seq ik \<and> ik_seq ik < seq_count)"

definition writer_ok :: "log_writer \<Rightarrow> bool" where
  "writer_ok w \<longleftrightarrow> log_block_size w = BLOCK_SIZE \<and> current_block_offset w \<le> BLOCK_SIZE \<and>
     position (dst w) \<le> length (contents (dst w))"

definition mem_inv :: "'m mem_ops \<Rightarrow> ('m \<Rightarrow> bool) \<Rightarrow> i64 \<Rightarrow> 'm mem_table \<Rightarrow> bool" where
  "mem_inv sm I seq_count t \<longleftrightarrow>
     I (mem t) \<and> entries_before sm seq_count (mem t) \<and>
     (\<forall>m. immut t = Some m \<longrightarrow> I m \<and> entries_before sm seq_count m) \<and>
     writer_ok (fst (wal_writer t))"

text \<open>The abstract content of a table: what a snapshot read at \<open>seq\<close> sees.\<close>

definition visible :: "'m mem_ops \<Rightarrow> 'm mem_table \<Rightarrow> i64 \<Rightarrow> bytes \<Rightarrow> bytes option option" where
  "visible sm t seq key =
     (case latest (sm_iter sm (mem t)) key seq of
        Some v \<Rightarrow> Some v
      | None \<Rightarrow> (case immut t of Some m \<Rightarrow> latest (sm_iter sm m) key seq | None \<Rightarrow> None))"

locale mem_map = ordered_map sm inv for sm :: "'m mem_ops" and inv :: "'m \<Rightarrow> bool"
begin

lemma find_in_latest:
  "inv m \<Longrightarrow> find_in sm (InternalKey key seq) m = map_option (\<lambda>v. (key, v)) (latest (sm_iter sm m) key seq)"
  unfolding find_in_def internal_key.sel
  using find_last_below_latest [OF iter_ascending, of m key seq] by (simp add: upper_bound_iter)

lemma find_with_sequence_id_visible:
  assumes "mem_inv sm inv n t"
  shows "find_with_sequence_id sm t key seq = map_option (\<lambda>v. (key, v)) (visible sm t seq key)"
  using assms
  by (auto simp: find_with_sequence_id_def visible_def mem_inv_def find_in_latest split: option.splits)

lemma mem_find_visible:
  assumes "mem_inv sm inv n t"
  shows "mem_find sm t key = map_option (\<lambda>v. (key, v)) (visible sm t SEQ_MAX key)"
  using assms
  by (auto simp: mem_find_def visible_def mem_inv_def find_in_latest split: option.splits)

lemma visible_newest:
  assumes "mem_inv sm inv n t" "n - 1 \<le> seq"
  shows "visible sm t seq key = visible sm t (n - 1) key"
proof -
  have "latest (sm_iter sm m) key seq = latest (sm_iter sm m) key (n - 1)" if "entries_before sm n m" for m
    using that assms(2) by (intro latest_le_seq) (auto simp: entries_before_def)
  then show ?thesis using assms(1) by (auto simp: visible_def mem_inv_def split: option.splits)
qed

end

section \<open>Inserts\<close>

lemma latest_insert:
  assumes "keys_ascending xs"
  shows "latest (btree_insert (InternalKey k s) v xs) key seq =
    (if key = k \<and> s \<le> seq \<and> (\<forall>s' w. (InternalKey k s', w) \<in> set xs \<longrightarrow> s' \<le> seq \<longrightarrow> s' \<le> s) then Some v
     else latest xs key seq)" (is "?l = ?r")
proof -
  let ?ys = "btree_insert (InternalKey k s) v xs"
  have asc: "keys_ascending ?ys" using assms by simp
  have mem: "(ik, w) \<in> set ?ys \<longleftrightarrow> (if ik = InternalKey k s then w = v else (ik, w) \<in> set xs)" for ik w
    by (auto simp: ascending_in_iff [OF asc] ascending_in_iff [OF assms])
  let ?P = "key = k \<and> s \<le> seq \<and> (\<forall>s' w. (InternalKey k s', w) \<in> set xs \<longrightarrow> s' \<le> seq \<longrightarrow> s' \<le> s)"
  show ?thesis
  proof (cases ?P)
    case True
    then have "?l = Some v" unfolding latest_Some_iff [OF asc] mem by (intro exI [of _ s]) auto
    then show ?thesis unfolding if_P [OF True] .
  next
    case notP: False
    have "?l = latest xs key seq"
    proof (cases "latest xs key seq")
      case None
      then have "?l = None" using notP unfolding latest_None_iff mem by auto
      then show ?thesis using None by simp
    next
      case (Some w)
      then obtain s0 where s0: "s0 \<le> seq" "(InternalKey key s0, w) \<in> set xs"
          "\<And>s' v'. (InternalKey key s', v') \<in> set xs \<Longrightarrow> s' \<le> seq \<Longrightarrow> s' \<le> s0"
        unfolding latest_Some_iff [OF assms] by blast
      have ne: "InternalKey key s0 \<noteq> InternalKey k s" using notP s0 by auto
      have "s \<le> s0" if "key = k" "s \<le> seq" using notP that s0(3) by (metis linear order.trans)
      then have "?l = Some w" unfolding latest_Some_iff [OF asc] mem using s0 ne by (intro exI [of _ s0]) auto
      then show ?thesis using Some by simp
    qed
    then show ?thesis unfolding if_not_P [OF notP] .
  qed
qed

lemma latest_insert_newest:
  assumes "keys_ascending xs" "\<forall>(ik, w)\<in>set xs. ik_seq ik \<le> s"
  shows "latest (btree_insert (InternalKey k s) v xs) key seq =
    (if key = k \<and> s \<le> seq then Some v else latest xs key seq)"
  using assms(2) by (auto simp: latest_insert [OF assms(1)])

lemma writer_ok_at:
  assumes "writer_ok w"
  obtains xs ys off where "w = \<lparr>dst = file_at xs ys, current_block_offset = off, log_block_size = BLOCK_SIZE\<rparr>"
    and "off \<le> BLOCK_SIZE"
proof
  show "w = \<lparr>dst = file_at (take (position (dst w)) (contents (dst w))) (drop (position (dst w)) (contents (dst w))),
      current_block_offset = current_block_offset w, log_block_size = BLOCK_SIZE\<rparr>"
    using assms by (simp add: writer_ok_def file_at_def)
qed (use assms in \<open>simp add: writer_ok_def\<close>)

lemma at_writer_ok [simp]:
  "writer_ok \<lparr>dst = file_at xs ys, current_block_offset = off, log_block_size = BLOCK_SIZE\<rparr> \<longleftrightarrow> off \<le> BLOCK_SIZE"
  by (simp add: writer_ok_def file_at_def)

lemma wal_append_at:
  assumes "int_encoding c" "off \<le> BLOCK_SIZE"
    and "wal_writer t = (\<lparr>dst = file_at xs ys, current_block_offset = off, log_block_size = BLOCK_SIZE\<rparr>, gen)"
  shows "wal_append c t r = Some (Ok (t\<lparr>
    wal_writer := (\<lparr>dst = file_at (xs @ fst (log_encode c BLOCK_SIZE off True r))
        (drop (length (fst (log_encode c BLOCK_SIZE off True r))) ys),
      current_block_offset = snd (log_encode c BLOCK_SIZE off True r), log_block_size = BLOCK_SIZE\<rparr>, gen),
    wal := btree_insert gen (xs @ fst (log_encode c BLOCK_SIZE off True r) @
      drop (length (fst (log_encode c BLOCK_SIZE off True r))) ys) (wal t)\<rparr>))"
  using int_encoding.add_record_at [OF assms(1) block_size_facts(1) assms(2), of xs ys r]
  by (auto simp: wal_append_def assms(3))

lemma wal_append_Ok:
  assumes "int_encoding c" "writer_ok (fst (wal_writer t))"
  shows "\<exists>w d. wal_append c t r = Some (Ok (t\<lparr>wal_writer := (w, snd (wal_writer t)), wal := d\<rparr>)) \<and> writer_ok w"
proof -
  obtain xs ys off where w: "fst (wal_writer t) = \<lparr>dst = file_at xs ys, current_block_offset = off, log_block_size = BLOCK_SIZE\<rparr>"
      and off: "off \<le> BLOCK_SIZE"
    using writer_ok_at [OF assms(2)] .
  then have "wal_writer t = (\<lparr>dst = file_at xs ys, current_block_offset = off, log_block_size = BLOCK_SIZE\<rparr>, snd (wal_writer t))"
    by (simp flip: w)
  from wal_append_at [OF assms(1) off this, of r] show ?thesis
    using log_encode_offset [OF off] by auto
qed

context mem_map
begin

lemma mem_inv_wal: "mem_inv sm inv n (t\<lparr>wal_writer := (w, g), wal := d\<rparr>) \<longleftrightarrow>
    inv (mem t) \<and> entries_before sm n (mem t) \<and>
    (\<forall>m. immut t = Some m \<longrightarrow> inv m \<and> entries_before sm n m) \<and> writer_ok w"
  by (simp add: mem_inv_def)

lemma visible_wal [simp]: "visible sm (t\<lparr>wal_writer := w, wal := d\<rparr>) = visible sm t"
  by (simp add: visible_def fun_eq_iff cong: option.case_cong)

lemma batch_item_inv:
  assumes "mem_inv sm inv (n + 1) t" "0 \<le> n"
  shows "mem_inv sm inv (n + 1) (batch_item sm n kv t)"
  using assms by (simp add: mem_inv_def batch_item_def inv_insert entries_before_def iter_insert keys_btree_insert)

lemma batch_item_visible:
  assumes "mem_inv sm inv (n + 1) t"
  shows "visible sm (batch_item sm n kv t) seq key =
    (if key = fst kv \<and> n \<le> seq then Some (snd kv) else visible sm t seq key)"
proof -
  have "\<forall>(ik, w)\<in>set (sm_iter sm (mem t)). ik_seq ik \<le> n" "inv (mem t)"
    using assms by (auto simp: mem_inv_def entries_before_def)
  then show ?thesis
    by (auto simp: visible_def batch_item_def iter_insert latest_insert_newest [OF iter_ascending] split: option.split)
qed

lemma batch_items:
  assumes "mem_inv sm inv (n + 1) t" "0 \<le> n"
  shows "mem_inv sm inv (n + 1) (fold (batch_item sm n) kvs t)"
    and "visible sm (fold (batch_item sm n) kvs t) seq key =
      (case map_of (rev kvs) key of Some v \<Rightarrow> if n \<le> seq then Some v else visible sm t seq key
       | None \<Rightarrow> visible sm t seq key)"
  using assms
  by (induction kvs arbitrary: t)
    (auto simp: batch_item_inv batch_item_visible map_add_def split: option.splits)

lemma mem_inv_mono: "mem_inv sm inv n t \<Longrightarrow> mem_inv sm inv (n + 1) t"
  by (force simp: mem_inv_def entries_before_def)

lemma insert_data_visible:
  assumes "int_encoding c" "mem_inv sm inv n t" "0 \<le> n" "n < i64_MAX"
  shows "\<exists>t'. insert_data sm c kv n t = Some (Ok (is_exceeded (item_process (mem_trigger t) kv), n + 1, t')) \<and>
    mem_inv sm inv (n + 1) t' \<and> immut t' = immut t \<and> tx_count t' = tx_count t \<and>
    (\<forall>seq key. visible sm t' seq key = (if key = fst kv \<and> n \<le> seq then Some (snd kv) else visible sm t seq key))"
proof -
  obtain w d where w: "wal_append c t (data_to_bytes c kv) = Some (Ok (t\<lparr>wal_writer := (w, snd (wal_writer t)), wal := d\<rparr>))"
      "writer_ok w"
    using wal_append_Ok [OF assms(1)] assms(2) unfolding mem_inv_def by blast
  let ?t1 = "t\<lparr>wal_writer := (w, snd (wal_writer t)), wal := d\<rparr>"
  have inv1: "mem_inv sm inv (n + 1) ?t1"
    using mem_inv_mono [OF assms(2)] w(2) by (simp add: mem_inv_def)
  have "insert_data sm c kv n t =
      Some (Ok (is_exceeded (item_process (mem_trigger t) kv), n + 1, batch_item sm n kv ?t1))"
    using create_next(1) [OF assms(3,4)] by (simp add: insert_data_def w(1) batch_item_def Let_def)
  moreover have "immut (batch_item sm n kv ?t1) = immut t" "tx_count (batch_item sm n kv ?t1) = tx_count t"
    by (simp_all add: batch_item_def)
  ultimately show ?thesis
    using batch_item_inv [OF inv1 assms(3)] batch_item_visible [OF inv1]
    by (intro exI [of _ "batch_item sm n kv ?t1"]) simp
qed

lemma insert_batch_data_visible:
  assumes "int_encoding c" "mem_inv sm inv n t" "0 \<le> n"
  shows "\<exists>b t'. insert_batch_data sm c kvs n t = Some (Ok (b, t')) \<and> mem_inv sm inv (n + 1) t' \<and>
    (\<forall>seq key. visible sm t' seq key =
      (case map_of (rev kvs) key of Some v \<Rightarrow> if n \<le> seq then Some v else visible sm t seq key
       | None \<Rightarrow> visible sm t seq key))"
proof -
  let ?t1 = "fold (batch_item sm n) kvs t"
  have inv1: "mem_inv sm inv (n + 1) ?t1"
    by (rule batch_items(1) [OF mem_inv_mono [OF assms(2)] assms(3)])
  then obtain w d where "wal_append c ?t1 (concat (map (data_to_bytes c) kvs)) =
      Some (Ok (?t1\<lparr>wal_writer := (w, snd (wal_writer ?t1)), wal := d\<rparr>))" "writer_ok w"
    using wal_append_Ok [OF assms(1)] unfolding mem_inv_def by blast
  then show ?thesis
    using inv1 batch_items(2) [OF mem_inv_mono [OF assms(2)] assms(3), of kvs]
    by (auto simp: insert_batch_data_def Let_def mem_inv_def)
qed

end

section \<open>Scans and swaps\<close>

abbreviation descending_keys :: "('k::linorder \<times> 'v) list \<Rightarrow> bool" where
  "descending_keys xs \<equiv> sorted_wrt (\<ge>) (map fst xs)"

lemma sorted_wrt_unique_by: "sorted_wrt R (map f xs) \<Longrightarrow> sorted_wrt R (map f (unique_by f xs))"
proof (induction f xs rule: unique_by.induct)
  case (2 f x xs)
  have "sorted_wrt R (map f (filter (\<lambda>y. f y \<noteq> f x) xs))"
    using "2.prems" by (auto simp: sorted_wrt_map sorted_wrt_filter)
  then show ?case using 2 unique_by_subset [of f "filter (\<lambda>y. f y \<noteq> f x) xs"] by auto
qed simp

lemma descending_unique_ascending:
  assumes "descending_keys xs"
  shows "keys_ascending (rev (unique_by fst xs))" "map_of (rev (unique_by fst xs)) = map_of xs"
proof -
  have d: "distinct (map fst (unique_by fst xs))" by (rule unique_by_distinct)
  have "sorted_wrt (\<lambda>x y. y \<le> x) (map fst (unique_by fst xs))" using assms by (rule sorted_wrt_unique_by)
  then have "sorted (map fst (rev (unique_by fst xs)))" by (simp add: rev_map [symmetric] sorted_wrt_rev)
  then show "keys_ascending (rev (unique_by fst xs))"
    using d by (simp add: strict_sorted_iff rev_map [symmetric])
  show "map_of (rev (unique_by fst xs)) = map_of xs"
    unfolding map_of_rev_distinct [OF d] by (rule map_of_unique_by)
qed

definition proj_key :: "internal_key \<times> 'v \<Rightarrow> bytes \<times> 'v" where
  "proj_key p = (ik_key (fst p), snd p)"

lemma proj_key_case: "(\<lambda>(ik, v). (ik_key ik, v)) = proj_key"
  by (auto simp: proj_key_def)

lemma descending_proj: "keys_ascending xs \<Longrightarrow> descending_keys (rev (map proj_key xs))"
  by (induction xs) (auto simp: sorted_wrt_append proj_key_def internal_key_less)

lemma map_of_rev_proj:
  assumes "\<And>ik v. (ik, v) \<in> set xs \<Longrightarrow> P ik \<longleftrightarrow> Q (ik_key ik) \<and> ik_seq ik \<le> seq"
  shows "map_of (rev (map proj_key (filter (\<lambda>(ik, v). P ik) xs))) key = (if Q key then latest xs key seq else None)"
  using assms
proof (induction xs)
  case (Cons x xs)
  have IH: "map_of (rev (map proj_key (filter (\<lambda>(ik, v). P ik) xs))) key = (if Q key then latest xs key seq else None)"
    using Cons.prems by (intro Cons.IH) auto
  obtain ik v where x: "x = (ik, v)" by (cases x)
  have "P ik \<longleftrightarrow> Q (ik_key ik) \<and> ik_seq ik \<le> seq" using Cons.prems [of ik v] by (simp add: x)
  then show ?case
    by (auto simp: x latest_Cons map_add_def IH proj_key_def [of "(ik, v)"] split: option.splits)
qed simp

lemma to_internal_key_bounds:
  assumes "i64_MIN \<le> ik_seq ik" "ik_seq ik \<le> i64_MAX"
  shows "above (to_internal_key lo i64_MIN i64_MAX) ik \<longleftrightarrow> above lo (ik_key ik)"
    and "below (to_internal_key hi i64_MAX i64_MIN) ik \<longleftrightarrow> below hi (ik_key ik)"
proof -
  show "above (to_internal_key lo i64_MIN i64_MAX) ik \<longleftrightarrow> above lo (ik_key ik)"
    using assms by (cases lo) (auto simp: internal_key_le internal_key_less)
  show "below (to_internal_key hi i64_MAX i64_MIN) ik \<longleftrightarrow> below hi (ik_key ik)"
    using assms by (cases hi) (auto simp: internal_key_le internal_key_less)
qed

text \<open>The scan as one list: what \<open>scan_merge\<close> pushes.\<close>

fun merge_list :: "('k::linorder \<times> 'v) list \<Rightarrow> ('k \<times> 'v) list \<Rightarrow> ('k \<times> 'v) list" where
  "merge_list (x # xs) (y # ys) =
     (case cmp (fst x) (fst y) of
        Greater \<Rightarrow> x # merge_list xs (y # ys)
      | Less \<Rightarrow> y # merge_list (x # xs) ys
      | Equal \<Rightarrow> x # merge_list xs ys)"
| "merge_list xs ys = xs @ ys"

lemma scan_merge_list: "scan_merge xs ys merged = fold duplicates_push (merge_list xs ys) merged"
  by (induction xs ys merged rule: scan_merge.induct) (auto split: ordering.splits)

lemma merge_list_subset: "set (merge_list xs ys) \<subseteq> set xs \<union> set ys"
  by (induction xs ys rule: merge_list.induct) (auto split: ordering.splits)

lemma merge_list_descending:
  "descending_keys xs \<Longrightarrow> descending_keys ys \<Longrightarrow> descending_keys (merge_list xs ys)"
proof (induction xs ys rule: merge_list.induct)
  case (1 x xs y ys)
  have le: "set (merge_list xs (y # ys)) \<subseteq> set xs \<union> set (y # ys)"
      "set (merge_list (x # xs) ys) \<subseteq> set (x # xs) \<union> set ys" "set (merge_list xs ys) \<subseteq> set xs \<union> set ys"
    by (rule merge_list_subset)+
  consider "fst x < fst y" | "fst x = fst y" | "fst x > fst y" by force
  then show ?case
    by cases (use 1 le in \<open>auto; fastforce\<close>)+
qed auto

lemma map_of_merge_list:
  "descending_keys xs \<Longrightarrow> descending_keys ys \<Longrightarrow>
   map_of (merge_list xs ys) key = (case map_of xs key of Some v \<Rightarrow> Some v | None \<Rightarrow> map_of ys key)"
proof (induction xs ys rule: merge_list.induct)
  case (1 x xs y ys)
  consider "fst x < fst y" | "fst x = fst y" | "fst x > fst y" by force
  then show ?case
  proof cases
    case a: 1
    then have "map_of (x # xs) (fst y) = None" using "1.prems"(1) by (force simp: map_of_eq_None_iff)
    then show ?thesis using a 1 by (auto split: option.splits)
  qed (use 1 in \<open>auto split: option.splits\<close>)
qed (auto simp: map_add_def split: option.splits)

lemma fold_duplicates_push:
  assumes "descending_keys zs" "acc \<noteq> [] \<Longrightarrow> \<forall>z\<in>set zs. fst z \<le> fst (last acc)"
  shows "fold duplicates_push zs acc =
    acc @ unique_by fst (if acc = [] then zs else filter (\<lambda>z. fst z \<noteq> fst (last acc)) zs)"
  using assms
proof (induction zs arbitrary: acc)
  case (Cons z zs)
  show ?case
  proof (cases "acc \<noteq> [] \<and> fst (last acc) = fst z")
    case True
    then show ?thesis using Cons by (simp add: duplicates_push_def [of z acc])
  next
    case False
    have step: "fold duplicates_push (z # zs) acc = acc @ z # unique_by fst (filter (\<lambda>y. fst y \<noteq> fst z) zs)"
      using False Cons.IH [of "acc @ [z]"] Cons.prems by (auto simp: duplicates_push_def [of z acc])
    have "filter (\<lambda>y. fst y \<noteq> fst (last acc)) zs = zs" if "acc \<noteq> []"
      using False Cons.prems that by (auto simp: filter_id_conv)
    then show ?thesis unfolding step using False by auto
  qed
qed simp

lemma find_above_key:
  assumes "keys_ascending xs"
  shows "(case List.find (\<lambda>(ik, v). above (Excluded (InternalKey key seq)) ik) xs of
      Some (ik, _) \<Rightarrow> ik_key ik = key | None \<Rightarrow> False) \<longleftrightarrow>
    (\<exists>s w. seq < s \<and> (InternalKey key s, w) \<in> set xs)"
  using assms
proof (induction xs)
  case (Cons x xs)
  obtain k s w where x: "x = (InternalKey k s, w)" by (metis internal_key.exhaust surj_pair)
  show ?case
  proof (cases "InternalKey key seq < InternalKey k s")
    case True
    have "ik_key ik = key \<Longrightarrow> key = k" if "(ik, u) \<in> set xs" for ik u
      using Cons.prems that True by (force simp: x internal_key_less)
    then show ?thesis using True by (auto simp: x internal_key_less)
  next
    case False
    then show ?thesis using Cons by (auto simp: x internal_key_less)
  qed
qed simp

definition scan_seq :: "i64 option \<Rightarrow> i64" where
  "scan_seq option_seq = (case option_seq of None \<Rightarrow> SEQ_MAX | Some s \<Rightarrow> s)"

context mem_map
begin

lemma scan_iter_list:
  assumes "inv m" "entries_before sm n m" "n \<le> i64_MAX"
  shows "descending_keys (scan_iter sm m (to_internal_key lo i64_MIN i64_MAX) (to_internal_key hi i64_MAX i64_MIN) os)"
    and "map_of (scan_iter sm m (to_internal_key lo i64_MIN i64_MAX) (to_internal_key hi i64_MAX i64_MIN) os) key =
      (if above lo key \<and> below hi key then latest (sm_iter sm m) key (scan_seq os) else None)"
proof -
  let ?lo = "to_internal_key lo i64_MIN i64_MAX" and ?hi = "to_internal_key hi i64_MAX i64_MIN"
  let ?P = "\<lambda>ik. above ?lo ik \<and> below ?hi ik \<and> (case os of None \<Rightarrow> True | Some s \<Rightarrow> ik_seq ik \<le> s)"
  have eq: "scan_iter sm m ?lo ?hi os = rev (map proj_key (filter (\<lambda>(ik, v). ?P ik) (sm_iter sm m)))"
    by (auto simp: scan_iter_def proj_key_case range_iter [OF assms(1)] rev_filter rev_map
        intro!: arg_cong [where f = "map proj_key"] filter_cong)
  show "descending_keys (scan_iter sm m ?lo ?hi os)"
    unfolding eq by (rule descending_proj) (rule ascending_filter [OF iter_ascending [OF assms(1)]])
  have range: "i64_MIN \<le> ik_seq ik" "ik_seq ik \<le> i64_MAX" if "(ik, v) \<in> set (sm_iter sm m)" for ik v
    using assms(2,3) that by (force simp: entries_before_def i64_MIN_def)+
  show "map_of (scan_iter sm m ?lo ?hi os) key =
      (if above lo key \<and> below hi key then latest (sm_iter sm m) key (scan_seq os) else None)"
    unfolding eq using range to_internal_key_bounds
    by (subst map_of_rev_proj [where Q = "\<lambda>key. above lo key \<and> below hi key" and seq = "scan_seq os"])
      (auto simp: scan_seq_def SEQ_MAX_def split: option.splits)
qed

lemma range_scan_visible:
  assumes "mem_inv sm inv n t" "n \<le> i64_MAX"
  shows "\<exists>res. range_scan sm t lo hi os = Ok res \<and> keys_ascending res \<and>
    (\<forall>key. map_of res key = (if above lo key \<and> below hi key then visible sm t (scan_seq os) key else None))"
proof -
  let ?scan = "\<lambda>m. scan_iter sm m (to_internal_key lo i64_MIN i64_MAX) (to_internal_key hi i64_MAX i64_MIN) os"
  define zs where "zs = (case immut t of Some m \<Rightarrow> merge_list (?scan (mem t)) (?scan m) | None \<Rightarrow> ?scan (mem t))"
  have m: "inv (mem t)" "entries_before sm n (mem t)"
    and im: "\<And>m. immut t = Some m \<Longrightarrow> inv m" "\<And>m. immut t = Some m \<Longrightarrow> entries_before sm n m"
    using assms(1) by (auto simp: mem_inv_def)
  have desc: "descending_keys zs"
    using scan_iter_list(1) [OF m assms(2)] scan_iter_list(1) [OF im assms(2)]
    by (auto simp: zs_def merge_list_descending split: option.split)
  have map: "map_of zs key = (if above lo key \<and> below hi key then visible sm t (scan_seq os) key else None)" for key
    using scan_iter_list [OF m assms(2)] scan_iter_list [OF im assms(2)]
    by (auto simp: zs_def visible_def map_of_merge_list split: option.splits)
  have fold: "(case immut t of Some m \<Rightarrow> scan_merge (?scan (mem t)) (?scan m) [] | None \<Rightarrow> fold duplicates_push (?scan (mem t)) []) =
      unique_by fst zs"
    using fold_duplicates_push [OF desc, of "[]"] by (auto simp: zs_def scan_merge_list split: option.splits)
  let ?res = "rev (unique_by fst zs)"
  have asc: "keys_ascending ?res" by (rule descending_unique_ascending(1) [OF desc])
  then have "sorted (map fst ?res)" "distinct ?res"
    using ascending_sorted [OF asc] ascending_distinct [OF asc] by (simp_all add: distinct_map)
  then have "range_scan sm t lo hi os = Ok ?res"
    unfolding range_scan_def Let_def fold by simp
  then show ?thesis using asc map descending_unique_ascending(2) [OF desc] by auto
qed

lemma swap_data_latest:
  assumes "inv m" "entries_before sm n m" "n \<le> i64_MAX"
  shows "keys_ascending (swap_data sm m)" "map_of (swap_data sm m) key = latest (sm_iter sm m) key SEQ_MAX"
proof -
  let ?xs = "rev (map proj_key (sm_iter sm m))"
  have desc: "descending_keys ?xs" by (rule descending_proj [OF iter_ascending [OF assms(1)]])
  have eq: "swap_data sm m = rev (unique_by fst ?xs)" by (simp add: swap_data_def proj_key_case)
  show "keys_ascending (swap_data sm m)" unfolding eq by (rule descending_unique_ascending(1) [OF desc])
  have "map_of (rev (map proj_key (filter (\<lambda>(ik, v). True) (sm_iter sm m)))) key = (if True then latest (sm_iter sm m) key SEQ_MAX else None)"
    using assms(2,3) by (intro map_of_rev_proj) (force simp: entries_before_def SEQ_MAX_def)
  then show "map_of (swap_data sm m) key = latest (sm_iter sm m) key SEQ_MAX"
    unfolding eq descending_unique_ascending(2) [OF desc] by (simp add: case_prod_beta)
qed

lemma check_key_conflict_iff:
  assumes "mem_inv sm inv n t"
  shows "check_key_conflict sm t kvs seq \<longleftrightarrow>
    (\<exists>key v s w. (key, v) \<in> set kvs \<and> seq < s \<and> (InternalKey key s, w) \<in> set (sm_iter sm (mem t)))"
proof -
  have inv: "inv (mem t)" using assms by (simp add: mem_inv_def)
  have A: "(case sm_lower_bound sm (mem t) (Excluded (InternalKey key seq)) of
      Some (lower_key, _) \<Rightarrow> ik_key lower_key = key | None \<Rightarrow> False) \<longleftrightarrow>
    (\<exists>s w. seq < s \<and> (InternalKey key s, w) \<in> set (sm_iter sm (mem t)))" for key
    unfolding lower_bound_iter [OF inv]
    by (rule find_above_key) (rule iter_ascending [OF inv])
  show ?thesis unfolding check_key_conflict_def list_ex_iff A by blast
qed

end

section \<open>Recovery from the log\<close>

definition log_entry :: "crates \<Rightarrow> key_value list \<Rightarrow> bytes" where
  "log_entry c kvs = concat (map (data_to_bytes c) kvs)"

definition recovered :: "key_value list \<Rightarrow> (internal_key \<times> bytes option) list" where
  "recovered kvs = map (\<lambda>(k, v). (InternalKey k 0, v)) kvs"

text \<open>The log of the current generation holds exactly the records \<open>rs\<close>, and no file is younger.\<close>

definition wal_holds :: "crates \<Rightarrow> 'm mem_table \<Rightarrow> i64 \<Rightarrow> bytes list \<Rightarrow> bool" where
  "wal_holds c t gen rs \<longleftrightarrow>
     wal_writer t = (\<lparr>dst = file_at (fst (log_stream c BLOCK_SIZE 0 rs)) [],
       current_block_offset = snd (log_stream c BLOCK_SIZE 0 rs), log_block_size = BLOCK_SIZE\<rparr>, gen) \<and>
     keys_ascending (wal t) \<and> (\<forall>g\<in>fst ` set (wal t). g \<le> gen) \<and>
     map_of (wal t) gen = Some (fst (log_stream c BLOCK_SIZE 0 rs))"

lemma wal_append_holds:
  assumes "int_encoding c" "wal_holds c t gen rs" "wal_append c t r = Some (Ok t')"
  shows "wal_holds c t' gen (rs @ [r])"
proof -
  let ?off = "snd (log_stream c BLOCK_SIZE 0 rs)"
  have off: "?off \<le> BLOCK_SIZE" by (rule log_stream_offset) simp
  show ?thesis
    using wal_append_at [OF assms(1) off, of t "fst (log_stream c BLOCK_SIZE 0 rs)" "[]" gen r] assms(2,3)
    by (auto simp: wal_holds_def log_stream_snoc keys_btree_insert)
qed

lemma wal_holds_cong:
  "wal t = wal t' \<Longrightarrow> wal_writer t = wal_writer t' \<Longrightarrow> wal_holds c t gen rs \<longleftrightarrow> wal_holds c t' gen rs"
  by (simp add: wal_holds_def)

lemma batch_items_wal [simp]:
  "wal (fold (batch_item sm n) kvs t) = wal t" "wal_writer (fold (batch_item sm n) kvs t) = wal_writer t"
  by (induction kvs arbitrary: t) (simp_all add: batch_item_def)

lemma insert_data_wal:
  assumes "int_encoding c" "wal_holds c t gen rs" "insert_data sm c kv n t = Some (Ok (b, n', t'))"
  shows "wal_holds c t' gen (rs @ [log_entry c [kv]])"
proof -
  obtain t1 where t1: "wal_append c t (data_to_bytes c kv) = Some (Ok t1)"
    using assms(3) by (cases "wal_append c t (data_to_bytes c kv)"; cases "the (wal_append c t (data_to_bytes c kv))")
      (auto simp: insert_data_def)
  then have "wal t' = wal t1" "wal_writer t' = wal_writer t1"
    using assms(3) by (auto simp: insert_data_def Let_def split: prod.splits)
  then show ?thesis
    using wal_append_holds [OF assms(1,2) t1] wal_holds_cong [of t' t1] by (simp add: log_entry_def)
qed

lemma insert_batch_data_wal:
  assumes "int_encoding c" "wal_holds c t gen rs" "insert_batch_data sm c kvs n t = Some (Ok (b, t'))"
  shows "wal_holds c t' gen (rs @ [log_entry c kvs])"
proof -
  let ?t0 = "fold (batch_item sm n) kvs t"
  have "wal_holds c ?t0 gen rs" using assms(2) wal_holds_cong [of ?t0 t] by simp
  moreover have "wal_append c ?t0 (log_entry c kvs) = Some (Ok t')"
    using assms(3) by (cases "wal_append c ?t0 (log_entry c kvs)"; cases "the (wal_append c ?t0 (log_entry c kvs))")
      (auto simp: insert_batch_data_def log_entry_def)
  ultimately show ?thesis by (rule wal_append_holds [OF assms(1)])
qed

lemma wal_decode_entry:
  assumes "int_encoding c" "\<forall>kv\<in>set kvs. kv_storable kv"
  shows "wal_decode c (log_entry c kvs) records = Ok (records @ recovered kvs)"
proof -
  let ?es = "map (\<lambda>(k, v). entry_new 0 (length k) k (value_from v)) kvs"
  have "\<forall>e\<in>set ?es. entry_ok value_ok e"
    using assms(2) by (auto simp: kv_storable_def entry_ok_def entry_new_def value_from_def split: option.splits)
  then have "batch_decode c value_item (concat (map (entry_encode c value_item) ?es)) = Ok (enumerate 0 ?es)"
    by (rule int_encoding.value_batch_decode_roundtrip [OF assms(1)])
  moreover have "concat (map (entry_encode c value_item) ?es) = log_entry c kvs"
    by (auto simp: log_entry_def data_to_bytes_def intro!: arg_cong [where f = concat])
  moreover have "map (\<lambda>(i, e). (InternalKey (entry_key e) 0, value_bytes (entry_item e))) (enumerate 0 ?es) = recovered kvs"
    by (rule nth_equalityI) (auto simp: recovered_def nth_enumerate_eq entry_new_def value_from_def case_prod_beta)
  ultimately show ?thesis by (simp add: wal_decode_def)
qed

lemma wal_decode_stream:
  assumes "int_encoding c" "\<forall>kvs\<in>set kvss. \<forall>kv\<in>set kvs. kv_storable kv"
  shows "log_load c (wal_decode c) (fst (log_stream c BLOCK_SIZE 0 (map (log_entry c) kvss))) [] =
    Some (Ok (recovered (concat kvss)))"
proof -
  define g where "g = (\<lambda>r recs. case wal_decode c r recs of Ok x \<Rightarrow> x | _ \<Rightarrow> recs)"
  let ?rs = "filter (\<lambda>r. r \<noteq> []) (map (log_entry c) kvss)"
  have dec: "wal_decode c r recs = Ok (g r recs)" if "r \<in> set (map (log_entry c) kvss)" for r recs
    using that assms wal_decode_entry [OF assms(1)] by (auto simp: g_def)
  have "fold g ?rs recs = recs @ recovered (concat kvss)" for recs
    using assms(2)
  proof (induction kvss arbitrary: recs)
    case (Cons kvs kvss)
    have "log_entry c kvs = [] \<Longrightarrow> kvs = []"
      using int_encoding.value_entry_nonempty [OF assms(1)] by (cases kvs) (auto simp: log_entry_def data_to_bytes_def)
    then show ?case
      using Cons wal_decode_entry [OF assms(1), of kvs recs] by (auto simp: g_def recovered_def)
  qed (simp add: recovered_def)
  then show ?thesis
    using int_encoding.load_decode_eof [OF assms(1) block_size_facts le0, of ?rs "wal_decode c" g "[]"] dec
    by (simp add: log_stream_nonempty log_load_def log_reader_new_def)
qed

lemma reload_gen_last:
  assumes "keys_ascending d" "\<forall>g\<in>fst ` set d. g \<le> gen" "map_of d gen \<noteq> None"
  shows "fst (reload_gen d None gen_buf) = gen"
proof -
  have "gen \<in> set (map fst d)" using assms(3) by (auto simp: map_of_eq_None_iff)
  moreover have "last (map fst d) \<in> set (map fst d)" if "d \<noteq> []" using that by (intro last_in_set) simp
  moreover have "\<forall>g\<in>set (map fst d). g \<le> last (map fst d)"
    using sorted_le_last [OF ascending_sorted [OF assms(1)]] by blast
  ultimately have "d \<noteq> []" "last (map fst d) = gen" using assms(2) by (force intro: antisym)+
  then show ?thesis
    using sorted_gen_list_id [OF assms(1)] by (simp add: reload_gen_def Let_def case_prod_beta)
qed

context mem_map
begin

lemma fold_batch_recovered: "mem (fold (batch_item sm 0) kvs t) = fold (\<lambda>(k, v). sm_insert sm k v) (recovered kvs) (mem t)"
  by (induction kvs arbitrary: t) (auto simp: batch_item_def recovered_def)

lemma recovered_map:
  assumes "mem t = sm_from_iter sm (recovered kvs)" "immut t = None" "writer_ok (fst (wal_writer t))"
  shows "mem_inv sm inv 1 t" "0 \<le> seq \<Longrightarrow> visible sm t seq key = map_of (rev kvs) key"
proof -
  let ?t0 = "t\<lparr>mem := sm_new sm\<rparr>"
  have inv0: "mem_inv sm inv (0 + 1) ?t0"
    using assms(2,3) by (simp add: mem_inv_def inv_new entries_before_def iter_new)
  have vis0: "visible sm ?t0 seq key = None" for seq key
    using assms(2) by (simp add: visible_def iter_new)
  have mem: "mem (fold (batch_item sm 0) kvs ?t0) = mem t"
    by (simp add: fold_batch_recovered assms(1) sm_from_iter_def)
  have im: "immut (fold (batch_item sm 0) kvs t') = immut t'" for t'
    by (induction kvs arbitrary: t') (simp_all add: batch_item_def)
  show "mem_inv sm inv 1 t"
    using batch_items(1) [OF inv0, of kvs] mem im [of ?t0] assms(2,3) by (simp add: mem_inv_def)
  show "visible sm t seq key = map_of (rev kvs) key" if "0 \<le> seq"
    using batch_items(2) [OF inv0, of kvs seq key] that mem im [of ?t0] assms(2)
    by (simp add: visible_def [of sm t] visible_def [of sm "fold (batch_item sm 0) kvs ?t0"] vis0 split: option.splits)
qed

lemma mem_table_new_recovers:
  assumes "int_encoding c" "\<forall>kvs\<in>set kvss. \<forall>kv\<in>set kvs. kv_storable kv"
    and "keys_ascending d" "\<forall>g\<in>fst ` set d. g \<le> gen"
    and "map_of d gen = Some (fst (log_stream c BLOCK_SIZE 0 (map (log_entry c) kvss)))"
  shows "\<exists>t. mem_table_new sm c cfg d gen_buf = Some (Ok (snd (gen_create gen_buf), t)) \<and> mem_inv sm inv 1 t \<and>
    (\<forall>key. mem_find sm t key = map_option (\<lambda>v. (key, v)) (map_of (rev (concat kvss)) key)) \<and>
    wal t = d \<and> immut t = None \<and> tx_count t = 0 \<and>
    wal_writer t = (\<lparr>dst = file_at [] (fst (log_stream c BLOCK_SIZE 0 (map (log_entry c) kvss))),
      current_block_offset = 0, log_block_size = BLOCK_SIZE\<rparr>, gen)"
proof -
  let ?file = "fst (log_stream c BLOCK_SIZE 0 (map (log_entry c) kvss))"
  have gen: "reload_gen d None gen_buf = (gen, snd (gen_create gen_buf))"
    using reload_gen_last [OF assms(3,4), of gen_buf] assms(5) by (auto simp: reload_gen_def Let_def case_prod_beta prod_eq_iff)
  have opened: "open_or_create d gen = (?file, d)"
    by (rule open_or_create_existing) (simp add: btree_get_def assms(5))
  define t where "t = \<lparr>mem = sm_from_iter sm (recovered (concat kvss)), immut = None, wal = d,
    wal_writer = (log_writer_new \<lparr>contents = ?file, position = 0\<rparr>, gen),
    mem_trigger = trigger_create (fst (minor_trigger_with_threshold cfg)) (snd (minor_trigger_with_threshold cfg)), tx_count = 0\<rparr>"
  have new: "mem_table_new sm c cfg d gen_buf = Some (Ok (snd (gen_create gen_buf), t))"
    using wal_decode_stream [OF assms(1,2)]
    by (simp add: mem_table_new_def log_loader_reload_def log_loader_load_def gen opened factory_reader_def
        log_loader_writer_def factory_writer_def t_def case_prod_beta Let_def)
  have t: "mem t = sm_from_iter sm (recovered (concat kvss))" "immut t = None" "writer_ok (fst (wal_writer t))"
    by (simp_all add: t_def log_writer_new_at)
  have "0 \<le> SEQ_MAX" by (simp add: SEQ_MAX_def i64_MAX_def)
  then have "mem_find sm t key = map_option (\<lambda>v. (key, v)) (map_of (rev (concat kvss)) key)" for key
    using recovered_map [OF t] by (simp add: mem_find_visible)
  then show ?thesis
    using new recovered_map(1) [OF t] by (intro exI [of _ t]) (simp add: t_def log_writer_new_at)
qed

end

section \<open>Properties\<close>

interpretation bt: mem_map btree_skip_map keys_ascending
  by unfold_locales

lemmas mem_map_reads = mem_map.mem_find_visible mem_map.find_with_sequence_id_visible

definition sample_mem :: "(internal_key, bytes option) btree_map mem_table" where
  "sample_mem = \<lparr>mem = [(InternalKey [1] 1, Some [5])], immut = Some [(InternalKey [1] 0, Some [4]), (InternalKey [2] 0, None)],
     wal = [], wal_writer = (log_writer_new \<lparr>contents = [], position = 0\<rparr>, 7), mem_trigger = CountTrigger 1 2, tx_count = 0\<rparr>"

lemma sample_mem_inv: "mem_inv btree_skip_map keys_ascending 2 sample_mem"
  by (simp add: mem_inv_def sample_mem_def btree_skip_map_def entries_before_def internal_key_less log_writer_new_at)

lemma sample_mem_find:
  "mem_find btree_skip_map sample_mem [1] = Some ([1], Some [5])"
  "mem_find btree_skip_map sample_mem [2] = Some ([2], None)"
  "find_with_sequence_id btree_skip_map sample_mem [1] 0 = Some ([1], Some [4])"
  by (simp_all add: mem_find_def find_with_sequence_id_def find_in_def sample_mem_def btree_skip_map_def
      internal_key_le SEQ_MAX_def i64_MAX_def Let_def)

lemma insert_data_find:
  assumes "mem_map sm I" "int_encoding c" "mem_inv sm I n t" "0 \<le> n" "n < i64_MAX"
  shows "\<exists>t'. insert_data sm c kv n t = Some (Ok (is_exceeded (item_process (mem_trigger t) kv), n + 1, t')) \<and>
    mem_inv sm I (n + 1) t' \<and>
    (\<forall>key. mem_find sm t' key = (if key = fst kv then Some kv else mem_find sm t key)) \<and>
    (\<forall>key s. s < n \<longrightarrow> find_with_sequence_id sm t' key s = find_with_sequence_id sm t key s)"
proof -
  obtain t' where t': "insert_data sm c kv n t = Some (Ok (is_exceeded (item_process (mem_trigger t) kv), n + 1, t'))"
      "mem_inv sm I (n + 1) t'"
      "\<forall>seq key. visible sm t' seq key = (if key = fst kv \<and> n \<le> seq then Some (snd kv) else visible sm t seq key)"
    using mem_map.insert_data_visible [OF assms] by blast
  then show ?thesis
    using assms(3-5) by (intro exI [of _ t']) (simp add: mem_map_reads [OF assms(1)] SEQ_MAX_def)
qed

text \<open>\<open>insert_data\<close> always returns; afterwards \<open>find\<close> sees the new value for its key and the old
  values elsewhere, every snapshot read at an older sequence number is unchanged, the flag reports
  the trigger, and the invariant holds for the advanced sequence counter.\<close>

theorem insert_data_correct:
  assumes "mem_map sm I" "int_encoding c" "mem_inv sm I n t" "0 \<le> n" "n < i64_MAX"
  shows "\<exists>t'. insert_data sm c kv n t = Some (Ok (is_exceeded (item_process (mem_trigger t) kv), n + 1, t')) \<and>
    mem_inv sm I (n + 1) t' \<and>
    (\<forall>key. mem_find sm t' key = (if key = fst kv then Some kv else mem_find sm t key)) \<and>
    (\<forall>key s. s < n \<longrightarrow> find_with_sequence_id sm t' key s = find_with_sequence_id sm t key s)"
  by (rule insert_data_find [OF assms])

theorem insert_data_correct_witness:
  "\<exists>t'. insert_data btree_skip_map le_crates ([1], None) 2 sample_mem = Some (Ok (True, 3, t')) \<and>
    mem_find btree_skip_map t' [1] = Some ([1], None) \<and> mem_find btree_skip_map t' [2] = Some ([2], None) \<and>
    find_with_sequence_id btree_skip_map t' [1] 0 = Some ([1], Some [4])"
proof -
  have "is_exceeded (item_process (mem_trigger sample_mem) ([1], None))" by (simp add: sample_mem_def)
  then show ?thesis
    using insert_data_correct [OF bt.mem_map_axioms le.int_encoding_axioms sample_mem_inv, of "([1], None)"]
    by (auto simp: sample_mem_find i64_MAX_def)
qed

text \<open>A committed batch becomes visible as a whole: \<open>insert_batch_data\<close> returns, reads at the batch's
  sequence number and later see the last value of every key of the batch, reads at older sequence
  numbers see nothing of it.\<close>

theorem insert_batch_data_atomic:
  assumes "mem_map sm I" "int_encoding c" "mem_inv sm I n t" "0 \<le> n" "n < i64_MAX"
  shows "\<exists>b t'. insert_batch_data sm c kvs n t = Some (Ok (b, t')) \<and> mem_inv sm I (n + 1) t' \<and>
    (\<forall>key. mem_find sm t' key =
      (case map_of (rev kvs) key of Some v \<Rightarrow> Some (key, v) | None \<Rightarrow> mem_find sm t key)) \<and>
    (\<forall>key s. s < n \<longrightarrow> find_with_sequence_id sm t' key s = find_with_sequence_id sm t key s)"
proof -
  obtain b t' where t': "insert_batch_data sm c kvs n t = Some (Ok (b, t'))" "mem_inv sm I (n + 1) t'"
      "\<forall>seq key. visible sm t' seq key =
        (case map_of (rev kvs) key of Some v \<Rightarrow> if n \<le> seq then Some v else visible sm t seq key
         | None \<Rightarrow> visible sm t seq key)"
    using mem_map.insert_batch_data_visible [OF assms(1-4), of kvs] by blast
  then show ?thesis
    using assms(3-5)
    by (intro exI [of _ b] exI [of _ t']) (auto simp: mem_map_reads [OF assms(1)] SEQ_MAX_def split: option.splits)
qed

theorem insert_batch_data_atomic_witness:
  "\<exists>b t'. insert_batch_data btree_skip_map le_crates [([1], None), ([3], Some [6])] 2 sample_mem = Some (Ok (b, t')) \<and>
    mem_find btree_skip_map t' [1] = Some ([1], None) \<and> mem_find btree_skip_map t' [3] = Some ([3], Some [6]) \<and>
    find_with_sequence_id btree_skip_map t' [1] 0 = Some ([1], Some [4])"
  using insert_batch_data_atomic [OF bt.mem_map_axioms le.int_encoding_axioms sample_mem_inv,
      of "[([1], None), ([3], Some [6])]"]
  by (auto simp: sample_mem_find i64_MAX_def)

text \<open>C26: a range scan never fails its assertions and is the pointwise snapshot read: its keys are
  strictly ascending, exactly the visible keys inside the bounds, each with the value that
  \<open>find_with_sequence_id\<close> returns.\<close>

theorem range_scan_correct:
  assumes "mem_map sm I" "mem_inv sm I n t" "n \<le> i64_MAX"
  shows "\<exists>res. range_scan sm t lo hi (Some s) = Ok res \<and> keys_ascending res \<and>
    (\<forall>key v. (key, v) \<in> set res \<longleftrightarrow>
      above lo key \<and> below hi key \<and> find_with_sequence_id sm t key s = Some (key, v))"
  using mem_map.range_scan_visible [OF assms, of lo hi "Some s"]
  by (auto simp: ascending_in_iff mem_map_reads(2) [OF assms(1,2)] scan_seq_def)

theorem range_scan_correct_witness:
  "\<exists>res. range_scan btree_skip_map sample_mem (Included [1]) Unbounded (Some 1) = Ok res \<and>
    keys_ascending res \<and> ([1], Some [5]) \<in> set res"
proof -
  have "find_with_sequence_id btree_skip_map sample_mem [1] 1 = Some ([1], Some [5])"
    by (simp add: find_with_sequence_id_def find_in_def sample_mem_def btree_skip_map_def internal_key_le Let_def)
  then show ?thesis
    using range_scan_correct [OF bt.mem_map_axioms sample_mem_inv, of "Included [1]" Unbounded 1]
    by (auto simp: i64_MAX_def)
qed

text \<open>The optimistic check of a commit reports a conflict exactly when the mutable map holds a
  version of a written key that is newer than the transaction's sequence number.\<close>

theorem check_key_conflict_correct:
  assumes "mem_map sm I" "mem_inv sm I n t"
  shows "check_key_conflict sm t kvs seq \<longleftrightarrow>
    (\<exists>key v s w. (key, v) \<in> set kvs \<and> seq < s \<and> (InternalKey key s, w) \<in> set (sm_iter sm (mem t)))"
  by (rule mem_map.check_key_conflict_iff [OF assms])

theorem check_key_conflict_correct_witness:
  "check_key_conflict btree_skip_map sample_mem [([1], None)] 0 \<and>
   \<not> check_key_conflict btree_skip_map sample_mem [([1], None)] 1"
  using check_key_conflict_correct [OF bt.mem_map_axioms sample_mem_inv, of "[([1], None)]"]
  by (simp add: sample_mem_def btree_skip_map_def)

text \<open>What \<open>swap\<close> does to a table whose new generation has no log yet.\<close>

definition after_swap :: "'m mem_ops \<Rightarrow> i64 \<Rightarrow> 'm mem_table \<Rightarrow> 'm mem_table" where
  "after_swap sm gen t = t\<lparr>mem_trigger := trigger_reset (mem_trigger t), immut := Some (mem t), mem := sm_new sm,
     wal := btree_insert gen [] (wal t), wal_writer := (log_writer_new \<lparr>contents = [], position = 0\<rparr>, gen)\<rparr>"

lemma swap_fresh:
  assumes "map_of (wal t) gen_buf = None" "0 \<le> gen_buf" "gen_buf < i64_MAX" "tx_count t = 0"
  shows "swap sm gen_buf t = Some (if mem_is_empty sm t then (None, gen_buf, t)
    else (Some (snd (wal_writer t), swap_data sm (mem t)), gen_buf + 1, after_swap sm gen_buf t))"
  using assms(1,4) create_next(2) [OF assms(2,3)]
  by (simp add: swap_def mem_is_empty_def after_swap_def log_loader_writer_def factory_writer_def open_or_create_new
      btree_get_def Let_def)

lemma after_swap_inv:
  assumes "mem_map sm I" "mem_inv sm I n t"
  shows "mem_inv sm I n (after_swap sm gen t)" "mem_is_empty sm (after_swap sm gen t)" "sm_iter sm (mem (after_swap sm gen t)) = []"
proof -
  have om: "ordered_map sm I" using assms(1) by (simp add: mem_map_def)
  show "mem_inv sm I n (after_swap sm gen t)"
    using assms(2) ordered_map.inv_new [OF om] ordered_map.iter_new [OF om]
    by (simp add: mem_inv_def after_swap_def entries_before_def log_writer_new_at)
  show "mem_is_empty sm (after_swap sm gen t)" "sm_iter sm (mem (after_swap sm gen t)) = []"
    using ordered_map.iter_new [OF om]
    by (simp_all add: mem_is_empty_def after_swap_def ordered_map.is_empty_iter [OF om] ordered_map.inv_new [OF om])
qed

lemma after_swap_wal_holds:
  assumes "keys_ascending (wal t)" "\<forall>g\<in>fst ` set (wal t). g < gen"
  shows "wal_holds c (after_swap sm gen t) gen []"
  using assms by (auto simp: wal_holds_def after_swap_def log_writer_new_at keys_btree_insert)

text \<open>C27: \<open>swap\<close> waits while a transaction is open and leaves an empty table alone. A non-empty table, whose next
  generation is below the largest integer and has no log yet, hands out, in key order, exactly the newest value of
  every key of the mutable map together with the generation of its log; it takes the generation and goes on with
  an empty log of its own in that generation, every other log staying as it was, with an empty mutable map and with
  its counters reset. Reads, also those of an older snapshot, are then answered by the former mutable map: none
  changes when there was no immutable map, and the data of an immutable map that is replaced is no longer read.\<close>

theorem swap_correct:
  assumes "mem_map sm I" "mem_inv sm I n t" "n \<le> i64_MAX"
    and "gen_buf \<notin> fst ` set (wal t)" "0 \<le> gen_buf" "gen_buf < i64_MAX"
  shows "swap sm gen_buf (t\<lparr>tx_count := Suc k\<rparr>) = None \<and>
    (mem_is_empty sm t \<longrightarrow> swap sm gen_buf (t\<lparr>tx_count := 0\<rparr>) = Some (None, gen_buf, t\<lparr>tx_count := 0\<rparr>)) \<and>
    (\<not> mem_is_empty sm t \<longrightarrow>
      (\<exists>data t'. swap sm gen_buf (t\<lparr>tx_count := 0\<rparr>) = Some (Some (snd (wal_writer t), data), gen_buf + 1, t') \<and>
        keys_ascending data \<and>
        (\<forall>key. map_of data key = map_option snd (find_in sm (InternalKey key SEQ_MAX) (mem t))) \<and>
        mem_inv sm I n t' \<and> mem_is_empty sm t' \<and> mem_trigger t' = trigger_reset (mem_trigger t) \<and>
        wal_writer t' = (log_writer_new \<lparr>contents = [], position = 0\<rparr>, gen_buf) \<and>
        (\<forall>g. map_of (wal t') g = (if g = gen_buf then Some [] else map_of (wal t) g)) \<and>
        (\<forall>key. mem_find sm t' key = map_option (\<lambda>v. (key, v)) (map_of data key)) \<and>
        (\<forall>key s. find_with_sequence_id sm t' key s = find_with_sequence_id sm (t\<lparr>immut := None\<rparr>) key s)))"
proof -
  have m: "I (mem t)" "entries_before sm n (mem t)" using assms(2) by (simp_all add: mem_inv_def)
  let ?data = "swap_data sm (mem t)" and ?t0 = "t\<lparr>tx_count := 0\<rparr>"
  define t' where "t' = after_swap sm gen_buf ?t0"
  have inv0: "mem_inv sm I n ?t0" and invN: "mem_inv sm I n (t\<lparr>immut := None\<rparr>)" using assms(2) by (simp_all add: mem_inv_def)
  note inv' = after_swap_inv [OF assms(1) inv0, of gen_buf, folded t'_def]
  have vis': "visible sm t' s key = latest (sm_iter sm (mem t)) key s" for s key
    using inv'(3) by (simp add: visible_def t'_def after_swap_def)
  have data: "map_of ?data key = map_option snd (find_in sm (InternalKey key SEQ_MAX) (mem t))" for key
    using mem_map.swap_data_latest(2) [OF assms(1) m assms(3), of key] mem_map.find_in_latest [OF assms(1) m(1), of key SEQ_MAX]
    by (simp add: option.map_comp comp_def option.map_ident)
  have found: "mem_find sm t' key = map_option (\<lambda>v. (key, v)) (map_of ?data key)" for key
    using mem_map.swap_data_latest(2) [OF assms(1) m assms(3), of key] mem_map_reads(1) [OF assms(1) inv'(1), of key]
    by (simp add: vis')
  have reads: "find_with_sequence_id sm t' key s = find_with_sequence_id sm (t\<lparr>immut := None\<rparr>) key s" for key s
    by (simp add: mem_map_reads(2) [OF assms(1) inv'(1)] mem_map_reads(2) [OF assms(1) invN] vis' visible_def [of sm "t\<lparr>immut := None\<rparr>"] split: option.split)
  have state: "mem_trigger t' = trigger_reset (mem_trigger t)" "wal_writer t' = (log_writer_new \<lparr>contents = [], position = 0\<rparr>, gen_buf)"
      "map_of (wal t') g = (if g = gen_buf then Some [] else map_of (wal t) g)" for g
    by (simp_all add: t'_def after_swap_def map_of_btree_insert)
  have "swap sm gen_buf ?t0 = Some (if mem_is_empty sm t then (None, gen_buf, ?t0)
      else (Some (snd (wal_writer t), ?data), gen_buf + 1, t'))"
    using swap_fresh [of ?t0 gen_buf sm] assms(4-6) by (simp add: mem_is_empty_def t'_def map_of_eq_None_iff)
  moreover have "swap sm gen_buf (t\<lparr>tx_count := Suc k\<rparr>) = None" by (simp add: swap_def)
  ultimately show ?thesis
    using inv' state data found reads mem_map.swap_data_latest(1) [OF assms(1) m assms(3)] by simp
qed

theorem swap_correct_witness:
  "\<exists>data t'. swap btree_skip_map 8 (sample_mem\<lparr>tx_count := 0\<rparr>) = Some (Some (7, data), 9, t') \<and>
    keys_ascending data \<and> map_of data [1] = Some (Some [5]) \<and> mem_find btree_skip_map t' [1] = Some ([1], Some [5]) \<and>
    map_of (wal t') 8 = Some [] \<and> find_with_sequence_id btree_skip_map t' [1] 0 = None \<and>
    swap btree_skip_map 8 (sample_mem\<lparr>tx_count := Suc 0\<rparr>) = None"
proof -
  have ne: "\<not> mem_is_empty btree_skip_map sample_mem" "snd (wal_writer sample_mem) = 7" "8 \<notin> fst ` set (wal sample_mem)"
    by (simp_all add: mem_is_empty_def sample_mem_def btree_skip_map_def)
  have f: "find_in btree_skip_map (InternalKey [1] SEQ_MAX) (mem sample_mem) = Some ([1], Some [5])"
      "find_with_sequence_id btree_skip_map (sample_mem\<lparr>immut := None\<rparr>) [1] 0 = None"
    by (simp_all add: find_with_sequence_id_def find_in_def sample_mem_def btree_skip_map_def internal_key_le Let_def
        SEQ_MAX_def i64_MAX_def)
  show ?thesis
    using swap_correct [OF bt.mem_map_axioms sample_mem_inv, of 8 0] ne f by (auto simp: i64_MAX_def)
qed

section \<open>Histories of writes and crashes\<close>

text \<open>A write reaches the table as a single insert or as the batch of a commit.\<close>

datatype mem_write = Put key_value | Commit "key_value list"

fun write_data :: "mem_write \<Rightarrow> key_value list" where
  "write_data (Put kv) = [kv]"
| "write_data (Commit kvs) = kvs"

fun write_step ::
  "'m mem_ops \<Rightarrow> crates \<Rightarrow> mem_write \<Rightarrow> i64 \<Rightarrow> 'm mem_table \<Rightarrow> (i64 \<times> 'm mem_table) outcome option" where
  "write_step sm c (Put kv) n t = map_option (map_outcome_ok snd) (insert_data sm c kv n t)"
| "write_step sm c (Commit kvs) n t =
     (let (seq, n') = sequence_create n in
      map_option (map_outcome_ok (\<lambda>(b, t'). (n', t'))) (insert_batch_data sm c kvs seq t))"

fun write_all ::
  "'m mem_ops \<Rightarrow> crates \<Rightarrow> mem_write list \<Rightarrow> i64 \<Rightarrow> 'm mem_table \<Rightarrow> (i64 \<times> 'm mem_table) outcome option" where
  "write_all sm c [] n t = Some (Ok (n, t))"
| "write_all sm c (w # ws) n t =
     (case write_step sm c w n t of
        Some (Ok (n', t')) \<Rightarrow> write_all sm c ws n' t'
      | r \<Rightarrow> r)"

lemma write_step_ok:
  assumes "mem_map sm I" "int_encoding c" "mem_inv sm I n t" "0 \<le> n" "n < i64_MAX" "wal_holds c t gen rs"
  shows "\<exists>t'. write_step sm c w n t = Some (Ok (n + 1, t')) \<and> mem_inv sm I (n + 1) t' \<and>
    wal_holds c t' gen (rs @ [log_entry c (write_data w)]) \<and>
    (\<forall>key. visible sm t' SEQ_MAX key =
      (case map_of (rev (write_data w)) key of Some v \<Rightarrow> Some v | None \<Rightarrow> visible sm t SEQ_MAX key))"
proof (cases w)
  case (Put kv)
  obtain b t' where t': "insert_data sm c kv n t = Some (Ok (b, n + 1, t'))" "mem_inv sm I (n + 1) t'"
      "\<forall>seq key. visible sm t' seq key = (if key = fst kv \<and> n \<le> seq then Some (snd kv) else visible sm t seq key)"
    using mem_map.insert_data_visible [OF assms(1-5), of kv] by blast
  have "n \<le> SEQ_MAX" using assms(5) by (simp add: SEQ_MAX_def)
  then show ?thesis
    using t' insert_data_wal [OF assms(2,6) t'(1)] by (intro exI [of _ t']) (cases kv, simp add: Put)
next
  case (Commit kvs)
  have "n \<le> SEQ_MAX" using assms(5) by (simp add: SEQ_MAX_def)
  moreover obtain b t' where t': "insert_batch_data sm c kvs n t = Some (Ok (b, t'))" "mem_inv sm I (n + 1) t'"
      "\<forall>seq key. visible sm t' seq key =
        (case map_of (rev kvs) key of Some v \<Rightarrow> if n \<le> seq then Some v else visible sm t seq key
         | None \<Rightarrow> visible sm t seq key)"
    using mem_map.insert_batch_data_visible [OF assms(1-4), of kvs] by blast
  ultimately show ?thesis
    using insert_batch_data_wal [OF assms(2,6) t'(1)] create_next(1) [OF assms(4,5)]
    by (intro exI [of _ t']) (simp add: Commit split: option.split)
qed

lemma latest_visible: "latest (sm_iter sm (mem t)) key seq = visible sm (t\<lparr>immut := None\<rparr>) seq key"
  by (auto simp: visible_def split: option.split)

lemma fold_batch_item: "mem (fold (batch_item sm n) kvs t) = fold (\<lambda>kv. sm_insert sm (InternalKey (fst kv) n) (snd kv)) kvs (mem t)"
    "immut (fold (batch_item sm n) kvs t) = immut t"
  by (induction kvs arbitrary: t) (simp_all add: batch_item_def)

lemma fold_batch_latest:
  assumes sm: "mem_map sm I" and inv: "mem_inv sm I n t" and n: "0 \<le> n" "n < i64_MAX"
  shows "latest (sm_iter sm (mem (fold (batch_item sm n) kvs t))) key SEQ_MAX =
    (case map_of (rev kvs) key of Some v \<Rightarrow> Some v | None \<Rightarrow> latest (sm_iter sm (mem t)) key SEQ_MAX)"
proof -
  let ?t = "t\<lparr>immut := None\<rparr>" and ?f = "fold (batch_item sm n) kvs"
  have "mem_inv sm I (n + 1) ?t" using mem_map.mem_inv_mono [OF sm inv] by (simp add: mem_inv_def)
  from mem_map.batch_items(2) [OF sm this n(1), of kvs SEQ_MAX key]
  have "visible sm (?f ?t) SEQ_MAX key = (case map_of (rev kvs) key of Some v \<Rightarrow> Some v | None \<Rightarrow> visible sm ?t SEQ_MAX key)"
    using n(2) by (simp add: SEQ_MAX_def split: option.split)
  moreover have "latest (sm_iter sm (mem (?f t))) key SEQ_MAX = visible sm (?f ?t) SEQ_MAX key"
    by (simp add: visible_def fold_batch_item split: option.split)
  moreover have l: "latest (sm_iter sm (mem t)) key SEQ_MAX = visible sm ?t SEQ_MAX key" by (rule latest_visible)
  ultimately show ?thesis unfolding l by simp
qed

lemma wal_append_mem:
  "wal_append c t r = Some (Ok t') \<Longrightarrow> mem t' = mem t \<and> immut t' = immut t \<and> tx_count t' = tx_count t"
  by (auto simp: wal_append_def map_outcome_ok_Ok_iff case_prod_beta)

lemma batch_item_tx_count [simp]: "tx_count (fold (batch_item sm n) kvs t) = tx_count t"
  by (induction kvs arbitrary: t) (simp_all add: batch_item_def)

lemma write_step_mem:
  assumes sm: "mem_map sm I" and inv: "mem_inv sm I n t" "0 \<le> n" "n < i64_MAX" and run: "write_step sm c w n t = Some (Ok (n', t'))"
  shows "latest (sm_iter sm (mem t')) key SEQ_MAX =
      (case map_of (rev (write_data w)) key of Some v \<Rightarrow> Some v | None \<Rightarrow> latest (sm_iter sm (mem t)) key SEQ_MAX)"
    and "immut t' = immut t" "tx_count t' = tx_count t"
proof -
  have "mem t' = mem (fold (batch_item sm n) (write_data w) t) \<and> immut t' = immut t \<and> tx_count t' = tx_count t"
    using run create_next(1) [OF inv(2,3)]
    by (cases w)
      (auto simp: insert_data_def insert_batch_data_def map_outcome_ok_Ok_iff Let_def case_prod_beta batch_item_def fold_batch_item
        dest!: wal_append_mem)
  then show "latest (sm_iter sm (mem t')) key SEQ_MAX =
      (case map_of (rev (write_data w)) key of Some v \<Rightarrow> Some v | None \<Rightarrow> latest (sm_iter sm (mem t)) key SEQ_MAX)"
    "immut t' = immut t" "tx_count t' = tx_count t"
    using fold_batch_latest [OF sm inv, of "write_data w" key] by simp_all
qed

lemma write_all_ok:
  assumes "mem_map sm I" "int_encoding c" "mem_inv sm I n t" "0 \<le> n" "n + int (length ws) < i64_MAX" "wal_holds c t gen rs"
  shows "\<exists>t'. write_all sm c ws n t = Some (Ok (n + int (length ws), t')) \<and> mem_inv sm I (n + int (length ws)) t' \<and>
    wal_holds c t' gen (rs @ map (log_entry c) (map write_data ws)) \<and>
    (\<forall>key. visible sm t' SEQ_MAX key =
      (case map_of (rev (concat (map write_data ws))) key of Some v \<Rightarrow> Some v | None \<Rightarrow> visible sm t SEQ_MAX key))"
  using assms(3-6)
proof (induction ws arbitrary: n t rs)
  case (Cons w ws)
  have n: "n < i64_MAX" using Cons.prems(3) by simp
  obtain t1 where t1: "write_step sm c w n t = Some (Ok (n + 1, t1))" "mem_inv sm I (n + 1) t1"
      "wal_holds c t1 gen (rs @ [log_entry c (write_data w)])"
      "\<forall>key. visible sm t1 SEQ_MAX key =
        (case map_of (rev (write_data w)) key of Some v \<Rightarrow> Some v | None \<Rightarrow> visible sm t SEQ_MAX key)"
    using write_step_ok [OF assms(1,2) Cons.prems(1,2) n Cons.prems(4)] by blast
  have "0 \<le> n + 1" "n + 1 + int (length ws) < i64_MAX" using Cons.prems by simp_all
  from Cons.IH [OF t1(2) this t1(3)] obtain t2
    where t2: "write_all sm c ws (n + 1) t1 = Some (Ok (n + 1 + int (length ws), t2))"
      "mem_inv sm I (n + 1 + int (length ws)) t2"
      "wal_holds c t2 gen ((rs @ [log_entry c (write_data w)]) @ map (log_entry c) (map write_data ws))"
      "\<forall>key. visible sm t2 SEQ_MAX key =
        (case map_of (rev (concat (map write_data ws))) key of Some v \<Rightarrow> Some v | None \<Rightarrow> visible sm t1 SEQ_MAX key)"
    by blast
  have "visible sm t2 SEQ_MAX key = (case map_of (rev (concat (map write_data (w # ws)))) key of
      Some v \<Rightarrow> Some v | None \<Rightarrow> visible sm t SEQ_MAX key)" for key
    using t1(4) [rule_format, of key] t2(4) [rule_format, of key] by (simp add: map_add_def split: option.splits)
  then show ?case
    using t1(1) t2 by (intro exI [of _ t2]) (simp add: add.assoc add.commute [of 1])
qed simp

lemma mem_table_new_empty:
  assumes "mem_map sm I" "int_encoding c"
  shows "\<exists>gb t. mem_table_new sm c cfg [] gen_buf = Some (Ok (gb, t)) \<and> mem_inv sm I 1 t \<and>
    wal_holds c t gen_buf [] \<and> immut t = None \<and> (\<forall>seq key. visible sm t seq key = None) \<and> gb = snd (gen_create gen_buf) \<and>
    mem t = sm_new sm \<and> tx_count t = 0"
proof -
  have om: "ordered_map sm I" using assms(1) by (simp add: mem_map_def)
  have load: "log_load c (wal_decode c) [] [] = Some (Ok [])"
    using wal_decode_stream [OF assms(2), of "[]"] by (simp add: recovered_def)
  have gen: "fst (reload_gen [] None gen_buf) = gen_buf"
    by (simp add: reload_gen_def sorted_gen_list_def gen_create_def)
  let ?tr = "minor_trigger_with_threshold cfg"
  let ?t = "\<lparr>mem = sm_new sm, immut = None, wal = [(gen_buf, [])],
    wal_writer = (log_writer_new \<lparr>contents = [], position = 0\<rparr>, gen_buf),
    mem_trigger = trigger_create (fst ?tr) (snd ?tr), tx_count = 0\<rparr>"
  have "mem_table_new sm c cfg [] gen_buf = Some (Ok (snd (reload_gen [] None gen_buf), ?t))"
    using gen load
    by (simp add: mem_table_new_def log_loader_reload_def log_loader_load_def factory_reader_def factory_writer_def
        log_loader_writer_def open_or_create_def btree_get_def sm_from_iter_def case_prod_beta Let_def)
  then show ?thesis
    using ordered_map.inv_new [OF om] ordered_map.iter_new [OF om]
    by (auto simp: mem_inv_def entries_before_def wal_holds_def log_writer_new_at visible_def reload_gen_def case_prod_beta Let_def)
qed

text \<open>A life of the table between two openings: writes and swaps in any order. The state is the counter of sequence
  numbers, the counter of generations and the table; \<open>since_swap\<close> is the data written after the last swap.\<close>

datatype mem_event = Write mem_write | Swap

fun mem_event_step ::
  "'m mem_ops \<Rightarrow> crates \<Rightarrow> mem_event \<Rightarrow> i64 \<times> i64 \<times> 'm mem_table \<Rightarrow> (i64 \<times> i64 \<times> 'm mem_table) outcome option" where
  "mem_event_step sm c (Write w) (n, gb, t) = map_option (map_outcome_ok (\<lambda>(n', t'). (n', gb, t'))) (write_step sm c w n t)"
| "mem_event_step sm c Swap (n, gb, t) = map_option (\<lambda>(_, gb', t'). Ok (n, gb', t')) (swap sm gb t)"

fun mem_run ::
  "'m mem_ops \<Rightarrow> crates \<Rightarrow> mem_event list \<Rightarrow> i64 \<times> i64 \<times> 'm mem_table \<Rightarrow> (i64 \<times> i64 \<times> 'm mem_table) outcome option" where
  "mem_run sm c [] s = Some (Ok s)"
| "mem_run sm c (e # es) s =
     (case mem_event_step sm c e s of
        Some (Ok s') \<Rightarrow> mem_run sm c es s'
      | r \<Rightarrow> r)"

fun event_data :: "key_value list \<Rightarrow> mem_event \<Rightarrow> key_value list" where
  "event_data data (Write w) = data @ write_data w"
| "event_data data Swap = []"

definition since_swap :: "mem_event list \<Rightarrow> key_value list" where
  "since_swap es = foldl event_data [] es"

text \<open>The youngest log holds exactly \<open>data\<close>, and so does the mutable map.\<close>

definition table_logged ::
  "'m mem_ops \<Rightarrow> ('m \<Rightarrow> bool) \<Rightarrow> crates \<Rightarrow> i64 \<times> i64 \<times> 'm mem_table \<Rightarrow> key_value list \<Rightarrow> bool" where
  "table_logged sm I c s data \<longleftrightarrow>
     (case s of (n, gb, t) \<Rightarrow> mem_inv sm I n t \<and> tx_count t = 0 \<and> 0 \<le> n \<and> 0 \<le> gb \<and>
       (\<exists>gen kvss. gen < gb \<and> wal_holds c t gen (map (log_entry c) kvss) \<and> concat kvss = data) \<and>
       (\<forall>key. latest (sm_iter sm (mem t)) key SEQ_MAX = map_of (rev data) key))"

lemma write_event_ok:
  assumes "mem_map sm I" "int_encoding c" "table_logged sm I c (n, gb, t) data" "n < i64_MAX"
  shows "\<exists>t'. mem_event_step sm c (Write w) (n, gb, t) = Some (Ok (n + 1, gb, t')) \<and>
    table_logged sm I c (n + 1, gb, t') (data @ write_data w) \<and> immut t' = immut t"
proof -
  obtain gen kvss where s: "mem_inv sm I n t" "0 \<le> n" "gen < gb" "wal_holds c t gen (map (log_entry c) kvss)" "concat kvss = data"
      "\<forall>key. latest (sm_iter sm (mem t)) key SEQ_MAX = map_of (rev data) key" "tx_count t = 0" "0 \<le> gb"
    using assms(3) by (auto simp: table_logged_def)
  obtain t' where t': "write_step sm c w n t = Some (Ok (n + 1, t'))" "mem_inv sm I (n + 1) t'"
      "wal_holds c t' gen (map (log_entry c) (kvss @ [write_data w]))"
    using write_step_ok [OF assms(1,2) s(1,2) assms(4) s(4), of w] by auto
  note m = write_step_mem [OF assms(1) s(1,2) assms(4) t'(1)]
  have "latest (sm_iter sm (mem t')) key SEQ_MAX = map_of (rev (data @ write_data w)) key" for key
    using m(1) [of key] s(6) by (simp add: map_add_def split: option.split)
  moreover have "concat (kvss @ [write_data w]) = data @ write_data w" using s(5) by simp
  ultimately have "table_logged sm I c (n + 1, gb, t') (data @ write_data w)"
    unfolding table_logged_def prod.case using t'(2,3) s(2,3,7,8) m(3) by (metis zero_le_one add_nonneg_nonneg)
  then show ?thesis using t'(1) m(2) by simp
qed

lemma swap_event_ok:
  assumes "mem_map sm I" "table_logged sm I c (n, gb, t) data" "gb < i64_MAX"
  shows "\<exists>gb' t'. mem_event_step sm c Swap (n, gb, t) = Some (Ok (n, gb', t')) \<and> gb' \<le> gb + 1 \<and> table_logged sm I c (n, gb', t') []"
proof -
  have om: "ordered_map sm I" using assms(1) by (simp add: mem_map_def)
  obtain gen kvss where s: "mem_inv sm I n t" "0 \<le> n" "gen < gb" "wal_holds c t gen (map (log_entry c) kvss)" "concat kvss = data"
      "\<forall>key. latest (sm_iter sm (mem t)) key SEQ_MAX = map_of (rev data) key" "tx_count t = 0" "0 \<le> gb"
    using assms(2) by (auto simp: table_logged_def)
  have below: "keys_ascending (wal t)" "\<forall>g\<in>fst ` set (wal t). g < gb" using s(3,4) by (auto simp: wal_holds_def)
  then have "map_of (wal t) gb = None" by (force simp: map_of_eq_None_iff)
  note sw = swap_fresh [OF this s(8) assms(3) s(7), of sm]
  show ?thesis
  proof (cases "mem_is_empty sm t")
    case True
    then have "sm_iter sm (mem t) = []"
      using s(1) by (simp add: mem_is_empty_def mem_inv_def ordered_map.is_empty_iter [OF om])
    then have "map_of (rev data) key = None" for key using s(6) [rule_format, of key] by simp
    then have "fst kv \<noteq> key" if "kv \<in> set data" for kv key using that by (force simp: map_of_eq_None_iff)
    then have "data = []" by (cases data) auto
    then show ?thesis using sw True assms(2) by simp
  next
    case False
    have "table_logged sm I c (n, gb + 1, after_swap sm gb t) []"
      unfolding table_logged_def prod.case
      using after_swap_inv [OF assms(1) s(1), of gb] after_swap_wal_holds [OF below, of c sm] s(2,7,8)
      by (auto simp: after_swap_def intro!: exI [of _ gb] exI [of _ "[]"])
    then show ?thesis using sw False by simp
  qed
qed

lemma mem_run_ok:
  assumes "mem_map sm I" "int_encoding c" "table_logged sm I c (n, gb, t) data"
    and "n + int (length es) < i64_MAX" "gb + int (length es) < i64_MAX"
  shows "\<exists>n' gb' t'. mem_run sm c es (n, gb, t) = Some (Ok (n', gb', t')) \<and>
    table_logged sm I c (n', gb', t') (foldl event_data data es) \<and> (Swap \<notin> set es \<longrightarrow> immut t' = immut t)"
  using assms(3-5)
proof (induction es arbitrary: n gb t data)
  case (Cons e es)
  have b: "n < i64_MAX" "gb < i64_MAX" using Cons.prems(2,3) by simp_all
  show ?case
  proof (cases e)
    case (Write w)
    obtain t1 where t1: "mem_event_step sm c (Write w) (n, gb, t) = Some (Ok (n + 1, gb, t1))"
        "table_logged sm I c (n + 1, gb, t1) (data @ write_data w)" "immut t1 = immut t"
      using write_event_ok [OF assms(1,2) Cons.prems(1) b(1)] by blast
    have "n + 1 + int (length es) < i64_MAX" "gb + int (length es) < i64_MAX" using Cons.prems(2,3) by simp_all
    from Cons.IH [OF t1(2) this] show ?thesis using t1(1,3) by (auto simp: Write simp del: mem_event_step.simps)
  next
    case Swap
    obtain gb1 t1 where t1: "mem_event_step sm c Swap (n, gb, t) = Some (Ok (n, gb1, t1))" "gb1 \<le> gb + 1"
        "table_logged sm I c (n, gb1, t1) []"
      using swap_event_ok [OF assms(1) Cons.prems(1) b(2)] by blast
    have "n + int (length es) < i64_MAX" "gb1 + int (length es) < i64_MAX" using Cons.prems(2,3) t1(2) by simp_all
    from Cons.IH [OF t1(3) this] show ?thesis using t1(1) by (auto simp: Swap simp del: mem_event_step.simps)
  qed
qed simp

lemma since_swap_storable:
  assumes "\<forall>w. Write w \<in> set es \<longrightarrow> (\<forall>kv\<in>set (write_data w). P kv)" "\<forall>kv\<in>set data. P kv"
  shows "\<forall>kv\<in>set (foldl event_data data es). P kv"
  using assms
proof (induction es arbitrary: data)
  case (Cons e es)
  have "\<forall>kv\<in>set (event_data data e). P kv" using Cons.prems by (cases e) auto
  then show ?case using Cons by simp
qed simp

text \<open>C11: recovery after the first crash. A table created in an empty directory takes any sequence of single inserts,
  committed batches and swaps (no transaction being open) whose keys and values are storable, so that no value is
  empty, and every step returns. If the process then dies with everything written to the log being on disk, as it is
  with \<open>IoType::Direct\<close> or after a flush, opening the directory again gives exactly the data written since the last
  swap: every key reads as in the mutable map at the crash, and as before the crash if there was no swap. (The data of
  an earlier swap is the flush's to keep; a table reopened once more is another matter, see
  \<open>wal_overwritten_after_restart\<close>.)\<close>

theorem mem_table_crash_recovery:
  assumes "mem_map sm I" "int_encoding c" "int (length es) + 1 < i64_MAX"
    and "0 \<le> gen_buf" "gen_buf + int (length es) + 1 < i64_MAX"
    and "\<forall>w. Write w \<in> set es \<longrightarrow> (\<forall>kv\<in>set (write_data w). kv_storable kv)"
  shows "\<exists>gb t0 n gb1 t gb' t'. mem_table_new sm c cfg [] gen_buf = Some (Ok (gb, t0)) \<and>
    mem_run sm c es (1, gb, t0) = Some (Ok (n, gb1, t)) \<and>
    mem_table_new sm c cfg (wal t) gen_buf' = Some (Ok (gb', t')) \<and>
    (\<forall>key. mem_find sm t' key = map_option (\<lambda>v. (key, v)) (map_of (rev (since_swap es)) key)) \<and>
    (\<forall>key. mem_find sm t' key = mem_find sm (t\<lparr>immut := None\<rparr>) key) \<and>
    (Swap \<notin> set es \<longrightarrow> (\<forall>key. mem_find sm t' key = mem_find sm t key))"
proof -
  have g: "snd (gen_create gen_buf) = gen_buf + 1" using assms(4,5) by (simp add: create_next)
  obtain t0 where t0: "mem_table_new sm c cfg [] gen_buf = Some (Ok (gen_buf + 1, t0))" "mem_inv sm I 1 t0"
      "wal_holds c t0 gen_buf []" "immut t0 = None" "mem t0 = sm_new sm" "tx_count t0 = 0"
    using mem_table_new_empty [OF assms(1,2), of cfg gen_buf] g by auto
  have "sm_iter sm (mem t0) = []" using assms(1) t0(5) ordered_map.iter_new by (auto simp: mem_map_def)
  then have start: "table_logged sm I c (1, gen_buf + 1, t0) []"
    unfolding table_logged_def prod.case using t0(2,3,6) assms(4) by (auto intro!: exI [of _ gen_buf] exI [of _ "[]"])
  obtain n gb1 t where t: "mem_run sm c es (1, gen_buf + 1, t0) = Some (Ok (n, gb1, t))"
      "table_logged sm I c (n, gb1, t) (since_swap es)" "Swap \<notin> set es \<longrightarrow> immut t = None"
    using mem_run_ok [OF assms(1,2) start, of es] assms(3,5) t0(4) by (auto simp: since_swap_def)
  then obtain gen kvss where l: "wal_holds c t gen (map (log_entry c) kvss)" "concat kvss = since_swap es" "mem_inv sm I n t"
      "\<forall>key. latest (sm_iter sm (mem t)) key SEQ_MAX = map_of (rev (since_swap es)) key"
    by (auto simp: table_logged_def)
  have "\<forall>kv\<in>set (concat kvss). kv_storable kv"
    using since_swap_storable [OF assms(6), of "[]"] l(2) by (simp add: since_swap_def)
  then have st: "\<forall>kvs\<in>set kvss. \<forall>kv\<in>set kvs. kv_storable kv" by auto
  obtain t' where t': "mem_table_new sm c cfg (wal t) gen_buf' = Some (Ok (snd (gen_create gen_buf'), t'))"
      "\<forall>key. mem_find sm t' key = map_option (\<lambda>v. (key, v)) (map_of (rev (since_swap es)) key)"
    using mem_map.mem_table_new_recovers [OF assms(1,2) st, of "wal t" gen cfg gen_buf'] l(1,2)
    by (auto simp: wal_holds_def)
  have "mem_inv sm I n (t\<lparr>immut := None\<rparr>)" using l(3) by (simp add: mem_inv_def)
  then have eq: "mem_find sm t' key = mem_find sm (t\<lparr>immut := None\<rparr>) key" for key
    using mem_map_reads(1) [OF assms(1)] t'(2) l(4) latest_visible [of sm t key SEQ_MAX] by simp
  moreover have "mem_find sm t' key = mem_find sm t key" if "Swap \<notin> set es" for key
    using eq [of key] t(3) that by (cases t) simp
  ultimately show ?thesis using t0(1) t(1) t' by blast
qed

theorem mem_table_crash_recovery_witness:
  "\<exists>gb t0 n gb1 t gb' t'. mem_table_new btree_skip_map le_crates (config_new (\<lambda>n. n) 1) [] 5 = Some (Ok (gb, t0)) \<and>
    mem_run btree_skip_map le_crates [Write (Put ([1], Some [5])), Write (Put ([3], Some [7])), Swap,
      Write (Commit [([1], None), ([2], Some [6])])] (1, gb, t0) = Some (Ok (n, gb1, t)) \<and>
    mem_table_new btree_skip_map le_crates (config_new (\<lambda>n. n) 1) (wal t) 9 = Some (Ok (gb', t')) \<and>
    mem_find btree_skip_map t' [1] = Some ([1], None) \<and> mem_find btree_skip_map t' [2] = Some ([2], Some [6]) \<and>
    mem_find btree_skip_map t' [3] = None"
  using mem_table_crash_recovery [OF bt.mem_map_axioms le.int_encoding_axioms,
      of "[Write (Put ([1], Some [5])), Write (Put ([3], Some [7])), Swap, Write (Commit [([1], None), ([2], Some [6])])]"
        5 "config_new (\<lambda>n. n) 1" 9]
  by (auto simp: i64_MAX_def kv_storable_def since_swap_def simp del: mem_run.simps)

lemma log_stream_entry:
  assumes "int_encoding c" "HEADER_SIZE + length (data_to_bytes c kv) \<le> BLOCK_SIZE"
  shows "log_stream c BLOCK_SIZE 0 [log_entry c [kv]] =
    (frame c Full (data_to_bytes c kv), HEADER_SIZE + length (data_to_bytes c kv))"
proof -
  have "data_to_bytes c kv \<noteq> []"
    using int_encoding.value_entry_nonempty [OF assms(1)] by (simp add: data_to_bytes_def)
  then show ?thesis using log_encode_small [OF _ assms(2)] by (simp add: log_entry_def Let_def)
qed

lemma insert_overwrites_wal:
  assumes "int_encoding c" "HEADER_SIZE + length (data_to_bytes c kv) \<le> BLOCK_SIZE"
    and "wal_writer t = (\<lparr>dst = file_at [] old, current_block_offset = 0, log_block_size = BLOCK_SIZE\<rparr>, gen)"
    and "length old = HEADER_SIZE + length (data_to_bytes c kv)"
    and "insert_data sm c kv n t = Some (Ok (b, n', t'))"
  shows "wal t' = btree_insert gen (fst (log_stream c BLOCK_SIZE 0 [log_entry c [kv]])) (wal t)"
proof -
  let ?f = "frame c Full (data_to_bytes c kv)"
  have "log_encode c BLOCK_SIZE 0 True (data_to_bytes c kv) = (?f, HEADER_SIZE + length (data_to_bytes c kv))"
    using int_encoding.value_entry_nonempty [OF assms(1)] assms(2)
    by (intro log_encode_small) (simp_all add: data_to_bytes_def)
  then have "wal_append c t (data_to_bytes c kv) = Some (Ok (t\<lparr>
      wal_writer := (\<lparr>dst = file_at ?f [], current_block_offset = HEADER_SIZE + length (data_to_bytes c kv),
        log_block_size = BLOCK_SIZE\<rparr>, gen),
      wal := btree_insert gen ?f (wal t)\<rparr>))"
    using wal_append_at [OF assms(1) _ assms(3), of "data_to_bytes c kv"] assms(4)
    by (simp add: int_encoding.frame_length [OF assms(1)])
  then show ?thesis
    using assms(5)
    by (auto simp: insert_data_def log_stream_entry [OF assms(1,2)] Let_def simp del: log_stream.simps split: prod.splits)
qed

text \<open>C37: the log of a recovered table is overwritten. \<open>MemTable::new\<close> opens the log it has just replayed
  for writing without seeking to its end; after the next insert (here of an entry of the same
  encoded size) the earlier entry is gone from the log, and a second crash loses it although
  nothing was flushed.\<close>

theorem wal_overwritten_after_restart:
  assumes "mem_map sm I" "int_encoding c" "kv_storable kv" "kv_storable kv'" "fst kv \<noteq> fst kv'"
    and "length (data_to_bytes c kv') = length (data_to_bytes c kv)"
    and "HEADER_SIZE + length (data_to_bytes c kv) \<le> BLOCK_SIZE"
  shows "\<exists>gb t0 n t gb1 t1 b n' t2 gb2 t3. mem_table_new sm c cfg [] gen_buf = Some (Ok (gb, t0)) \<and>
    write_all sm c [Put kv] 1 t0 = Some (Ok (n, t)) \<and>
    mem_table_new sm c cfg (wal t) gen_buf' = Some (Ok (gb1, t1)) \<and> mem_find sm t1 (fst kv) = Some kv \<and>
    insert_data sm c kv' 1 t1 = Some (Ok (b, n', t2)) \<and> mem_find sm t2 (fst kv) = Some kv \<and>
    mem_table_new sm c cfg (wal t2) gen_buf'' = Some (Ok (gb2, t3)) \<and> mem_find sm t3 (fst kv) = None"
proof -
  have small: "HEADER_SIZE + length (data_to_bytes c kv') \<le> BLOCK_SIZE" using assms(6,7) by simp
  obtain gb t0 where t0: "mem_table_new sm c cfg [] gen_buf = Some (Ok (gb, t0))" "mem_inv sm I 1 t0" "wal_holds c t0 gen_buf []"
    using mem_table_new_empty [OF assms(1,2)] by metis
  obtain n t where t: "write_all sm c [Put kv] 1 t0 = Some (Ok (n, t))" "wal_holds c t gen_buf [log_entry c [kv]]"
    using write_all_ok [OF assms(1,2) t0(2) _ _ t0(3), of "[Put kv]"] by (auto simp: i64_MAX_def)
  obtain t1 where t1: "mem_table_new sm c cfg (wal t) gen_buf' = Some (Ok (snd (gen_create gen_buf'), t1))" "mem_inv sm I 1 t1"
      "\<forall>key. mem_find sm t1 key = map_option (\<lambda>v. (key, v)) (map_of [kv] key)" "wal t1 = wal t"
      "wal_writer t1 = (\<lparr>dst = file_at [] (fst (log_stream c BLOCK_SIZE 0 [log_entry c [kv]])),
        current_block_offset = 0, log_block_size = BLOCK_SIZE\<rparr>, gen_buf)"
    using mem_map.mem_table_new_recovers [OF assms(1,2), of "[[kv]]" "wal t" gen_buf cfg gen_buf'] t(2) assms(3)
    by (auto simp: wal_holds_def simp del: log_stream.simps)
  obtain t2 where t2: "insert_data sm c kv' 1 t1 = Some (Ok (is_exceeded (item_process (mem_trigger t1) kv'), 2, t2))"
      "\<forall>key. mem_find sm t2 key = (if key = fst kv' then Some kv' else mem_find sm t1 key)"
    using insert_data_find [OF assms(1,2) t1(2), of kv'] by (auto simp: i64_MAX_def)
  have "wal t2 = btree_insert gen_buf (fst (log_stream c BLOCK_SIZE 0 (map (log_entry c) [[kv']]))) (wal t)"
    using insert_overwrites_wal [OF assms(2) small t1(5) _ t2(1)] assms(6) t1(4)
    by (simp add: log_stream_entry [OF assms(2,7)] int_encoding.frame_length [OF assms(2)] del: log_stream.simps)
  then have d: "keys_ascending (wal t2)" "\<forall>g\<in>fst ` set (wal t2). g \<le> gen_buf"
      "map_of (wal t2) gen_buf = Some (fst (log_stream c BLOCK_SIZE 0 (map (log_entry c) [[kv']])))"
    using t(2) by (simp_all add: wal_holds_def keys_btree_insert del: log_stream.simps)
  obtain t3 where t3: "mem_table_new sm c cfg (wal t2) gen_buf'' = Some (Ok (snd (gen_create gen_buf''), t3))"
      "\<forall>key. mem_find sm t3 key = map_option (\<lambda>v. (key, v)) (map_of [kv'] key)"
    using mem_map.mem_table_new_recovers [OF assms(1,2) _ d, of cfg gen_buf''] assms(4) by auto
  have found: "mem_find sm t1 (fst kv) = Some kv" "mem_find sm t2 (fst kv) = Some kv" "mem_find sm t3 (fst kv) = None"
    using t1(3) t2(2) t3(2) assms(5) by (cases kv, cases kv', simp)+
  show ?thesis
    by (intro exI conjI) (rule t0(1) t(1) t1(1) t2(1) t3(1) found)+
qed

lemma sample_entry_length: "length (data_to_bytes le_crates ([b], Some [v])) = 5"
  by (simp add: data_to_bytes_def entry_encode_def entry_new_def value_item_def value_encode_def value_from_def
      le_crates_eval del: leb128.simps little_endian.simps)

theorem wal_overwritten_after_restart_witness:
  "\<exists>gb t0 n t gb1 t1 b n' t2 gb2 t3.
    mem_table_new btree_skip_map le_crates (config_new (\<lambda>n. n) 1) [] 5 = Some (Ok (gb, t0)) \<and>
    write_all btree_skip_map le_crates [Put ([1], Some [5])] 1 t0 = Some (Ok (n, t)) \<and>
    mem_table_new btree_skip_map le_crates (config_new (\<lambda>n. n) 1) (wal t) 9 = Some (Ok (gb1, t1)) \<and>
    mem_find btree_skip_map t1 [1] = Some ([1], Some [5]) \<and>
    insert_data btree_skip_map le_crates ([2], Some [6]) 1 t1 = Some (Ok (b, n', t2)) \<and>
    mem_find btree_skip_map t2 [1] = Some ([1], Some [5]) \<and>
    mem_table_new btree_skip_map le_crates (config_new (\<lambda>n. n) 1) (wal t2) 9 = Some (Ok (gb2, t3)) \<and>
    mem_find btree_skip_map t3 [1] = None"
  using wal_overwritten_after_restart [OF bt.mem_map_axioms le.int_encoding_axioms,
      of "([1], Some [5])" "([2], Some [6])" "config_new (\<lambda>n. n) 1" 5 9 9]
  by (simp add: kv_storable_def sample_entry_length HEADER_SIZE_def BLOCK_SIZE_def del: write_all.simps)

text \<open>C40: a crash between \<open>swap\<close> and the end of the flush loses the swapped data. \<open>swap\<close> opens a log of a
  new generation, and \<open>MemTable::new\<close> replays only the youngest log: the recovered table is empty,
  although the log of the old generation is still complete on disk.\<close>

theorem crash_after_swap_loses_data:
  assumes "mem_map sm I" "int_encoding c" "mem_inv sm I n t" "\<not> mem_is_empty sm t" "tx_count t = 0"
    and "wal_holds c t gen rs" "gen < gen_buf" "0 \<le> gen_buf" "gen_buf < i64_MAX"
  shows "\<exists>data t' gb t2. swap sm gen_buf t = Some (Some (gen, data), gen_buf + 1, t') \<and>
    map_of (wal t') gen = map_of (wal t) gen \<and>
    mem_table_new sm c cfg (wal t') gen_buf' = Some (Ok (gb, t2)) \<and> (\<forall>key. mem_find sm t2 key = None)"
proof -
  have below: "\<forall>g\<in>fst ` set (wal t). g < gen_buf" and asc: "keys_ascending (wal t)"
    using assms(6,7) by (auto simp: wal_holds_def)
  then have fresh: "map_of (wal t) gen_buf = None" by (force simp: map_of_eq_None_iff)
  let ?d = "btree_insert gen_buf [] (wal t)"
  obtain data t' where t': "swap sm gen_buf t = Some (Some (gen, data), gen_buf + 1, t')" "wal t' = ?d"
    using assms(4-6) create_next(2) [OF assms(8,9)] fresh
    by (auto simp: swap_def mem_is_empty_def wal_holds_def log_loader_writer_def factory_writer_def
        open_or_create_new btree_get_def Let_def)
  have d: "keys_ascending ?d" "\<forall>g\<in>fst ` set ?d. g \<le> gen_buf" "map_of ?d gen_buf = Some (fst (log_stream c BLOCK_SIZE 0 (map (log_entry c) [])))"
    using asc below by (auto simp: keys_btree_insert)
  obtain t2 where "mem_table_new sm c cfg ?d gen_buf' = Some (Ok (snd (gen_create gen_buf'), t2))"
      "\<forall>key. mem_find sm t2 key = None"
    using mem_map.mem_table_new_recovers [OF assms(1,2) _ d, of cfg gen_buf'] by auto
  then show ?thesis using t' assms(7) by (auto simp: map_of_btree_insert)
qed

definition sample_wal_mem :: "(internal_key, bytes option) btree_map mem_table" where
  "sample_wal_mem = sample_mem\<lparr>wal := [(7, [])]\<rparr>"

theorem crash_after_swap_loses_data_witness:
  "\<exists>data t' gb t2. swap btree_skip_map 8 sample_wal_mem = Some (Some (7, data), 8 + 1, t') \<and>
    map_of (wal t') 7 = map_of (wal sample_wal_mem) 7 \<and>
    mem_table_new btree_skip_map le_crates (config_new (\<lambda>n. n) 1) (wal t') 20 = Some (Ok (gb, t2)) \<and>
    (\<forall>key. mem_find btree_skip_map t2 key = None)"
proof -
  have "mem_inv btree_skip_map keys_ascending 2 sample_wal_mem"
    using sample_mem_inv by (simp add: sample_wal_mem_def mem_inv_def)
  then show ?thesis
    by (rule crash_after_swap_loses_data [OF bt.mem_map_axioms le.int_encoding_axioms, where rs = "[]"])
      (simp_all add: sample_wal_mem_def sample_mem_def mem_is_empty_def btree_skip_map_def wal_holds_def log_writer_new_at i64_MAX_def)
qed

section \<open>The iterator\<close>

text \<open>A loop over \<open>try_next\<close>; \<open>None\<close> when the fuel does not suffice.\<close>

fun mmi_collect :: "nat \<Rightarrow> 'm mem_map_iter \<Rightarrow> key_value list option" where
  "mmi_collect 0 it = None"
| "mmi_collect (Suc fuel) it =
     (case mmi_try_next it of
        (None, it') \<Rightarrow> Some []
      | (Some kv, it') \<Rightarrow> map_option (\<lambda>kvs. kv # kvs) (mmi_collect fuel it'))"

text \<open>What is left to deliver: the last version of every group of equal keys.\<close>

fun groups_last :: "key_value option \<Rightarrow> (internal_key \<times> bytes option) list \<Rightarrow> key_value list" where
  "groups_last prev [] = (case prev of None \<Rightarrow> [] | Some p \<Rightarrow> [p])"
| "groups_last prev ((ik, v) # xs) =
     (case prev of
        Some p \<Rightarrow> if ik_key ik \<noteq> fst p then p # groups_last (Some (ik_key ik, v)) xs
                   else groups_last (Some (ik_key ik, v)) xs
      | None \<Rightarrow> groups_last (Some (ik_key ik, v)) xs)"

lemma mmi_loop_groups:
  "mmi_loop prev xs = (item, prev', rest) \<Longrightarrow>
   groups_last prev xs = (case item of None \<Rightarrow> [] | Some kv \<Rightarrow> kv # groups_last prev' rest) \<and>
   (item \<noteq> None \<longrightarrow> length rest + (if prev' = None then 0 else 1) < length xs + (if prev = None then 0 else 1))"
  by (induction prev xs rule: mmi_loop.induct) (fastforce split: option.splits if_splits)+

lemma mmi_collect_groups:
  "mmi_iter it = Some xs \<Longrightarrow> length xs + (if prev_item it = None then 0 else 1) < fuel \<Longrightarrow>
   mmi_collect fuel it = Some (groups_last (prev_item it) xs)"
proof (induction fuel arbitrary: it xs)
  case (Suc fuel)
  obtain item prev rest where loop: "mmi_loop (prev_item it) xs = (item, prev, rest)" by (metis prod_cases3)
  let ?it = "it\<lparr>prev_item := prev, mmi_iter := Some rest\<rparr>"
  have "mmi_collect fuel ?it = Some (groups_last prev rest)" if "item \<noteq> None"
    using Suc.IH [of ?it rest] mmi_loop_groups [OF loop] that Suc.prems(2) by auto
  then show ?case
    using mmi_loop_groups [OF loop] Suc.prems(1)
    by (cases item) (auto simp: mmi_try_next_def loop)
qed simp

lemma groups_last_spec:
  assumes "sorted (map fst ((case prev of None \<Rightarrow> [] | Some p \<Rightarrow> [p]) @ map proj_key xs))"
  shows "keys_ascending (groups_last prev xs) \<and>
    (\<forall>p. prev = Some p \<longrightarrow> (\<forall>k\<in>fst ` set (groups_last prev xs). fst p \<le> k)) \<and>
    map_of (groups_last prev xs) = map_of (rev ((case prev of None \<Rightarrow> [] | Some p \<Rightarrow> [p]) @ map proj_key xs))"
  using assms
proof (induction xs arbitrary: prev)
  case (Cons x xs)
  obtain ik v where x: "x = (ik, v)" by (cases x)
  let ?p = "(ik_key ik, v)"
  have p: "proj_key x = ?p" by (simp add: x proj_key_def)
  have "sorted (map fst (?p # map proj_key xs))" using Cons.prems by (auto simp: p sorted_append)
  then have IH: "keys_ascending (groups_last (Some ?p) xs)" "\<forall>k\<in>fst ` set (groups_last (Some ?p) xs). ik_key ik \<le> k"
      "map_of (groups_last (Some ?p) xs) = map_of (rev (?p # map proj_key xs))"
    using Cons.IH [of "Some ?p"] by simp_all
  show ?case
  proof (cases prev)
    case None
    then show ?thesis using IH by (simp add: x p [unfolded x])
  next
    case (Some p)
    have le: "fst p \<le> ik_key ik" using Cons.prems by (simp add: Some p)
    have notin: "map_of (rev (?p # map proj_key xs)) (fst p) = None" if "ik_key ik \<noteq> fst p"
      using IH(2) le that unfolding IH(3) [symmetric] by (force simp: map_of_eq_None_iff)
    show ?thesis
    proof (cases "ik_key ik = fst p")
      case True
      then show ?thesis using IH Some by (auto simp: x p [unfolded x] map_add_def fun_eq_iff split: option.splits)
    next
      case False
      then have "map_of (p # groups_last (Some ?p) xs) = map_of (rev (p # ?p # map proj_key xs))"
        using notin IH(3) by (auto simp: map_add_def fun_eq_iff split: option.splits)
      moreover have "keys_ascending (p # groups_last (Some ?p) xs)" using IH(1,2) le False by fastforce
      ultimately show ?thesis using False IH(2) le Some by (fastforce simp: x p [unfolded x])
    qed
  qed
qed (auto split: option.splits)

text \<open>The iterator over a memory map ends, also after any seek, and delivers in key order exactly the
  newest version of every key (every key not smaller than the sought one; nothing after
  \<open>Seek::Last\<close>).\<close>

theorem mem_map_iter_correct:
  assumes "mem_map sm I" "I m" "entries_before sm n m" "n \<le> i64_MAX" "length (sm_iter sm m) < fuel"
  shows "\<exists>kvs. mmi_collect fuel (mmi_seek sm s (mem_map_iter_new sm m)) = Some kvs \<and> keys_ascending kvs \<and>
    (\<forall>key. map_of kvs key =
      (if s = Seek_Last \<or> (\<exists>k. s = Seek_Backward k \<and> key < k) then None
       else map_option snd (find_in sm (InternalKey key SEQ_MAX) m)))"
proof (cases "s = Seek_Last")
  case True
  then show ?thesis
    using assms(5) by (cases fuel) (simp_all add: mmi_seek_def mem_map_iter_new_def mmi_try_next_def)
next
  case False
  have om: "ordered_map sm I" using assms(1) by (simp add: mem_map_def)
  define P where "P = (\<lambda>ik. case s of Seek_Backward k \<Rightarrow> InternalKey k 0 \<le> ik | _ \<Rightarrow> True)"
  define Q where "Q = (\<lambda>key. case s of Seek_Backward k \<Rightarrow> k \<le> key | _ \<Rightarrow> True)"
  let ?xs = "filter (\<lambda>(ik, v). P ik) (sm_iter sm m)"
  have it: "mmi_iter (mmi_seek sm s (mem_map_iter_new sm m)) = Some ?xs" "prev_item (mmi_seek sm s (mem_map_iter_new sm m)) = None"
    using False ordered_map.range_iter [OF om assms(2)]
    by (simp_all add: mmi_seek_def mem_map_iter_new_def P_def split: seek.split)
  have asc: "keys_ascending ?xs" by (rule ascending_filter [OF ordered_map.iter_ascending [OF om assms(2)]])
  have "sorted (map fst (map proj_key ?xs))"
    using descending_proj [OF asc] by (simp add: rev_map [symmetric] sorted_wrt_rev)
  then have spec: "keys_ascending (groups_last None ?xs)" "map_of (groups_last None ?xs) = map_of (rev (map proj_key ?xs))"
    using groups_last_spec [of None ?xs] by simp_all
  have "map_of (rev (map proj_key ?xs)) key = (if Q key then latest (sm_iter sm m) key SEQ_MAX else None)" for key
    using assms(3,4)
    by (intro map_of_rev_proj) (fastforce simp: P_def Q_def internal_key_le entries_before_def SEQ_MAX_def split: seek.splits)
  moreover have "mmi_collect fuel (mmi_seek sm s (mem_map_iter_new sm m)) = Some (groups_last None ?xs)"
    using mmi_collect_groups [OF it(1), of fuel] it(2) assms(5) length_filter_le [of "\<lambda>(ik, v). P ik" "sm_iter sm m"] by simp
  ultimately show ?thesis
    using spec False mem_map.find_in_latest [OF assms(1,2)]
    by (auto simp: Q_def option.map_comp comp_def option.map_ident split: seek.split)
qed

theorem mem_map_iter_correct_witness:
  "\<exists>kvs. mmi_collect 2 (mmi_seek btree_skip_map (Seek_Backward [1]) (mem_map_iter_new btree_skip_map [(InternalKey [1] 1, Some [5])])) =
      Some kvs \<and> keys_ascending kvs \<and> map_of kvs [1] = Some (Some [5])"
proof -
  have "entries_before btree_skip_map 2 [(InternalKey [1] 1, Some [5])]"
    by (simp add: entries_before_def btree_skip_map_def)
  moreover have "find_in btree_skip_map (InternalKey [1] SEQ_MAX) [(InternalKey [1] 1, Some [5])] = Some ([1], Some [5])"
    by (simp add: find_in_def btree_skip_map_def internal_key_le SEQ_MAX_def i64_MAX_def)
  ultimately show ?thesis
    using mem_map_iter_correct [OF bt.mem_map_axioms, of "[(InternalKey [1] 1, Some [5])]" 2 2 "Seek_Backward [1]"]
    by (auto simp: btree_skip_map_def i64_MAX_def)
qed

end
