(* ===== verification/Compactor.thy ===== *)
theory Compactor
  imports Version_Status Mem_Table
begin

text \<open>
  \<open>src/src/kernel/lsm/compactor.rs\<close> and \<open>data_sharding\<close> of \<open>src/src/kernel/lsm/mod.rs\<close>: moving the memory table to
  level 0 and tables of one level to the next.

  The futures of one call (\<open>try_join_all\<close>) never wait, so they run one after the other. The seeds of the
  Bloom filters are random; \<open>seeds\<close> gives those of every generation. The counter \<open>Gen\<close>, the counters of
  missed seeks and the tags sent to the cleaner are part of the state \<open>store_state\<close>. The configuration is
  the one of the store.
\<close>

section \<open>Sharding\<close>

type_synonym merge_sharding = "(i64 \<times> key_value list) list"

text \<open>The inner loop: the shard \<open>acc\<close> is filled until its size reaches \<open>file_size\<close>; the pair that reaches it goes to
  the next shard, if there is one.\<close>

fun shard_fill ::
  "nat \<Rightarrow> bool \<Rightarrow> nat \<Rightarrow> key_value list \<Rightarrow> key_value list \<Rightarrow> key_value list \<times> key_value list \<times> key_value list" where
  "shard_fill file_size next_shard data_len [] acc = (acc, [], [])"
| "shard_fill file_size next_shard data_len (kv # data) acc =
     (let data_len' = data_len + key_value_bytes_len kv in
      if data_len' \<ge> file_size \<and> next_shard then (acc, [kv], data)
      else shard_fill file_size next_shard data_len' data (acc @ [kv]))"

fun shard_loop :: "nat \<Rightarrow> nat \<Rightarrow> key_value list \<Rightarrow> key_value list \<Rightarrow> i64 \<Rightarrow> merge_sharding \<times> i64" where
  "shard_loop file_size 0 part vec_data gen_buf = ([], gen_buf)"
| "shard_loop file_size (Suc n) part vec_data gen_buf =
     (let (gen, gen_buf1) = gen_create gen_buf;
          (shard, part', vec_data') = shard_fill file_size (0 < n) 0 vec_data part;
          (shards, gen_buf2) = shard_loop file_size n part' vec_data' gen_buf1
      in ((gen, shard) # shards, gen_buf2))"

definition data_sharding :: "key_value list \<Rightarrow> nat \<Rightarrow> i64 \<Rightarrow> (merge_sharding \<times> i64) outcome" where
  "data_sharding vec_data file_size gen_buf =
     (if file_size = 0 then Panic
      else
        (let part_size = (sum_list (map key_value_bytes_len vec_data) + file_size - 1) div file_size;
             (vec_sharding, gen_buf') = shard_loop file_size part_size [] vec_data gen_buf
         in Ok (filter (\<lambda>(_, vec). vec \<noteq> []) vec_sharding, gen_buf')))"

section \<open>Merging\<close>

partial_function (option) load_data_loop ::
  "crates \<Rightarrow> (bytes \<Rightarrow> bool) \<Rightarrow> table_iter \<Rightarrow> block_cache \<Rightarrow> key_value list \<Rightarrow> (key_value list \<times> block_cache) outcome option" where
  "load_data_loop c fn_is_filter it S vec_cmd =
     (case ti_try_next c it S of
        Ok x \<Rightarrow>
          (case fst x of
             None \<Rightarrow> Some (Ok (vec_cmd, snd (snd x)))
           | Some item \<Rightarrow>
               load_data_loop c fn_is_filter (fst (snd x)) (snd (snd x))
                 (if fn_is_filter (fst item) then vec_cmd @ [item] else vec_cmd))
      | Err e \<Rightarrow> Some (Err e)
      | Panic \<Rightarrow> Some Panic)"

definition table_load_data ::
  "crates \<Rightarrow> box_table \<Rightarrow> (bytes \<Rightarrow> bool) \<Rightarrow> block_cache \<Rightarrow> (key_value list \<times> block_cache) outcome option" where
  "table_load_data c table fn_is_filter S =
     bind_oo (Some (table_iter_new c table S)) (\<lambda>(it, S1). load_data_loop c fn_is_filter it S1 [])"

fun load_all ::
  "crates \<Rightarrow> (bytes \<Rightarrow> bool) \<Rightarrow> box_table list \<Rightarrow> block_cache \<Rightarrow> (key_value list list \<times> block_cache) outcome option" where
  "load_all c fn_is_filter [] S = Some (Ok ([], S))"
| "load_all c fn_is_filter (t # ts) S =
     bind_oo (table_load_data c t fn_is_filter S) (\<lambda>(data, S1).
     bind_oo (load_all c fn_is_filter ts S1) (\<lambda>(datas, S2). Some (Ok (data # datas, S2))))"

definition merge_data :: "key_value list list \<Rightarrow> key_value list list \<Rightarrow> key_value list" where
  "merge_data sharding_ll sharding_l = sorted_by_key fst (unique_by fst (rev (concat (sharding_ll @ sharding_l))))"

definition data_merge_and_sharding ::
  "crates \<Rightarrow> box_table list \<Rightarrow> box_table list \<Rightarrow> nat \<Rightarrow> block_cache \<Rightarrow> i64 \<Rightarrow> (merge_sharding \<times> block_cache \<times> i64) outcome option" where
  "data_merge_and_sharding c tables_l tables_ll file_size S gen_buf =
     bind_oo (load_all c (\<lambda>_. True) (sorted_by_key table_gen tables_l) S) (\<lambda>(sharding_l, S1).
       let filter_set_l = fst ` set (concat sharding_l) in
       bind_oo (load_all c (\<lambda>key. key \<notin> filter_set_l) tables_ll S1) (\<lambda>(sharding_ll, S2).
       bind_oo (Some (data_sharding (merge_data sharding_ll sharding_l) file_size gen_buf)) (\<lambda>(shards, gen_buf').
       Some (Ok (shards, S2, gen_buf')))))"

section \<open>Major and minor compaction\<close>

record store_state =
  ss_status :: version_status
  ss_counters :: counters
  ss_gen_buf :: i64
  ss_tags :: "clean_tag list"

text \<open>What \<open>data_loading_with_level\<close> returns: the position of the new tables, what to delete and the shards.\<close>

record loaded_data =
  ld_index :: nat
  ld_del_l :: "i64 list \<times> table_meta"
  ld_del_ll :: "i64 list \<times> table_meta"
  ld_sharding :: merge_sharding

definition with_loader :: "store_state \<Rightarrow> table_loader \<Rightarrow> store_state" where
  "with_loader st L = st\<lparr>ss_status := (ss_status st)\<lparr>vs_loader := L\<rparr>\<rparr>"

definition data_loading_with_level ::
  "crates \<Rightarrow> config \<Rightarrow> store_state \<Rightarrow> nat \<Rightarrow> scope \<Rightarrow> bool \<Rightarrow> (loaded_data option \<times> store_state) outcome option" where
  "data_loading_with_level c cfg st level target is_skip_sized =
     (let version = vs_version (ss_status st); next_level = level + 1 in
      if level > MAX_LEVEL - 2 then Some (Ok (None, st))
      else
        bind_oo (Some (if is_skip_sized then Ok True else is_threshold_exceeded_major version cfg level)) (\<lambda>exceeded.
        if \<not> exceeded then Some (Ok (None, st))
        else
          bind_oo (tables_by_scopes c version (vs_loader (ss_status st)) level target) (\<lambda>((tables_l, scopes_l, _), L1).
          if scopes_l = [] then Some (Ok (None, with_loader st L1))
          else
            (let fusion_scope_l = (case scope_fusion scopes_l of Some s \<Rightarrow> s | None \<Rightarrow> target) in
             bind_oo (tables_by_scopes c version L1 next_level fusion_scope_l) (\<lambda>((tables_ll, _, index), L2).
             bind_oo (data_merge_and_sharding c tables_l tables_ll (sst_file_size cfg) (tl_cache L2) (ss_gen_buf st))
               (\<lambda>(shards, S, gen_buf').
             Some (Ok (Some \<lparr>ld_index = index, ld_del_l = collect_gen tables_l, ld_del_ll = collect_gen tables_ll,
                 ld_sharding = shards\<rparr>,
               (with_loader st (L2\<lparr>tl_cache := S\<rparr>))\<lparr>ss_gen_buf := gen_buf'\<rparr>))))))))"

fun create_tables ::
  "crates \<Rightarrow> hashing \<Rightarrow> (i64 \<Rightarrow> 64 word \<times> 64 word) \<Rightarrow> nat \<Rightarrow> table_type \<Rightarrow> merge_sharding \<Rightarrow> table_loader \<Rightarrow> counters \<Rightarrow>
   ((scope \<times> table_meta) list \<times> table_loader \<times> counters) outcome" where
  "create_tables c hs seeds level ty [] L cs = Ok ([], L, cs)"
| "create_tables c hs seeds level ty ((gen, sharding) # shards) L cs =
     and_then (loader_create c hs L cs (seeds gen) gen sharding level ty) (\<lambda>(sm, L1, cs1).
     and_then (create_tables c hs seeds level ty shards L1 cs1) (\<lambda>(sms, L2, cs2). Ok (sm # sms, L2, cs2)))"

text \<open>\<open>log_and_apply\<close> of the pending edits, if there are any.\<close>

definition apply_pending ::
  "crates \<Rightarrow> bincode \<Rightarrow> config \<Rightarrow> version_edit list \<Rightarrow> store_state \<Rightarrow> store_state outcome option" where
  "apply_pending c bc cfg vec_ver_edit st =
     (if vec_ver_edit = [] then Some (Ok st)
      else
        bind_oo (log_and_apply c bc (ss_counters st) (ss_status st) vec_ver_edit (ver_log_snapshot_threshold cfg) (ss_gen_buf st))
          (\<lambda>((status', tag), gen_buf').
        Some (Ok (st\<lparr>ss_status := status', ss_gen_buf := gen_buf', ss_tags := ss_tags st @ [tag]\<rparr>))))"

text \<open>One round of the loop of \<open>major_compaction\<close>: whether it goes on, and the new state.\<close>

definition major_round ::
  "crates \<Rightarrow> hashing \<Rightarrow> bincode \<Rightarrow> config \<Rightarrow> (i64 \<Rightarrow> 64 word \<times> 64 word) \<Rightarrow> nat \<Rightarrow> scope \<Rightarrow> version_edit list \<Rightarrow> bool \<Rightarrow> store_state \<Rightarrow>
   (bool \<times> store_state) outcome option" where
  "major_round c hs bc cfg seeds level scope vec_ver_edit is_skip_sized st =
     (let next_level = level + 1 in
      bind_oo (data_loading_with_level c cfg st level scope is_skip_sized) (\<lambda>(loaded, st1).
        case loaded of
          None \<Rightarrow> bind_oo (apply_pending c bc cfg vec_ver_edit st1) (\<lambda>st2. Some (Ok (False, st2)))
        | Some ld \<Rightarrow>
            bind_oo (Some (index_slice (level_table_type cfg) next_level)) (\<lambda>ty.
            bind_oo (Some (create_tables c hs seeds next_level ty (ld_sharding ld) (vs_loader (ss_status st1)) (ss_counters st1)))
              (\<lambda>(vec_table_and_scope, L', cs').
              let new_scopes = map fst vec_table_and_scope;
                  fusion_meta = meta_fusion (map snd vec_table_and_scope);
                  st2 = (with_loader st1 L')\<lparr>ss_counters := cs'\<rparr>
              in bind_oo (apply_pending c bc cfg (vec_ver_edit @
                   [NewFile new_scopes next_level (ld_index ld) fusion_meta,
                    DeleteFile (fst (ld_del_l ld)) level (snd (ld_del_l ld)),
                    DeleteFile (fst (ld_del_ll ld)) next_level (snd (ld_del_ll ld))]) st2) (\<lambda>st3.
                 Some (Ok (True, st3)))))))"

text \<open>The loop: \<open>n\<close> is the number of levels that are left.\<close>

fun major_loop ::
  "crates \<Rightarrow> hashing \<Rightarrow> bincode \<Rightarrow> config \<Rightarrow> (i64 \<Rightarrow> 64 word \<times> 64 word) \<Rightarrow> nat \<Rightarrow> nat \<Rightarrow> scope \<Rightarrow> version_edit list \<Rightarrow> bool \<Rightarrow>
   store_state \<Rightarrow> store_state outcome option" where
  "major_loop c hs bc cfg seeds 0 level scope vec_ver_edit is_skip_sized st = Some (Ok st)"
| "major_loop c hs bc cfg seeds (Suc n) level scope vec_ver_edit is_skip_sized st =
     bind_oo (major_round c hs bc cfg seeds level scope vec_ver_edit is_skip_sized st) (\<lambda>(go_on, st').
       if go_on then major_loop c hs bc cfg seeds n (level + 1) scope [] False st' else Some (Ok st'))"

definition major_compaction ::
  "crates \<Rightarrow> hashing \<Rightarrow> bincode \<Rightarrow> config \<Rightarrow> (i64 \<Rightarrow> 64 word \<times> 64 word) \<Rightarrow> nat \<Rightarrow> scope \<Rightarrow> version_edit list \<Rightarrow> bool \<Rightarrow>
   store_state \<Rightarrow> store_state outcome option" where
  "major_compaction c hs bc cfg seeds level scope vec_ver_edit is_skip_sized st =
     (if level > MAX_LEVEL - 1 then Some (Err LevelOver)
      else major_loop c hs bc cfg seeds (MAX_LEVEL - level) level scope vec_ver_edit is_skip_sized st)"

definition minor_compaction ::
  "crates \<Rightarrow> hashing \<Rightarrow> bincode \<Rightarrow> config \<Rightarrow> (i64 \<Rightarrow> 64 word \<times> 64 word) \<Rightarrow> i64 \<Rightarrow> key_value list \<Rightarrow> store_state \<Rightarrow>
   store_state outcome option" where
  "minor_compaction c hs bc cfg seeds gen values st =
     (if values \<noteq> [] then
        bind_oo (Some (index_slice (level_table_type cfg) LEVEL_0)) (\<lambda>ty.
        bind_oo (Some (loader_create c hs (vs_loader (ss_status st)) (ss_counters st) (seeds gen) gen values LEVEL_0 ty))
          (\<lambda>((scope, m), L', cs').
        major_compaction c hs bc cfg seeds LEVEL_0 scope [NewFile [scope] 0 0 m] False
          ((with_loader st L')\<lparr>ss_counters := cs'\<rparr>)))
      else Some (Ok st))"


text \<open>\<open>check_then_compaction\<close>. The memory table and the loader use the same directory of write-ahead logs.
  \<open>option_tx\<close> tells whether a caller waits for the answer and, if so, whether it still listens.\<close>

definition check_then_compaction ::
  "'m mem_ops \<Rightarrow> crates \<Rightarrow> hashing \<Rightarrow> bincode \<Rightarrow> config \<Rightarrow> (i64 \<Rightarrow> 64 word \<times> 64 word) \<Rightarrow> bool option \<Rightarrow>
   'm mem_table \<Rightarrow> store_state \<Rightarrow> ('m mem_table \<times> store_state) outcome option" where
  "check_then_compaction sm c hs bc cfg seeds option_tx t st =
     (case swap sm (ss_gen_buf st) t of
        None \<Rightarrow> None
      | Some (swapped, gen_buf', t1) \<Rightarrow>
          (let st1 = st\<lparr>ss_gen_buf := gen_buf'\<rparr> in
           bind_oo
             (case swapped of
                Some (gen, values) \<Rightarrow>
                  if values \<noteq> [] then
                    bind_oo (minor_compaction c hs bc cfg seeds gen values
                        (with_loader st1 ((vs_loader (ss_status st1))\<lparr>tl_wal := wal t1\<rparr>))) (\<lambda>st2.
                      Some (Ok (t1\<lparr>wal := tl_wal (vs_loader (ss_status st2))\<rparr>, st2)))
                  else Some (Ok (t1, st1))
              | None \<Rightarrow> Some (Ok (t1, st1))) (\<lambda>r.
             if option_tx = Some False then Some (Err ChannelClose) else Some (Ok r))))"

section \<open>Lemmas on sharding\<close>

abbreviation bytes_len :: "key_value list \<Rightarrow> nat" where
  "bytes_len kvs \<equiv> sum_list (map key_value_bytes_len kvs)"

lemma shard_fill_split:
  assumes "shard_fill fs nx d data acc = (shard, carry, rest)"
  shows "shard @ carry @ rest = acc @ data"
  using assms by (induction fs nx d data acc rule: shard_fill.induct) (auto simp: Let_def split: if_splits)

lemma shard_fill_last: "shard_fill fs False d data acc = (acc @ data, [], [])"
  by (induction data arbitrary: d acc) (simp_all add: Let_def)

lemma shard_fill_bytes:
  assumes "shard_fill fs nx d data acc = (shard, carry, rest)" "d \<le> fs"
  shows "(\<exists>new. shard = acc @ new \<and> (nx \<longrightarrow> d + bytes_len new \<le> fs)) \<and> length carry \<le> 1 \<and>
    (carry = [] \<longrightarrow> rest = []) \<and> (carry \<noteq> [] \<longrightarrow> fs + bytes_len rest \<le> d + bytes_len data)"
  using assms
proof (induction fs nx d data acc rule: shard_fill.induct)
  case (2 fs nx d kv data acc)
  let ?d = "d + key_value_bytes_len kv"
  show ?case
  proof (cases "fs \<le> ?d \<and> nx")
    case True
    then show ?thesis using 2(2,3) by (auto simp: Let_def)
  next
    case False
    then have fill: "shard_fill fs nx ?d data (acc @ [kv]) = (shard, carry, rest)" using 2(2) by (auto simp: Let_def)
    show ?thesis
    proof (cases nx)
      case True
      then have "?d \<le> fs" using False by simp
      from 2(1) [OF refl False fill this] show ?thesis using True by (auto simp: add.assoc)
    next
      case nx: False
      then show ?thesis using fill by (auto simp: shard_fill_last)
    qed
  qed
qed auto


lemma shard_loop_split:
  assumes "shard_loop fs n part data g = (shards, g')" "0 < n"
  shows "concat (map snd shards) = part @ data"
  using assms
proof (induction n arbitrary: part data g shards g')
  case (Suc n)
  obtain shard part' data' where f: "shard_fill fs (0 < n) 0 data part = (shard, part', data')" by (metis prod_cases3)
  obtain shards' g2 where l: "shard_loop fs n part' data' (snd (gen_create g)) = (shards', g2)" by fastforce
  then have s: "shards = (fst (gen_create g), shard) # shards'" using Suc.prems(1) f by (auto simp: gen_create_def)
  note IH = Suc.IH [OF l]
  show ?case
  proof (cases n)
    case 0
    then show ?thesis using s f l by (simp add: shard_fill_last)
  next
    case (Suc m)
    then have "concat (map snd shards') = part' @ data'"
      using IH by simp
    then show ?thesis using s shard_fill_split [OF f] by simp
  qed
qed simp

lemma shard_loop_gens:
  assumes "shard_loop fs n part data g = (shards, g')" "0 \<le> g" "g + int n \<le> i64_MAX"
  shows "map fst shards = map (\<lambda>i. g + int i) [0..<n] \<and> g' = g + int n"
  using assms
proof (induction n arbitrary: part data g shards g')
  case (Suc n)
  obtain shard part' data' where f: "shard_fill fs (0 < n) 0 data part = (shard, part', data')" by (metis prod_cases3)
  have g: "gen_create g = (g, g + 1)" using create_next(2) [of g] Suc.prems(2,3) by simp
  obtain shards' g2 where l: "shard_loop fs n part' data' (g + 1) = (shards', g2)" by fastforce
  then have s: "shards = (g, shard) # shards'" "g' = g2" using Suc.prems(1) f g by auto
  have "map fst shards' = map (\<lambda>i. (g + 1) + int i) [0..<n] \<and> g2 = (g + 1) + int n"
    using Suc.IH [OF l] Suc.prems(2,3) by simp
  moreover have "map (\<lambda>i. g + int i) [0..<Suc n] = g # map (\<lambda>i. (g + 1) + int i) [0..<n]"
    by (simp add: upt_conv_Cons map_Suc_upt [symmetric] del: upt_Suc)
  ultimately show ?case using s by simp
qed simp

lemma shard_loop_bytes:
  assumes "shard_loop fs n part data g = (shards, g')" "bytes_len data \<le> n * fs" "length part \<le> 1"
  shows "\<forall>shard\<in>set (map snd shards). bytes_len (tl shard) \<le> fs"
  using assms
proof (induction n arbitrary: part data g shards g')
  case (Suc n)
  obtain shard part' data' where f: "shard_fill fs (0 < n) 0 data part = (shard, part', data')" by (metis prod_cases3)
  obtain shards' g2 where l: "shard_loop fs n part' data' (snd (gen_create g)) = (shards', g2)" by fastforce
  then have s: "shards = (fst (gen_create g), shard) # shards'" using Suc.prems(1) f by (auto simp: gen_create_def)
  note fb = shard_fill_bytes [OF f]
  obtain new where new: "shard = part @ new" "0 < n \<longrightarrow> bytes_len new \<le> fs" using fb by auto
  have "bytes_len data' \<le> n * fs" "length part' \<le> 1" using fb Suc.prems(2) by (cases part'; auto)+
  then have "\<forall>shard\<in>set (map snd shards'). bytes_len (tl shard) \<le> fs"
    using Suc.IH [OF l] by simp
  moreover have "bytes_len new \<le> fs"
  proof (cases "n = 0")
    case True
    then show ?thesis using f new(1) Suc.prems(2) by (simp add: shard_fill_last)
  qed (use new(2) in simp)
  then have "bytes_len (tl shard) \<le> fs" using new(1) Suc.prems(3) by (cases part; cases new) auto
  ultimately show ?case using s by simp
qed simp

lemma part_size_bound:
  assumes "0 < (fs :: nat)"
  shows "b \<le> (b + fs - 1) div fs * fs" "0 < b \<longleftrightarrow> 0 < (b + fs - 1) div fs" "(b + fs - 1) div fs \<le> b"
proof -
  have "b + fs - 1 < ((b + fs - 1) div fs + 1) * fs" using assms by (metis Suc_eq_plus1 dividend_less_div_times mult.commute mult_Suc_right add.commute)
  then show "b \<le> (b + fs - 1) div fs * fs" by simp
  show "0 < b \<longleftrightarrow> 0 < (b + fs - 1) div fs" using assms by (auto simp: div_greater_zero_iff)
  have "b + fs - 1 \<le> b * fs" if pos: "0 < b"
  proof -
    obtain b' where "b = Suc b'" using pos by (cases b) auto
    moreover obtain fs' where "fs = Suc fs'" using assms by (cases fs) auto
    ultimately show ?thesis by simp
  qed
  then show "(b + fs - 1) div fs \<le> b" using assms
    by (cases "b = 0") (auto simp: div_le_mono intro: order.trans [OF div_le_mono [of _ "b * fs" fs]])
qed

lemma concat_filter_nonempty: "concat (map snd (filter (\<lambda>(_, vec). vec \<noteq> []) shards)) = concat (map snd shards)"
  by (induction shards) auto

lemma data_sharding_ok:
  assumes "0 < fs" "0 < bytes_len data" "0 \<le> g" "g + int (bytes_len data) \<le> i64_MAX"
  shows "\<exists>shards g'. data_sharding data fs g = Ok (shards, g') \<and> concat (map snd shards) = data \<and>
    ascending (map fst shards) \<and> (\<forall>gen\<in>set (map fst shards). g \<le> gen \<and> gen < g') \<and> g \<le> g' \<and> g' \<le> g + int (bytes_len data) \<and>
    (\<forall>shard\<in>set (map snd shards). shard \<noteq> [] \<and> bytes_len (tl shard) \<le> fs)"
proof -
  define n where "n = (bytes_len data + fs - 1) div fs"
  have n: "bytes_len data \<le> n * fs" "0 < n" "n \<le> bytes_len data"
    using part_size_bound [OF assms(1), of "bytes_len data"] assms(2) by (simp_all add: n_def)
  obtain all g' where l: "shard_loop fs n [] data g = (all, g')" by fastforce
  let ?shards = "filter (\<lambda>(_, vec). vec \<noteq> []) all"
  have gens: "map fst all = map (\<lambda>i. g + int i) [0..<n]" "g' = g + int n"
    using shard_loop_gens [OF l assms(3)] n(3) assms(4) by auto
  then have "ascending (map fst all)" by (simp add: sorted_wrt_map)
  then have 1: "ascending (map fst ?shards)" by (rule ascending_filter)
  have "\<forall>gen\<in>set (map fst all). g \<le> gen \<and> gen < g'" unfolding gens(1) by (auto simp: gens(2))
  then have 2: "\<forall>gen\<in>set (map fst ?shards). g \<le> gen \<and> gen < g'" by auto
  have 3: "concat (map snd ?shards) = data"
    using shard_loop_split [OF l n(2)] concat_filter_nonempty [of all] by simp
  have 4: "\<forall>shard\<in>set (map snd ?shards). shard \<noteq> [] \<and> bytes_len (tl shard) \<le> fs"
    using shard_loop_bytes [OF l n(1)] by auto
  have 5: "data_sharding data fs g = Ok (?shards, g')"
    using assms(1) l unfolding data_sharding_def n_def by simp
  have 6: "g \<le> g'" "g' \<le> g + int (bytes_len data)" using gens(2) n(3) by simp_all
  show ?thesis by (intro exI conjI) (rule 5 3 1 2 6 4)+
qed


section \<open>Loading and merging\<close>

lemma load_data_loop_rest:
  assumes "cache_sound c tbls S" "ti_rest c tbls it kvs"
  shows "\<exists>S'. load_data_loop c p it S acc = Some (Ok (acc @ filter (\<lambda>kv. p (fst kv)) kvs, S')) \<and> cache_sound c tbls S'"
  using assms
proof (induction kvs arbitrary: it S acc)
  case Nil
  obtain it' S' where "ti_try_next c it S = Ok (None, it', S')" "cache_sound c tbls S'"
    using ti.step_rest [OF Nil] by (auto simp: ti_step_def)
  then show ?case by (simp add: load_data_loop.simps [of c p it])
next
  case (Cons kv kvs)
  obtain it' S' where it': "ti_try_next c it S = Ok (Some kv, it', S')" "cache_sound c tbls S'" "ti_rest c tbls it' kvs"
    using ti.step_rest [OF Cons.prems] by (auto simp: ti_step_def)
  show ?case
    using Cons.IH [OF it'(2,3), of "if p (fst kv) then acc @ [kv] else acc"] it'(1)
    by (auto simp: load_data_loop.simps [of c p it])
qed

definition holds_data :: "crates \<Rightarrow> hashing \<Rightarrow> (i64 \<Rightarrow> ss_table option) \<Rightarrow> (i64 \<Rightarrow> key_value list option) \<Rightarrow> box_table \<Rightarrow> scope \<Rightarrow> bool" where
  "holds_data c hs tbls content t s \<longleftrightarrow> table_holds c hs tbls t (scope_gen s) (scope_data content s)"

lemma table_load_data_holds:
  assumes "table_holds c hs tbls t gen kvs" "cache_sound c tbls S"
  shows "\<exists>S'. table_load_data c t p S = Some (Ok (filter (\<lambda>kv. p (fst kv)) kvs, S')) \<and> cache_sound c tbls S'"
proof -
  obtain it S1 where "table_iter_new c t S = Ok (it, S1)" "cache_sound c tbls S1" "ti_rest c tbls it kvs"
    using table_iter_new_rest [OF assms] by blast
  then show ?thesis using load_data_loop_rest [of c tbls S1 it kvs p "[]"] by (simp add: table_load_data_def)
qed

lemma load_all_holds:
  assumes "list_all2 (holds_data c hs tbls content) ts ss" "cache_sound c tbls S"
  shows "\<exists>S'. load_all c p ts S = Some (Ok (map (\<lambda>s. filter (\<lambda>kv. p (fst kv)) (scope_data content s)) ss, S')) \<and> cache_sound c tbls S'"
  using assms
proof (induction ts ss arbitrary: S rule: list_all2_induct)
  case (Cons t ts s ss)
  obtain S1 where S1: "table_load_data c t p S = Some (Ok (filter (\<lambda>kv. p (fst kv)) (scope_data content s), S1))" "cache_sound c tbls S1"
    using table_load_data_holds Cons.hyps(1) Cons.prems unfolding holds_data_def by blast
  then show ?case using Cons.IH [OF S1(2)] by auto
qed simp

lemma list_all2_sort_key:
  assumes "list_all2 P xs ys" "\<And>x y. P x y \<Longrightarrow> f x = g y"
  shows "list_all2 P (sort_key f xs) (sort_key g ys)"
proof -
  have ins: "list_all2 P (insort_key f x xs) (insort_key g y ys)" if "list_all2 P xs ys" "P x y" for x y xs ys
    using that(1)
  proof (induction xs ys rule: list_all2_induct)
    case (Cons a as b bs)
    then show ?case using assms(2) that(2) by auto
  qed (use that in simp)
  show ?thesis using assms(1) by (induction xs ys rule: list_all2_induct) (auto intro: ins)
qed

text \<open>What the merge produces: of every key the newest pair, in key order.\<close>

lemma map_of_sort_key:
  assumes "distinct (map fst xs)"
  shows "map_of (sort_key fst xs) = map_of xs"
  using assms by (intro map_of_inject_set [THEN iffD2]) (auto simp: distinct_map)

lemma sorted_distinct_ascending: "sorted xs \<Longrightarrow> distinct xs \<Longrightarrow> ascending (xs :: 'a::linorder list)"
  by (induction xs) (auto simp: order.strict_iff_order)

lemma merge_data_ok: "keys_ascending (merge_data ll l)" "map_of (merge_data ll l) = map_of (rev (concat (ll @ l)))"
proof -
  let ?u = "unique_by fst (rev (concat (ll @ l)))"
  have d: "distinct (map fst ?u)" by (rule unique_by_distinct)
  then have "distinct (map fst (sort_key fst ?u))" by (simp add: distinct_map)
  then show "keys_ascending (merge_data ll l)"
    unfolding merge_data_def by (intro sorted_distinct_ascending) simp_all
  show "map_of (merge_data ll l) = map_of (rev (concat (ll @ l)))"
    unfolding merge_data_def by (simp add: map_of_sort_key [OF d] map_of_unique_by del: concat_append)
qed

lemma map_of_rev_concat:
  assumes "\<forall>xs\<in>set xss. distinct (map fst xs)"
  shows "map_of (rev (concat xss)) = map_of (concat (rev xss))"
  using assms by (induction xss) (simp_all add: map_of_rev_distinct)


section \<open>Selecting tables\<close>

lemma scopes_loop_holds:
  assumes "loader_inv c hs tbls content L" "\<forall>(i, s)\<in>set xs. scope_live content s"
  shows "\<exists>ts L'. scopes_loop c xs L = Some (Ok (map (\<lambda>((i, s), t). (i, t, s)) (zip xs ts), L')) \<and>
    loader_inv c hs tbls content L' \<and> list_all2 (holds_data c hs tbls content) ts (map snd xs) \<and>
    tl_config L' = tl_config L \<and> stored_bytes (tl_files L') = stored_bytes (tl_files L) \<and> stored_bytes (tl_wal L') = stored_bytes (tl_wal L)"
  using assms
proof (induction xs arbitrary: L)
  case (Cons x xs)
  obtain i s where x: "x = (i, s)" by (cases x)
  then have s: "content (scope_gen s) = Some (scope_data content s)" using Cons.prems(2) by (auto simp: scope_live_def)
  obtain t L1 where t: "loader_get c L (scope_gen s) = Some (Ok (Some t, L1))" "table_holds c hs tbls t (scope_gen s) (scope_data content s)"
      "loader_inv c hs tbls content L1" "tl_config L1 = tl_config L"
      "stored_bytes (tl_files L1) = stored_bytes (tl_files L)" "stored_bytes (tl_wal L1) = stored_bytes (tl_wal L)"
    using loader_get_holds [OF Cons.prems(1) s] by blast
  obtain ts L2 where "scopes_loop c xs L1 = Some (Ok (map (\<lambda>((i, s), t). (i, t, s)) (zip xs ts), L2))"
      "loader_inv c hs tbls content L2" "list_all2 (holds_data c hs tbls content) ts (map snd xs)"
      "tl_config L2 = tl_config L1" "stored_bytes (tl_files L2) = stored_bytes (tl_files L1)" "stored_bytes (tl_wal L2) = stored_bytes (tl_wal L1)"
    using Cons.IH [OF t(3)] Cons.prems(2) by auto
  moreover have "holds_data c hs tbls content t s" using t(2) by (simp add: holds_data_def)
  ultimately show ?case
    using t x by (intro exI [of _ "t # ts"] exI [of _ L2]) simp
qed simp

lemma map_snd_filter_enumerate: "map snd (filter (\<lambda>(i, s). p s) (enumerate k l)) = filter p l"
  by (induction l arbitrary: k) auto

text \<open>The position of the first scope of a level that meets the target, 0 if there is none.\<close>

definition first_meet :: "scope list \<Rightarrow> scope \<Rightarrow> nat" where
  "first_meet l target =
     (if \<exists>s\<in>set l. scope_meet s target then length (takeWhile (\<lambda>s. \<not> scope_meet s target) l) else 0)"

lemma filter_enumerate_first:
  "(case filter (\<lambda>(_, s). p s) (enumerate k l) of [] \<Rightarrow> 0 | (i, _) # _ \<Rightarrow> i) =
   (if \<exists>s\<in>set l. p s then k + length (takeWhile (\<lambda>s. \<not> p s) l) else 0)"
proof (induction l arbitrary: k)
  case (Cons a l)
  show ?case using Cons [of "Suc k"] by auto
qed simp

lemma tables_by_scopes_holds:
  assumes inv: "loader_inv c hs tbls content L" and V: "level < length (level_slice V)" "\<forall>s\<in>set (level_slice V ! level). scope_live content s"
  shows "\<exists>ts L'. tables_by_scopes c V L level target =
      Some (Ok ((ts, filter (\<lambda>s. scope_meet s target) (level_slice V ! level), first_meet (level_slice V ! level) target), L')) \<and>
    loader_inv c hs tbls content L' \<and>
    list_all2 (holds_data c hs tbls content) ts (filter (\<lambda>s. scope_meet s target) (level_slice V ! level)) \<and>
    tl_config L' = tl_config L \<and> stored_bytes (tl_files L') = stored_bytes (tl_files L) \<and> stored_bytes (tl_wal L') = stored_bytes (tl_wal L)"
proof -
  let ?l = "level_slice V ! level"
  let ?xs = "filter (\<lambda>(_, scope). scope_meet scope target) (enumerate 0 ?l)"
  have "\<forall>(i, s)\<in>set ?xs. scope_live content s" using V(2) by (auto simp: in_set_enumerate_eq)
  from scopes_loop_holds [OF inv this] obtain ts L' where ts:
      "scopes_loop c ?xs L = Some (Ok (map (\<lambda>((i, s), t). (i, t, s)) (zip ?xs ts), L'))" "loader_inv c hs tbls content L'"
      "list_all2 (holds_data c hs tbls content) ts (map snd ?xs)" "tl_config L' = tl_config L"
      "stored_bytes (tl_files L') = stored_bytes (tl_files L)" "stored_bytes (tl_wal L') = stored_bytes (tl_wal L)" by blast
  have len: "length ts = length ?xs" using list_all2_lengthD [OF ts(3)] by simp
  let ?found = "map (\<lambda>((i, s), t). (i, t, s)) (zip ?xs ts)"
  have "map (fst \<circ> snd) ?found = map snd (zip ?xs ts)" "map (snd \<circ> snd) ?found = map snd (map fst (zip ?xs ts))"
    by (auto simp: split_beta)
  then have "map (fst \<circ> snd) ?found = ts" "map (snd \<circ> snd) ?found = filter (\<lambda>s. scope_meet s target) ?l"
    using len by (simp_all add: map_snd_filter_enumerate del: map_map)
  moreover have "(case (case ?found of [] \<Rightarrow> None | (index, _) # _ \<Rightarrow> Some index) of None \<Rightarrow> 0 | Some i \<Rightarrow> i) = first_meet ?l target"
    using filter_enumerate_first [of "\<lambda>s. scope_meet s target" 0 ?l] len
    by (cases ?xs; cases ts) (auto simp: first_meet_def split: if_splits)
  ultimately show ?thesis
    using ts(1,2,3-) V(1) by (simp add: tables_by_scopes_def index_slice_def map_snd_filter_enumerate Let_def)
qed

lemma data_merge_holds:
  assumes l: "list_all2 (holds_data c hs tbls content) ts_l ss_l" and ll: "list_all2 (holds_data c hs tbls content) ts_ll ss_ll"
    and S: "cache_sound c tbls S" and fs: "0 < fs"
  shows "\<exists>merged S'. keys_ascending merged \<and>
    map_of merged = map_of (level_data content (rev (sort_key scope_gen ss_l)) @ level_data content (rev ss_ll)) \<and>
    cache_sound c tbls S' \<and>
    data_merge_and_sharding c ts_l ts_ll fs S g =
      bind_oo (Some (data_sharding merged fs g)) (\<lambda>(shards, g'). Some (Ok (shards, S', g')))"
proof -
  have asc: "keys_ascending (scope_data content s)" if "holds_data c hs tbls content t s" for t s
    using that table_holds_ascending by (auto simp: holds_data_def)
  have "\<forall>s\<in>set ss_l. distinct (map fst (scope_data content s))" "\<forall>s\<in>set ss_ll. distinct (map fst (scope_data content s))"
    using l ll asc by (fastforce simp: list_all2_conv_all_nth in_set_conv_nth dest: ascending_distinct)+
  note dist = this
  let ?ss = "sort_key scope_gen ss_l"
  have "list_all2 (holds_data c hs tbls content) (sort_key table_gen ts_l) ?ss"
    by (rule list_all2_sort_key [OF l]) (auto simp: holds_data_def dest: table_holds_gen)
  from load_all_holds [OF this S, of "\<lambda>_. True"] obtain S1 where S1:
      "load_all c (\<lambda>_. True) (sort_key table_gen ts_l) S = Some (Ok (map (scope_data content) ?ss, S1))" "cache_sound c tbls S1"
    by auto
  let ?K = "fst ` set (concat (map (scope_data content) ?ss))"
  let ?data_ll = "map (\<lambda>s. filter (\<lambda>kv. fst kv \<notin> ?K) (scope_data content s)) ss_ll"
  obtain S2 where S2: "load_all c (\<lambda>key. key \<notin> ?K) ts_ll S1 = Some (Ok (?data_ll, S2))" "cache_sound c tbls S2"
    using load_all_holds [OF ll S1(2), of "\<lambda>key. key \<notin> ?K"] by blast
  let ?merged = "merge_data ?data_ll (map (scope_data content) ?ss)"
  have "map_of (rev (concat (?data_ll @ map (scope_data content) ?ss))) =
      map_of (concat (rev (map (scope_data content) ?ss)) @ concat (rev ?data_ll))"
    using dist by (subst map_of_rev_concat) (auto simp: distinct_map intro: inj_on_subset)
  also have "\<dots> = map_of (level_data content (rev ?ss) @ level_data content (rev ss_ll))"
  proof
    fix k
    have f: "concat (rev ?data_ll) = filter (\<lambda>kv. fst kv \<notin> ?K) (level_data content (rev ss_ll))"
      by (simp add: level_data_def filter_concat rev_map comp_def)
    have "map_of (filter (\<lambda>kv. fst kv \<notin> ?K) kvs) k = (if k \<notin> ?K then map_of kvs k else None)" for kvs :: "key_value list"
      using map_of_filter_key [of "\<lambda>k. k \<notin> ?K" kvs k] by (simp add: case_prod_unfold)
    moreover have "map_of (level_data content (rev ?ss)) k = None \<longleftrightarrow> k \<notin> ?K"
      by (simp add: map_of_eq_None_iff level_data_def image_iff)
    ultimately show "map_of (concat (rev (map (scope_data content) ?ss)) @ concat (rev ?data_ll)) k =
        map_of (level_data content (rev ?ss) @ level_data content (rev ss_ll)) k"
      unfolding f by (auto simp: map_add_def level_data_def rev_map split: option.splits)
  qed
  finally have "map_of ?merged = map_of (level_data content (rev ?ss) @ level_data content (rev ss_ll))"
    by (simp add: merge_data_ok(2) del: concat_append)
  then show ?thesis
    using merge_data_ok(1) S1(1) S2 by (intro exI [of _ ?merged] exI [of _ S2]) (simp add: data_merge_and_sharding_def Let_def)
qed

end
