(* ===== verification/Level_Iter.thy ===== *)
theory Level_Iter
  imports Version
begin

text \<open>
  \<open>src/src/kernel/lsm/iterator/level_iter.rs\<close>: the iterator over one level. It opens the tables of the level one
  after the other. The state of its operations is the table loader, which every opened table may change; the
  cache of blocks that the iterators of the tables use is part of it.

  When \<open>new\<close> fails, the caller may go on with the loader, so \<open>level_iter_new\<close> returns the loader next to
  its result. What a failing iterator of a table has put into the cache of blocks is not recorded.
\<close>

section \<open>The iterator\<close>

record level_iter =
  li_version :: version
  li_level :: nat
  li_level_len :: nat
  li_offset :: nat
  li_child :: table_iter

definition level_iter_new ::
  "crates \<Rightarrow> version \<Rightarrow> table_loader \<Rightarrow> nat \<Rightarrow> (level_iter outcome \<times> table_loader) option" where
  "level_iter_new c V L level =
     (case version_table c V L level 0 of
        None \<Rightarrow> None
      | Some (Ok (Some table, L1)) \<Rightarrow>
          Some (case table_iter_new c table (tl_cache L1) of
            Ok (child_iter, S) \<Rightarrow>
              (map_outcome_ok (\<lambda>n. \<lparr>li_version = V, li_level = level, li_level_len = n, li_offset = 0, li_child = child_iter\<rparr>)
                 (level_len V level), L1\<lparr>tl_cache := S\<rparr>)
          | Err e \<Rightarrow> (Err e, L1)
          | Panic \<Rightarrow> (Panic, L1))
      | Some (Ok (None, L1)) \<Rightarrow> Some (Err DataEmpty, L1)
      | Some (Err e) \<Rightarrow> Some (Err e, L)
      | Some Panic \<Rightarrow> Some (Panic, L))"

definition level_is_valid :: "level_iter \<Rightarrow> bool" where
  "level_is_valid it \<longleftrightarrow> li_offset it < li_level_len it"

definition child_iter_seek ::
  "crates \<Rightarrow> level_iter \<Rightarrow> table_loader \<Rightarrow> seek \<Rightarrow> nat \<Rightarrow> (level_iter \<times> table_loader) outcome option" where
  "child_iter_seek c it L to offset =
     (let it1 = it\<lparr>li_offset := offset\<rparr> in
      if level_is_valid it1 then
        bind_oo (version_table c (li_version it) L (li_level it) offset) (\<lambda>(table, L1).
          case table of
            Some t \<Rightarrow>
              bind_oo (Some (table_iter_new c t (tl_cache L1))) (\<lambda>(child, S).
              bind_oo (Some (ti_seek c child S to)) (\<lambda>(child', S').
              Some (Ok (it1\<lparr>li_child := child'\<rparr>, L1\<lparr>tl_cache := S'\<rparr>))))
          | None \<Rightarrow> Some (Ok (it1, L1)))
      else Some (Ok (it1, L)))"

definition seek_ward ::
  "crates \<Rightarrow> level_iter \<Rightarrow> table_loader \<Rightarrow> bytes \<Rightarrow> seek \<Rightarrow> (level_iter \<times> table_loader) outcome option" where
  "seek_ward c it L key to =
     (if li_level it = LEVEL_0 then Some (Err (NotSupport ''level 0 cannot seek''))
      else bind_oo (Some (query_meet_index (li_version it) key (li_level it))) (\<lambda>offset. child_iter_seek c it L to offset))"

text \<open>\<open>try_next\<close> of the child, with the cache of the loader.\<close>

definition child_try_next ::
  "crates \<Rightarrow> level_iter \<Rightarrow> table_loader \<Rightarrow> (key_value option \<times> level_iter \<times> table_loader) outcome option" where
  "child_try_next c it L =
     bind_oo (Some (ti_try_next c (li_child it) (tl_cache L))) (\<lambda>(x, child, S).
     Some (Ok (x, it\<lparr>li_child := child\<rparr>, L\<lparr>tl_cache := S\<rparr>)))"

definition level_try_next :: "crates \<Rightarrow> (level_iter, table_loader) iter_step" where
  "level_try_next c it L =
     bind_oo (child_try_next c it L) (\<lambda>(x, it1, L1).
       case x of
         None \<Rightarrow> bind_oo (child_iter_seek c it1 L1 Seek_First (li_offset it1 + 1)) (\<lambda>(it2, L2). child_try_next c it2 L2)
       | Some item \<Rightarrow> Some (Ok (Some item, it1, L1)))"

definition level_seek :: "crates \<Rightarrow> (level_iter, table_loader) iter_seek" where
  "level_seek c it L to =
     (case to of
        Seek_First \<Rightarrow> child_iter_seek c it L Seek_First 0
      | Seek_Last \<Rightarrow> bind_oo (Some (checked_sub (li_level_len it) 1)) (\<lambda>offset. child_iter_seek c it L Seek_Last offset)
      | Seek_Backward key \<Rightarrow> seek_ward c it L key to)"

section \<open>What it delivers\<close>

text \<open>A level that can be iterated: its tables are live, not empty and sorted.\<close>

definition level_iterable :: "(i64 \<Rightarrow> key_value list option) \<Rightarrow> scope list \<Rightarrow> bool" where
  "level_iterable content l \<longleftrightarrow> l \<noteq> [] \<and> level_sorted l \<and> (\<forall>s\<in>set l. scope_live content s \<and> scope_data content s \<noteq> [])"

definition li_wf :: "(i64 \<Rightarrow> key_value list option) \<Rightarrow> level_iter \<Rightarrow> scope list \<Rightarrow> bool" where
  "li_wf content it l \<longleftrightarrow> LEVEL_0 < li_level it \<and> li_level it < length (level_slice (li_version it)) \<and>
     l = level_slice (li_version it) ! li_level it \<and> li_level_len it = length l \<and> level_iterable content l"

lemma li_wf_simps [simp]: "li_wf content (it\<lparr>li_child := child\<rparr>) l = li_wf content it l"
    "li_wf content (it\<lparr>li_offset := offset\<rparr>) l = li_wf content it l"
  by (simp_all add: li_wf_def)

definition li_rest ::
  "crates \<Rightarrow> (i64 \<Rightarrow> ss_table option) \<Rightarrow> (i64 \<Rightarrow> key_value list option) \<Rightarrow> level_iter \<Rightarrow> key_value list \<Rightarrow> bool" where
  "li_rest c tbls content it kvs \<longleftrightarrow>
     (\<exists>l kvs1. li_wf content it l \<and> ti_rest c tbls (li_child it) kvs1 \<and> kvs = kvs1 @ level_data content (drop (Suc (li_offset it)) l))"

definition li_content :: "(i64 \<Rightarrow> key_value list option) \<Rightarrow> level_iter \<Rightarrow> key_value list \<Rightarrow> bool" where
  "li_content content it kvs \<longleftrightarrow> (\<exists>l. li_wf content it l \<and> kvs = level_data content l)"

lemma level_data_ascending:
  assumes "level_sorted l" "\<forall>s\<in>set l. scope_live content s" "\<forall>s\<in>set l. keys_ascending (scope_data content s)"
  shows "keys_ascending (level_data content l)"
  using assms
proof (induction l)
  case (Cons s l)
  have "fst kv < fst kv'" if kv: "kv \<in> set (scope_data content s)" "kv' \<in> set (level_data content l)" for kv kv'
  proof -
    obtain s' where s': "s' \<in> set l" "kv' \<in> set (scope_data content s')" using kv(2) by (auto simp: level_data_def)
    have "fst kv \<le> scope_end s" "scope_start s' \<le> fst kv'"
      using Cons.prems(2) kv(1) s' unfolding scope_live_def covers_def meet_by_key_def by auto
    moreover have "scope_end s < scope_start s'" using Cons.prems(1) s'(1) by (simp add: level_sorted_def)
    ultimately show ?thesis by order
  qed
  moreover have "keys_ascending (level_data content l)" using Cons by (simp add: level_sorted_def)
  ultimately show ?case using Cons.prems(3) by (auto simp: sorted_wrt_append)
qed simp

lemma li_open:
  assumes inv: "loader_inv c hs tbls content L" and wf: "li_wf content it l" and offset: "offset < length l" and to: "to \<noteq> Seek_Last"
  shows "\<exists>it' L' r. child_iter_seek c it L to offset = Some (Ok (it', L')) \<and> loader_inv c hs tbls content L' \<and>
    li_wf content it' l \<and> li_offset it' = offset \<and> ti_rest c tbls (li_child it') r \<and> seek_to to (scope_data content (l ! offset)) r"
proof -
  let ?s = "l ! offset"
  have live: "content (scope_gen ?s) = Some (scope_data content ?s)"
    using wf offset nth_mem [OF offset] by (auto simp: li_wf_def level_iterable_def scope_live_def)
  obtain t L1 where t: "loader_get c L (scope_gen ?s) = Some (Ok (Some t, L1))" "table_holds c hs tbls t (scope_gen ?s) (scope_data content ?s)"
      "loader_inv c hs tbls content L1"
    using loader_get_holds [OF inv live] by blast
  have S1: "cache_sound c tbls (tl_cache L1)" using t(3) by (simp add: loader_inv_def)
  obtain ch S2 where ch: "table_iter_new c t (tl_cache L1) = Ok (ch, S2)" "cache_sound c tbls S2" "ti_content c tbls ch (scope_data content ?s)"
    using table_iter_new_rest [OF t(2) S1] by blast
  obtain ch' S3 r where ch': "ti_seek c ch S2 to = Ok (ch', S3)" "cache_sound c tbls S3" "ti_rest c tbls ch' r"
      "seek_to to (scope_data content ?s) r"
    using ti.seek_content [OF ch(2,3) to] by (auto simp: ti_seek_step_def)
  let ?it = "it\<lparr>li_offset := offset, li_child := ch'\<rparr>" and ?L = "L1\<lparr>tl_cache := S3\<rparr>"
  have "version_table c (li_version it) L (li_level it) offset = Some (Ok (Some t, L1))"
    using t(1) wf offset by (auto simp: version_table_def li_wf_def index_slice_def get_slice_def)
  then have "child_iter_seek c it L to offset = Some (Ok (?it, ?L))"
    using ch(1) ch'(1) wf offset by (simp add: child_iter_seek_def level_is_valid_def li_wf_def)
  moreover have "loader_inv c hs tbls content ?L" using t(3) ch'(2) by (simp add: loader_inv_def)
  moreover have "li_wf content ?it l" using wf by simp
  ultimately show ?thesis using ch'(3,4) by (intro exI [of _ ?it] exI [of _ ?L] exI [of _ r]) simp
qed

lemma child_try_next_rest:
  assumes "loader_inv c hs tbls content L" "ti_rest c tbls (li_child it) kvs"
  shows "\<exists>child S. child_try_next c it L = Some (Ok (case kvs of [] \<Rightarrow> None | kv # _ \<Rightarrow> Some kv, it\<lparr>li_child := child\<rparr>, L\<lparr>tl_cache := S\<rparr>)) \<and>
    loader_inv c hs tbls content (L\<lparr>tl_cache := S\<rparr>) \<and> ti_rest c tbls child (tl kvs)"
proof -
  have "cache_sound c tbls (tl_cache L)" using assms(1) by (simp add: loader_inv_def)
  from ti.step_rest [OF this assms(2)] show ?thesis
    using assms(1) by (fastforce simp: child_try_next_def ti_step_def loader_inv_def)
qed

lemma level_step_rest:
  assumes inv: "loader_inv c hs tbls content L" and rest: "li_rest c tbls content it kvs"
  shows "\<exists>it' L'. level_try_next c it L = Some (Ok (case kvs of [] \<Rightarrow> None | kv # _ \<Rightarrow> Some kv, it', L')) \<and>
    loader_inv c hs tbls content L' \<and> li_rest c tbls content it' (tl kvs)"
proof -
  obtain l kvs1 where wf: "li_wf content it l" and kvs1: "ti_rest c tbls (li_child it) kvs1"
      and kvs: "kvs = kvs1 @ level_data content (drop (Suc (li_offset it)) l)"
    using rest by (auto simp: li_rest_def)
  obtain ch S where ch: "child_try_next c it L = Some (Ok (case kvs1 of [] \<Rightarrow> None | kv # _ \<Rightarrow> Some kv, it\<lparr>li_child := ch\<rparr>, L\<lparr>tl_cache := S\<rparr>))"
      "loader_inv c hs tbls content (L\<lparr>tl_cache := S\<rparr>)" "ti_rest c tbls ch (tl kvs1)"
    using child_try_next_rest [OF inv kvs1] by blast
  let ?it = "it\<lparr>li_child := ch\<rparr>" and ?L = "L\<lparr>tl_cache := S\<rparr>"
  have wf1: "li_wf content ?it l" using wf by simp
  show ?thesis
  proof (cases kvs1)
    case (Cons kv t)
    then have "li_rest c tbls content ?it (tl kvs)" using wf1 ch(3) by (auto simp: li_rest_def kvs)
    then show ?thesis using ch(1,2) Cons by (auto simp: level_try_next_def kvs)
  next
    case Nil
    show ?thesis
    proof (cases "Suc (li_offset it) < length l")
      case True
      from li_open [OF ch(2) wf1 True, of Seek_First] obtain it2 L2 where
        o: "child_iter_seek c ?it ?L Seek_First (Suc (li_offset it)) = Some (Ok (it2, L2))" "loader_inv c hs tbls content L2"
          "li_wf content it2 l" "li_offset it2 = Suc (li_offset it)" "ti_rest c tbls (li_child it2) (scope_data content (l ! Suc (li_offset it)))"
        by (auto simp: seek_to_def)
      have ne: "scope_data content (l ! Suc (li_offset it)) \<noteq> []"
        using wf nth_mem [OF True] by (auto simp: li_wf_def level_iterable_def)
      then obtain kv t where kvt: "scope_data content (l ! Suc (li_offset it)) = kv # t" by (cases "scope_data content (l ! Suc (li_offset it))") auto
      obtain ch3 S3 where n: "child_try_next c it2 L2 = Some (Ok (Some kv, it2\<lparr>li_child := ch3\<rparr>, L2\<lparr>tl_cache := S3\<rparr>))"
          "loader_inv c hs tbls content (L2\<lparr>tl_cache := S3\<rparr>)" "ti_rest c tbls ch3 t"
        using child_try_next_rest [OF o(2,5)] kvt by auto
      have kvs2: "kvs = kv # t @ level_data content (drop (Suc (Suc (li_offset it))) l)"
        using kvs Nil kvt by (simp add: Cons_nth_drop_Suc [OF True, symmetric])
      have "li_rest c tbls content (it2\<lparr>li_child := ch3\<rparr>) (tl kvs)"
        using o(3,4) n(3) by (auto simp: li_rest_def kvs2)
      then show ?thesis using ch(1) o(1) n(1,2) Nil by (auto simp: level_try_next_def kvs2)
    next
      case False
      then have o: "child_iter_seek c ?it ?L Seek_First (Suc (li_offset it)) = Some (Ok (?it\<lparr>li_offset := Suc (li_offset it)\<rparr>, ?L))"
        using wf by (simp add: child_iter_seek_def level_is_valid_def li_wf_def)
      let ?it2 = "?it\<lparr>li_offset := Suc (li_offset it)\<rparr>"
      have "ti_rest c tbls (li_child ?it2) []" using ch(3) Nil by simp
      from child_try_next_rest [OF ch(2) this] obtain ch3 S3 where
        n: "child_try_next c ?it2 ?L = Some (Ok (None, ?it2\<lparr>li_child := ch3\<rparr>, ?L\<lparr>tl_cache := S3\<rparr>))"
          "loader_inv c hs tbls content (?L\<lparr>tl_cache := S3\<rparr>)" "ti_rest c tbls ch3 []"
        by auto
      have "li_rest c tbls content (?it2\<lparr>li_child := ch3\<rparr>) (tl kvs)"
        unfolding li_rest_def using False wf n(3) Nil
        by (intro exI [of _ l] exI [of _ "[]"]) (simp add: kvs)
      moreover have "kvs = []" using kvs Nil False by simp
      ultimately show ?thesis using ch(1) o n(1,2) Nil by (auto simp: level_try_next_def)
    qed
  qed
qed

text \<open>The binary search lands on the last table that starts at or before the key, or on the first one.\<close>

lemma query_meet_before:
  assumes wf: "li_wf content it l"
  shows "\<exists>i<length l. query_meet_index (li_version it) key (li_level it) = Ok i \<and>
    (\<forall>s\<in>set (take i l). \<forall>k\<in>fst ` set (scope_data content s). k < key)"
proof -
  let ?b = "binary_search_by (\<lambda>scope. cmp (scope_start scope) key) l"
  have l: "level_sorted l" "\<forall>s\<in>set l. scope_live content s" "l \<noteq> []" "\<forall>s\<in>set l. scope_wf s"
    using wf by (auto simp: li_wf_def level_iterable_def scope_live_def)
  have ok: "search_ok (\<lambda>scope. cmp (scope_start scope) key) l ?b"
    by (rule binary_search_by_ok [OF level_sorted_start [OF l(1,4)]])
  define i where "i = (case ?b of Found i \<Rightarrow> i | Insert_at i \<Rightarrow> i - 1)"
  have "1 \<le> length l" using l(3) by (cases l) auto
  then have lt: "i < length l" using ok by (cases ?b) (auto simp: i_def)
  have start: "scope_start (l ! i) \<le> key \<or> i = 0" using ok by (cases ?b) (auto simp: i_def order.strict_implies_order)
  have "k < key" if s: "s \<in> set (take i l)" "k \<in> fst ` set (scope_data content s)" for s k
  proof -
    obtain j where j: "j < i" "s = l ! j" using s(1) lt by (auto simp: in_set_conv_nth)
    have "scope_end s < scope_start (l ! i)" using l(1) j lt sorted_wrt_nth_less unfolding level_sorted_def by blast
    moreover have "k \<le> scope_end s" using s l(2) in_set_takeD unfolding scope_live_def covers_def meet_by_key_def by metis
    ultimately show ?thesis using start j(1) by auto
  qed
  moreover have "query_meet_index (li_version it) key (li_level it) = Ok i"
    using wf by (auto simp: query_meet_index_def index_slice_def i_def li_wf_def)
  ultimately show ?thesis using lt by blast
qed

lemma level_seek_content:
  assumes inv: "loader_inv c hs tbls content L" and con: "li_content content it kvs" and to: "to \<noteq> Seek_Last"
  shows "\<exists>it' L' r. level_seek c it L to = Some (Ok (it', L')) \<and> loader_inv c hs tbls content L' \<and> li_content content it' kvs \<and>
    li_rest c tbls content it' r \<and> seek_to to kvs r"
proof -
  obtain l where wf: "li_wf content it l" and kvs: "kvs = level_data content l" using con by (auto simp: li_content_def)
  have l: "level_sorted l" "\<forall>s\<in>set l. scope_live content s" using wf by (auto simp: li_wf_def level_iterable_def)
  have asc: "keys_ascending (level_data content m)" if "level_sorted m" "set m \<subseteq> set l" for m
    using that l(2) by (intro level_data_ascending) (auto intro: live_ascending [OF inv])
  have go: ?thesis if i: "i < length l" "level_seek c it L to = child_iter_seek c it L to i"
      "\<forall>key. to = Seek_Backward key \<longrightarrow> (\<forall>s\<in>set (take i l). \<forall>k\<in>fst ` set (scope_data content s). k < key)" "to = Seek_First \<longrightarrow> i = 0" for i
  proof -
    obtain it' L' r where o: "child_iter_seek c it L to i = Some (Ok (it', L'))" "loader_inv c hs tbls content L'"
        "li_wf content it' l" "li_offset it' = i" "ti_rest c tbls (li_child it') r" "seek_to to (scope_data content (l ! i)) r"
      using li_open [OF inv wf i(1) to] by blast
    let ?r = "r @ level_data content (drop (Suc i) l)"
    have split: "level_data content l = level_data content (take i l) @ scope_data content (l ! i) @ level_data content (drop (Suc i) l)"
      using i(1) by (metis level_data_simps(2,3) id_take_nth_drop)
    have "seek_to to kvs ?r"
    proof (cases to)
      case Seek_First
      then show ?thesis using o(6) i(4) split asc [OF l(1)] by (simp add: seek_to_def kvs)
    next
      case (Seek_Backward key)
      have r: "keys_ascending r" "filter (\<lambda>(k, _). key \<le> k) r = filter (\<lambda>(k, _). key \<le> k) (scope_data content (l ! i))"
        using o(6) Seek_Backward by (auto simp: seek_to_def)
      have "filter (\<lambda>(k, _). key \<le> k) (level_data content (take i l)) = []"
        using i(3) Seek_Backward by (fastforce simp: filter_empty_conv level_data_def)
      then have "filter (\<lambda>(k, _). key \<le> k) ?r = filter (\<lambda>(k, _). key \<le> k) kvs" by (simp add: kvs split r(2))
      moreover have "keys_ascending ?r"
      proof -
        have "keys_ascending (scope_data content (l ! i) @ level_data content (drop (Suc i) l))"
          using asc [OF l(1)] unfolding split by (simp add: sorted_wrt_append)
        then show ?thesis using r(1) o(6) by (auto simp: sorted_wrt_append seek_to_def)
      qed
      moreover have "set ?r \<subseteq> set kvs" using o(6) by (auto simp: kvs split seek_to_def)
      ultimately show ?thesis using Seek_Backward by (simp add: seek_to_def)
    qed (use to in simp)
    then show ?thesis using o i(2) wf kvs by (auto simp: li_content_def li_rest_def)
  qed
  show ?thesis
  proof (cases to)
    case Seek_First
    then show ?thesis using go [of 0] wf by (auto simp: level_seek_def li_wf_def level_iterable_def)
  next
    case (Seek_Backward key)
    obtain i where "i < length l" "query_meet_index (li_version it) key (li_level it) = Ok i"
        "\<forall>s\<in>set (take i l). \<forall>k\<in>fst ` set (scope_data content s). k < key"
      using query_meet_before [OF wf] by blast
    then show ?thesis using go [of i] wf by (auto simp: Seek_Backward level_seek_def seek_ward_def li_wf_def)
  qed (use to in simp)
qed

lemma child_iter_seek_wf:
  assumes "child_iter_seek c it L to offset = Some (Ok (it', L'))"
  shows "li_wf content it' l = li_wf content it l"
  using assms by (auto simp: child_iter_seek_def Let_def elim!: bind_oo_OkE split: if_splits option.splits)

lemma level_step_content:
  assumes "li_content content it kvs" "level_try_next c it L = Some (Ok (x, it', L'))"
  shows "li_content content it' kvs"
  using assms
  by (fastforce simp: li_content_def level_try_next_def child_try_next_def child_iter_seek_wf elim!: bind_oo_OkE split: option.splits)

interpretation li: kv_seek_iter "level_try_next c" "loader_inv c hs tbls content" "li_rest c tbls content" "level_seek c" "li_content content"
  for c hs tbls content
  by unfold_locales (rule level_step_rest level_seek_content level_step_content; assumption)+

lemma level_iter_new_rest:
  assumes inv: "loader_inv c hs tbls content L" and level: "LEVEL_0 < level" "level < length (level_slice V)"
    and l: "level_iterable content (level_slice V ! level)"
  shows "\<exists>it L'. level_iter_new c V L level = Some (Ok it, L') \<and> loader_inv c hs tbls content L' \<and>
    li_rest c tbls content it (level_data content (level_slice V ! level)) \<and> li_content content it (level_data content (level_slice V ! level))"
proof -
  let ?l = "level_slice V ! level"
  obtain s m where sm: "?l = s # m" using l by (auto simp: level_iterable_def neq_Nil_conv)
  have live: "content (scope_gen s) = Some (scope_data content s)" using l sm by (simp add: level_iterable_def scope_live_def)
  obtain t L1 where t: "loader_get c L (scope_gen s) = Some (Ok (Some t, L1))" "table_holds c hs tbls t (scope_gen s) (scope_data content s)"
      "loader_inv c hs tbls content L1"
    using loader_get_holds [OF inv live] by blast
  have S1: "cache_sound c tbls (tl_cache L1)" using t(3) by (simp add: loader_inv_def)
  obtain ch S2 where ch: "table_iter_new c t (tl_cache L1) = Ok (ch, S2)" "cache_sound c tbls S2" "ti_rest c tbls ch (scope_data content s)"
    using table_iter_new_rest [OF t(2) S1] by blast
  let ?it = "\<lparr>li_version = V, li_level = level, li_level_len = length ?l, li_offset = 0, li_child = ch\<rparr>"
  have "version_table c V L level 0 = Some (Ok (Some t, L1))"
    using t(1) level(2) sm by (simp add: version_table_def index_slice_def get_slice_def)
  then have "level_iter_new c V L level = Some (Ok ?it, L1\<lparr>tl_cache := S2\<rparr>)"
    using ch(1) level(2) by (simp add: level_iter_new_def level_len_def index_slice_def)
  moreover have "loader_inv c hs tbls content (L1\<lparr>tl_cache := S2\<rparr>)" using t(3) ch(2) by (simp add: loader_inv_def)
  moreover have "li_wf content ?it ?l" using level l by (simp add: li_wf_def)
  moreover from this have "li_rest c tbls content ?it (level_data content ?l)"
    unfolding li_rest_def using ch(3) sm by (intro exI [of _ ?l] exI [of _ "scope_data content s"]) simp
  ultimately show ?thesis by (auto simp: li_content_def)
qed

lemma level_iter_new_empty:
  assumes "level < length (level_slice V)" "level_slice V ! level = []"
  shows "level_iter_new c V L level = Some (Err DataEmpty, L)"
  using assms by (simp add: level_iter_new_def version_table_def index_slice_def get_slice_def)

text \<open>A version with one table in the given level.\<close>

definition sample_top :: scope where
  "sample_top = \<lparr>scope_start = [1], scope_end = [2], scope_gen = 5, allowed_seeks = Some 0\<rparr>"

definition sample_level :: "nat \<Rightarrow> version" where
  "sample_level level = \<lparr>version_num = 1, level_slice = [[], [], [], []][level := [sample_top]],
     meta_data = \<lparr>vm_size_of_disk = 0, vm_len = 0\<rparr>\<rparr>"

lemma sample_level_ok:
  assumes "level < MAX_LEVEL"
  shows "version_ok [5 \<mapsto> sample_pairs] [0] (sample_level level)"
proof -
  have "level = 0 \<or> level = 1 \<or> level = 2 \<or> level = 3" using assms by (auto simp: MAX_LEVEL_def)
  then show ?thesis
    by (auto simp: version_ok_def sample_level_def MAX_LEVEL_def scope_live_def scope_data_def covers_def meet_by_key_def scope_wf_def seeks_ok_def
        level_sorted_def sample_top_def sample_pairs_def less_Suc_eq numeral_eq_Suc)
qed

lemma sample_table_loader: "\<exists>L tbls. loader_inv le_crates sum_hashing tbls [5 \<mapsto> sample_pairs] L"
proof -
  obtain L where L: "loader_inv le_crates sum_hashing Map.empty Map.empty L" "tl_config L = sample_config0" "tl_files L = []"
    using sample_loader by blast
  show ?thesis
    using loader_create_holds [OF le.int_encoding_axioms le.lz4_codec_axioms L(1), of sample_pairs 5 "[]" "(11, 22)" 1] L(2,3)
    by (fastforce simp: sample_storable btree_get_def)
qed

end
