(* ===== verification/Compaction.thy ===== *)
theory Compaction
  imports Compactor Level_Iter
begin

text \<open>
  What a round of compaction does to the data of a version. The first part is about lists of scopes: the
  selected scopes of the lower level form a block, the new tables take its place, and of every key the
  newest pair stays the newest. The second part puts the steps of the code together.
\<close>

section \<open>The block of scopes that meet a target\<close>

lemma level_sorted_append:
  "level_sorted (l @ m) \<longleftrightarrow> level_sorted l \<and> level_sorted m \<and> (\<forall>a\<in>set l. \<forall>b\<in>set m. scope_end a < scope_start b)"
  by (simp add: level_sorted_def sorted_wrt_append)

lemma level_sorted_Cons:
  "level_sorted (a # l) \<longleftrightarrow> (\<forall>b\<in>set l. scope_end a < scope_start b) \<and> level_sorted l"
  by (simp add: level_sorted_def)

lemma level_sorted_filter: "level_sorted l \<Longrightarrow> level_sorted (filter p l)"
  by (simp add: level_sorted_def sorted_wrt_filter)

lemma after_meeting:
  assumes "level_sorted (s # l)" "scope_wf s" "\<forall>t\<in>set l. scope_wf t" "scope_wf F" "scope_meet s F"
  shows "\<exists>block post. l = block @ post \<and> (\<forall>t\<in>set block. scope_meet t F) \<and> (\<forall>t\<in>set post. scope_end F < scope_start t)"
  using assms
proof (induction l arbitrary: s)
  case (Cons t l)
  have lt: "scope_end s < scope_start t" "level_sorted (t # l)" "scope_wf t" using Cons.prems by (auto simp: level_sorted_Cons)
  have F: "scope_start F \<le> scope_end s" using Cons.prems(2,4,5) by (simp add: scope_meet_iff)
  show ?case
  proof (cases "scope_meet t F")
    case True
    obtain block post where "l = block @ post" "\<forall>t\<in>set block. scope_meet t F" "\<forall>t\<in>set post. scope_end F < scope_start t"
      using Cons.IH [OF lt(2,3) _ Cons.prems(4) True] Cons.prems(3) by auto
    then show ?thesis using True by (intro exI [of _ "t # block"] exI [of _ post]) simp
  next
    case False
    have "scope_start F \<le> scope_end t" using F lt by (simp add: scope_wf_def)
    then have F_t: "scope_end F < scope_start t" using False lt(3) Cons.prems(4) by (simp add: scope_meet_iff not_le)
    moreover have "scope_end F < scope_start u" if "u \<in> set l" for u
    proof -
      have "scope_start t \<le> scope_end t" using lt(3) by (simp add: scope_wf_def)
      moreover have "scope_end t < scope_start u" using lt(2) that by (simp add: level_sorted_Cons)
      ultimately show ?thesis using F_t by order
    qed
    ultimately show ?thesis by (intro exI [of _ "[]"] exI [of _ "t # l"]) simp
  qed
qed simp

lemma meeting_block:
  assumes "level_sorted n" "\<forall>s\<in>set n. scope_wf s" "scope_wf F" "\<exists>s\<in>set n. scope_meet s F"
  shows "\<exists>pre post. n = pre @ filter (\<lambda>s. scope_meet s F) n @ post \<and> first_meet n F = length pre \<and>
    (\<forall>s\<in>set pre. \<not> scope_meet s F \<and> scope_end s < scope_start F) \<and>
    (\<forall>s\<in>set post. \<not> scope_meet s F \<and> scope_end F < scope_start s)"
proof -
  let ?p = "\<lambda>s. scope_meet s F"
  let ?pre = "takeWhile (\<lambda>s. \<not> ?p s) n"
  obtain s l where sl: "dropWhile (\<lambda>s. \<not> ?p s) n = s # l" "?p s"
    using assms(4) by (metis dropWhile_eq_Nil_conv hd_dropWhile list.exhaust_sel)
  then have n: "n = ?pre @ s # l" by (metis takeWhile_dropWhile_id)
  have sorted: "level_sorted (s # l)" and before: "\<forall>a\<in>set ?pre. scope_end a < scope_start s" and wf: "scope_wf s" "\<forall>t\<in>set l. scope_wf t"
    using assms(1,2) n level_sorted_append [of ?pre "s # l"] by (metis in_set_conv_decomp list.set_intros(1), metis in_set_conv_decomp list.set_intros(1), metis in_set_conv_decomp, metis Un_iff list.set_intros(2) set_append)
  obtain block post where l: "l = block @ post" "\<forall>t\<in>set block. ?p t" "\<forall>t\<in>set post. scope_end F < scope_start t"
    using after_meeting [OF sorted wf assms(3) sl(2)] by blast
  have post: "\<not> ?p t" if "t \<in> set post" for t
    using l that wf(2) assms(3) by (auto simp: scope_meet_iff not_le)
  have pre: "\<not> ?p a \<and> scope_end a < scope_start F" if a: "a \<in> set ?pre" for a
  proof -
    have "\<not> ?p a" "scope_wf a" using a set_takeWhileD [OF a] assms(2) by auto
    moreover have "scope_start a \<le> scope_end F"
    proof -
      have "scope_start a \<le> scope_end a" "scope_end a < scope_start s" using \<open>scope_wf a\<close> before a by (auto simp: scope_wf_def)
      moreover have "scope_start s \<le> scope_end F" using sl(2) wf(1) assms(3) by (simp add: scope_meet_iff)
      ultimately show ?thesis by order
    qed
    ultimately show ?thesis using assms(3) by (simp add: scope_meet_iff not_le)
  qed
  have "filter ?p n = s # block"
    using sl(2) l(2) post pre by (subst n) (auto simp: l(1) filter_empty_conv filter_id_conv)
  then have "n = ?pre @ filter ?p n @ post" using n l(1) by simp
  then show ?thesis using pre post l(3) assms(4) by (intro exI [of _ ?pre] exI [of _ post]) (auto simp: first_meet_def)
qed


section \<open>Data of a level\<close>

definition scope_keys :: "(i64 \<Rightarrow> key_value list option) \<Rightarrow> scope \<Rightarrow> bytes set" where
  "scope_keys content s = fst ` set (scope_data content s)"

lemma level_data_None: "map_of (level_data content l) k = None \<longleftrightarrow> (\<forall>s\<in>set l. k \<notin> scope_keys content s)"
  by (auto simp: map_of_eq_None_iff level_data_def scope_keys_def)

lemma map_of_append: "map_of (xs @ ys) k = (case map_of xs k of Some v \<Rightarrow> Some v | None \<Rightarrow> map_of ys k)"
  by (simp add: map_add_def split: option.split)

lemma scope_live_keys: "scope_live content s \<Longrightarrow> k \<in> scope_keys content s \<Longrightarrow> scope_start s \<le> k \<and> k \<le> scope_end s"
  by (auto simp: scope_live_def covers_def meet_by_key_def scope_keys_def)

text \<open>Where at most one scope has a key, the order of the scopes does not matter.\<close>

lemma level_data_permute:
  assumes "set l = set m" "\<And>a b. a \<in> set l \<Longrightarrow> b \<in> set l \<Longrightarrow> k \<in> scope_keys content a \<Longrightarrow> k \<in> scope_keys content b \<Longrightarrow> scope_data content a = scope_data content b"
  shows "map_of (level_data content l) k = map_of (level_data content m) k"
proof -
  have one: "map_of (level_data content l) k = map_of (scope_data content a) k"
    if "a \<in> set l" "k \<in> scope_keys content a" "\<And>b. b \<in> set l \<Longrightarrow> k \<in> scope_keys content b \<Longrightarrow> scope_data content a = scope_data content b" for l a
    using that
  proof (induction l)
    case (Cons b l)
    show ?case
    proof (cases "k \<in> scope_keys content b")
      case True
      then have "map_of (scope_data content b) k \<noteq> None" by (simp add: scope_keys_def map_of_eq_None_iff)
      then show ?thesis using Cons.prems(3) [of b] True by (auto simp: map_add_def)
    next
      case False
      then have "map_of (scope_data content b) k = None" "a \<in> set l" using Cons.prems(1,2) by (auto simp: scope_keys_def map_of_eq_None_iff)
      then show ?thesis using Cons.IH [OF _ Cons.prems(2)] Cons.prems(3) by (simp add: map_add_def)
    qed
  qed simp
  show ?thesis
  proof (cases "\<exists>a\<in>set l. k \<in> scope_keys content a")
    case True
    then obtain a where a: "a \<in> set l" "k \<in> scope_keys content a" by blast
    have "map_of (level_data content l) k = map_of (scope_data content a) k" by (rule one [OF a]) (use assms(2) a in blast)
    moreover have "map_of (level_data content m) k = map_of (scope_data content a) k"
      by (rule one) (use assms a in blast)+
    ultimately show ?thesis by simp
  next
    case False
    then have "map_of (level_data content l) k = None" "map_of (level_data content m) k = None"
      using assms(1) level_data_None [of content] by auto
    then show ?thesis by simp
  qed
qed

lemma sorted_level_disjoint:
  assumes "level_sorted l" "\<forall>s\<in>set l. scope_live content s" "a \<in> set l" "b \<in> set l" "k \<in> scope_keys content a" "k \<in> scope_keys content b"
  shows "a = b"
proof -
  obtain i j where ij: "i < length l" "a = l ! i" "j < length l" "b = l ! j" using assms(3,4) by (metis in_set_conv_nth)
  have *: "scope_end (l ! i) < scope_start (l ! j)" if "i < j" "j < length l" for i j
    using assms(1) that sorted_wrt_nth_less unfolding level_sorted_def by blast
  have "scope_start a \<le> k" "k \<le> scope_end a" "scope_start b \<le> k" "k \<le> scope_end b" using scope_live_keys assms(2-6) by blast+
  then show ?thesis using ij * [of i j] * [of j i] by (cases i j rule: linorder_cases) auto
qed

lemma level_data_sorted:
  assumes "level_sorted l" "\<forall>s\<in>set l. scope_live content s" "set l = set m"
  shows "map_of (level_data content l) = map_of (level_data content m)"
proof
  fix k
  show "map_of (level_data content l) k = map_of (level_data content m) k"
    by (rule level_data_permute [OF assms(3)]) (use sorted_level_disjoint [OF assms(1,2)] in blast)
qed

text \<open>Taking selected scopes out of the newest-first order: they may be looked at after the others, if no older scope that
  stays shares a key with a newer one that goes.\<close>

lemma selection_order:
  assumes "sorted_wrt (\<lambda>a b. \<not> p a \<and> p b \<longrightarrow> scope_keys content a \<inter> scope_keys content b = {}) l"
  shows "map_of (level_data content (rev l)) k =
    map_of (level_data content (rev (filter (\<lambda>s. \<not> p s) l)) @ level_data content (rev (filter p l))) k"
  using assms
proof (induction l rule: rev_induct)
  case (snoc s l)
  have IH: "map_of (level_data content (rev l)) k =
      map_of (level_data content (rev (filter (\<lambda>s. \<not> p s) l)) @ level_data content (rev (filter p l))) k"
    using snoc by (simp add: sorted_wrt_append)
  show ?case
  proof (cases "p s \<and> k \<in> scope_keys content s")
    case True
    then have "map_of (level_data content (rev (filter (\<lambda>s. \<not> p s) l))) k = None"
      using snoc.prems unfolding level_data_None by (auto simp: sorted_wrt_append)
    then show ?thesis using True IH by (auto simp: map_add_def split: option.splits)
  next
    case False
    then have "map_of (scope_data content s) k = None" if "p s" using that by (simp add: scope_keys_def map_of_eq_None_iff)
    then show ?thesis using IH by (auto simp: map_add_def split: option.splits)
  qed
qed simp


section \<open>Exchanging two levels\<close>

text \<open>The scopes that stay and the new ones: level \<open>l\<close> loses the selected scopes, the next level gets \<open>new\<close> in place of
  those that meet the selection.\<close>

definition replaced :: "scope list \<Rightarrow> scope \<Rightarrow> scope list \<Rightarrow> scope list" where
  "replaced n F new =
     (let i = first_meet n F; keep = filter (\<lambda>s. \<not> scope_meet s F) in keep (take i n) @ new @ keep (drop i n))"

definition well_placed :: "scope list \<Rightarrow> scope \<Rightarrow> bool" where
  "well_placed n F \<longleftrightarrow> (\<exists>s\<in>set n. scope_meet s F) \<or> (\<forall>s\<in>set n. scope_end F < scope_start s)"

lemma replaced_block:
  assumes "level_sorted n" "\<forall>s\<in>set n. scope_wf s" "scope_wf F" "well_placed n F"
  obtains pre post where "n = pre @ filter (\<lambda>s. scope_meet s F) n @ post" "replaced n F new = pre @ new @ post"
    "\<forall>s\<in>set pre. scope_end s < scope_start F" "\<forall>s\<in>set post. scope_end F < scope_start s"
proof (cases "\<exists>s\<in>set n. scope_meet s F")
  case True
  obtain pre post where b: "n = pre @ filter (\<lambda>s. scope_meet s F) n @ post" "first_meet n F = length pre"
      "\<forall>s\<in>set pre. \<not> scope_meet s F \<and> scope_end s < scope_start F" "\<forall>s\<in>set post. \<not> scope_meet s F \<and> scope_end F < scope_start s"
    using meeting_block [OF assms(1-3) True] by blast
  have "take (length pre) n = pre" "drop (length pre) n = filter (\<lambda>s. scope_meet s F) n @ post"
    by (subst b(1), simp)+
  then have "replaced n F new = pre @ new @ post"
    using b(3,4) by (simp add: replaced_def b(2) filter_id_conv)
  then show ?thesis using that [OF b(1)] b(3,4) by blast
next
  case False
  then have "filter (\<lambda>s. scope_meet s F) n = []" "replaced n F new = new @ n"
    by (simp_all add: filter_empty_conv replaced_def first_meet_def filter_id_conv)
  then show ?thesis using that [of "[]" n] False assms(4) by (auto simp: well_placed_def)
qed

text \<open>Newest pairs of the two levels together, before and after.\<close>

lemma exchange_data:
  assumes l: "\<forall>s\<in>set l. scope_live content s" "level = 0 \<or> level_sorted l"
    and n: "level_sorted n" "\<forall>s\<in>set n. scope_live content s"
    and F: "scope_fusion (filter (\<lambda>s. scope_meet s target) l) = Some F" and placed: "well_placed n F"
    and order: "level = 0 \<Longrightarrow> sorted (map scope_gen l) \<and>
      sorted_wrt (\<lambda>a b. \<not> scope_meet a target \<and> scope_meet b target \<longrightarrow> scope_keys content a \<inter> scope_keys content b = {}) l"
    and merged: "map_of data = map_of (level_data content (rev (sort_key scope_gen (filter (\<lambda>s. scope_meet s target) l))) @
      level_data content (rev (filter (\<lambda>s. scope_meet s F) n)))"
    and new: "level_sorted new" "\<forall>s\<in>set new. scope_start s \<in> fst ` set data \<and> scope_end s \<in> fst ` set data"
      "level_data content' new = data" and same: "\<forall>s\<in>set l \<union> set n. scope_data content' s = scope_data content s"
  shows "level_sorted (replaced n F new)"
    and "map_of (level_data content (if level = 0 then rev l else l) @ level_data content n) =
      map_of (level_data content' (let u = filter (\<lambda>s. \<not> scope_meet s target) l in if level = 0 then rev u else u) @
        level_data content' (replaced n F new))"
proof -
  let ?p = "\<lambda>s. scope_meet s target"
  let ?sel = "filter ?p l" and ?ll = "filter (\<lambda>s. scope_meet s F) n"
  have wf: "\<forall>s\<in>set l. scope_wf s" "\<forall>s\<in>set n. scope_wf s" using l(1) n(2) by (auto simp: scope_live_def)
  have "scope_wf F" using scope_fusion_wf [OF F] wf(1) by simp
  then obtain pre post where b: "n = pre @ ?ll @ post" "replaced n F new = pre @ new @ post"
      "\<forall>s\<in>set pre. scope_end s < scope_start F" "\<forall>s\<in>set post. scope_end F < scope_start s"
    using replaced_block [OF n(1) wf(2) _ placed] by metis
  have sub: "set pre \<subseteq> set n" "set post \<subseteq> set n" by (subst b(1), auto)+
  have split: "level_sorted (pre @ ?ll @ post)" using n(1) b(1) by simp
  have range: "(\<exists>s\<in>set ?sel. k \<in> scope_keys content s) \<or> (\<exists>s\<in>set ?ll. k \<in> scope_keys content s)" if "k \<in> fst ` set data" for k
  proof -
    have "map_of data k \<noteq> None" using that by (simp add: map_of_eq_None_iff)
    then have "map_of (level_data content (rev (sort_key scope_gen ?sel))) k \<noteq> None \<or> map_of (level_data content (rev ?ll)) k \<noteq> None"
      unfolding merged map_of_append by (auto split: option.splits)
    then show ?thesis unfolding level_data_None by auto
  qed
  have inF: "scope_start F \<le> k \<and> k \<le> scope_end F" if "s \<in> set ?sel" "k \<in> scope_keys content s" for s k
    using scope_fusion_bounds [OF F that(1)] scope_live_keys [of content s k] l(1) that by (auto intro: order.trans)
  have above_pre: "scope_end a < k" if "a \<in> set pre" "k \<in> fst ` set data" for a k
    using range [OF that(2)]
  proof
    assume "\<exists>s\<in>set ?sel. k \<in> scope_keys content s"
    then show ?thesis using inF b(3) that(1) by (meson order.strict_trans2)
  next
    assume "\<exists>s\<in>set ?ll. k \<in> scope_keys content s"
    then obtain s where s: "s \<in> set ?ll" "k \<in> scope_keys content s" by blast
    then have "scope_end a < scope_start s" using split that(1) by (auto simp: level_sorted_append)
    then show ?thesis using scope_live_keys [of content s k] n(2) s by (auto intro: order.strict_trans2)
  qed
  have below_post: "k < scope_start a" if "a \<in> set post" "k \<in> fst ` set data" for a k
    using range [OF that(2)]
  proof
    assume "\<exists>s\<in>set ?sel. k \<in> scope_keys content s"
    then show ?thesis using inF b(4) that(1) by (meson order.strict_trans1)
  next
    assume "\<exists>s\<in>set ?ll. k \<in> scope_keys content s"
    then obtain s where s: "s \<in> set ?ll" "k \<in> scope_keys content s" by blast
    then have "scope_end s < scope_start a" using split that(1) by (auto simp: level_sorted_append)
    then show ?thesis using scope_live_keys [of content s k] n(2) s by (auto intro: order.strict_trans1)
  qed
  show "level_sorted (replaced n F new)"
    unfolding b(2) using split new(1,2) above_pre below_post by (auto simp: level_sorted_append)
  show "map_of (level_data content (if level = 0 then rev l else l) @ level_data content n) =
      map_of (level_data content' (let u = filter (\<lambda>s. \<not> scope_meet s target) l in if level = 0 then rev u else u) @
        level_data content' (replaced n F new))"
  proof
    fix k
    have order': "sorted_wrt (\<lambda>a b. \<not> ?p a \<and> ?p b \<longrightarrow> scope_keys content a \<inter> scope_keys content b = {}) l"
    proof (cases "level = 0")
      case False
      have "scope_keys content a \<inter> scope_keys content b = {}" if "a \<in> set l" "b \<in> set l" "scope_end a < scope_start b" for a b
        using scope_live_keys [of content a] scope_live_keys [of content b] l(1) that by force
      then show ?thesis using False l(2) unfolding level_sorted_def by (auto elim!: sorted_wrt_mono_rel [rotated])
    qed (use order in blast)
    have sorted_sel: "map_of (level_data content (rev (sort_key scope_gen ?sel))) = map_of (level_data content (rev ?sel))"
    proof (cases "level = 0")
      case True
      then have "sorted (map scope_gen ?sel)" using order by (simp add: sorted_filter)
      then show ?thesis by (simp add: sort_key_id_if_sorted)
    next
      case False
      then have s: "level_sorted ?sel" "\<forall>s\<in>set ?sel. scope_live content s" using l by (auto intro: level_sorted_filter)
      show ?thesis using level_data_sorted [OF s, of "rev ?sel"] level_data_sorted [OF s, of "rev (sort_key scope_gen ?sel)"] by simp
    qed
    have level: "map_of (level_data content (if level = 0 then rev m else m)) k = map_of (level_data content (rev m)) k"
      if "set m \<subseteq> set l" "level = 0 \<or> level_sorted m" for m
    proof (cases "level = 0")
      case False
      then have "level_sorted m" "\<forall>s\<in>set m. scope_live content s" using that l(1) by blast+
      from level_data_sorted [OF this, of "rev m"] show ?thesis using False by simp
    qed simp
    let ?u = "filter (\<lambda>s. \<not> ?p s) l"
    have same_u: "level_data content' m = level_data content m" if "set m \<subseteq> set l \<union> set n" for m
    proof -
      have "scope_data content' s = scope_data content s" if "s \<in> set m" for s using same \<open>set m \<subseteq> _\<close> that by blast
      then show ?thesis by (simp add: level_data_def cong: map_cong)
    qed
    have ll: "map_of (level_data content (rev ?ll)) = map_of (level_data content ?ll)"
      using level_data_sorted [OF level_sorted_filter [OF n(1)], of _ content "rev ?ll"] n(2) by simp
    have D: "map_of data k = (case map_of (level_data content (rev ?sel)) k of Some v \<Rightarrow> Some v | None \<Rightarrow> map_of (level_data content ?ll) k)"
      unfolding merged map_of_append sorted_sel ll ..
    have N: "map_of (level_data content n) k =
        (case map_of (level_data content ?ll) k of Some v \<Rightarrow> Some v | None \<Rightarrow> map_of (level_data content (pre @ post)) k)"
    proof (cases "map_of (level_data content ?ll) k")
      case (Some v)
      then obtain s where s: "s \<in> set ?ll" "k \<in> scope_keys content s" using level_data_None [of content ?ll k] by auto
      have "k \<notin> scope_keys content a" if "a \<in> set pre" for a
      proof
        assume "k \<in> scope_keys content a"
        moreover have "scope_live content a" "scope_live content s" using n(2) s(1) that sub(1) by auto
        ultimately have "k \<le> scope_end a" "scope_start s \<le> k" using scope_live_keys s(2) by blast+
        moreover have "scope_end a < scope_start s" using split that s(1) by (simp add: level_sorted_append)
        ultimately show False by order
      qed
      then have "map_of (level_data content pre) k = None" by (simp add: level_data_None)
      then show ?thesis using Some arg_cong [OF b(1), of "\<lambda>n. map_of (level_data content n) k"] by (simp add: map_add_def)
    next
      case None
      then show ?thesis using arg_cong [OF b(1), of "\<lambda>n. map_of (level_data content n) k"] by (simp add: map_add_def split: option.splits)
    qed
    have R: "map_of (level_data content' (pre @ new @ post)) k =
        (case map_of data k of Some v \<Rightarrow> Some v | None \<Rightarrow> map_of (level_data content (pre @ post)) k)"
    proof -
      have "map_of (level_data content pre) k = None" if "map_of data k \<noteq> None"
      proof -
        have "k \<in> fst ` set data" using that by (simp add: map_of_eq_None_iff)
        then show ?thesis using above_pre scope_live_keys n(2) sub(1) unfolding level_data_None by (meson leD subsetD)
      qed
      moreover have "level_data content' pre = level_data content pre" "level_data content' post = level_data content post"
        using same_u sub by blast+
      ultimately show ?thesis using new(3) by (auto simp: map_add_def split: option.splits)
    qed
    have A: "map_of (level_data content (if level = 0 then rev l else l)) k =
        (case map_of (level_data content (rev ?u)) k of Some v \<Rightarrow> Some v | None \<Rightarrow> map_of (level_data content (rev ?sel)) k)"
      using level [of l] l(2) selection_order [OF order', of k] by (simp add: map_add_def)
    have U: "map_of (level_data content' (let u = ?u in if level = 0 then rev u else u)) k = map_of (level_data content (rev ?u)) k"
    proof -
      have "set (if level = 0 then rev ?u else ?u) \<subseteq> set l \<union> set n" by auto
      moreover have "level = 0 \<or> level_sorted ?u" using l(2) level_sorted_filter by blast
      ultimately show ?thesis using level [of ?u] same_u unfolding Let_def by (metis filter_is_subset)
    qed
    show "map_of (level_data content (if level = 0 then rev l else l) @ level_data content n) k =
      map_of (level_data content' (let u = ?u in if level = 0 then rev u else u) @ level_data content' (replaced n F new)) k"
      unfolding map_of_append A N U b(2) R D by (auto split: option.splits)
  qed
qed

section \<open>Creating the tables of a round\<close>

lemma btree_get_open: "g \<noteq> gen \<Longrightarrow> btree_get (snd (open_or_create d gen)) g = btree_get d g"
  by (simp add: open_or_create_def btree_get_def split: option.split)

lemma loader_get_files:
  assumes "loader_get c L gen = Some (Ok (t, L'))" "g \<noteq> gen"
  shows "btree_get (tl_files L') g = btree_get (tl_files L) g"
proof -
  have load: "btree_get (tl_files L1) g = btree_get (tl_files L) g" if "load_table c L gen = Some (r, L1)" for r L1
    using that btree_get_open [OF assms(2), of "tl_files L"]
    by (auto simp: load_table_def factory_reader_def Let_def split: prod.splits outcome.splits option.splits)
  show ?thesis
    using assms(1) load by (auto simp: loader_get_def split: if_splits option.splits outcome.splits prod.splits)
qed

lemma loader_create_files:
  assumes "loader_create c hs L cs seeds gen kvs level ty = Ok (r, L', cs')" "g \<noteq> gen"
  shows "btree_get (tl_files L') g = btree_get (tl_files L) g"
  using assms btree_get_open [OF assms(2), of "tl_files L"]
  by (auto simp: loader_create_def create_ss_table_def factory_writer_def and_then_Ok_iff map_outcome_ok_Ok_iff Let_def btree_get_def
      split: prod.splits table_type.splits)

lemma scopes_loop_files:
  "scopes_loop c xs L = Some (Ok (r, L')) \<Longrightarrow> g \<notin> (scope_gen \<circ> snd) ` set xs \<Longrightarrow> btree_get (tl_files L') g = btree_get (tl_files L) g"
proof (induction xs arbitrary: L r)
  case (Cons x xs)
  obtain t L1 ts where "loader_get c L (scope_gen (snd x)) = Some (Ok (t, L1))" "scopes_loop c xs L1 = Some (Ok (ts, L'))"
    using Cons.prems(1) by (cases x) (auto elim!: bind_oo_OkE)
  then show ?case using Cons.IH [of L1 ts] loader_get_files [of c L _ t L1 g] Cons.prems(2) by auto
qed simp

lemma tables_by_scopes_files:
  assumes "tables_by_scopes c V L level target = Some (Ok (r, L'))" "\<forall>s\<in>set (level_slice V ! level). scope_gen s \<noteq> g" "level < length (level_slice V)"
  shows "btree_get (tl_files L') g = btree_get (tl_files L) g"
  using assms unfolding tables_by_scopes_def
  by (auto simp: index_slice_def Let_def in_set_enumerate_eq elim!: bind_oo_OkE scopes_loop_files)

definition loader_fresh :: "(i64 \<Rightarrow> ss_table option) \<Rightarrow> (i64 \<Rightarrow> key_value list option) \<Rightarrow> table_loader \<Rightarrow> i64 \<Rightarrow> bool" where
  "loader_fresh tbls content L g \<longleftrightarrow> (\<forall>gen\<ge>g. tbls gen = None \<and> content gen = None \<and> btree_get (tl_files L) gen = None)"

text \<open>Room for \<open>k\<close> more tables in the statistics of a version.\<close>

definition table_room :: "version \<Rightarrow> nat \<Rightarrow> bool" where
  "table_room V k \<longleftrightarrow> vm_size_of_disk (meta_data V) + k * 2 ^ 32 \<le> u64_MAX \<and> vm_len (meta_data V) + k * 2 ^ 32 \<le> usize_MAX"

lemma small_meta_sums:
  assumes "\<forall>m\<in>set ms. small_meta m"
  shows "sum_list (map meta_size_of_disk ms) \<le> length ms * 2 ^ 32" "sum_list (map meta_len ms) \<le> length ms * 2 ^ 32"
  using assms by (induction ms) (auto simp: small_meta_def)

lemma added_map_Add [simp]: "added f (map (Add \<circ> snd) pms) = sum_list (map (f \<circ> snd) pms)" "deleted f (map (Add \<circ> snd) pms) = 0"
  by (induction pms) simp_all

lemma room_for_tables:
  assumes "table_room V (length pms + length metas)" "\<forall>m\<in>snd ` set pms. small_meta m" "\<forall>m\<in>set metas. small_meta m"
  shows "room_for (meta_data V) (map (Add \<circ> snd) pms @ [Add (meta_fusion metas)])"
  using assms(1) small_meta_sums [of "map snd pms"] small_meta_sums [OF assms(3)] assms(2)
  by (simp add: room_for_def table_room_def meta_fusion_sum algebra_simps)

lemma create_tables_holds:
  assumes c: "int_encoding c" "lz4_codec c"
    and "loader_inv c hs tbls content L" "\<forall>(gen, kvs)\<in>set shards. table_storable c hs (tl_config L) kvs"
    and "\<forall>gen\<in>fst ` set shards. tbls gen = None \<and> btree_get (tl_files L) gen = None" "distinct (map fst shards)" "counters_ok cs"
  shows "\<exists>scopes metas L' tbls'. create_tables c hs seeds level SortedString shards L cs =
      Ok (zip scopes metas, L', cs @ replicate (length shards) 0) \<and> length metas = length scopes \<and>
    loader_inv c hs tbls' (content ++ map_of shards) L' \<and> (\<forall>g. g \<notin> fst ` set shards \<longrightarrow> tbls' g = tbls g) \<and>
    tl_config L' = tl_config L \<and> tl_wal L' = tl_wal L \<and> (\<forall>g. g \<notin> fst ` set shards \<longrightarrow> btree_get (tl_files L') g = btree_get (tl_files L) g) \<and>
    map meta_len metas = map (length \<circ> snd) shards \<and> (\<forall>m\<in>set metas. small_meta m) \<and>
    list_all2 (\<lambda>s (gen, kvs). scope_gen s = gen \<and> scope_wf s \<and> covers s kvs \<and> scope_start s = fst (hd kvs) \<and>
      scope_end s = fst (last kvs) \<and> seeks_ok (cs @ replicate (length shards) 0) s) scopes shards"
  using assms(3-)
proof (induction shards arbitrary: L cs tbls content)
  case Nil
  then show ?case by (intro exI [of _ "[]"]) auto
next
  case (Cons sh shards)
  obtain gen kvs where sh: "sh = (gen, kvs)" by (cases sh)
  have ok: "table_storable c hs (tl_config L) kvs" and fresh: "tbls gen = None" "btree_get (tl_files L) gen = None"
    using Cons.prems(2,3) sh by auto
  have kvs: "keys_ascending kvs" "kvs \<noteq> []" using ok by (auto simp: table_storable_def table_input_ok_def)
  obtain scope meta L1 cs1 t where t: "loader_create c hs L cs (seeds gen) gen kvs level SortedString = Ok ((scope, meta), L1, cs1)"
      "from_sorted_vec_data cs gen kvs = Ok (scope, cs1)" "meta_len meta = length kvs"
      "loader_inv c hs (tbls(gen \<mapsto> t)) (content(gen \<mapsto> kvs)) L1" "tl_config L1 = tl_config L" "tl_wal L1 = tl_wal L"
    using loader_create_holds [OF c Cons.prems(1) ok fresh, of cs "seeds gen" level] by metis
  have small: "small_meta meta" unfolding small_meta_def using loader_create_small [OF c Cons.prems(1) ok fresh t(1)] by simp
  have s: "cs1 = cs @ [0]" "scope_gen scope = gen" "scope_wf scope" "allowed_seeks scope = Some (length cs)" "covers scope kvs"
      "scope_start scope = fst (hd kvs)" "scope_end scope = fst (last kvs)"
    using from_sorted_vec_data_covers [OF kvs, of cs gen] t(2) by auto
  have files: "btree_get (tl_files L1) g = btree_get (tl_files L) g" if "g \<noteq> gen" for g
    using loader_create_files [OF t(1) that] .
  have new: "gen \<notin> fst ` set shards" "distinct (map fst shards)" using Cons.prems(4) sh by simp_all
  have ih1: "counters_ok (cs @ [0])" using Cons.prems(5) by (simp add: counters_ok_def)
  have ih2: "\<forall>g\<in>fst ` set shards. (tbls(gen \<mapsto> t)) g = None \<and> btree_get (tl_files L1) g = None"
    using Cons.prems(3) new(1) files by auto
  have ih3: "\<forall>(gen, kvs)\<in>set shards. table_storable c hs (tl_config L1) kvs" using Cons.prems(2) t(5) by auto
  obtain scopes metas L2 tbls2 where IH: "create_tables c hs seeds level SortedString shards L1 (cs @ [0]) =
        Ok (zip scopes metas, L2, (cs @ [0]) @ replicate (length shards) 0)" "length metas = length scopes"
      "loader_inv c hs tbls2 (content(gen \<mapsto> kvs) ++ map_of shards) L2" "\<forall>g. g \<notin> fst ` set shards \<longrightarrow> tbls2 g = (tbls(gen \<mapsto> t)) g"
      "tl_config L2 = tl_config L1" "tl_wal L2 = tl_wal L1" "\<forall>g. g \<notin> fst ` set shards \<longrightarrow> btree_get (tl_files L2) g = btree_get (tl_files L1) g"
      "map meta_len metas = map (length \<circ> snd) shards" "\<forall>m\<in>set metas. small_meta m"
      "list_all2 (\<lambda>s (gen, kvs). scope_gen s = gen \<and> scope_wf s \<and> covers s kvs \<and> scope_start s = fst (hd kvs) \<and>
        scope_end s = fst (last kvs) \<and> seeks_ok ((cs @ [0]) @ replicate (length shards) 0) s) scopes shards"
    using Cons.IH [OF t(4) ih3 ih2 new(2) ih1] by blast
  have cont: "content(gen \<mapsto> kvs) ++ map_of shards = content ++ map_of (sh # shards)"
  proof -
    have "map_of shards gen = None" using new(1) by (simp add: map_of_eq_None_iff)
    then show ?thesis using sh by (auto simp: fun_eq_iff map_add_def split: option.splits)
  qed
  define C where "C = content ++ map_of (sh # shards)"
  have inv2: "loader_inv c hs tbls2 C L2" using IH(3) unfolding cont C_def .
  have seeks: "seeks_ok (cs @ 0 # replicate (length shards) 0) scope" using s(4) by (simp add: seeks_ok_def)
  show ?case unfolding C_def [symmetric]
    using IH(1,2,4-) inv2 t s sh seeks files small
    by (intro exI [of _ "scope # scopes"] exI [of _ "meta # metas"] exI [of _ L2] exI [of _ tbls2]) simp
qed

section \<open>The edits of a round\<close>

definition pending_edits :: "(scope \<times> table_meta) list \<Rightarrow> version_edit list" where
  "pending_edits pms = map (\<lambda>(s, m). NewFile [s] 0 0 m) pms"

lemma apply_pending_edits:
  assumes "0 < length ls"
  shows "apply_loop (pending_edits pms) (ls, del, stats) = Ok (ls[0 := ls ! 0 @ map fst pms], del, stats @ map (Add \<circ> snd) pms)"
  using assms
proof (induction pms arbitrary: ls stats)
  case (Cons x pms)
  obtain s m where x: "x = (s, m)" by (cases x)
  show ?case
    using Cons.IH [of "ls[0 := ls ! 0 @ [s]]" "stats @ [Add m]"] Cons.prems
    by (simp add: pending_edits_def x LEVEL_0_def push_scopes_eq)
qed (simp add: pending_edits_def)

text \<open>The levels after a round: selected scopes out, new ones in, pending ones at the end of level 0.\<close>

definition round_levels ::
  "scope list list \<Rightarrow> nat \<Rightarrow> (scope \<Rightarrow> bool) \<Rightarrow> scope list \<Rightarrow> scope list \<Rightarrow> scope list list" where
  "round_levels ls level p next pend =
     (let ls1 = ls[level := filter (\<lambda>s. \<not> p s) (ls ! level), Suc level := next] in ls1[0 := ls1 ! 0 @ pend])"

lemma apply_round_edits:
  assumes len: "length (level_slice V) = MAX_LEVEL" and level: "Suc level < MAX_LEVEL"
    and gl: "\<forall>s\<in>set (level_slice V ! level). scope_gen s \<in> set gl \<longleftrightarrow> p s" "\<forall>s\<in>fst ` set pms. scope_gen s \<notin> set gl"
    and gll: "\<forall>s\<in>set (level_slice V ! Suc level). scope_gen s \<in> set gll \<longleftrightarrow> q s" "\<forall>s\<in>set new. scope_gen s \<notin> set gll"
    and new: "sorted (map scope_gen new)" and index: "index \<le> length (level_slice V ! Suc level)"
    and stats: "meta_len ml + meta_len mll \<le> vm_len (meta_data V)"
      "meta_size_of_disk ml + meta_size_of_disk mll \<le> vm_size_of_disk (meta_data V)"
    and room: "room_for (meta_data V) (map (Add \<circ> snd) pms @ [Add m])"
  shows "\<exists>V'. version_apply V (pending_edits pms @
      [NewFile new (Suc level) index m, DeleteFile gl level ml, DeleteFile gll (Suc level) mll]) =
      Ok (V', Tag_Add (version_num V + 1) (gl @ gll)) \<and>
    level_slice V' = round_levels (level_slice V) level p
      (let n = level_slice V ! Suc level; keep = filter (\<lambda>s. \<not> q s) in keep (take index n) @ new @ keep (drop index n)) (map fst pms)"
proof -
  let ?ls = "level_slice V" and ?n = "level_slice V ! Suc level"
  let ?la = "?ls[0 := ?ls ! 0 @ map fst pms]"
  have lens: "0 < length ?ls" "level < length ?ls" "Suc level < length ?ls" using len level by (simp_all add: MAX_LEVEL_def)
  have n0: "?la ! Suc level = ?n" by simp
  have l0: "?la ! level = ?ls ! level @ (if level = 0 then map fst pms else [])" by (cases level) (simp_all add: nth_list_update_eq [OF lens(1)])
  let ?ls1 = "?la[Suc level := take index ?n @ new @ drop index ?n]"
  have e1: "apply_edit (NewFile new (Suc level) index m) (?la, d, st) = Ok (?ls1, d, st @ [Add m])" for d st
    using apply_new_file [of "Suc level" ?la index new m d st] lens index new by (simp add: LEVEL_0_def sort_key_id_if_sorted Let_def)
  have fl: "filter (\<lambda>s. scope_gen s \<notin> set gl) (?la ! level) = filter (\<lambda>s. \<not> p s) (?ls ! level) @ (if level = 0 then map fst pms else [])"
  proof -
    have "filter (\<lambda>s. scope_gen s \<notin> set gl) (map fst pms) = map fst pms" using gl(2) by (auto simp: filter_id_conv)
    then show ?thesis using gl(1) unfolding l0 by (auto cong: filter_cong)
  qed
  let ?ls2 = "?ls1[level := filter (\<lambda>s. scope_gen s \<notin> set gl) (?la ! level)]"
  have e2: "apply_edit (DeleteFile gl level ml) (?ls1, d, st) = Ok (?ls2, d @ gl, st @ [Del ml])" for d st
    using lens by (simp add: index_slice_def)
  have fn: "filter (\<lambda>s. scope_gen s \<notin> set gll) (take index ?n @ new @ drop index ?n) =
      filter (\<lambda>s. \<not> q s) (take index ?n) @ new @ filter (\<lambda>s. \<not> q s) (drop index ?n)"
  proof -
    have "filter (\<lambda>s. scope_gen s \<notin> set gll) new = new" using gll(2) by (auto simp: filter_id_conv)
    moreover have "filter (\<lambda>s. scope_gen s \<notin> set gll) xs = filter (\<lambda>s. \<not> q s) xs" if "set xs \<subseteq> set ?n" for xs
      using gll(1) that by (auto intro!: filter_cong)
    ultimately show ?thesis using set_take_subset [of index ?n] set_drop_subset [of index ?n] by simp
  qed
  let ?ls3 = "?ls2[Suc level := filter (\<lambda>s. scope_gen s \<notin> set gll) (take index ?n @ new @ drop index ?n)]"
  have e3: "apply_edit (DeleteFile gll (Suc level) mll) (?ls2, d, st) = Ok (?ls3, d @ gll, st @ [Del mll])" for d st
    using lens by (simp add: index_slice_def)
  have "?ls3 = round_levels ?ls level p
      (let keep = filter (\<lambda>s. \<not> q s) in keep (take index ?n) @ new @ keep (drop index ?n)) (map fst pms)"
    unfolding fn fl round_levels_def Let_def using lens
    by (cases "level = 0") (simp_all add: list_update_swap nth_list_update)
  moreover have "apply_loop (pending_edits pms @ [NewFile new (Suc level) index m, DeleteFile gl level ml, DeleteFile gll (Suc level) mll]) (?ls, [], []) =
      Ok (?ls3, gl @ gll, map (Add \<circ> snd) pms @ [Add m, Del ml, Del mll])"
    unfolding apply_loop_append apply_pending_edits [OF lens(1)] by (simp add: e1 e2 e3 del: apply_edit.simps)
  moreover have "\<exists>m'. statistical_process (meta_data V) (map (Add \<circ> snd) pms @ [Add m, Del ml, Del mll]) = Ok m'"
    using stats room by (subst statistical_process_room) (simp_all add: room_for_def)
  ultimately show ?thesis by (auto simp: version_apply_def Let_def)
qed

lemma version_data_levels:
  assumes "level_slice V = [l0, l1, l2, l3]"
  shows "version_data content V = level_data content (rev l0) @ level_data content l1 @ level_data content l2 @ level_data content l3"
  using assms by (simp add: version_data_def MAX_LEVEL_def upt_rec)

lemma version_ok_levels:
  assumes "level_slice V = [l0, l1, l2, l3]"
  shows "version_ok content cs V \<longleftrightarrow>
    (\<forall>s\<in>set l0 \<union> set l1 \<union> set l2 \<union> set l3. scope_live content s \<and> seeks_ok cs s) \<and> level_sorted l1 \<and> level_sorted l2 \<and> level_sorted l3"
proof -
  have "(\<forall>i. 0 < i \<and> i < 4 \<longrightarrow> P i) \<longleftrightarrow> P 1 \<and> P 2 \<and> P (3 :: nat)" for P
  proof -
    have "i = 1 \<or> i = 2 \<or> i = 3" if "0 < i" "i < 4" for i :: nat using that by linarith
    then show ?thesis by auto
  qed
  then show ?thesis unfolding version_ok_def assms MAX_LEVEL_def by auto
qed

lemma map_of_append_cong:
  "map_of xs = map_of xs' \<Longrightarrow> map_of ys = map_of ys' \<Longrightarrow> map_of (xs @ ys) = map_of (xs' @ ys')"
  by simp

lemma round_levels_ok:
  assumes V: "version_ok content cs V" and level: "Suc level < MAX_LEVEL"
    and F: "scope_fusion (filter (\<lambda>s. scope_meet s target) (level_slice V ! level)) = Some F"
    and placed: "well_placed (level_slice V ! Suc level) F"
    and order: "level = 0 \<Longrightarrow> sorted (map scope_gen (level_slice V ! 0)) \<and>
      sorted_wrt (\<lambda>a b. \<not> scope_meet a target \<and> scope_meet b target \<longrightarrow> scope_keys content a \<inter> scope_keys content b = {}) (level_slice V ! 0)"
    and data: "map_of data = map_of (level_data content (rev (sort_key scope_gen (filter (\<lambda>s. scope_meet s target) (level_slice V ! level)))) @
      level_data content (rev (filter (\<lambda>s. scope_meet s F) (level_slice V ! Suc level))))"
    and new: "level_sorted new" "\<forall>s\<in>set new. scope_start s \<in> fst ` set data \<and> scope_end s \<in> fst ` set data"
      "level_data content' new = data" "\<forall>s\<in>set new. scope_live content' s \<and> seeks_ok cs' s"
    and pend: "\<forall>s\<in>set pend. scope_live content' s \<and> seeks_ok cs' s"
    and mono: "content \<subseteq>\<^sub>m content'" "length cs \<le> length cs'"
    and V': "level_slice V' = round_levels (level_slice V) level (\<lambda>s. scope_meet s target) (replaced (level_slice V ! Suc level) F new) pend"
  shows "version_ok content' cs' V'" "map_of (version_data content' V') = map_of (level_data content' (rev pend) @ version_data content V)"
proof -
  obtain l0 l1 l2 l3 where ls: "level_slice V = [l0, l1, l2, l3]"
    using V by (auto simp: version_ok_def MAX_LEVEL_def numeral_eq_Suc length_Suc_conv)
  have lv: "level = 0 \<or> level = 1 \<or> level = 2" using level by (auto simp: MAX_LEVEL_def)
  have live: "scope_live content s \<and> seeks_ok cs s" if "s \<in> set l0 \<union> set l1 \<union> set l2 \<union> set l3" for s
    using V that unfolding version_ok_levels [OF ls] by blast
  have sorted: "level_sorted l1" "level_sorted l2" "level_sorted l3"
    using V unfolding version_ok_levels [OF ls] by blast+
  have same: "scope_data content' s = scope_data content s" "scope_live content' s" "seeks_ok cs' s"
    if s: "s \<in> set l0 \<union> set l1 \<union> set l2 \<union> set l3" for s
  proof -
    have c: "content (scope_gen s) = Some (scope_data content s)" using live [OF s] by (simp add: scope_live_def)
    then have "scope_gen s \<in> dom content" by (simp add: domIff)
    then have "content' (scope_gen s) = content (scope_gen s)" using mono(1) unfolding map_le_def by simp
    then have c': "content' (scope_gen s) = Some (scope_data content s)" using c by simp
    then show d: "scope_data content' s = scope_data content s" by (simp add: scope_data_def)
    show "scope_live content' s" using live [OF s] c' by (simp add: scope_live_def d)
    show "seeks_ok cs' s" using live [OF s] mono(2) by (auto simp: seeks_ok_def split: option.splits)
  qed
  have same_level: "level_data content' l = level_data content l" if "set l \<subseteq> set l0 \<union> set l1 \<union> set l2 \<union> set l3" for l
  proof -
    have "scope_data content' s = scope_data content s" if "s \<in> set l" for s using same(1) \<open>set l \<subseteq> _\<close> that by blast
    then show ?thesis by (simp add: level_data_def cong: map_cong)
  qed
  let ?l = "level_slice V ! level" and ?n = "level_slice V ! Suc level"
  have sub: "set ?l \<subseteq> set l0 \<union> set l1 \<union> set l2 \<union> set l3" "set ?n \<subseteq> set l0 \<union> set l1 \<union> set l2 \<union> set l3" and sl: "level = 0 \<or> level_sorted ?l" and sn: "level_sorted ?n"
    using lv sorted by (auto simp: ls)
  have l_live: "\<forall>s\<in>set ?l. scope_live content s" and n_live: "\<forall>s\<in>set ?n. scope_live content s" and same_ln: "\<forall>s\<in>set ?l \<union> set ?n. scope_data content' s = scope_data content s"
    using live same(1) sub by blast+
  have order': "level = 0 \<Longrightarrow> sorted (map scope_gen ?l) \<and>
      sorted_wrt (\<lambda>a b. \<not> scope_meet a target \<and> scope_meet b target \<longrightarrow> scope_keys content a \<inter> scope_keys content b = {}) ?l"
    using order by simp
  note ex = exchange_data [OF l_live sl sn n_live F placed order' data new(1-3) same_ln]
  let ?u = "filter (\<lambda>s. \<not> scope_meet s target) ?l" and ?r = "replaced ?n F new"
  have r_live: "\<forall>s\<in>set ?r. scope_live content' s \<and> seeks_ok cs' s"
    using new(4) same(2,3) sub(2) set_take_subset [of _ ?n] set_drop_subset [of _ ?n]
    by (fastforce simp: replaced_def Let_def)
  have u_live: "\<forall>s\<in>set ?u. scope_live content' s \<and> seeks_ok cs' s" using same(2,3) sub(1) by auto
  have u_sorted: "level = 0 \<or> level_sorted ?u" using sl level_sorted_filter by blast
  consider (0) "level = 0" | (1) "level = 1" | (2) "level = 2" using lv by blast
  then show "version_ok content' cs' V'"
  proof cases
    case 0
    then have V'': "level_slice V' = [?u @ pend, ?r, l2, l3]" using V' by (simp add: round_levels_def ls)
    show ?thesis unfolding version_ok_levels [OF V''] using u_live r_live pend same(2,3) ex(1) sorted by auto
  next
    case 1
    then have V'': "level_slice V' = [l0 @ pend, ?u, ?r, l3]" using V' by (simp add: round_levels_def ls)
    show ?thesis unfolding version_ok_levels [OF V''] using u_live r_live pend same(2,3) ex(1) sorted u_sorted 1 by auto
  next
    case 2
    then have V'': "level_slice V' = [l0 @ pend, l1, ?u, ?r]" using V' by (simp add: round_levels_def ls)
    show ?thesis unfolding version_ok_levels [OF V''] using u_live r_live pend same(2,3) ex(1) sorted u_sorted 2 by auto
  qed
  have keep: "level_data content' l0 = level_data content l0" "level_data content' (rev l0) = level_data content (rev l0)"
      "level_data content' l1 = level_data content l1" "level_data content' l2 = level_data content l2" "level_data content' l3 = level_data content l3"
    by (rule same_level; auto)+
  consider (0) "level = 0" | (1) "level = 1" | (2) "level = 2" using lv by blast
  then show "map_of (version_data content' V') = map_of (level_data content' (rev pend) @ version_data content V)"
  proof cases
    case 0
    then have V'': "level_slice V' = [?u @ pend, ?r, l2, l3]" using V' by (simp add: round_levels_def ls)
    have "map_of (level_data content' (rev ?u) @ level_data content' ?r) = map_of (level_data content (rev l0) @ level_data content l1)"
      using ex(2) 0 by (simp add: ls)
    then show ?thesis unfolding version_data_levels [OF V''] version_data_levels [OF ls] by (simp add: keep) (metis map_add_assoc)
  next
    case 1
    then have V'': "level_slice V' = [l0 @ pend, ?u, ?r, l3]" using V' by (simp add: round_levels_def ls)
    have "map_of (level_data content' ?u @ level_data content' ?r) = map_of (level_data content l1 @ level_data content l2)"
      using ex(2) 1 by (simp add: ls numeral_eq_Suc)
    then show ?thesis unfolding version_data_levels [OF V''] version_data_levels [OF ls] by (simp add: keep) (metis map_add_assoc)
  next
    case 2
    then have V'': "level_slice V' = [l0 @ pend, l1, ?u, ?r]" using V' by (simp add: round_levels_def ls)
    have "map_of (level_data content' ?u @ level_data content' ?r) = map_of (level_data content l2 @ level_data content l3)"
      using ex(2) 2 by (simp add: ls numeral_eq_Suc)
    then show ?thesis unfolding version_data_levels [OF V''] version_data_levels [OF ls] by (simp add: keep)
  qed
qed

section \<open>A round of compaction\<close>

definition store_ok ::
  "crates \<Rightarrow> hashing \<Rightarrow> (i64 \<Rightarrow> ss_table option) \<Rightarrow> (i64 \<Rightarrow> key_value list option) \<Rightarrow> store_state \<Rightarrow> bool" where
  "store_ok c hs tbls content st \<longleftrightarrow>
     loader_inv c hs tbls content (vs_loader (ss_status st)) \<and> status_ok (ss_status st) \<and> counters_ok (ss_counters st) \<and>
     version_ok content (ss_counters st) (vs_version (ss_status st)) \<and>
     (\<forall>l\<in>set (level_slice (vs_version (ss_status st))). distinct (map scope_gen l)) \<and>
     loader_fresh tbls content (vs_loader (ss_status st)) (ss_gen_buf st) \<and> 0 \<le> ss_gen_buf st"

lemma store_okD:
  assumes "store_ok c hs tbls content st"
  shows "loader_inv c hs tbls content (vs_loader (ss_status st))" "status_ok (ss_status st)" "counters_ok (ss_counters st)"
    "version_ok content (ss_counters st) (vs_version (ss_status st))"
    "\<forall>l\<in>set (level_slice (vs_version (ss_status st))). distinct (map scope_gen l)"
    "loader_fresh tbls content (vs_loader (ss_status st)) (ss_gen_buf st)" "0 \<le> ss_gen_buf st"
  using assms by (simp_all add: store_ok_def)

text \<open>The pairs a round writes to the next level.\<close>

definition selected :: "version \<Rightarrow> nat \<Rightarrow> scope \<Rightarrow> scope list" where
  "selected V level target = filter (\<lambda>s. scope_meet s target) (level_slice V ! level)"

definition compact_data :: "(i64 \<Rightarrow> key_value list option) \<Rightarrow> version \<Rightarrow> nat \<Rightarrow> scope \<Rightarrow> scope \<Rightarrow> key_value list" where
  "compact_data content V level target F =
     merge_data (map (scope_data content) (selected V (Suc level) F)) (map (scope_data content) (sort_key scope_gen (selected V level target)))"

lemma map_of_compact_data:
  assumes "\<forall>s\<in>set (selected V level target) \<union> set (selected V (Suc level) F). keys_ascending (scope_data content s)"
  shows "map_of (compact_data content V level target F) = map_of (level_data content (rev (sort_key scope_gen (selected V level target))) @
      level_data content (rev (selected V (Suc level) F)))"
proof -
  let ?A = "map (scope_data content) (selected V (Suc level) F)" and ?B = "map (scope_data content) (sort_key scope_gen (selected V level target))"
  have "\<forall>xs\<in>set (?A @ ?B). distinct (map fst xs)" using assms by (auto dest: ascending_distinct)
  then have "map_of (compact_data content V level target F) = map_of (concat (rev (?A @ ?B)))"
    unfolding compact_data_def merge_data_ok(2) by (rule map_of_rev_concat)
  then show ?thesis by (simp add: level_data_def rev_map)
qed

lemma compact_data_eq:
  assumes "keys_ascending kvs" "\<forall>s\<in>set (selected V level target) \<union> set (selected V (Suc level) F). keys_ascending (scope_data content s)"
    and "map_of kvs = map_of (level_data content (rev (sort_key scope_gen (selected V level target))) @
      level_data content (rev (selected V (Suc level) F)))"
  shows "kvs = compact_data content V level target F"
  by (rule keys_ascending_unique [OF assms(1)])
    (simp_all only: compact_data_def merge_data_ok(1) map_of_compact_data [OF assms(2), unfolded compact_data_def] assms(3))

lemma scope_live_mono:
  assumes "scope_live content s" "content \<subseteq>\<^sub>m content'"
  shows "scope_live content' s" "scope_data content' s = scope_data content s"
proof -
  have c: "content (scope_gen s) = Some (scope_data content s)" using assms(1) by (simp add: scope_live_def)
  then have "scope_gen s \<in> dom content" by (simp add: domIff)
  then have c': "content' (scope_gen s) = Some (scope_data content s)" using assms(2) c unfolding map_le_def by simp
  then show d: "scope_data content' s = scope_data content s" by (simp add: scope_data_def)
  show "scope_live content' s" using assms(1) c' by (simp add: scope_live_def d)
qed

lemma distinct_round:
  assumes "\<forall>l\<in>set ls. distinct (map scope_gen l)" "distinct (map scope_gen nl)" "distinct (map scope_gen pend)"
    and "\<forall>s\<in>set pend. \<forall>l\<in>set ls. scope_gen s \<notin> scope_gen ` set l" "Suc level < length ls"
  shows "\<forall>l\<in>set (round_levels ls level p nl pend). distinct (map scope_gen l)"
proof -
  let ?ls1 = "ls[level := filter (\<lambda>s. \<not> p s) (ls ! level), Suc level := nl]"
  have mem: "ls ! level \<in> set ls" "ls ! 0 \<in> set ls" using assms(5) by (auto intro: nth_mem)
  have 1: "\<forall>l\<in>set ?ls1. distinct (map scope_gen l)"
    using assms(1,2) mem by (auto simp: distinct_map_filter dest!: set_update_subset_insert [THEN subsetD])
  have "?ls1 ! 0 = (if level = 0 then filter (\<lambda>s. \<not> p s) (ls ! 0) else ls ! 0)" using assms(5) by (auto simp: nth_list_update)
  then have "set (?ls1 ! 0) \<subseteq> set (ls ! 0)" "distinct (map scope_gen (?ls1 ! 0))" using assms(1) mem(2) by (auto simp: distinct_map_filter)
  moreover have "scope_gen ` set (ls ! 0) \<inter> scope_gen ` set pend = {}"
  proof (rule equals0I)
    fix g assume g: "g \<in> scope_gen ` set (ls ! 0) \<inter> scope_gen ` set pend"
    then obtain s where "s \<in> set pend" "g = scope_gen s" by auto
    then show False using g assms(4) mem(2) by simp
  qed
  ultimately have "distinct (map scope_gen (?ls1 ! 0 @ pend))" using assms(3) unfolding map_append distinct_append set_map by blast
  then show ?thesis using 1 set_update_subset_insert [of ?ls1 0 "?ls1 ! 0 @ pend"] unfolding round_levels_def Let_def by blast
qed

text \<open>The tables of live scopes hold ascending data.\<close>

lemma collect_gen_gens:
  assumes "list_all2 (holds_data c hs tbls content) ts ss"
  shows "set (fst (collect_gen ts)) = scope_gen ` set ss"
proof -
  have "map table_gen ts = map scope_gen ss"
    using assms by (induction ts ss rule: list_all2_induct) (auto simp: holds_data_def dest: table_holds_gen)
  moreover have "set (unique_by (\<lambda>g. g) gens) = set gens" for gens :: "i64 list"
    using unique_by_keys [of "\<lambda>g. g" gens] by simp
  ultimately show ?thesis by (simp add: collect_gen_def)
qed

lemma data_loading_holds:
  assumes ok: "store_ok c hs tbls content st" and level: "Suc level < MAX_LEVEL"
    and exceeded: "skip \<or> is_threshold_exceeded_major (vs_version (ss_status st)) cfg level = Ok True"
    and F: "scope_fusion (selected (vs_version (ss_status st)) level target) = Some F"
    and fs: "0 < sst_file_size cfg" and data: "data = compact_data content (vs_version (ss_status st)) level target F"
    and bytes: "0 < bytes_len data" "ss_gen_buf st + int (bytes_len data) < i64_MAX"
  shows "\<exists>ld L g'. data_loading_with_level c cfg st level target skip =
      Some (Ok (Some ld, (with_loader st L)\<lparr>ss_gen_buf := g'\<rparr>)) \<and>
    ld_index ld = first_meet (level_slice (vs_version (ss_status st)) ! Suc level) F \<and>
    set (fst (ld_del_l ld)) = scope_gen ` set (selected (vs_version (ss_status st)) level target) \<and>
    set (fst (ld_del_ll ld)) = scope_gen ` set (selected (vs_version (ss_status st)) (Suc level) F) \<and>
    data_sharding data (sst_file_size cfg) (ss_gen_buf st) = Ok (ld_sharding ld, g') \<and>
    concat (map snd (ld_sharding ld)) = data \<and> ascending (map fst (ld_sharding ld)) \<and>
    (\<forall>gen\<in>set (map fst (ld_sharding ld)). ss_gen_buf st \<le> gen \<and> gen < g') \<and> ss_gen_buf st \<le> g' \<and> g' < i64_MAX \<and>
    (\<forall>shard\<in>set (map snd (ld_sharding ld)). shard \<noteq> []) \<and>
    loader_inv c hs tbls content L \<and> tl_config L = tl_config (vs_loader (ss_status st)) \<and>
    loader_fresh tbls content L (ss_gen_buf st)"
proof -
  let ?V = "vs_version (ss_status st)" and ?L = "vs_loader (ss_status st)"
  note d = store_okD [OF ok]
  have len: "level < length (level_slice ?V)" "Suc level < length (level_slice ?V)" using d(4) level by (auto simp: version_ok_def)
  have live: "\<forall>s\<in>set (level_slice ?V ! level). scope_live content s" "\<forall>s\<in>set (level_slice ?V ! Suc level). scope_live content s"
    using d(4) len unfolding version_ok_def by (meson nth_mem)+
  obtain ts L1 where t1: "tables_by_scopes c ?V ?L level target =
        Some (Ok ((ts, selected ?V level target, first_meet (level_slice ?V ! level) target), L1))"
      "loader_inv c hs tbls content L1" "list_all2 (holds_data c hs tbls content) ts (selected ?V level target)"
      "tl_config L1 = tl_config ?L"
    using tables_by_scopes_holds [OF d(1) len(1) live(1), of target] unfolding selected_def by blast
  obtain tts L2 where t2: "tables_by_scopes c ?V L1 (Suc level) F =
        Some (Ok ((tts, selected ?V (Suc level) F, first_meet (level_slice ?V ! Suc level) F), L2))"
      "loader_inv c hs tbls content L2" "list_all2 (holds_data c hs tbls content) tts (selected ?V (Suc level) F)"
      "tl_config L2 = tl_config L1"
    using tables_by_scopes_holds [OF t1(2) len(2) live(2), of F] unfolding selected_def by blast
  have S: "cache_sound c tbls (tl_cache L2)" using t2(2) by (simp add: loader_inv_def)
  obtain kvs S' where m: "keys_ascending kvs" "map_of kvs = map_of (level_data content (rev (sort_key scope_gen (selected ?V level target))) @
        level_data content (rev (selected ?V (Suc level) F)))" "cache_sound c tbls S'"
      "data_merge_and_sharding c ts tts (sst_file_size cfg) (tl_cache L2) (ss_gen_buf st) =
        bind_oo (Some (data_sharding kvs (sst_file_size cfg) (ss_gen_buf st))) (\<lambda>(shards, g'). Some (Ok (shards, S', g')))"
    using data_merge_holds [OF t1(3) t2(3) S fs] by blast
  have "\<forall>s\<in>set (selected ?V level target) \<union> set (selected ?V (Suc level) F). keys_ascending (scope_data content s)"
    using live live_ascending [OF d(1)] by (auto simp: selected_def)
  then have kvs: "kvs = data" unfolding data by (rule compact_data_eq [OF m(1) _ m(2)])
  obtain shards g' where sh: "data_sharding data (sst_file_size cfg) (ss_gen_buf st) = Ok (shards, g')" "concat (map snd shards) = data"
      "ascending (map fst shards)" "\<forall>gen\<in>set (map fst shards). ss_gen_buf st \<le> gen \<and> gen < g'" "ss_gen_buf st \<le> g'"
      "g' \<le> ss_gen_buf st + int (bytes_len data)" "\<forall>shard\<in>set (map snd shards). shard \<noteq> [] \<and> bytes_len (tl shard) \<le> sst_file_size cfg"
    using data_sharding_ok [OF fs bytes(1) d(7)] bytes(2) by auto
  let ?ld = "\<lparr>ld_index = first_meet (level_slice ?V ! Suc level) F, ld_del_l = collect_gen ts, ld_del_ll = collect_gen tts, ld_sharding = shards\<rparr>"
  let ?L' = "L2\<lparr>tl_cache := S'\<rparr>"
  have sel: "selected ?V level target \<noteq> []" using F by (auto simp: scope_fusion_def split: list.splits)
  have "(if skip then Ok True else is_threshold_exceeded_major ?V cfg level) = Ok True" using exceeded by auto
  moreover have "\<not> MAX_LEVEL - 2 < level" using level by (simp add: MAX_LEVEL_def)
  ultimately have run: "data_loading_with_level c cfg st level target skip = Some (Ok (Some ?ld, (with_loader st ?L')\<lparr>ss_gen_buf := g'\<rparr>))"
    using t1(1) t2(1) sel F m(4) sh(1) kvs by (simp add: data_loading_with_level_def Let_def)
  have inv: "loader_inv c hs tbls content ?L'" using t2(2) m(3) by (simp add: loader_inv_def)
  have fresh: "loader_fresh tbls content ?L' (ss_gen_buf st)"
  proof -
    have "btree_get (tl_files L2) gen = None" if gen: "ss_gen_buf st \<le> gen" for gen
    proof -
      have none: "content gen = None" "btree_get (tl_files ?L) gen = None" using d(6) gen by (simp_all add: loader_fresh_def)
      have "\<forall>s\<in>set (level_slice ?V ! level). scope_gen s \<noteq> gen" "\<forall>s\<in>set (level_slice ?V ! Suc level). scope_gen s \<noteq> gen"
        using live none(1) by (auto simp: scope_live_def)
      then show ?thesis using tables_by_scopes_files [OF t1(1) _ len(1)] tables_by_scopes_files [OF t2(1) _ len(2)] none(2) by simp
    qed
    then show ?thesis using d(6) by (simp add: loader_fresh_def)
  qed
  show ?thesis
    using run sh collect_gen_gens [OF t1(3)] collect_gen_gens [OF t2(3)] inv fresh bytes(2) t1(4) t2(4)
    by (intro exI [of _ ?ld] exI [of _ ?L'] exI [of _ g']) simp
qed


lemma first_meet_le: "first_meet n F \<le> length n"
  by (simp add: first_meet_def length_takeWhile_le)

lemma shards_sorted:
  assumes "keys_ascending (concat (map snd shards))" "\<forall>shard\<in>set (map snd shards). shard \<noteq> []"
  shows "sorted_wrt (\<lambda>a b. fst (last (snd a)) < fst (hd (snd b))) shards"
  using assms
proof (induction shards)
  case (Cons a shards)
  have "fst (last (snd a)) < fst (hd (snd b))" if "b \<in> set shards" for b
  proof -
    have "last (snd a) \<in> set (snd a)" "hd (snd b) \<in> set (concat (map snd shards))"
      using Cons.prems(2) that by (auto intro!: bexI [OF _ that])
    then show ?thesis using Cons.prems(1) by (auto simp: sorted_wrt_append)
  qed
  then show ?case using Cons by (simp add: sorted_wrt_append)
qed simp

lemma concat_part: "kvs \<in> set xss \<Longrightarrow> \<exists>xs ys. concat xss = xs @ kvs @ ys"
  by (metis concat.simps(2) concat_append in_set_conv_decomp)

text \<open>The scopes of the tables a round creates.\<close>

lemma new_scopes_ok:
  assumes asc: "keys_ascending (concat (map snd shards))" and ne: "\<forall>shard\<in>set (map snd shards). shard \<noteq> []" and gens: "ascending (map fst shards)"
    and scopes: "list_all2 (\<lambda>s (gen, kvs). scope_gen s = gen \<and> scope_wf s \<and> covers s kvs \<and> scope_start s = fst (hd kvs) \<and>
      scope_end s = fst (last kvs) \<and> seeks_ok cs s) scopes shards"
  shows "map scope_gen scopes = map fst shards" "level_sorted scopes"
    "\<forall>s\<in>set scopes. scope_start s \<in> fst ` set (concat (map snd shards)) \<and> scope_end s \<in> fst ` set (concat (map snd shards))"
    "level_data (content ++ map_of shards) scopes = concat (map snd shards)"
    "\<forall>s\<in>set scopes. scope_live (content ++ map_of shards) s \<and> seeks_ok cs s"
proof -
  have len: "length scopes = length shards" using list_all2_lengthD [OF scopes] .
  have nth: "scope_gen (scopes ! i) = fst (shards ! i)" "scope_wf (scopes ! i)" "covers (scopes ! i) (snd (shards ! i))"
      "scope_start (scopes ! i) = fst (hd (snd (shards ! i)))" "scope_end (scopes ! i) = fst (last (snd (shards ! i)))" "seeks_ok cs (scopes ! i)"
    if "i < length shards" for i
    using list_all2_nthD2 [OF scopes that] by (simp_all add: case_prod_unfold)
  show "map scope_gen scopes = map fst shards" using len nth(1) by (intro nth_equalityI) auto
  have "sorted_wrt (\<lambda>a b. fst (last (snd a)) < fst (hd (snd b))) shards" by (rule shards_sorted [OF asc ne])
  then show "level_sorted scopes" unfolding level_sorted_def sorted_wrt_iff_nth_less using len nth(4,5) by auto
  have mem: "snd (shards ! i) \<in> set (map snd shards)" "shards ! i \<in> set shards" if "i < length shards" for i using that by simp_all
  have ends: "hd kvs \<in> set (concat (map snd shards))" "last kvs \<in> set (concat (map snd shards))" if "kvs \<in> set (map snd shards)" for kvs
  proof -
    have "kvs \<noteq> []" using ne that by blast
    then have "hd kvs \<in> set kvs" "last kvs \<in> set kvs" by simp_all
    then show "hd kvs \<in> set (concat (map snd shards))" "last kvs \<in> set (concat (map snd shards))" using that by auto
  qed
  show "\<forall>s\<in>set scopes. scope_start s \<in> fst ` set (concat (map snd shards)) \<and> scope_end s \<in> fst ` set (concat (map snd shards))"
  proof
    fix s assume "s \<in> set scopes"
    then obtain i where i: "i < length shards" "s = scopes ! i" using len by (metis in_set_conv_nth)
    show "scope_start s \<in> fst ` set (concat (map snd shards)) \<and> scope_end s \<in> fst ` set (concat (map snd shards))"
      unfolding i(2) nth(4,5) [OF i(1)] using ends [OF mem(1) [OF i(1)]] by blast
  qed
  have content: "(content ++ map_of shards) (scope_gen (scopes ! i)) = Some (snd (shards ! i))" if i: "i < length shards" for i
  proof -
    have "map_of shards (fst (shards ! i)) = Some (snd (shards ! i))"
      using ascending_distinct [OF gens] mem(2) [OF i] by (intro map_of_is_SomeI) simp_all
    then show ?thesis by (simp add: map_add_def nth(1) [OF i])
  qed
  then have sd: "scope_data (content ++ map_of shards) (scopes ! i) = snd (shards ! i)" if "i < length shards" for i
    using that by (simp add: scope_data_def)
  have "map (scope_data (content ++ map_of shards)) scopes = map snd shards" using len sd by (intro nth_equalityI) auto
  then show "level_data (content ++ map_of shards) scopes = concat (map snd shards)" by (simp add: level_data_def)
  show "\<forall>s\<in>set scopes. scope_live (content ++ map_of shards) s \<and> seeks_ok cs s"
  proof
    fix s assume "s \<in> set scopes"
    then obtain i where i: "i < length shards" "s = scopes ! i" using len by (metis in_set_conv_nth)
    show "scope_live (content ++ map_of shards) s \<and> seeks_ok cs s"
      unfolding i(2) scope_live_def sd [OF i(1)] using content nth i(1) by simp
  qed
qed

lemma distinct_replaced:
  assumes "distinct (map scope_gen n)" "distinct (map scope_gen new)" "scope_gen ` set n \<inter> scope_gen ` set new = {}"
  shows "distinct (map scope_gen (replaced n F new))"
proof -
  let ?i = "first_meet n F"
  have n: "n = take ?i n @ drop ?i n" by simp
  then have "distinct (map scope_gen (take ?i n) @ map scope_gen (drop ?i n))" using assms(1) by (metis map_append)
  then show ?thesis
    using assms(2,3) set_take_subset [of ?i n] set_drop_subset [of ?i n]
    by (auto simp: replaced_def Let_def distinct_map_filter image_iff)
qed

lemma log_and_apply_gen:
  "log_and_apply c bc cs st edits threshold g = Some (Ok (r, g')) \<Longrightarrow> g' = g \<or> g' = snd (gen_create g)"
  unfolding log_and_apply_def write_snap_shot_def
  by (auto simp: Let_def split: if_splits prod.splits elim!: bind_oo_OkE)


text \<open>The tables that wait to be added to level 0 (one in a minor compaction, none otherwise).\<close>

definition pending_ok :: "(i64 \<Rightarrow> key_value list option) \<Rightarrow> counters \<Rightarrow> version \<Rightarrow> (scope \<times> table_meta) list \<Rightarrow> bool" where
  "pending_ok content cs V pms \<longleftrightarrow> distinct (map (scope_gen \<circ> fst) pms) \<and>
     (\<forall>s\<in>fst ` set pms. scope_live content s \<and> seeks_ok cs s \<and> (\<forall>l\<in>set (level_slice V). scope_gen s \<notin> scope_gen ` set l)) \<and>
     (\<forall>m\<in>snd ` set pms. small_meta m)"

text \<open>What the statistics of the version have to cover.\<close>

definition stats_cover :: "version \<Rightarrow> loaded_data \<Rightarrow> bool" where
  "stats_cover V ld \<longleftrightarrow> meta_len (snd (ld_del_l ld)) + meta_len (snd (ld_del_ll ld)) \<le> vm_len (meta_data V) \<and>
     meta_size_of_disk (snd (ld_del_l ld)) + meta_size_of_disk (snd (ld_del_ll ld)) \<le> vm_size_of_disk (meta_data V)"

text \<open>No table that stays in level 0 is older than one with a common key that leaves it.\<close>

definition level_0_closed :: "(i64 \<Rightarrow> key_value list option) \<Rightarrow> version \<Rightarrow> scope \<Rightarrow> bool" where
  "level_0_closed content V target \<longleftrightarrow> sorted (map scope_gen (level_slice V ! 0)) \<and>
     sorted_wrt (\<lambda>a b. \<not> scope_meet a target \<and> scope_meet b target \<longrightarrow> scope_keys content a \<inter> scope_keys content b = {}) (level_slice V ! 0)"

lemma selected_gens:
  assumes "distinct (map scope_gen l)" "s \<in> set l"
  shows "scope_gen s \<in> scope_gen ` set (filter p l) \<longleftrightarrow> p s"
  using assms by (auto simp: distinct_map inj_on_def)

lemma round_applies:
  assumes c: "int_encoding c" and st: "status_ok (ss_status st)" "V = vs_version (ss_status st)" "0 \<le> ss_gen_buf st" "ss_gen_buf st < i64_MAX"
    and len: "length (level_slice V) = MAX_LEVEL" and level: "Suc level < MAX_LEVEL"
    and dist: "\<forall>l\<in>set (level_slice V). distinct (map scope_gen l)" and cover: "stats_cover V ld"
    and ld: "ld_index ld = first_meet (level_slice V ! Suc level) F" "set (fst (ld_del_l ld)) = scope_gen ` set (selected V level target)"
      "set (fst (ld_del_ll ld)) = scope_gen ` set (selected V (Suc level) F)"
    and pend: "pending_ok content cs V pms" and new: "ascending (map scope_gen new)"
      "\<forall>s\<in>set new. \<forall>l\<in>set (level_slice V). scope_gen s \<notin> scope_gen ` set l"
    and room: "room_for (meta_data V) (map (Add \<circ> snd) pms @ [Add m])"
  shows "\<exists>st'. apply_pending c bc cfg (pending_edits pms @
      [NewFile new (Suc level) (ld_index ld) m, DeleteFile (fst (ld_del_l ld)) level (snd (ld_del_l ld)),
       DeleteFile (fst (ld_del_ll ld)) (Suc level) (snd (ld_del_ll ld))]) st = Some (Ok st') \<and>
    level_slice (vs_version (ss_status st')) =
      round_levels (level_slice V) level (\<lambda>s. scope_meet s target) (replaced (level_slice V ! Suc level) F new) (map fst pms) \<and>
    vs_loader (ss_status st') = vs_loader (ss_status st) \<and> status_ok (ss_status st') \<and> ss_counters st' = ss_counters st \<and>
    ss_gen_buf st \<le> ss_gen_buf st'"
proof -
  let ?edits = "pending_edits pms @ [NewFile new (Suc level) (ld_index ld) m, DeleteFile (fst (ld_del_l ld)) level (snd (ld_del_l ld)),
       DeleteFile (fst (ld_del_ll ld)) (Suc level) (snd (ld_del_ll ld))]"
  have mem: "level_slice V ! level \<in> set (level_slice V)" "level_slice V ! Suc level \<in> set (level_slice V)" using len level by simp_all
  have gl: "\<forall>s\<in>set (level_slice V ! level). scope_gen s \<in> set (fst (ld_del_l ld)) \<longleftrightarrow> scope_meet s target"
      "\<forall>s\<in>set (level_slice V ! Suc level). scope_gen s \<in> set (fst (ld_del_ll ld)) \<longleftrightarrow> scope_meet s F"
    unfolding ld(2,3) selected_def using dist mem by (auto simp del: set_filter simp: selected_gens)
  have fresh: "\<forall>s\<in>fst ` set pms. scope_gen s \<notin> set (fst (ld_del_l ld))" "\<forall>s\<in>set new. scope_gen s \<notin> set (fst (ld_del_ll ld))"
  proof -
    have sub: "scope_gen ` set (filter p l) \<subseteq> scope_gen ` set l" for p l by auto
    show "\<forall>s\<in>fst ` set pms. scope_gen s \<notin> set (fst (ld_del_l ld))"
      unfolding ld(2) selected_def using pend mem(1) sub unfolding pending_ok_def by blast
    show "\<forall>s\<in>set new. scope_gen s \<notin> set (fst (ld_del_ll ld))"
      unfolding ld(3) selected_def using new(2) mem(2) sub by blast
  qed
  obtain V' where V': "version_apply V ?edits = Ok (V', Tag_Add (version_num V + 1) (fst (ld_del_l ld) @ fst (ld_del_ll ld)))"
      "level_slice V' = round_levels (level_slice V) level (\<lambda>s. scope_meet s target) (replaced (level_slice V ! Suc level) F new) (map fst pms)"
    using apply_round_edits [OF len level gl(1) fresh(1) gl(2) fresh(2) ascending_sorted [OF new(1)], of "ld_index ld" "snd (ld_del_l ld)" "snd (ld_del_ll ld)" m]
      cover first_meet_le room unfolding stats_cover_def replaced_def ld(1) by (auto simp: Let_def)
  obtain st' g' where st': "log_and_apply c bc (ss_counters st) (ss_status st) ?edits (ver_log_snapshot_threshold cfg) (ss_gen_buf st) =
        Some (Ok ((st', Tag_Add (version_num V + 1) (fst (ld_del_l ld) @ fst (ld_del_ll ld))), g'))"
      "status_ok st'" "vs_version st' = V'" "vs_loader st' = vs_loader (ss_status st)"
    using log_and_apply_ok [OF c st(1)] V'(1) st(2) by blast
  have "ss_gen_buf st \<le> g'" using log_and_apply_gen [OF st'(1)] create_next(2) [OF st(3,4)] by auto
  then show ?thesis using st' V'(2) by (simp add: apply_pending_def)
qed

text \<open>What a round that finds something to do leaves behind: \<open>new\<close> are the scopes of the tables it wrote.\<close>

definition round_result ::
  "crates \<Rightarrow> hashing \<Rightarrow> (i64 \<Rightarrow> key_value list option) \<Rightarrow> store_state \<Rightarrow> nat \<Rightarrow> scope \<Rightarrow> scope \<Rightarrow> scope list \<Rightarrow> key_value list \<Rightarrow> scope list \<Rightarrow>
   (i64 \<Rightarrow> ss_table option) \<Rightarrow> (i64 \<Rightarrow> key_value list option) \<Rightarrow> store_state \<Rightarrow> bool" where
  "round_result c hs content st level target F pend data new tbls' content' st' \<longleftrightarrow>
     (let V = vs_version (ss_status st); V' = vs_version (ss_status st') in
      level_slice V' = round_levels (level_slice V) level (\<lambda>s. scope_meet s target) (replaced (level_slice V ! Suc level) F new) pend \<and>
      level_sorted new \<and> level_data content' new = data \<and>
      (\<forall>s\<in>set new. scope_start s \<in> fst ` set data \<and> scope_end s \<in> fst ` set data) \<and>
      (\<forall>s\<in>set new. scope_live content' s \<and> seeks_ok (ss_counters st') s) \<and>
      content \<subseteq>\<^sub>m content' \<and> (\<exists>zs. ss_counters st' = ss_counters st @ zs) \<and>
      loader_inv c hs tbls' content' (vs_loader (ss_status st')) \<and> status_ok (ss_status st') \<and> counters_ok (ss_counters st') \<and>
      (\<forall>l\<in>set (level_slice V'). distinct (map scope_gen l)) \<and>
      loader_fresh tbls' content' (vs_loader (ss_status st')) (ss_gen_buf st') \<and> 0 \<le> ss_gen_buf st' \<and>
      tl_config (vs_loader (ss_status st')) = tl_config (vs_loader (ss_status st)))"

lemma major_round_runs:
  assumes c: "int_encoding c" "lz4_codec c" and ok: "store_ok c hs tbls content st" and level: "Suc level < MAX_LEVEL"
    and V: "V = vs_version (ss_status st)"
    and cfg: "tl_config (vs_loader (ss_status st)) = cfg" "index_slice (level_table_type cfg) (Suc level) = Ok SortedString" "0 < sst_file_size cfg"
    and exceeded: "skip \<or> is_threshold_exceeded_major V cfg level = Ok True"
    and F: "scope_fusion (selected V level target) = Some F"
    and data: "data = compact_data content V level target F" "0 < bytes_len data" "ss_gen_buf st + int (bytes_len data) < i64_MAX"
    and storable: "data_sharding data (sst_file_size cfg) (ss_gen_buf st) = Ok (shards, g')" "\<forall>kvs\<in>snd ` set shards. table_storable c hs cfg kvs"
    and pend: "pending_ok content (ss_counters st) V pms" and room: "table_room V (length pms + length shards)"
  shows "\<exists>ld st1. data_loading_with_level c cfg st level target skip = Some (Ok (Some ld, st1)) \<and>
    (stats_cover V ld \<longrightarrow> (\<exists>new tbls' content' st'.
      major_round c hs bc cfg seeds level target (pending_edits pms) skip st = Some (Ok (True, st')) \<and>
      list_all2 (\<lambda>s (gen, kvs). scope_start s = fst (hd kvs) \<and> scope_end s = fst (last kvs)) new shards \<and>
      round_result c hs content st level target F (map fst pms) data new tbls' content' st'))"
proof -
  note d = store_okD [OF ok]
  let ?n = "level_slice V ! Suc level" and ?cs = "ss_counters st" and ?g = "ss_gen_buf st"
  have VS: "version_ok content ?cs V" using d(4) V by simp
  have len: "length (level_slice V) = MAX_LEVEL" using VS by (simp add: version_ok_def)
  then have lens: "level < length (level_slice V)" "Suc level < length (level_slice V)" using level by simp_all
  obtain ld L where ld: "data_loading_with_level c cfg st level target skip = Some (Ok (Some ld, (with_loader st L)\<lparr>ss_gen_buf := g'\<rparr>))"
      "ld_index ld = first_meet ?n F" "set (fst (ld_del_l ld)) = scope_gen ` set (selected V level target)"
      "set (fst (ld_del_ll ld)) = scope_gen ` set (selected V (Suc level) F)" "ld_sharding ld = shards" "concat (map snd shards) = data"
      "ascending (map fst shards)" "\<forall>gen\<in>set (map fst shards). ?g \<le> gen \<and> gen < g'" "?g \<le> g'" "g' < i64_MAX"
      "\<forall>shard\<in>set (map snd shards). shard \<noteq> []" "loader_inv c hs tbls content L" "tl_config L = cfg"
      "loader_fresh tbls content L ?g"
    using data_loading_holds [OF ok level _ _ cfg(3) _ data(2,3), of skip target F] exceeded F data(1) cfg(1) storable(1)
    unfolding V by fastforce
  show ?thesis
  proof (intro exI conjI, rule ld(1), rule impI)
    assume cover: "stats_cover V ld"
    have st_ok: "\<forall>(gen, kvs)\<in>set shards. table_storable c hs (tl_config L) kvs" using storable(2) ld(13) by force
    have fresh: "\<forall>gen\<in>fst ` set shards. tbls gen = None \<and> btree_get (tl_files L) gen = None"
      using ld(8,14) by (auto simp: loader_fresh_def)
    obtain scopes metas L' tbls' where cr: "create_tables c hs seeds (Suc level) SortedString shards L ?cs =
          Ok (zip scopes metas, L', ?cs @ replicate (length shards) 0)" "length metas = length scopes"
        "loader_inv c hs tbls' (content ++ map_of shards) L'" "\<forall>g. g \<notin> fst ` set shards \<longrightarrow> tbls' g = tbls g"
        "tl_config L' = tl_config L" "\<forall>g. g \<notin> fst ` set shards \<longrightarrow> btree_get (tl_files L') g = btree_get (tl_files L) g"
        "\<forall>m\<in>set metas. small_meta m"
        "list_all2 (\<lambda>s (gen, kvs). scope_gen s = gen \<and> scope_wf s \<and> covers s kvs \<and> scope_start s = fst (hd kvs) \<and>
          scope_end s = fst (last kvs) \<and> seeks_ok (?cs @ replicate (length shards) 0) s) scopes shards"
      using create_tables_holds [OF c ld(12) st_ok fresh ascending_distinct [OF ld(7)] d(3), of seeds "Suc level"] by blast
    let ?cs' = "?cs @ replicate (length shards) 0" and ?content = "content ++ map_of shards"
    let ?st2 = "(with_loader ((with_loader st L)\<lparr>ss_gen_buf := g'\<rparr>) L')\<lparr>ss_counters := ?cs'\<rparr>"
    have asc: "keys_ascending (concat (map snd shards))" unfolding ld(6) data(1) compact_data_def by (rule merge_data_ok(1))
    note new = new_scopes_ok [OF asc ld(11,7) cr(8)]
    have "length metas = length shards" using cr(2) list_all2_lengthD [OF cr(8)] by simp
    then have room': "room_for (meta_data V) (map (Add \<circ> snd) pms @ [Add (meta_fusion metas)])"
      using room cr(7) pend by (intro room_for_tables) (simp_all add: pending_ok_def)
    have old: "scope_gen s < ?g" if "l \<in> set (level_slice V)" "s \<in> set l" for l s
    proof (rule ccontr)
      assume "\<not> ?thesis"
      then have "content (scope_gen s) = None" using d(6) by (simp add: loader_fresh_def)
      then show False using VS that by (auto simp: version_ok_def scope_live_def)
    qed
    have gens: "\<forall>s\<in>set scopes. ?g \<le> scope_gen s \<and> scope_gen s < g'" using ld(8) new(1) by (metis image_eqI list.set_map)
    have "\<forall>s\<in>set scopes. \<forall>l\<in>set (level_slice V). scope_gen s \<notin> scope_gen ` set l" using gens old by fastforce
    moreover have "status_ok (ss_status ?st2)" using d(2) by (simp add: with_loader_def status_ok_def)
    ultimately obtain st' where st': "apply_pending c bc cfg (pending_edits pms @
          [NewFile scopes (Suc level) (ld_index ld) (meta_fusion metas), DeleteFile (fst (ld_del_l ld)) level (snd (ld_del_l ld)),
           DeleteFile (fst (ld_del_ll ld)) (Suc level) (snd (ld_del_ll ld))]) ?st2 = Some (Ok st')"
        "level_slice (vs_version (ss_status st')) =
          round_levels (level_slice V) level (\<lambda>s. scope_meet s target) (replaced ?n F scopes) (map fst pms)"
        "vs_loader (ss_status st') = L'" "status_ok (ss_status st')" "ss_counters st' = ?cs'" "g' \<le> ss_gen_buf st'"
      using round_applies [OF c(1), of ?st2 V level ld F target content ?cs pms scopes "meta_fusion metas" bc cfg]
        len level d(5,7) cover ld(2-4,9,10) pend new(1) ld(7) V room' by (auto simp: with_loader_def)
    have run: "major_round c hs bc cfg seeds level target (pending_edits pms) skip st = Some (Ok (True, st'))"
      using ld(1,5) cfg(2) cr(1,2) st'(1) by (simp add: major_round_def with_loader_def Let_def)
    have le: "content \<subseteq>\<^sub>m ?content"
      using ld(8) d(6) by (auto simp: map_le_def map_add_def loader_fresh_def dest!: map_of_SomeD split: option.splits)
    have n: "?n \<in> set (level_slice V)" using lens(2) by simp
    have "distinct (map scope_gen scopes)" using ascending_distinct [OF ld(7)] new(1) by simp
    moreover have "scope_gen ` set ?n \<inter> scope_gen ` set scopes = {}" using old [OF n] gens by fastforce
    ultimately have "distinct (map scope_gen (replaced ?n F scopes))" using d(5) V n by (intro distinct_replaced) auto
    then have dist: "\<forall>l\<in>set (level_slice (vs_version (ss_status st'))). distinct (map scope_gen l)"
      unfolding st'(2) using d(5) pend lens(2) V by (intro distinct_round) (auto simp: pending_ok_def comp_def)
    have fresh': "loader_fresh tbls' ?content L' (ss_gen_buf st')"
      unfolding loader_fresh_def
    proof (intro allI impI)
      fix gen assume "ss_gen_buf st' \<le> gen"
      then have "gen \<notin> fst ` set shards" "?g \<le> gen" using ld(8,9) st'(6) by force+
      moreover from this have "map_of shards gen = None" by (simp add: map_of_eq_None_iff)
      ultimately show "tbls' gen = None \<and> ?content gen = None \<and> btree_get (tl_files L') gen = None"
        using cr(4,6) ld(14) by (simp add: loader_fresh_def map_add_def)
    qed
    have cs: "counters_ok ?cs'" using d(3) by (auto simp: counters_ok_def)
    have ends: "list_all2 (\<lambda>s (gen, kvs). scope_start s = fst (hd kvs) \<and> scope_end s = fst (last kvs)) scopes shards"
      using cr(8) by (rule list_all2_mono) auto
    have "round_result c hs content st level target F (map fst pms) data scopes tbls' ?content st'"
      unfolding round_result_def Let_def V [symmetric]
      using st'(2-6) new(2) new(3) new(4,5) [of content] ld(6,13) le cr(3,5) dist fresh' cs cfg(1) d(7) ld(9) by auto
    then show "\<exists>new tbls' content' st'. major_round c hs bc cfg seeds level target (pending_edits pms) skip st = Some (Ok (True, st')) \<and>
        list_all2 (\<lambda>s (gen, kvs). scope_start s = fst (hd kvs) \<and> scope_end s = fst (last kvs)) new shards \<and>
        round_result c hs content st level target F (map fst pms) data new tbls' content' st'"
      using run ends by blast
  qed
qed

text \<open>If the new tables find their place and level 0 is left in order, the version stays well formed and answers as before.\<close>

lemma round_result_ok:
  assumes ok: "store_ok c hs tbls content st" and V: "V = vs_version (ss_status st)" and level: "Suc level < MAX_LEVEL"
    and F: "scope_fusion (selected V level target) = Some F"
    and placed: "well_placed (level_slice V ! Suc level) F" and closed: "level = 0 \<Longrightarrow> level_0_closed content V target"
    and pend: "pending_ok content (ss_counters st) V pms"
    and res: "round_result c hs content st level target F (map fst pms) (compact_data content V level target F) new tbls' content' st'"
  shows "store_ok c hs tbls' content' st'"
    "map_of (version_data content' (vs_version (ss_status st'))) = map_of (level_data content (rev (map fst pms)) @ version_data content V)"
proof -
  note d = store_okD [OF ok]
  have VS: "version_ok content (ss_counters st) V" using d(4) V by simp
  then have lens: "level < length (level_slice V)" "Suc level < length (level_slice V)" using level by (simp_all add: version_ok_def)
  note r = res [unfolded round_result_def Let_def, folded V]
  have live: "\<forall>s\<in>set (level_slice V ! level) \<union> set (level_slice V ! Suc level). scope_live content s"
    using VS lens nth_mem unfolding version_ok_def by blast
  then have "\<forall>s\<in>set (selected V level target) \<union> set (selected V (Suc level) F). keys_ascending (scope_data content s)"
    using live_ascending [OF d(1)] by (auto simp: selected_def)
  note map_data = map_of_compact_data [OF this]
  have le: "content \<subseteq>\<^sub>m content'" and cs: "length (ss_counters st) \<le> length (ss_counters st')" using r by auto
  have p_live: "\<forall>s\<in>set (map fst pms). scope_live content' s \<and> seeks_ok (ss_counters st') s"
    and p_data: "\<forall>s\<in>set (map fst pms). scope_data content' s = scope_data content s"
    using pend scope_live_mono [OF _ le] seeks_ok_append r unfolding pending_ok_def by auto
  have new: "level_sorted new" "\<forall>s\<in>set new. scope_start s \<in> fst ` set (compact_data content V level target F) \<and> scope_end s \<in> fst ` set (compact_data content V level target F)"
      "level_data content' new = compact_data content V level target F" "\<forall>s\<in>set new. scope_live content' s \<and> seeks_ok (ss_counters st') s"
      "level_slice (vs_version (ss_status st')) =
        round_levels (level_slice V) level (\<lambda>s. scope_meet s target) (replaced (level_slice V ! Suc level) F new) (map fst pms)"
    using r by blast+
  note levels = round_levels_ok [OF VS level F [unfolded selected_def] placed closed [unfolded level_0_closed_def]
      map_data [unfolded selected_def] new(1-4) p_live le cs new(5)]
  have "level_data content' (rev (map fst pms)) = level_data content (rev (map fst pms))"
    unfolding level_data_def using p_data by (intro arg_cong [of _ _ concat] map_cong) auto
  then show "map_of (version_data content' (vs_version (ss_status st'))) = map_of (level_data content (rev (map fst pms)) @ version_data content V)"
    using levels(2) by simp
  show "store_ok c hs tbls' content' st'" using levels(1) r by (simp add: store_ok_def)
qed

section \<open>Minor compaction\<close>

lemma pending_applies:
  assumes c: "int_encoding c" and st: "status_ok (ss_status st)" "V = vs_version (ss_status st)" "0 \<le> ss_gen_buf st" "ss_gen_buf st < i64_MAX"
    and len: "length (level_slice V) = MAX_LEVEL" and pms: "pms \<noteq> []" and room: "room_for (meta_data V) (map (Add \<circ> snd) pms)"
  shows "\<exists>st'. apply_pending c bc cfg (pending_edits pms) st = Some (Ok st') \<and>
    level_slice (vs_version (ss_status st')) = (level_slice V)[0 := level_slice V ! 0 @ map fst pms] \<and>
    vs_loader (ss_status st') = vs_loader (ss_status st) \<and> status_ok (ss_status st') \<and> ss_counters st' = ss_counters st \<and>
    ss_gen_buf st \<le> ss_gen_buf st'"
proof -
  have "0 < length (level_slice V)" using len by (simp add: MAX_LEVEL_def)
  note loop = apply_pending_edits [OF this, of pms "[]" "[]"]
  obtain V' tag where V': "version_apply V (pending_edits pms) = Ok (V', tag)" "level_slice V' = (level_slice V)[0 := level_slice V ! 0 @ map fst pms]"
    using loop statistical_process_room [OF room] by (auto simp: version_apply_def Let_def)
  obtain st' g' where st': "log_and_apply c bc (ss_counters st) (ss_status st) (pending_edits pms) (ver_log_snapshot_threshold cfg) (ss_gen_buf st) =
        Some (Ok ((st', tag), g'))" "status_ok st'" "vs_version st' = V'" "vs_loader st' = vs_loader (ss_status st)"
    using log_and_apply_ok [OF c st(1)] V'(1) st(2) by blast
  have "ss_gen_buf st \<le> g'" using log_and_apply_gen [OF st'(1)] create_next(2) [OF st(3,4)] by auto
  moreover have "pending_edits pms \<noteq> []" using pms by (simp add: pending_edits_def)
  ultimately show ?thesis using st' V'(2) by (simp add: apply_pending_def)
qed

lemma minor_compaction_holds:
  assumes c: "int_encoding c" "lz4_codec c" and ok: "store_ok c hs tbls content st" and V: "V = vs_version (ss_status st)"
    and cfg: "tl_config (vs_loader (ss_status st)) = cfg" "index_slice (level_table_type cfg) 0 = Ok SortedString"
    and few: "is_threshold_exceeded_major V cfg 0 = Ok False" and vals: "table_storable c hs cfg vals"
    and gen: "tbls gen = None" "content gen = None" "btree_get (tl_files (vs_loader (ss_status st))) gen = None" "gen < ss_gen_buf st"
      "ss_gen_buf st < i64_MAX" and room: "table_room V 1"
  shows "\<exists>st' tbls' content'. minor_compaction c hs bc cfg seeds gen vals st = Some (Ok st') \<and>
    store_ok c hs tbls' content' st' \<and> content' = content(gen \<mapsto> vals) \<and> (\<exists>t. tbls' = tbls(gen \<mapsto> t)) \<and>
    tl_config (vs_loader (ss_status st')) = cfg \<and> ss_gen_buf st \<le> ss_gen_buf st' \<and>
    (\<forall>g. g \<noteq> gen \<longrightarrow> btree_get (tl_files (vs_loader (ss_status st'))) g = btree_get (tl_files (vs_loader (ss_status st))) g) \<and>
    map_of (version_data content' (vs_version (ss_status st'))) = map_of (vals @ version_data content V)"
proof -
  note d = store_okD [OF ok]
  let ?L = "vs_loader (ss_status st)" and ?cs = "ss_counters st"
  have VS: "version_ok content ?cs V" using d(4) V by simp
  have kvs: "keys_ascending vals" "vals \<noteq> []" using vals by (auto simp: table_storable_def table_input_ok_def)
  have st0: "table_storable c hs (tl_config ?L) vals" using vals cfg(1) by simp
  obtain scope m L' cs' t where t: "loader_create c hs ?L ?cs (seeds gen) gen vals LEVEL_0 SortedString = Ok ((scope, m), L', cs')"
      "from_sorted_vec_data ?cs gen vals = Ok (scope, cs')"
      "loader_inv c hs (tbls(gen \<mapsto> t)) (content(gen \<mapsto> vals)) L'" "tl_config L' = tl_config ?L"
    using loader_create_holds [OF c d(1) st0 gen(1,3), of ?cs "seeds gen" LEVEL_0] by metis
  have s: "cs' = ?cs @ [0]" "scope_gen scope = gen" "scope_wf scope" "allowed_seeks scope = Some (length ?cs)" "covers scope vals"
    using from_sorted_vec_data_covers [OF kvs, of ?cs gen] t(2) by auto
  have room': "room_for (meta_data V) (map (Add \<circ> snd) [(scope, m)])"
    using loader_create_small [OF c d(1) st0 gen(1,3) t(1)] room by (simp add: room_for_def table_room_def)
  let ?content = "content(gen \<mapsto> vals)" and ?tbls = "tbls(gen \<mapsto> t)"
  let ?st1 = "(with_loader st L')\<lparr>ss_counters := cs'\<rparr>"
  obtain l0 l1 l2 l3 where ls: "level_slice V = [l0, l1, l2, l3]"
    using VS by (auto simp: version_ok_def MAX_LEVEL_def numeral_eq_Suc length_Suc_conv)
  have ok1: "status_ok (ss_status ?st1)" "vs_version (ss_status ?st1) = V" "length (level_slice V) = MAX_LEVEL"
    using d(2) V ls by (simp_all add: with_loader_def status_ok_def MAX_LEVEL_def)
  obtain st' where st': "apply_pending c bc cfg (pending_edits [(scope, m)]) ?st1 = Some (Ok st')"
      "level_slice (vs_version (ss_status st')) = [l0 @ [scope], l1, l2, l3]" "vs_loader (ss_status st') = L'" "status_ok (ss_status st')"
      "ss_counters st' = cs'" "ss_gen_buf st \<le> ss_gen_buf st'"
    using pending_applies [OF c(1) ok1(1) ok1(2) [symmetric] _ _ ok1(3) _ room', of bc cfg] d(7) gen(5)
    by (auto simp: ls with_loader_def)
  have dl: "data_loading_with_level c cfg ?st1 0 scope False = Some (Ok (None, ?st1))"
    using few ok1(2) by (simp add: data_loading_with_level_def MAX_LEVEL_def)
  have run: "minor_compaction c hs bc cfg seeds gen vals st = Some (Ok st')"
    using kvs(2) cfg(2) t(1) dl st'(1)
    by (simp add: minor_compaction_def LEVEL_0_def major_compaction_def MAX_LEVEL_def numeral_eq_Suc major_round_def pending_edits_def)
  have le: "content \<subseteq>\<^sub>m ?content" using gen(2) by (auto simp: map_le_def dom_def)
  have data: "scope_data ?content scope = vals" using s(2) by (simp add: scope_data_def)
  then have new: "scope_live ?content scope" "seeks_ok cs' scope" using s by (simp_all add: scope_live_def seeks_ok_def)
  have live: "\<forall>s\<in>set l0 \<union> set l1 \<union> set l2 \<union> set l3. scope_live content s \<and> seeks_ok ?cs s"
    and sorted: "level_sorted l1" "level_sorted l2" "level_sorted l3"
    using VS unfolding version_ok_levels [OF ls] by blast+
  have keep: "scope_live ?content s \<and> seeks_ok cs' s \<and> scope_data ?content s = scope_data content s"
    if "s \<in> set l0 \<union> set l1 \<union> set l2 \<union> set l3" for s
    using live that scope_live_mono [OF _ le] seeks_ok_append s(1) by blast
  have "version_ok ?content cs' (vs_version (ss_status st'))"
    unfolding version_ok_levels [OF st'(2)] using keep new sorted by auto
  moreover have "\<forall>l\<in>set (level_slice (vs_version (ss_status st'))). distinct (map scope_gen l)"
  proof -
    have "scope_gen s \<noteq> gen" if "s \<in> set l0" for s using live that gen(2) by (auto simp: scope_live_def)
    then show ?thesis using d(5) [folded V, unfolded ls] unfolding st'(2) by (auto simp: s(2))
  qed
  moreover have "loader_fresh ?tbls ?content L' (ss_gen_buf st')"
    unfolding loader_fresh_def
  proof (intro allI impI)
    fix g assume "ss_gen_buf st' \<le> g"
    then have "ss_gen_buf st \<le> g" "g \<noteq> gen" using st'(6) gen(4) by auto
    then show "?tbls g = None \<and> ?content g = None \<and> btree_get (tl_files L') g = None"
      using d(6) loader_create_files [OF t(1)] by (simp add: loader_fresh_def)
  qed
  moreover have "counters_ok cs'" using d(3) s(1) by (simp add: counters_ok_def)
  ultimately have "store_ok c hs ?tbls ?content st'" using t(3) st' d(7) by (simp add: store_ok_def)
  moreover have "version_data ?content (vs_version (ss_status st')) = vals @ version_data content V"
  proof -
    have same: "level_data ?content l = level_data content l" if "set l \<subseteq> set l0 \<union> set l1 \<union> set l2 \<union> set l3" for l
      unfolding level_data_def using keep that by (intro arg_cong [of _ _ concat] map_cong) auto
    have "level_data ?content (rev l0) = level_data content (rev l0)" "level_data ?content l1 = level_data content l1"
        "level_data ?content l2 = level_data content l2" "level_data ?content l3 = level_data content l3"
      by (rule same; auto)+
    then show ?thesis unfolding version_data_levels [OF st'(2)] version_data_levels [OF ls] by (simp add: data)
  qed
  moreover have "\<forall>g. g \<noteq> gen \<longrightarrow> btree_get (tl_files L') g = btree_get (tl_files ?L) g" using loader_create_files [OF t(1)] by blast
  moreover have "\<exists>t'. ?tbls = tbls(gen \<mapsto> t')" by blast
  ultimately show ?thesis
    using run st'(3,6) t(4) cfg(1) by (intro exI [of _ st'] exI [of _ ?tbls] exI [of _ ?content]) (simp add: with_loader_def)
qed


section \<open>Properties\<close>

text \<open>C32: \<open>data_sharding\<close> loses nothing and keeps the order: concatenated, the shards are the data. Their generations
  are fresh and ascending, none is empty, and apart from its first pair no shard is larger than the file
  size.\<close>

theorem data_sharding_correct:
  assumes "0 < fs" "0 < sum_list (map key_value_bytes_len data)" "0 \<le> g" "g + int (sum_list (map key_value_bytes_len data)) \<le> i64_MAX"
  shows "\<exists>shards g'. data_sharding data fs g = Ok (shards, g') \<and> concat (map snd shards) = data \<and>
    ascending (map fst shards) \<and> (\<forall>gen\<in>set (map fst shards). g \<le> gen \<and> gen < g') \<and>
    (\<forall>shard\<in>set (map snd shards). shard \<noteq> [] \<and> sum_list (map key_value_bytes_len (tl shard)) \<le> fs)"
  using data_sharding_ok [OF assms] by blast

theorem data_sharding_correct_witness:
  "\<exists>shards g'. data_sharding [([1], Some [2]), ([2], Some [3]), ([3], None)] 2 7 = Ok (shards, g') \<and>
    concat (map snd shards) = [([1], Some [2]), ([2], Some [3]), ([3], None)] \<and>
    data_sharding [([1], Some [2]), ([2], Some [3]), ([3], None)] 2 7 = Ok ([(8, [([1], Some [2])]), (9, [([2], Some [3]), ([3], None)])], 10)"
proof -
  have run: "data_sharding [([1], Some [2]), ([2], Some [3]), ([3], None)] 2 7 = Ok ([(8, [([1], Some [2])]), (9, [([2], Some [3]), ([3], None)])], 10)"
    by code_simp
  moreover have "\<exists>shards g'. data_sharding [([1], Some [2]), ([2], Some [3]), ([3], None)] 2 7 = Ok (shards, g') \<and>
    concat (map snd shards) = [([1], Some [2]), ([2], Some [3]), ([3], None)]"
    using data_sharding_correct [of 2 "[([1], Some [2]), ([2], Some [3]), ([3], None)]" 7]
    by (auto simp: key_value_bytes_len_def i64_MAX_def)
  ultimately show ?thesis by blast
qed

text \<open>C8: a round of \<open>major_compaction\<close> that keeps its tables in order changes where the data is and not what it is. The conditions:
  the selected tables of level 0 include every older table that shares a key with one of them (\<open>level_0_closed\<close>); the next level has
  tables that meet the selection, or none in front of it (\<open>well_placed\<close>), since the code inserts at index 0 when nothing meets; the level
  writes \<open>SortedString\<close> tables and each shard can be stored as one; the statistics of the version have room for the new tables
  and are not smaller than those of the tables the round removes. Then the round succeeds, and afterwards every lookup gives what it
  gave before, with the tables that were waiting for level 0 on top; the store is well formed again.\<close>

theorem major_round_correct:
  assumes "int_encoding c" "lz4_codec c" "store_ok c hs tbls content st" "Suc level < MAX_LEVEL" "V = vs_version (ss_status st)"
    and "tl_config (vs_loader (ss_status st)) = cfg" "index_slice (level_table_type cfg) (Suc level) = Ok SortedString" "0 < sst_file_size cfg"
    and "skip \<or> is_threshold_exceeded_major V cfg level = Ok True" "scope_fusion (selected V level target) = Some F"
    and "well_placed (level_slice V ! Suc level) F" "level = 0 \<longrightarrow> level_0_closed content V target"
    and "data = compact_data content V level target F" "0 < bytes_len data" "ss_gen_buf st + int (bytes_len data) < i64_MAX"
    and "data_sharding data (sst_file_size cfg) (ss_gen_buf st) = Ok (shards, g')" "\<forall>kvs\<in>snd ` set shards. table_storable c hs cfg kvs"
    and "pending_ok content (ss_counters st) V pms" "table_room V (length pms + length shards)"
  shows "\<exists>ld st1. data_loading_with_level c cfg st level target skip = Some (Ok (Some ld, st1)) \<and>
    (stats_cover V ld \<longrightarrow> (\<exists>st' tbls' content'.
      major_round c hs bc cfg seeds level target (pending_edits pms) skip st = Some (Ok (True, st')) \<and>
      store_ok c hs tbls' content' st' \<and>
      map_of (version_data content' (vs_version (ss_status st'))) =
        map_of (level_data content (rev (map fst pms)) @ version_data content V)))"
proof -
  obtain ld st1 where ld: "data_loading_with_level c cfg st level target skip = Some (Ok (Some ld, st1))"
      "stats_cover V ld \<Longrightarrow> \<exists>new tbls' content' st'.
        major_round c hs bc cfg seeds level target (pending_edits pms) skip st = Some (Ok (True, st')) \<and>
        round_result c hs content st level target F (map fst pms) data new tbls' content' st'"
    using major_round_runs [OF assms(1-10,13-19), of bc seeds] by blast
  then show ?thesis
    using round_result_ok [OF assms(3,5,4,10,11) _ assms(18)] assms(12,13) by blast
qed

text \<open>C9: a flush while level 0 is below its threshold, so that no major compaction follows. Pairs that can be stored as one table, in a
  level 0 of \<open>SortedString\<close> tables and with room in the statistics of the version, are written by \<open>minor_compaction\<close> to a new table
  of level 0; afterwards a lookup finds them in front of everything that was there.\<close>

theorem minor_compaction_correct:
  assumes "int_encoding c" "lz4_codec c" "store_ok c hs tbls content st" "V = vs_version (ss_status st)"
    and "tl_config (vs_loader (ss_status st)) = cfg" "index_slice (level_table_type cfg) 0 = Ok SortedString"
    and "is_threshold_exceeded_major V cfg 0 = Ok False" "table_storable c hs cfg vals"
    and "tbls gen = None" "content gen = None" "btree_get (tl_files (vs_loader (ss_status st))) gen = None" "gen < ss_gen_buf st"
    and "ss_gen_buf st < i64_MAX" "table_room V 1"
  shows "\<exists>st' tbls' content'. minor_compaction c hs bc cfg seeds gen vals st = Some (Ok st') \<and>
    store_ok c hs tbls' content' st' \<and>
    map_of (version_data content' (vs_version (ss_status st'))) = map_of (vals @ version_data content V)"
  using minor_compaction_holds [OF assms] by blast

text \<open>A store with nothing in it, and one with a table of \<open>sample_pairs\<close> in level 0.\<close>

lemma sample_store:
  "\<exists>st. store_ok le_crates sum_hashing Map.empty Map.empty st \<and> tl_config (vs_loader (ss_status st)) = sample_config0 \<and>
    vs_version (ss_status st) = \<lparr>version_num = 1, level_slice = level_slice_new, meta_data = \<lparr>vm_size_of_disk = 0, vm_len = 0\<rparr>\<rparr> \<and>
    ss_gen_buf st = 10 \<and> ss_counters st = [] \<and> tl_files (vs_loader (ss_status st)) = []"
proof -
  obtain L where L: "loader_new sample_config0 [] [(7, [])] (\<lambda>_. 0) (\<lambda>_. 0) = Ok L"
      "loader_inv le_crates sum_hashing Map.empty Map.empty L" "tl_config L = sample_config0" "tl_files L = []"
    using sample_loader by blast
  obtain st0 tag where st0: "load_with_path le_crates wire_bincode sample_config0 [] [(7, [])] [] (\<lambda>_. 0) (\<lambda>_. 0) 0 [] =
      Some (Ok ((st0, tag), 2, []))" "vs_loader st0 = L"
    using load_with_path_fresh [OF L(1), of 0 le_crates wire_bincode "[]"] by (auto simp: i64_MAX_def)
  have V0: "status_ok st0" "vs_version st0 = \<lparr>version_num = 1, level_slice = level_slice_new, meta_data = \<lparr>vm_size_of_disk = 0, vm_len = 0\<rparr>\<rparr>"
    using load_with_path_empty [OF st0(1)] status_logs_ok by (auto simp: i64_MAX_def)
  let ?st = "\<lparr>ss_status = st0, ss_counters = [], ss_gen_buf = 10, ss_tags = []\<rparr>"
  have "version_ok Map.empty [] (vs_version st0)"
    by (auto simp: V0(2) version_ok_def level_slice_new_def MAX_LEVEL_def level_sorted_def less_Suc_eq numeral_eq_Suc nth_Cons')
  then have "store_ok le_crates sum_hashing Map.empty Map.empty ?st"
    using V0 L st0(2) by (auto simp: store_ok_def counters_ok_def loader_fresh_def btree_get_def level_slice_new_def)
  then show ?thesis using V0 L st0(2) by (intro exI [of _ ?st]) simp
qed

lemma few_tables: "level_slice V = level_slice_new \<Longrightarrow> is_threshold_exceeded_major V sample_config0 0 = Ok False"
  by (simp add: is_threshold_exceeded_major_def level_slice_new_def index_slice_def sample_config0_def sample_config_def config_new_def
      DEFAULT_MAJOR_THRESHOLD_WITH_SST_SIZE_def MAX_LEVEL_def usize_pow_def usize_mul_def usize_MAX_def)

lemma sample_level_type: "level < MAX_LEVEL \<Longrightarrow> index_slice (level_table_type sample_config0) level = Ok SortedString"
  by (simp add: sample_config0_def sample_config_def config_new_def index_slice_def)

theorem minor_compaction_correct_witness:
  "\<exists>st st' tbls' content'. level_slice (vs_version (ss_status st)) = level_slice_new \<and>
    minor_compaction le_crates sum_hashing wire_bincode sample_config0 (\<lambda>_. (11, 22)) 5 sample_pairs st = Some (Ok st') \<and>
    store_ok le_crates sum_hashing tbls' content' st' \<and>
    map_of (version_data content' (vs_version (ss_status st'))) = map_of sample_pairs"
proof -
  obtain st where st: "store_ok le_crates sum_hashing Map.empty Map.empty st" "tl_config (vs_loader (ss_status st)) = sample_config0"
      "level_slice (vs_version (ss_status st)) = level_slice_new" "ss_gen_buf st = 10" "tl_files (vs_loader (ss_status st)) = []"
      "table_room (vs_version (ss_status st)) 1"
    using sample_store by (auto simp: table_room_def u64_MAX_def usize_MAX_def)
  have empty: "version_data Map.empty (vs_version (ss_status st)) = []"
    by (simp add: version_data_def st(3) level_slice_new_def MAX_LEVEL_def upt_rec)
  show ?thesis
    using minor_compaction_correct [OF le.int_encoding_axioms le.lz4_codec_axioms st(1) refl st(2) sample_level_type few_tables [OF st(3)]
        sample_storable, of 5 wire_bincode "\<lambda>_. (11, 22)"] st(3-6) empty
    by (fastforce simp: MAX_LEVEL_def btree_get_def i64_MAX_def)
qed

text \<open>The tables a round loads do not depend on the statistics of the version.\<close>

definition with_meta :: "version_meta \<Rightarrow> store_state \<Rightarrow> store_state" where
  "with_meta M st = st\<lparr>ss_status := (ss_status st)\<lparr>vs_version := (vs_version (ss_status st))\<lparr>meta_data := M\<rparr>\<rparr>\<rparr>"

lemma tables_by_scopes_meta: "tables_by_scopes c (V\<lparr>meta_data := M\<rparr>) L level target = tables_by_scopes c V L level target"
  by (simp add: tables_by_scopes_def)

lemma data_loading_meta:
  assumes "data_loading_with_level c cfg st level target skip = Some (Ok (Some ld, st1))"
  shows "\<exists>st2. data_loading_with_level c cfg (with_meta M st) level target skip = Some (Ok (Some ld, st2))"
  using assms unfolding data_loading_with_level_def with_meta_def
  by (auto simp: tables_by_scopes_meta is_threshold_exceeded_major_def Let_def elim!: bind_oo_OkE split: if_splits)

lemma sample_store_flushed:
  "\<exists>st tbls. store_ok le_crates sum_hashing tbls [5 \<mapsto> sample_pairs] st \<and> tl_config (vs_loader (ss_status st)) = sample_config0 \<and>
    level_slice (vs_version (ss_status st)) = [[sample_top], [], [], []] \<and> ss_gen_buf st = 10 \<and> ss_counters st = [0] \<and>
    meta_data (vs_version (ss_status st)) = \<lparr>vm_size_of_disk = 0, vm_len = 0\<rparr> \<and>
    (\<forall>t L'. loader_get le_crates (vs_loader (ss_status st)) 5 = Some (Ok (Some t, L')) \<longrightarrow> small_meta (meta_of_table t))"
proof -
  obtain st where st: "store_ok le_crates sum_hashing Map.empty Map.empty st" "tl_config (vs_loader (ss_status st)) = sample_config0"
      "ss_gen_buf st = 10" "tl_files (vs_loader (ss_status st)) = []"
    using sample_store by auto
  obtain scope meta L cs t where L: "loader_create le_crates sum_hashing (vs_loader (ss_status st)) [] (11, 22) 5 sample_pairs 0 SortedString =
        Ok ((scope, meta), L, cs)" "from_sorted_vec_data [] 5 sample_pairs = Ok (scope, cs)"
      "loader_inv le_crates sum_hashing [5 \<mapsto> t] [5 \<mapsto> sample_pairs] L" "tl_config L = sample_config0"
    using loader_create_holds [OF le.int_encoding_axioms le.lz4_codec_axioms store_okD(1) [OF st(1)], of sample_pairs 5 "[]" "(11, 22)" 0] st(2,4)
    by (fastforce simp: sample_storable btree_get_def)
  have s: "scope = sample_top" "cs = [0]"
    using L(2) by (auto simp: from_sorted_vec_data_def scope_from_range_def sample_pairs_def sample_top_def)
  let ?V = "\<lparr>version_num = 2, level_slice = [[sample_top], [], [], []], meta_data = \<lparr>vm_size_of_disk = 0, vm_len = 0\<rparr>\<rparr>"
  let ?st = "st\<lparr>ss_status := (ss_status st)\<lparr>vs_loader := L, vs_version := ?V\<rparr>, ss_counters := [0]\<rparr>"
  have "version_ok [5 \<mapsto> sample_pairs] [0] ?V"
    by (auto simp: version_ok_def MAX_LEVEL_def scope_live_def scope_data_def covers_def meet_by_key_def scope_wf_def seeks_ok_def
        level_sorted_def sample_top_def sample_pairs_def less_Suc_eq numeral_eq_Suc nth_Cons')
  moreover have "loader_fresh [5 \<mapsto> t] [5 \<mapsto> sample_pairs] L 10"
    using loader_create_files [OF L(1)] st(4) by (auto simp: loader_fresh_def btree_get_def)
  ultimately have "store_ok le_crates sum_hashing [5 \<mapsto> t] [5 \<mapsto> sample_pairs] ?st"
    using store_okD(2) [OF st(1)] st(3) L(3) by (simp add: store_ok_def status_ok_def counters_ok_def)
  moreover have "small_meta (meta_of_table u)" if "loader_get le_crates L 5 = Some (Ok (Some u, L'))" for u L'
    using loader_create_get [OF le.int_encoding_axioms le.lz4_codec_axioms store_okD(1) [OF st(1)] _ _ _ L(1) that] st(2,4)
    by (simp add: sample_storable btree_get_def)
  ultimately show ?thesis using L(4) st(3) by (intro exI [of _ ?st] exI [of _ "[5 \<mapsto> t]"]) simp
qed

lemma with_meta_simps [simp]:
  "vs_version (ss_status (with_meta M st)) = (vs_version (ss_status st))\<lparr>meta_data := M\<rparr>"
  "vs_loader (ss_status (with_meta M st)) = vs_loader (ss_status st)" "ss_counters (with_meta M st) = ss_counters st"
  "ss_gen_buf (with_meta M st) = ss_gen_buf st" "store_ok c hs tbls content (with_meta M st) = store_ok c hs tbls content st"
  by (simp_all add: with_meta_def store_ok_def status_ok_def version_ok_def)

text \<open>The table a round on the sample store loads.\<close>

lemma sample_loading_small:
  assumes ld: "data_loading_with_level c cfg st 0 sample_top True = Some (Ok (Some ld, st1))"
    and V: "level_slice (vs_version (ss_status st)) = [[sample_top], [], [], []]"
    and small: "\<forall>t L'. loader_get c (vs_loader (ss_status st)) 5 = Some (Ok (Some t, L')) \<longrightarrow> small_meta (meta_of_table t)"
  shows "meta_size_of_disk (snd (ld_del_l ld)) + meta_size_of_disk (snd (ld_del_ll ld)) < 2 ^ 32"
    "meta_len (snd (ld_del_l ld)) + meta_len (snd (ld_del_ll ld)) < 2 ^ 32"
proof -
  have top: "scope_meet sample_top sample_top" "scope_gen sample_top = 5" by (simp_all add: sample_top_def scope_meet_def)
  obtain t L1 where "loader_get c (vs_loader (ss_status st)) 5 = Some (Ok (t, L1))" "t \<noteq> None"
      "ld_del_l ld = collect_gen [the t]" "ld_del_ll ld = collect_gen []"
    using ld V top
    by (auto simp: data_loading_with_level_def tables_by_scopes_def index_slice_def Let_def elim!: bind_oo_OkE split: if_splits option.splits)
  then show "meta_size_of_disk (snd (ld_del_l ld)) + meta_size_of_disk (snd (ld_del_ll ld)) < 2 ^ 32"
    "meta_len (snd (ld_del_l ld)) + meta_len (snd (ld_del_ll ld)) < 2 ^ 32"
    using small by (auto simp: collect_gen_def meta_of_tables_def small_meta_def meta_of_table_def meta_default_def)
qed

theorem major_round_correct_witness:
  "\<exists>st content st' tbls' content'. level_slice (vs_version (ss_status st)) = [[sample_top], [], [], []] \<and>
    map_of (version_data content (vs_version (ss_status st))) = map_of sample_pairs \<and>
    major_round le_crates sum_hashing wire_bincode sample_config0 (\<lambda>_. (11, 22)) 0 sample_top [] True st = Some (Ok (True, st')) \<and>
    store_ok le_crates sum_hashing tbls' content' st' \<and>
    map_of (version_data content' (vs_version (ss_status st'))) = map_of sample_pairs"
proof -
  let ?content = "[5 \<mapsto> sample_pairs]"
  obtain st tbls where st: "store_ok le_crates sum_hashing tbls ?content st" "tl_config (vs_loader (ss_status st)) = sample_config0"
      "level_slice (vs_version (ss_status st)) = [[sample_top], [], [], []]" "ss_gen_buf st = 10" "ss_counters st = [0]"
    and meta: "meta_data (vs_version (ss_status st)) = \<lparr>vm_size_of_disk = 0, vm_len = 0\<rparr>"
      "\<forall>t L'. loader_get le_crates (vs_loader (ss_status st)) 5 = Some (Ok (Some t, L')) \<longrightarrow> small_meta (meta_of_table t)"
    using sample_store_flushed by blast
  define F where "F = \<lparr>scope_start = [1], scope_end = [2], scope_gen = 0, allowed_seeks = None\<rparr>"
  have F: "scope_fusion (selected V 0 sample_top) = Some F" and data: "sample_pairs = compact_data ?content V 0 sample_top F"
    and place: "well_placed (level_slice V ! Suc 0) F" and closed: "level_0_closed ?content V sample_top"
    and content: "version_data ?content V = sample_pairs"
    if "level_slice V = [[sample_top], [], [], []]" for V
    using that by (simp_all add: selected_def scope_fusion_def sample_top_def scope_meet_def F_def compact_data_def merge_data_def
        scope_data_def well_placed_def level_0_closed_def version_data_def MAX_LEVEL_def upt_rec)
      (code_simp)
  have fs: "sst_file_size sample_config0 = 2097152"
    by (simp add: sample_config0_def sample_config_def config_new_def DEFAULT_SST_FILE_SIZE_def)
  have sh: "data_sharding sample_pairs 2097152 10 = Ok ([(10, sample_pairs)], 11)"
    using create_next(2) [of 10] by (simp add: data_sharding_def sample_pairs_def key_value_bytes_len_def i64_MAX_def Let_def)
  have bytes: "0 < bytes_len sample_pairs" "10 + int (bytes_len sample_pairs) < i64_MAX"
    by (simp_all add: sample_pairs_def key_value_bytes_len_def i64_MAX_def)
  note loaded = major_round_correct [OF le.int_encoding_axioms le.lz4_codec_axioms, where level = 0 and target = sample_top and skip = True and
      cfg = sample_config0 and bc = wire_bincode and seeds = "\<lambda>_. (11, 22)" and pms = "[]" and data = sample_pairs and F = F and
      content = ?content and hs = sum_hashing and shards = "[(10, sample_pairs)]" and g' = 11 and tbls = tbls]
  have pend: "pending_ok ?content [0] V []" for V by (simp add: pending_ok_def)
  obtain ld st1 where ld: "data_loading_with_level le_crates sample_config0 st 0 sample_top True = Some (Ok (Some ld, st1))"
    using loaded [of st "vs_version (ss_status st)"] st F data place closed fs sh bytes pend sample_level_type sample_storable meta(1)
    by (auto simp: MAX_LEVEL_def table_room_def u64_MAX_def usize_MAX_def)
  note small = sample_loading_small [OF ld st(3) meta(2)]
  let ?M = "\<lparr>vm_size_of_disk = meta_size_of_disk (snd (ld_del_l ld)) + meta_size_of_disk (snd (ld_del_ll ld)),
    vm_len = meta_len (snd (ld_del_l ld)) + meta_len (snd (ld_del_ll ld))\<rparr>"
  let ?st = "with_meta ?M st"
  let ?V = "vs_version (ss_status ?st)"
  have V: "level_slice ?V = [[sample_top], [], [], []]" using st(3) by simp
  obtain st2 where st2: "data_loading_with_level le_crates sample_config0 ?st 0 sample_top True = Some (Ok (Some ld, st2))"
    using data_loading_meta [OF ld] by blast
  have "stats_cover ?V ld" by (simp add: stats_cover_def)
  moreover have "table_room ?V (length [] + length [(10 :: i64, sample_pairs)])"
    using small by (simp add: table_room_def u64_MAX_def usize_MAX_def)
  ultimately obtain st' tbls' content' where "major_round le_crates sum_hashing wire_bincode sample_config0 (\<lambda>_. (11, 22)) 0 sample_top [] True ?st =
        Some (Ok (True, st'))" "store_ok le_crates sum_hashing tbls' content' st'"
      "map_of (version_data content' (vs_version (ss_status st'))) = map_of sample_pairs"
    using loaded [of ?st ?V] st F [OF V] data [OF V] place [OF V] closed [OF V] content [OF V] fs sh bytes pend sample_level_type sample_storable st2
    by (auto simp: MAX_LEVEL_def pending_edits_def level_data_def)
  then show ?thesis using V content [OF V] by (intro exI [of _ ?st] exI [of _ ?content] exI [of _ st']) auto
qed

end
