(* ===== verification/Storage.thy ===== *)
theory Storage
  imports Compaction
begin

text \<open>
  \<open>src/src/kernel/lsm/storage.rs\<close>: the store \<open>KipStorage\<close> with its operations \<open>set\<close>, \<open>get\<close>, \<open>remove\<close>, \<open>flush\<close> and the tasks
  it sends to the compactor, and \<open>query_and_compaction\<close> of \<open>src/src/kernel/lsm/mod.rs\<close>.

  The channel to the compactor belongs to the runtime (\<open>tokio::sync::mpsc\<close>) and is a parameter: its state is
  of type \<open>'q\<close>, its operations are those of the record \<open>task_channel\<close>. The memory table and the loader use the
  same directory of write-ahead logs; \<open>set_mem\<close> and \<open>set_store\<close> keep the two copies equal. The file lock and
  the log messages are left out, and the state that a failing operation leaves behind is described only
  where it is said.
\<close>

section \<open>Tasks\<close>

datatype compact_task = Task_Seek "scope \<times> nat" | Task_Flush bool

datatype send_result = Sent | Full | Closed

record 'q task_channel =
  try_send :: "compact_task \<Rightarrow> 'q \<Rightarrow> send_result \<times> 'q"
  send_wait :: "compact_task \<Rightarrow> 'q \<Rightarrow> 'q option"
  recv_reply :: "'q \<Rightarrow> bool \<times> 'q"

text \<open>A \<open>try_send\<close> whose failure matters only when the channel is closed.\<close>

definition notify :: "'q task_channel \<Rightarrow> compact_task \<Rightarrow> 'q \<Rightarrow> 'q outcome" where
  "notify ch task q =
     (case try_send ch task q of (Closed, _) \<Rightarrow> Err ChannelClose | (_, q') \<Rightarrow> Ok q')"

definition query_and_compaction ::
  "crates \<Rightarrow> hashing \<Rightarrow> 'q task_channel \<Rightarrow> bytes \<Rightarrow> version \<Rightarrow> store_state \<Rightarrow> 'q \<Rightarrow> (key_value option \<times> store_state \<times> 'q) outcome option" where
  "query_and_compaction c hs ch key V st q =
     bind_oo (version_query c hs V key (vs_loader (ss_status st)) (ss_counters st)) (\<lambda>((value_option, miss_option), L', cs').
       let st' = (with_loader st L')\<lparr>ss_counters := cs'\<rparr> in
       case miss_option of
         Some miss_scope \<Rightarrow> bind_oo (Some (notify ch (Task_Seek miss_scope) q)) (\<lambda>q'. Some (Ok (value_option, st', q')))
       | None \<Rightarrow> Some (Ok (value_option, st', q)))"

section \<open>The store\<close>

record ('m, 'q) kip_storage =
  ks_mem :: "'m mem_table"
  ks_store :: store_state
  ks_chan :: 'q
  ks_seq :: i64

abbreviation ks_version :: "('m, 'q) kip_storage \<Rightarrow> version" where
  "ks_version ks \<equiv> vs_version (ss_status (ks_store ks))"

abbreviation ks_loader :: "('m, 'q) kip_storage \<Rightarrow> table_loader" where
  "ks_loader ks \<equiv> vs_loader (ss_status (ks_store ks))"

definition set_mem :: "'m mem_table \<Rightarrow> ('m, 'q) kip_storage \<Rightarrow> ('m, 'q) kip_storage" where
  "set_mem t ks = ks\<lparr>ks_mem := t, ks_store := with_loader (ks_store ks) ((ks_loader ks)\<lparr>tl_wal := wal t\<rparr>)\<rparr>"

definition set_store :: "store_state \<Rightarrow> ('m, 'q) kip_storage \<Rightarrow> ('m, 'q) kip_storage" where
  "set_store st ks = ks\<lparr>ks_store := st, ks_mem := (ks_mem ks)\<lparr>wal := tl_wal (vs_loader (ss_status st))\<rparr>\<rparr>"

text \<open>\<open>StoreInner::new\<close>: the memory table first, then the version with the directory of logs it leaves.\<close>

definition store_inner_new ::
  "'m mem_ops \<Rightarrow> crates \<Rightarrow> bincode \<Rightarrow> config \<Rightarrow> directory \<Rightarrow> directory \<Rightarrow> directory \<Rightarrow> (i64 \<Rightarrow> 64 word) \<Rightarrow>
   (i64 \<times> block_index option \<Rightarrow> 64 word) \<Rightarrow> i64 \<Rightarrow> 'q \<Rightarrow> i64 \<Rightarrow> ('m, 'q) kip_storage outcome option" where
  "store_inner_new sm c bc cfg wals files logs hash1 hash2 gen_buf q seq =
     bind_oo (mem_table_new sm c cfg wals gen_buf) (\<lambda>(gen_buf1, t).
     bind_oo (load_with_path c bc cfg files (wal t) logs hash1 hash2 gen_buf1 []) (\<lambda>((status, tag), gen_buf2, cs).
     Some (Ok \<lparr>ks_mem = t\<lparr>wal := tl_wal (vs_loader status)\<rparr>,
       ks_store = \<lparr>ss_status = status, ss_counters = cs, ss_gen_buf = gen_buf2, ss_tags = [tag]\<rparr>, ks_chan = q, ks_seq = seq\<rparr>)))"

definition append_cmd_data ::
  "'m mem_ops \<Rightarrow> crates \<Rightarrow> 'q task_channel \<Rightarrow> key_value \<Rightarrow> ('m, 'q) kip_storage \<Rightarrow> (unit outcome \<times> ('m, 'q) kip_storage) option" where
  "append_cmd_data sm c ch data ks =
     (case insert_data sm c data (ks_seq ks) (ks_mem ks) of
        None \<Rightarrow> None
      | Some (Ok (is_exceeds, seq', t)) \<Rightarrow>
          (let ks1 = set_mem t (ks\<lparr>ks_seq := seq'\<rparr>) in
           if is_exceeds then
             (case notify ch (Task_Flush False) (ks_chan ks1) of
                Ok q \<Rightarrow> Some (Ok (), ks1\<lparr>ks_chan := q\<rparr>)
              | Err e \<Rightarrow> Some (Err e, ks1)
              | Panic \<Rightarrow> Some (Panic, ks1))
           else Some (Ok (), ks1))
      | Some (Err e) \<Rightarrow> Some (Err e, ks)
      | Some Panic \<Rightarrow> Some (Panic, ks))"

definition storage_set ::
  "'m mem_ops \<Rightarrow> crates \<Rightarrow> 'q task_channel \<Rightarrow> bytes \<Rightarrow> bytes \<Rightarrow> ('m, 'q) kip_storage \<Rightarrow> (unit outcome \<times> ('m, 'q) kip_storage) option" where
  "storage_set sm c ch key val ks = append_cmd_data sm c ch (key, Some val) ks"

definition storage_get ::
  "'m mem_ops \<Rightarrow> crates \<Rightarrow> hashing \<Rightarrow> 'q task_channel \<Rightarrow> bytes \<Rightarrow> ('m, 'q) kip_storage \<Rightarrow>
   (bytes option \<times> ('m, 'q) kip_storage) outcome option" where
  "storage_get sm c hs ch key ks =
     (case mem_find sm (ks_mem ks) key of
        Some (_, val) \<Rightarrow> Some (Ok (val, ks))
      | None \<Rightarrow>
          bind_oo (query_and_compaction c hs ch key (ks_version ks) (ks_store ks) (ks_chan ks)) (\<lambda>(kv, st, q).
            let ks1 = set_store st (ks\<lparr>ks_chan := q\<rparr>) in
            case kv of Some (_, val) \<Rightarrow> Some (Ok (val, ks1)) | None \<Rightarrow> Some (Ok (None, ks1))))"

text \<open>\<open>remove\<close> reads first, so the store has changed even when the key is not found.\<close>

definition storage_remove ::
  "'m mem_ops \<Rightarrow> crates \<Rightarrow> hashing \<Rightarrow> 'q task_channel \<Rightarrow> bytes \<Rightarrow> ('m, 'q) kip_storage \<Rightarrow>
   (unit outcome \<times> ('m, 'q) kip_storage) option" where
  "storage_remove sm c hs ch key ks =
     (case storage_get sm c hs ch key ks of
        None \<Rightarrow> None
      | Some (Ok (Some _, ks1)) \<Rightarrow> append_cmd_data sm c ch (key, None) ks1
      | Some (Ok (None, ks1)) \<Rightarrow> Some (Err KeyNotFound, ks1)
      | Some (Err e) \<Rightarrow> Some (Err e, ks)
      | Some Panic \<Rightarrow> Some (Panic, ks))"

definition storage_size_of_disk :: "('m, 'q) kip_storage \<Rightarrow> nat" where
  "storage_size_of_disk ks = version_size_of_disk (ks_version ks)"

definition storage_len :: "'m mem_ops \<Rightarrow> ('m, 'q) kip_storage \<Rightarrow> nat" where
  "storage_len sm ks = version_len (ks_version ks) + mem_len sm (ks_mem ks)"

definition storage_is_empty :: "'m mem_ops \<Rightarrow> ('m, 'q) kip_storage \<Rightarrow> bool" where
  "storage_is_empty sm ks \<longleftrightarrow> version_is_empty (ks_version ks) \<and> mem_is_empty sm (ks_mem ks)"

text \<open>\<open>flush\<close> waits for room in the channel and then for the answer of the compactor.\<close>

definition storage_flush :: "'q task_channel \<Rightarrow> ('m, 'q) kip_storage \<Rightarrow> ('m, 'q) kip_storage outcome" where
  "storage_flush ch ks =
     (case send_wait ch (Task_Flush True) (ks_chan ks) of
        None \<Rightarrow> Err SendCompactTaskError
      | Some q \<Rightarrow>
          (let (answered, q') = recv_reply ch q
           in if answered then Ok (ks\<lparr>ks_chan := q'\<rparr>) else Err ChannelClose))"

definition flush_background :: "'q task_channel \<Rightarrow> ('m, 'q) kip_storage \<Rightarrow> ('m, 'q) kip_storage outcome" where
  "flush_background ch ks =
     (case send_wait ch (Task_Flush False) (ks_chan ks) of
        None \<Rightarrow> Err SendCompactTaskError
      | Some q \<Rightarrow> Ok (ks\<lparr>ks_chan := q\<rparr>))"

definition manual_compaction ::
  "'q task_channel \<Rightarrow> bytes \<Rightarrow> bytes \<Rightarrow> nat \<Rightarrow> ('m, 'q) kip_storage \<Rightarrow> ('m, 'q) kip_storage outcome" where
  "manual_compaction ch lo hi level ks =
     (if lo \<le> hi then
        (let (scope, cs) = scope_from_range (ss_counters (ks_store ks)) 0 lo hi in
         case send_wait ch (Task_Seek (scope, level)) (ks_chan ks) of
           None \<Rightarrow> Err SendCompactTaskError
         | Some q \<Rightarrow> Ok (ks\<lparr>ks_chan := q, ks_store := (ks_store ks)\<lparr>ss_counters := cs\<rparr>\<rparr>))
      else Ok ks)"

definition storage_drop :: "'q task_channel \<Rightarrow> ('m, 'q) kip_storage \<Rightarrow> ('m, 'q) kip_storage" where
  "storage_drop ch ks = ks\<lparr>ks_chan := snd (try_send ch (Task_Flush False) (ks_chan ks))\<rparr>"

text \<open>A task in the hands of the compactor. The source logs an error and goes on. \<open>listens\<close> tells whether the
  caller of \<open>flush\<close> still waits.\<close>

definition handle_task ::
  "'m mem_ops \<Rightarrow> crates \<Rightarrow> hashing \<Rightarrow> bincode \<Rightarrow> config \<Rightarrow> (i64 \<Rightarrow> 64 word \<times> 64 word) \<Rightarrow> bool \<Rightarrow> compact_task \<Rightarrow>
   ('m, 'q) kip_storage \<Rightarrow> ('m, 'q) kip_storage outcome option" where
  "handle_task sm c hs bc cfg seeds listens task ks =
     (case task of
        Task_Seek (scope, level) \<Rightarrow>
          bind_oo (major_compaction c hs bc cfg seeds level scope [] True (ks_store ks)) (\<lambda>st. Some (Ok (set_store st ks)))
      | Task_Flush wanted \<Rightarrow>
          bind_oo (check_then_compaction sm c hs bc cfg seeds (if wanted then Some listens else None) (ks_mem ks) (ks_store ks))
            (\<lambda>(t, st). Some (Ok (set_mem t (ks\<lparr>ks_store := st\<rparr>)))))"

section \<open>Queries leave the store well formed\<close>

lemma loader_get_config:
  assumes "loader_get c L gen = Some (Ok (t, L'))"
  shows "tl_config L' = tl_config L"
proof -
  have load: "tl_config L1 = tl_config L" if "load_table c L gen = Some (r, L1)" for r L1
    using that by (auto simp: load_table_def factory_reader_def Let_def split: prod.splits outcome.splits option.splits)
  show ?thesis using assms load by (auto simp: loader_get_def split: if_splits option.splits outcome.splits prod.splits)
qed

text \<open>Loading tables of the generations \<open>G\<close> touches no other file and no other log; a log that is opened may appear.\<close>

definition kept_dir :: "i64 set \<Rightarrow> directory \<Rightarrow> directory \<Rightarrow> bool" where
  "kept_dir G d d' \<longleftrightarrow> (\<forall>g. g \<notin> G \<longrightarrow> btree_get d' g = btree_get d g) \<and> (keys_ascending d \<longrightarrow> keys_ascending d') \<and> fst ` set d' \<subseteq> fst ` set d \<union> G"

definition kept_files :: "i64 set \<Rightarrow> table_loader \<Rightarrow> table_loader \<Rightarrow> bool" where
  "kept_files G L L' \<longleftrightarrow> tl_config L' = tl_config L \<and> (\<forall>g. g \<notin> G \<longrightarrow> btree_get (tl_files L') g = btree_get (tl_files L) g) \<and>
     kept_dir G (tl_wal L) (tl_wal L')"

lemma kept_dir_trans: "kept_dir G d d1 \<Longrightarrow> kept_dir G d1 d2 \<Longrightarrow> kept_dir G d d2"
  unfolding kept_dir_def by (simp, blast)

lemma kept_dir_open: "gen \<in> G \<Longrightarrow> kept_dir G d (snd (open_or_create d gen))"
  by (auto simp: kept_dir_def open_or_create_def btree_get_def keys_btree_insert split: option.split)

lemma kept_dir_refl [simp]: "kept_dir G d d"
  by (simp add: kept_dir_def)

lemma kept_files_refl [simp]: "kept_files G L L" "kept_files G L (L'\<lparr>tl_cache := S\<rparr>) = kept_files G L L'"
  by (simp_all add: kept_files_def)

lemma kept_files_trans: "kept_files G L L1 \<Longrightarrow> kept_files G L1 L2 \<Longrightarrow> kept_files G L L2"
  using kept_dir_trans by (auto simp: kept_files_def)

lemma loader_get_wal:
  assumes "loader_get c L gen = Some (Ok (t, L'))"
  shows "tl_wal L' = tl_wal L \<or> tl_wal L' = snd (open_or_create (tl_wal L) gen)"
proof -
  have "tl_wal L1 = tl_wal L \<or> tl_wal L1 = snd (open_or_create (tl_wal L) gen)" if "load_table c L gen = Some (r, L1)" for r L1
    using that by (auto simp: load_table_def log_loader_load_def factory_reader_def map_outcome_ok_Ok_iff Let_def case_prod_beta
        split: outcome.splits option.splits)
  then show ?thesis
    using assms by (auto simp: loader_get_def split: option.splits outcome.splits if_splits)
qed

lemma loader_get_kept: "loader_get c L gen = Some (Ok (t, L')) \<Longrightarrow> gen \<in> G \<Longrightarrow> kept_files G L L'"
  using loader_get_config [of c L gen t L'] loader_get_files [of c L gen t L'] loader_get_wal [of c L gen t L'] kept_dir_open [of gen G "tl_wal L"]
  by (force simp: kept_files_def)

lemma query_by_scope_kept:
  assumes "query_by_scope c hs key s level L cs = Some (Ok (r, L', cs'))" "scope_gen s \<in> G"
  shows "kept_files G L L'"
  using assms(1) loader_get_kept [OF _ assms(2)]
  by (auto simp: query_by_scope_def Let_def elim!: bind_oo_OkE split: if_splits option.splits)

lemma query_level_0_kept:
  "query_level_0 c hs key ss L cs = Some (Ok (r, L', cs')) \<Longrightarrow> scope_gen ` set ss \<subseteq> G \<Longrightarrow> kept_files G L L'"
proof (induction ss arbitrary: L cs)
  case (Cons s ss)
  obtain r1 L1 cs1 where q: "query_by_scope c hs key s LEVEL_0 L cs = Some (Ok (r1, L1, cs1))"
      "(case r1 of Hit kv \<Rightarrow> Some (Ok (Some kv, L1, cs1)) | Miss _ \<Rightarrow> query_level_0 c hs key ss L1 cs1) = Some (Ok (r, L', cs'))"
    using Cons.prems(1) by (auto elim!: bind_oo_OkE)
  have "kept_files G L L1" using query_by_scope_kept [OF q(1)] Cons.prems(2) by simp
  then show ?case using q(2) Cons.IH [of L1 cs1] Cons.prems(2) by (auto split: seek_option.splits intro: kept_files_trans)
qed simp

lemma query_levels_kept:
  "query_levels c hs V key levels m L cs = Some (Ok (r, L', cs')) \<Longrightarrow> version_gens V \<subseteq> G \<Longrightarrow> kept_files G L L'"
proof (induction levels arbitrary: m L cs)
  case (Cons level levels)
  obtain offset l where l: "query_meet_index V key level = Ok offset" "index_slice (level_slice V) level = Ok l"
    using Cons.prems(1) by (auto elim!: bind_oo_OkE)
  then have lmem: "l \<in> set (level_slice V)" by (auto simp: index_slice_def split: if_splits)
  show ?case
  proof (cases "get_slice l offset")
    case None
    then show ?thesis using Cons.IH [of m L cs] Cons.prems l by simp
  next
    case (Some s)
    then have "s \<in> set l" by (auto simp: get_slice_def split: if_splits)
    then have s: "scope_gen s \<in> G" using Cons.prems(2) lmem by (auto simp: version_gens_def)
    obtain r1 L1 cs1 where q: "query_by_scope c hs key s level L cs = Some (Ok (r1, L1, cs1))"
        "(case r1 of Hit value \<Rightarrow> Some (Ok ((Some value, m), L1, cs1))
          | Miss (Some x) \<Rightarrow> query_levels c hs V key levels (case m of None \<Rightarrow> Some x | Some y \<Rightarrow> Some y) L1 cs1
          | Miss None \<Rightarrow> query_levels c hs V key levels m L1 cs1) = Some (Ok (r, L', cs'))"
      using Cons.prems(1) l Some by (auto elim!: bind_oo_OkE)
    have "kept_files G L L1" by (rule query_by_scope_kept [OF q(1) s])
    then show ?thesis using q(2) Cons.IH [of _ L1 cs1] Cons.prems(2)
      by (auto split: seek_option.splits option.splits intro: kept_files_trans)
  qed
qed simp

lemma version_query_kept:
  assumes "version_query c hs V key L cs = Some (Ok (r, L', cs'))" "version_gens V \<subseteq> G"
  shows "kept_files G L L'"
proof -
  obtain l r1 L1 cs1 where l: "index_slice (level_slice V) LEVEL_0 = Ok l" and q: "query_level_0 c hs key (rev l) L cs = Some (Ok (r1, L1, cs1))"
      "(case r1 of Some kv \<Rightarrow> Some (Ok ((Some kv, None), L1, cs1)) | None \<Rightarrow> query_levels c hs V key [1..<MAX_LEVEL] None L1 cs1) =
        Some (Ok (r, L', cs'))"
    using assms(1) by (auto simp: version_query_def elim!: bind_oo_OkE)
  have "l \<in> set (level_slice V)" using l by (auto simp: index_slice_def split: if_splits)
  then have "kept_files G L L1" using query_level_0_kept [OF q(1)] assms(2) by (auto simp: version_gens_def)
  then show ?thesis using q(2) query_levels_kept [of c hs V key "[1..<MAX_LEVEL]" None L1 cs1] assms(2)
    by (cases r) (auto split: option.splits intro: kept_files_trans)
qed

text \<open>A query of a version whose tables are live. The version may be older than the current one.\<close>

lemma query_holds:
  assumes ok: "store_ok c hs tbls content st" and V: "version_ok content (ss_counters st) V"
    and alive: "\<forall>task q. fst (try_send ch task q) \<noteq> Closed"
  shows "\<exists>st' q'. query_and_compaction c hs ch key V st q =
      Some (Ok (map_option (\<lambda>v. (key, v)) (map_of (version_data content V) key), st', q')) \<and>
    store_ok c hs tbls content st' \<and> vs_version (ss_status st') = vs_version (ss_status st) \<and> ss_gen_buf st' = ss_gen_buf st \<and>
    length (ss_counters st') = length (ss_counters st) \<and> kept_files (version_gens V) (vs_loader (ss_status st)) (vs_loader (ss_status st'))"
proof -
  note d = store_okD [OF ok]
  obtain miss L' cs' where q: "version_query c hs V key (vs_loader (ss_status st)) (ss_counters st) =
        Some (Ok ((map_option (\<lambda>v. (key, v)) (map_of (version_data content V) key), miss), L', cs'))"
      "loader_inv c hs tbls content L'" "counters_ok cs'" "length cs' = length (ss_counters st)"
    using version_query_holds [OF d(1,3) V] by blast
  let ?st = "(with_loader st L')\<lparr>ss_counters := cs'\<rparr>"
  have kept: "kept_files (version_gens V) (vs_loader (ss_status st)) L'" using version_query_kept [OF q(1)] by blast
  have live: "content g \<noteq> None" if "g \<in> version_gens V" for g
    using V that unfolding version_ok_def version_gens_def scope_live_def by blast
  have "version_ok content cs' (vs_version (ss_status st))"
    using d(4) q(4) seeks_ok_length unfolding version_ok_def by blast
  moreover have "loader_fresh tbls content L' (ss_gen_buf st)"
    using d(6) kept live unfolding loader_fresh_def kept_files_def by metis
  ultimately have "store_ok c hs tbls content ?st"
    using q d by (simp add: store_ok_def with_loader_def status_ok_def)
  moreover have "\<exists>q'. query_and_compaction c hs ch key V st q = Some (Ok (map_option (\<lambda>v. (key, v)) (map_of (version_data content V) key), ?st, q'))"
  proof (cases miss)
    case (Some m)
    obtain res q' where "try_send ch (Task_Seek m) q = (res, q')" "res \<noteq> Closed" using alive by (metis prod.collapse)
    then show ?thesis using q(1) Some by (cases res) (auto simp: query_and_compaction_def notify_def Let_def)
  qed (use q(1) in \<open>simp add: query_and_compaction_def Let_def\<close>)
  moreover have "vs_version (ss_status ?st) = vs_version (ss_status st)" "ss_gen_buf ?st = ss_gen_buf st" "vs_loader (ss_status ?st) = L'"
    by (simp_all add: with_loader_def)
  moreover have "ss_counters ?st = cs'" by simp
  ultimately show ?thesis using q(4) kept by metis
qed

section \<open>The invariant of the store\<close>

text \<open>What the immutable map has is in the version, so dropping the map loses nothing.\<close>

definition flushed :: "'m mem_ops \<Rightarrow> (i64 \<Rightarrow> key_value list option) \<Rightarrow> 'm mem_table \<Rightarrow> version \<Rightarrow> bool" where
  "flushed sm content t V \<longleftrightarrow>
     (\<forall>m key v. immut t = Some m \<and> latest (sm_iter sm m) key SEQ_MAX = Some v \<longrightarrow> map_of (version_data content V) key = Some v)"

text \<open>The generation of the active log is not the one of a table.\<close>

definition log_gen_free :: "(i64 \<Rightarrow> ss_table option) \<Rightarrow> (i64 \<Rightarrow> key_value list option) \<Rightarrow> i64 \<Rightarrow> table_loader \<Rightarrow> i64 \<Rightarrow> bool" where
  "log_gen_free tbls content gen L gen_buf \<longleftrightarrow>
     tbls gen = None \<and> content gen = None \<and> btree_get (tl_files L) gen = None \<and> gen < gen_buf"

definition storage_ok ::
  "'m mem_ops \<Rightarrow> ('m \<Rightarrow> bool) \<Rightarrow> crates \<Rightarrow> hashing \<Rightarrow> (i64 \<Rightarrow> ss_table option) \<Rightarrow> (i64 \<Rightarrow> key_value list option) \<Rightarrow> config \<Rightarrow>
   ('m, 'q) kip_storage \<Rightarrow> bool" where
  "storage_ok sm I c hs tbls content cfg ks \<longleftrightarrow>
     mem_inv sm I (ks_seq ks) (ks_mem ks) \<and> 0 \<le> ks_seq ks \<and> ks_seq ks \<le> i64_MAX \<and> store_ok c hs tbls content (ks_store ks) \<and>
     wal (ks_mem ks) = tl_wal (ks_loader ks) \<and> tl_config (ks_loader ks) = cfg \<and>
     log_gen_free tbls content (snd (wal_writer (ks_mem ks))) (ks_loader ks) (ss_gen_buf (ks_store ks)) \<and>
     flushed sm content (ks_mem ks) (ks_version ks)"

text \<open>The abstract content: the value a read sees now.\<close>

definition value_of :: "bytes option option \<Rightarrow> key_value list \<Rightarrow> bytes \<Rightarrow> bytes option" where
  "value_of seen data key = (case seen of Some v \<Rightarrow> v | None \<Rightarrow> (case map_of data key of Some v \<Rightarrow> v | None \<Rightarrow> None))"

definition storage_value :: "'m mem_ops \<Rightarrow> (i64 \<Rightarrow> key_value list option) \<Rightarrow> ('m, 'q) kip_storage \<Rightarrow> bytes \<Rightarrow> bytes option" where
  "storage_value sm content ks key =
     value_of (visible sm (ks_mem ks) SEQ_MAX key) (version_data content (ks_version ks)) key"

lemma loader_inv_wal:
  assumes "loader_inv c hs tbls content L" "\<forall>gen\<in>dom content. stored_bytes w gen = stored_bytes (tl_wal L) gen"
  shows "loader_inv c hs tbls content (L\<lparr>tl_wal := w\<rparr>)"
  using assms unfolding loader_inv_def backed_def by (auto split: outcome.splits) (metis domI)+

lemma store_ok_wal:
  assumes "store_ok c hs tbls content st" "\<forall>gen\<in>dom content. stored_bytes w gen = stored_bytes (tl_wal (vs_loader (ss_status st))) gen"
  shows "store_ok c hs tbls content (with_loader st ((vs_loader (ss_status st))\<lparr>tl_wal := w\<rparr>))"
  using assms loader_inv_wal [of c hs tbls content "vs_loader (ss_status st)" w]
  by (simp add: store_ok_def with_loader_def status_ok_def loader_fresh_def)

lemma visible_wal_update [simp]: "visible sm (t\<lparr>wal := d\<rparr>) = visible sm t" "mem_inv sm I n (t\<lparr>wal := d\<rparr>) = mem_inv sm I n t"
    "flushed sm content (t\<lparr>wal := d\<rparr>) V = flushed sm content t V"
  by (auto simp: visible_def mem_inv_def flushed_def fun_eq_iff split: option.split)

lemma wal_append_frame:
  assumes "wal_append c t r = Some (Ok t')"
  shows "snd (wal_writer t') = snd (wal_writer t)" "immut t' = immut t" "mem t' = mem t" "tx_count t' = tx_count t"
    "g \<noteq> snd (wal_writer t) \<Longrightarrow> stored_bytes (wal t') g = stored_bytes (wal t) g"
  using assms by (auto simp: wal_append_def map_outcome_ok_Ok_iff stored_bytes_def open_or_create_def btree_get_def split: option.split)

lemma insert_data_frame:
  assumes "insert_data sm c kv n t = Some (Ok (b, n', t'))"
  shows "snd (wal_writer t') = snd (wal_writer t)" "immut t' = immut t" "tx_count t' = tx_count t"
    "g \<noteq> snd (wal_writer t) \<Longrightarrow> stored_bytes (wal t') g = stored_bytes (wal t) g"
proof -
  obtain t1 trg m where t1: "wal_append c t (data_to_bytes c kv) = Some (Ok t1)" "t' = t1\<lparr>mem_trigger := trg, mem := m\<rparr>"
    using assms by (auto simp: insert_data_def map_outcome_ok_Ok_iff Let_def case_prod_beta)
  show "snd (wal_writer t') = snd (wal_writer t)" "immut t' = immut t" "tx_count t' = tx_count t"
    "g \<noteq> snd (wal_writer t) \<Longrightarrow> stored_bytes (wal t') g = stored_bytes (wal t) g"
    using wal_append_frame [OF t1(1)] t1(2) by simp_all
qed

section \<open>Operations\<close>

text \<open>What the operations leave as it was: every read at an older sequence number, the version and the number of
  open transactions.\<close>

definition snapshot_kept :: "'m mem_ops \<Rightarrow> ('m, 'q) kip_storage \<Rightarrow> ('m, 'q) kip_storage \<Rightarrow> bool" where
  "snapshot_kept sm ks ks' \<longleftrightarrow> ks_seq ks \<le> ks_seq ks' \<and>
     (\<forall>s key. s < ks_seq ks \<longrightarrow> visible sm (ks_mem ks') s key = visible sm (ks_mem ks) s key) \<and>
     tx_count (ks_mem ks') = tx_count (ks_mem ks) \<and> ks_version ks' = ks_version ks \<and>
     length (ss_counters (ks_store ks')) = length (ss_counters (ks_store ks))"

lemma snapshot_kept_refl [simp]: "snapshot_kept sm ks ks"
  by (simp add: snapshot_kept_def)

lemma snapshot_kept_trans: "snapshot_kept sm ks ks1 \<Longrightarrow> snapshot_kept sm ks1 ks2 \<Longrightarrow> snapshot_kept sm ks ks2"
  by (auto simp: snapshot_kept_def)

lemma query_keeps_storage:
  assumes ok: "storage_ok sm I c hs tbls content cfg ks" and V: "version_ok content (ss_counters (ks_store ks)) V"
    and alive: "\<forall>task q. fst (try_send ch task q) \<noteq> Closed"
  shows "\<exists>st q. query_and_compaction c hs ch key V (ks_store ks) (ks_chan ks) =
      Some (Ok (map_option (\<lambda>v. (key, v)) (map_of (version_data content V) key), st, q)) \<and>
    storage_ok sm I c hs tbls content cfg (set_store st (ks\<lparr>ks_chan := q\<rparr>)) \<and>
    storage_value sm content (set_store st (ks\<lparr>ks_chan := q\<rparr>)) = storage_value sm content ks \<and>
    ks_seq (set_store st (ks\<lparr>ks_chan := q\<rparr>)) = ks_seq ks \<and> snapshot_kept sm ks (set_store st (ks\<lparr>ks_chan := q\<rparr>))"
proof -
  have o: "store_ok c hs tbls content (ks_store ks)" using ok by (simp add: storage_ok_def)
  obtain st q where q: "query_and_compaction c hs ch key V (ks_store ks) (ks_chan ks) =
        Some (Ok (map_option (\<lambda>v. (key, v)) (map_of (version_data content V) key), st, q))"
      "store_ok c hs tbls content st" "vs_version (ss_status st) = ks_version ks" "ss_gen_buf st = ss_gen_buf (ks_store ks)"
      "kept_files (version_gens V) (ks_loader ks) (vs_loader (ss_status st))"
      "length (ss_counters st) = length (ss_counters (ks_store ks))"
    using query_holds [OF o V alive] by blast
  let ?g = "snd (wal_writer (ks_mem ks))"
  have free: "log_gen_free tbls content ?g (ks_loader ks) (ss_gen_buf (ks_store ks))" using ok by (simp add: storage_ok_def)
  have "?g \<notin> version_gens V"
    using V free unfolding version_ok_def version_gens_def scope_live_def log_gen_free_def by force
  then have "log_gen_free tbls content ?g (vs_loader (ss_status st)) (ss_gen_buf st)"
    using free q(4,5) by (simp add: log_gen_free_def kept_files_def)
  then have "storage_ok sm I c hs tbls content cfg (set_store st (ks\<lparr>ks_chan := q\<rparr>))"
    using ok q by (simp add: storage_ok_def set_store_def kept_files_def)
  then show ?thesis
    using q(1,3,6) by (intro exI [of _ st] exI [of _ q]) (simp add: storage_value_def set_store_def fun_eq_iff snapshot_kept_def)
qed

lemma storage_get_holds:
  assumes sm: "mem_map sm I" and ok: "storage_ok sm I c hs tbls content cfg ks" and alive: "\<forall>task q. fst (try_send ch task q) \<noteq> Closed"
  shows "\<exists>ks'. storage_get sm c hs ch key ks = Some (Ok (storage_value sm content ks key, ks')) \<and> storage_ok sm I c hs tbls content cfg ks' \<and>
    storage_value sm content ks' = storage_value sm content ks \<and> ks_seq ks' = ks_seq ks \<and> snapshot_kept sm ks ks'"
proof -
  have o: "mem_inv sm I (ks_seq ks) (ks_mem ks)" "store_ok c hs tbls content (ks_store ks)" using ok by (simp_all add: storage_ok_def)
  have find: "mem_find sm (ks_mem ks) key = map_option (\<lambda>v. (key, v)) (visible sm (ks_mem ks) SEQ_MAX key)"
    by (rule mem_map.mem_find_visible [OF sm o(1)])
  show ?thesis
  proof (cases "visible sm (ks_mem ks) SEQ_MAX key")
    case (Some v)
    then show ?thesis using find ok by (auto simp: storage_get_def storage_value_def value_of_def)
  next
    case None
    obtain st q where q: "query_and_compaction c hs ch key (ks_version ks) (ks_store ks) (ks_chan ks) =
        Some (Ok (map_option (\<lambda>v. (key, v)) (map_of (version_data content (ks_version ks)) key), st, q))"
        "storage_ok sm I c hs tbls content cfg (set_store st (ks\<lparr>ks_chan := q\<rparr>))"
        "storage_value sm content (set_store st (ks\<lparr>ks_chan := q\<rparr>)) = storage_value sm content ks"
        "ks_seq (set_store st (ks\<lparr>ks_chan := q\<rparr>)) = ks_seq ks" "snapshot_kept sm ks (set_store st (ks\<lparr>ks_chan := q\<rparr>))"
      using query_keeps_storage [OF ok store_okD(4) [OF o(2)] alive] by blast
    have "storage_get sm c hs ch key ks = Some (Ok (storage_value sm content ks key, set_store st (ks\<lparr>ks_chan := q\<rparr>)))"
      using find None q(1) by (auto simp: storage_get_def storage_value_def value_of_def Let_def split: option.splits)
    then show ?thesis using q(2-) by blast
  qed
qed

lemma append_holds:
  assumes sm: "mem_map sm I" and c: "int_encoding c" and ok: "storage_ok sm I c hs tbls content cfg ks"
    and alive: "\<forall>task q. fst (try_send ch task q) \<noteq> Closed" and seq: "ks_seq ks < i64_MAX"
  shows "\<exists>ks'. append_cmd_data sm c ch kv ks = Some (Ok (), ks') \<and> storage_ok sm I c hs tbls content cfg ks' \<and>
    storage_value sm content ks' = (storage_value sm content ks)(fst kv := snd kv) \<and> ks_seq ks' = ks_seq ks + 1 \<and> snapshot_kept sm ks ks'"
proof -
  have o: "mem_inv sm I (ks_seq ks) (ks_mem ks)" "store_ok c hs tbls content (ks_store ks)" "0 \<le> ks_seq ks"
      "wal (ks_mem ks) = tl_wal (ks_loader ks)" "content (snd (wal_writer (ks_mem ks))) = None"
    using ok by (simp_all add: storage_ok_def log_gen_free_def)
  obtain b t' where t': "insert_data sm c kv (ks_seq ks) (ks_mem ks) = Some (Ok (b, ks_seq ks + 1, t'))" "mem_inv sm I (ks_seq ks + 1) t'"
      "\<forall>seq key. visible sm t' seq key = (if key = fst kv \<and> ks_seq ks \<le> seq then Some (snd kv) else visible sm (ks_mem ks) seq key)"
    using mem_map.insert_data_visible [OF sm c o(1,3) seq, of kv] by blast
  note fr = insert_data_frame [OF t'(1)]
  let ?ks1 = "set_mem t' (ks\<lparr>ks_seq := ks_seq ks + 1\<rparr>)"
  have run: "\<exists>q. append_cmd_data sm c ch kv ks = Some (Ok (), ?ks1\<lparr>ks_chan := q\<rparr>)"
  proof (cases b)
    case True
    obtain res q where "try_send ch (Task_Flush False) (ks_chan ?ks1) = (res, q)" "res \<noteq> Closed" using alive by (metis prod.collapse)
    then show ?thesis using t'(1) True by (cases res) (auto simp: append_cmd_data_def notify_def Let_def)
  next
    case False
    then show ?thesis using t'(1) by (intro exI [of _ "ks_chan ?ks1"]) (simp add: append_cmd_data_def Let_def)
  qed
  have "store_ok c hs tbls content (with_loader (ks_store ks) ((ks_loader ks)\<lparr>tl_wal := wal t'\<rparr>))"
    using fr(4) o(4,5) by (intro store_ok_wal [OF o(2)]) (metis domIff)
  then have ok1: "storage_ok sm I c hs tbls content cfg (?ks1\<lparr>ks_chan := q\<rparr>)" for q
    using ok t'(2) fr(1,2) seq by (auto simp: storage_ok_def set_mem_def with_loader_def log_gen_free_def flushed_def)
  have "SEQ_MAX \<ge> ks_seq ks" using seq by (simp add: SEQ_MAX_def)
  then have "storage_value sm content (?ks1\<lparr>ks_chan := q\<rparr>) = (storage_value sm content ks)(fst kv := snd kv)" for q
    using t'(3) by (simp add: storage_value_def set_mem_def with_loader_def fun_eq_iff value_of_def)
  moreover have "ks_seq (?ks1\<lparr>ks_chan := q\<rparr>) = ks_seq ks + 1" "snapshot_kept sm ks (?ks1\<lparr>ks_chan := q\<rparr>)" for q
    using t'(3) fr(3) by (simp_all add: set_mem_def with_loader_def snapshot_kept_def)
  ultimately show ?thesis using run ok1 by metis
qed


lemma storage_remove_holds:
  assumes sm: "mem_map sm I" and c: "int_encoding c" and ok: "storage_ok sm I c hs tbls content cfg ks"
    and alive: "\<forall>task q. fst (try_send ch task q) \<noteq> Closed" and seq: "ks_seq ks < i64_MAX"
  shows "\<exists>ks'. storage_remove sm c hs ch key ks = Some (if storage_value sm content ks key = None then Err KeyNotFound else Ok (), ks') \<and>
    storage_ok sm I c hs tbls content cfg ks' \<and> storage_value sm content ks' = (storage_value sm content ks)(key := None) \<and>
    ks_seq ks' \<le> ks_seq ks + 1 \<and> snapshot_kept sm ks ks'"
proof -
  obtain ks1 where ks1: "storage_get sm c hs ch key ks = Some (Ok (storage_value sm content ks key, ks1))"
      "storage_ok sm I c hs tbls content cfg ks1" "storage_value sm content ks1 = storage_value sm content ks" "ks_seq ks1 = ks_seq ks"
      "snapshot_kept sm ks ks1"
    using storage_get_holds [OF sm ok alive] by blast
  show ?thesis
  proof (cases "storage_value sm content ks key")
    case None
    then show ?thesis using ks1 by (intro exI [of _ ks1]) (auto simp: storage_remove_def)
  next
    case (Some v)
    obtain ks2 where "append_cmd_data sm c ch (key, None) ks1 = Some (Ok (), ks2)" "storage_ok sm I c hs tbls content cfg ks2"
        "storage_value sm content ks2 = (storage_value sm content ks1)(key := None)" "ks_seq ks2 = ks_seq ks1 + 1"
        "snapshot_kept sm ks1 ks2"
      using append_holds [OF sm c ks1(2) alive, of "(key, None)"] seq ks1(4) by auto
    then show ?thesis using ks1 Some snapshot_kept_trans [OF ks1(5)] by (intro exI [of _ ks2]) (simp add: storage_remove_def)
  qed
qed

section \<open>The store as a map\<close>

text \<open>The contract of the operations of a store that holds a map from keys to values, with a bound on the
  number of writes, and what a client gets out of it: any sequence of operations is answered as by the map.\<close>

datatype store_op = Op_Set bytes bytes | Op_Get bytes | Op_Remove bytes

datatype store_answer = Done | Found_Value "bytes option" | No_Key

fun map_op :: "store_op \<Rightarrow> (bytes \<Rightarrow> bytes option) \<Rightarrow> store_answer \<times> (bytes \<Rightarrow> bytes option)" where
  "map_op (Op_Set k v) m = (Done, m(k := Some v))"
| "map_op (Op_Get k) m = (Found_Value (m k), m)"
| "map_op (Op_Remove k) m = (if m k = None then No_Key else Done, m(k := None))"

fun map_ops :: "store_op list \<Rightarrow> (bytes \<Rightarrow> bytes option) \<Rightarrow> store_answer list \<times> (bytes \<Rightarrow> bytes option)" where
  "map_ops [] m = ([], m)"
| "map_ops (o1 # ops) m = (let (a, m1) = map_op o1 m; (as, m2) = map_ops ops m1 in (a # as, m2))"

fun run_ops :: "(store_op \<Rightarrow> 's \<Rightarrow> (store_answer \<times> 's) option) \<Rightarrow> store_op list \<Rightarrow> 's \<Rightarrow> (store_answer list \<times> 's) option" where
  "run_ops run [] s = Some ([], s)"
| "run_ops run (o1 # ops) s =
     (case run o1 s of
        None \<Rightarrow> None
      | Some (a, s1) \<Rightarrow> (case run_ops run ops s1 of None \<Rightarrow> None | Some (as, s2) \<Rightarrow> Some (a # as, s2)))"

locale map_store =
  fixes run :: "store_op \<Rightarrow> 's \<Rightarrow> (store_answer \<times> 's) option"
    and inv :: "'s \<Rightarrow> bool" and room :: "'s \<Rightarrow> int" and abs :: "'s \<Rightarrow> bytes \<Rightarrow> bytes option"
  assumes run_abs: "inv s \<Longrightarrow> 0 < room s \<Longrightarrow> \<exists>s'. run op s = Some (fst (map_op op (abs s)), s') \<and> inv s' \<and>
      abs s' = snd (map_op op (abs s)) \<and> room s - 1 \<le> room s'"
begin

lemma run_ops_abs:
  "inv s \<Longrightarrow> int (length ops) \<le> room s \<Longrightarrow> \<exists>s'. run_ops run ops s = Some (fst (map_ops ops (abs s)), s') \<and> inv s' \<and>
    abs s' = snd (map_ops ops (abs s))"
proof (induction ops arbitrary: s)
  case (Cons o1 ops)
  obtain s1 where s1: "run o1 s = Some (fst (map_op o1 (abs s)), s1)" "inv s1" "abs s1 = snd (map_op o1 (abs s))" "room s - 1 \<le> room s1"
    using run_abs [OF Cons.prems(1)] Cons.prems(2) by auto
  then obtain s2 where "run_ops run ops s1 = Some (fst (map_ops ops (abs s1)), s2)" "inv s2" "abs s2 = snd (map_ops ops (abs s1))"
    using Cons.IH [OF s1(2)] Cons.prems(2) by auto
  then show ?case using s1 by (simp add: case_prod_beta Let_def)
qed simp

end

text \<open>The operations of \<open>KipStorage\<close> as answers. A failure other than a missing key ends the sequence.\<close>

fun storage_run ::
  "'m mem_ops \<Rightarrow> crates \<Rightarrow> hashing \<Rightarrow> 'q task_channel \<Rightarrow> store_op \<Rightarrow> ('m, 'q) kip_storage \<Rightarrow> (store_answer \<times> ('m, 'q) kip_storage) option" where
  "storage_run sm c hs ch (Op_Set k v) ks =
     (case storage_set sm c ch k v ks of Some (Ok _, ks') \<Rightarrow> Some (Done, ks') | _ \<Rightarrow> None)"
| "storage_run sm c hs ch (Op_Get k) ks =
     (case storage_get sm c hs ch k ks of Some (Ok (v, ks')) \<Rightarrow> Some (Found_Value v, ks') | _ \<Rightarrow> None)"
| "storage_run sm c hs ch (Op_Remove k) ks =
     (case storage_remove sm c hs ch k ks of
        Some (Ok _, ks') \<Rightarrow> Some (Done, ks')
      | Some (Err KeyNotFound, ks') \<Rightarrow> Some (No_Key, ks')
      | _ \<Rightarrow> None)"

lemma storage_run_holds:
  assumes "mem_map sm I" "int_encoding c" "\<forall>task q. fst (try_send ch task q) \<noteq> Closed" "storage_ok sm I c hs tbls content cfg ks"
    and "ks_seq ks < i64_MAX"
  shows "\<exists>ks'. storage_run sm c hs ch op ks = Some (fst (map_op op (storage_value sm content ks)), ks') \<and>
    storage_ok sm I c hs tbls content cfg ks' \<and> storage_value sm content ks' = snd (map_op op (storage_value sm content ks)) \<and>
    ks_seq ks' \<le> ks_seq ks + 1 \<and> snapshot_kept sm ks ks'"
proof (cases op)
  case (Op_Set k v)
  then show ?thesis using append_holds [OF assms(1,2,4,3,5), of "(k, Some v)"] by (auto simp: storage_set_def)
next
  case (Op_Get k)
  then show ?thesis using storage_get_holds [OF assms(1,4,3), of k] by fastforce
next
  case (Op_Remove k)
  then show ?thesis using storage_remove_holds [OF assms(1,2,4,3,5), of k] by (auto split: if_splits)
qed

definition serviceable ::
  "'m mem_ops \<Rightarrow> ('m \<Rightarrow> bool) \<Rightarrow> crates \<Rightarrow> hashing \<Rightarrow> 'q task_channel \<Rightarrow> (i64 \<Rightarrow> ss_table option) \<Rightarrow> (i64 \<Rightarrow> key_value list option) \<Rightarrow> config \<Rightarrow>
   ('m, 'q) kip_storage \<Rightarrow> bool" where
  "serviceable sm I c hs ch tbls content cfg ks \<longleftrightarrow> mem_map sm I \<and> int_encoding c \<and> (\<forall>task q. fst (try_send ch task q) \<noteq> Closed) \<and>
     storage_ok sm I c hs tbls content cfg ks"

interpretation kip: map_store "storage_run sm c hs ch" "serviceable sm I c hs ch tbls content cfg" "\<lambda>ks. i64_MAX - ks_seq ks"
    "storage_value sm content" for sm I c hs ch tbls content cfg
  by unfold_locales (use storage_run_holds in \<open>fastforce simp: serviceable_def\<close>)

section \<open>The flush\<close>

lemma open_stored_bytes: "stored_bytes (snd (open_or_create d gen)) g = stored_bytes d g"
  by (auto simp: stored_bytes_def open_or_create_def btree_get_def split: option.split)

lemma loader_fresh_mono: "loader_fresh tbls content L g \<Longrightarrow> g \<le> g' \<Longrightarrow> loader_fresh tbls content L g'"
  by (simp add: loader_fresh_def)

lemma flush_holds:
  assumes sm: "mem_map sm I" and c: "int_encoding c" "lz4_codec c" and ok: "storage_ok sm I c hs tbls content cfg ks"
    and t: "tx_count (ks_mem ks) = 0" "\<not> mem_is_empty sm (ks_mem ks)" and vals: "table_storable c hs cfg (swap_data sm (mem (ks_mem ks)))"
    and cfg: "index_slice (level_table_type cfg) 0 = Ok SortedString" "is_threshold_exceeded_major (ks_version ks) cfg 0 = Ok False"
    and gen: "ss_gen_buf (ks_store ks) + 1 < i64_MAX" and room: "table_room (ks_version ks) 1"
  shows "\<exists>ks' tbls' content'. handle_task sm c hs bc cfg seeds True (Task_Flush wanted) ks = Some (Ok ks') \<and>
    storage_ok sm I c hs tbls' content' cfg ks' \<and> storage_value sm content' ks' = storage_value sm content ks \<and> mem_is_empty sm (ks_mem ks') \<and>
    content' = content(snd (wal_writer (ks_mem ks)) \<mapsto> swap_data sm (mem (ks_mem ks)))"
proof -
  let ?t = "ks_mem ks" and ?st = "ks_store ks" and ?L = "ks_loader ks"
  have om: "ordered_map sm I" using sm by (simp add: mem_map_def)
  have o: "mem_inv sm I (ks_seq ks) ?t" "0 \<le> ks_seq ks" "ks_seq ks \<le> i64_MAX" "store_ok c hs tbls content ?st" "wal ?t = tl_wal ?L"
      "tl_config ?L = cfg" "log_gen_free tbls content (snd (wal_writer ?t)) ?L (ss_gen_buf ?st)" "flushed sm content ?t (ks_version ks)"
    using ok by (simp_all add: storage_ok_def)
  note d = store_okD [OF o(4)]
  let ?vals = "swap_data sm (mem ?t)" and ?old = "snd (wal_writer ?t)" and ?new = "ss_gen_buf ?st"
  have m: "I (mem ?t)" "entries_before sm (ks_seq ks) (mem ?t)" using o(1) by (simp_all add: mem_inv_def)
  have gc: "gen_create ?new = (?new, ?new + 1)" using create_next(2) [OF d(7)] gen by simp
  define w where "w = log_loader_writer (wal ?t) ?new"
  define t1 where "t1 = ?t\<lparr>mem_trigger := trigger_reset (mem_trigger ?t), immut := Some (mem ?t), mem := sm_new sm, wal := snd w, wal_writer := (fst w, ?new)\<rparr>"
  have sw: "swap sm ?new ?t = Some (Some (?old, ?vals), ?new + 1, t1)"
    using t gc by (simp add: swap_def mem_is_empty_def t1_def w_def case_prod_beta Let_def)
  have wal1: "stored_bytes (wal t1) g = stored_bytes (tl_wal ?L) g" for g
    using open_stored_bytes o(5)
    by (simp add: t1_def w_def log_loader_writer_def factory_writer_def case_prod_beta stored_bytes_def)
  let ?st0 = "?st\<lparr>ss_gen_buf := ?new + 1\<rparr>"
  let ?st1 = "with_loader ?st0 ((vs_loader (ss_status ?st0))\<lparr>tl_wal := wal t1\<rparr>)"
  have ok0: "store_ok c hs tbls content ?st0" using o(4) loader_fresh_mono [OF d(6), of "?new + 1"] d(7) by (simp add: store_ok_def)
  have ok1: "store_ok c hs tbls content ?st1" by (rule store_ok_wal [OF ok0]) (simp add: wal1)
  have st1: "vs_version (ss_status ?st1) = ks_version ks" "tl_config (vs_loader (ss_status ?st1)) = cfg" "ss_gen_buf ?st1 = ?new + 1"
      "tl_files (vs_loader (ss_status ?st1)) = tl_files ?L"
    using o(6) by (simp_all add: with_loader_def)
  have free: "tbls ?old = None" "content ?old = None" "btree_get (tl_files ?L) ?old = None" "?old < ?new"
    using o(7) by (simp_all add: log_gen_free_def)
  obtain st' tbls' content' where st': "minor_compaction c hs bc cfg seeds ?old ?vals ?st1 = Some (Ok st')"
      "store_ok c hs tbls' content' st'" "content' = content(?old \<mapsto> ?vals)" "\<exists>t. tbls' = tbls(?old \<mapsto> t)"
      "tl_config (vs_loader (ss_status st')) = cfg" "?new + 1 \<le> ss_gen_buf st'"
      "\<forall>g. g \<noteq> ?old \<longrightarrow> btree_get (tl_files (vs_loader (ss_status st'))) g = btree_get (tl_files ?L) g"
      "map_of (version_data content' (vs_version (ss_status st'))) = map_of (?vals @ version_data content (ks_version ks))"
    using minor_compaction_holds [OF c ok1 st1(1) [symmetric] st1(2) cfg vals free(1,2), of bc seeds] free(3,4) gen room
    unfolding st1(3,4) by auto
  let ?t' = "t1\<lparr>wal := tl_wal (vs_loader (ss_status st'))\<rparr>"
  let ?ks = "set_mem ?t' (ks\<lparr>ks_store := st'\<rparr>)"
  have ne: "?vals \<noteq> []" using vals by (simp add: table_storable_def table_input_ok_def)
  have run: "handle_task sm c hs bc cfg seeds True (Task_Flush wanted) ks = Some (Ok ?ks)"
    using sw st'(1) ne by (simp add: handle_task_def check_then_compaction_def Let_def)
  have "writer_ok (fst w)"
    by (simp add: w_def log_loader_writer_def factory_writer_def case_prod_beta log_writer_new_at)
  then have inv': "mem_inv sm I (ks_seq ks) ?t'"
    using m ordered_map.inv_new [OF om] ordered_map.iter_new [OF om] by (simp add: mem_inv_def t1_def entries_before_def)
  have vis': "visible sm ?t' s key = latest (sm_iter sm (mem ?t)) key s" for s key
    by (simp add: visible_def t1_def ordered_map.iter_new [OF om])
  have data: "map_of ?vals key = latest (sm_iter sm (mem ?t)) key SEQ_MAX" for key
    by (rule mem_map.swap_data_latest(2) [OF sm m o(3)])
  have new: "?old \<noteq> ?new" "tbls ?new = None" "content ?new = None" "btree_get (tl_files ?L) ?new = None"
    using free(4) d(6) by (auto simp: loader_fresh_def)
  have "log_gen_free tbls' content' ?new (vs_loader (ss_status st')) (ss_gen_buf st')"
    using new st'(3,4,6,7) by (auto simp: log_gen_free_def)
  moreover have "flushed sm content' ?t' (vs_version (ss_status st'))"
    using data unfolding flushed_def st'(8) by (simp add: t1_def map_add_def)
  ultimately have "storage_ok sm I c hs tbls' content' cfg ?ks"
    using inv' o(2,3) st'(2,5) by (simp add: storage_ok_def set_mem_def with_loader_def t1_def)
  moreover have "storage_value sm content' ?ks = storage_value sm content ks"
  proof
    fix key
    have "visible sm ?t SEQ_MAX key = latest (sm_iter sm (mem ?t)) key SEQ_MAX \<or>
        latest (sm_iter sm (mem ?t)) key SEQ_MAX = None \<and> (\<forall>v. visible sm ?t SEQ_MAX key = Some v \<longrightarrow>
          map_of (version_data content (ks_version ks)) key = Some v)"
      using o(8) by (auto simp: visible_def flushed_def split: option.splits)
    moreover have "storage_value sm content' ?ks key = value_of (latest (sm_iter sm (mem ?t)) key SEQ_MAX)
        (?vals @ version_data content (ks_version ks)) key"
      by (simp add: storage_value_def set_mem_def with_loader_def vis' [simplified] value_of_def del: map_of_append) (unfold st'(8), rule refl)
    ultimately show "storage_value sm content' ?ks key = storage_value sm content ks key"
      using data [of key] by (auto simp: storage_value_def value_of_def map_add_def split: option.splits)
  qed
  moreover have "mem_is_empty sm (ks_mem ?ks)"
    using ordered_map.iter_new [OF om]
    by (simp add: mem_is_empty_def set_mem_def t1_def ordered_map.is_empty_iter [OF om] ordered_map.inv_new [OF om])
  ultimately show ?thesis using run st'(3) by blast
qed

section \<open>Properties\<close>

text \<open>C1: \<open>KipStorage\<close> refines a map. Any sequence of \<open>set\<close>, \<open>get\<close> and \<open>remove\<close> returns and is answered as by the map of the
  values that are visible at the start, \<open>KeyNotFound\<close> included, wherever these values are stored; the
  invariant of the store is kept. The number of operations is bounded by the sequence numbers that are left.\<close>

theorem storage_refines_map:
  assumes "mem_map sm I" "int_encoding c" "\<forall>task q. fst (try_send ch task q) \<noteq> Closed" "storage_ok sm I c hs tbls content cfg ks"
    and "int (length ops) \<le> i64_MAX - ks_seq ks"
  shows "\<exists>ks'. run_ops (storage_run sm c hs ch) ops ks = Some (fst (map_ops ops (storage_value sm content ks)), ks') \<and>
    storage_ok sm I c hs tbls content cfg ks' \<and> storage_value sm content ks' = snd (map_ops ops (storage_value sm content ks))"
  using kip.run_ops_abs [of sm I c hs ch tbls content cfg ks ops] assms by (auto simp: serviceable_def)

definition sample_channel :: "unit task_channel" where
  "sample_channel = \<lparr>try_send = (\<lambda>_ _. (Sent, ())), send_wait = (\<lambda>_ _. Some ()), recv_reply = (\<lambda>_. (True, ()))\<rparr>"

definition sample_storage :: "(internal_key \<times> bytes option) list \<Rightarrow> store_state \<Rightarrow>
    ((internal_key, bytes option) btree_map, unit) kip_storage" where
  "sample_storage entries st = \<lparr>ks_mem = sample_mem\<lparr>mem := entries, immut := None, wal := tl_wal (vs_loader (ss_status st))\<rparr>,
     ks_store = st, ks_chan = (), ks_seq = 2\<rparr>"

lemma sample_storage_ok:
  assumes "keys_ascending entries" "\<forall>ik\<in>fst ` set entries. 0 \<le> ik_seq ik \<and> ik_seq ik < 2"
  shows "\<exists>st. storage_ok btree_skip_map keys_ascending le_crates sum_hashing Map.empty Map.empty sample_config0 (sample_storage entries st) \<and>
    level_slice (ks_version (sample_storage entries st)) = level_slice_new \<and> table_room (ks_version (sample_storage entries st)) 1 \<and> ss_gen_buf (ks_store (sample_storage entries st)) = 10 \<and>
    storage_value btree_skip_map Map.empty (sample_storage entries st) = (\<lambda>key. case latest entries key SEQ_MAX of Some v \<Rightarrow> v | None \<Rightarrow> None)"
proof -
  obtain st where st: "store_ok le_crates sum_hashing Map.empty Map.empty st" "tl_config (vs_loader (ss_status st)) = sample_config0"
      "level_slice (vs_version (ss_status st)) = level_slice_new" "ss_gen_buf st = 10" "tl_files (vs_loader (ss_status st)) = []"
      "table_room (vs_version (ss_status st)) 1"
    using sample_store by (auto simp: table_room_def u64_MAX_def usize_MAX_def)
  have "storage_ok btree_skip_map keys_ascending le_crates sum_hashing Map.empty Map.empty sample_config0 (sample_storage entries st)"
    using assms st sample_mem_inv
    by (simp add: storage_ok_def sample_storage_def mem_inv_def sample_mem_def btree_skip_map_def entries_before_def log_gen_free_def
        flushed_def btree_get_def i64_MAX_def)
  moreover have "version_data Map.empty (vs_version (ss_status st)) = []"
    by (simp add: version_data_def st(3) level_slice_new_def MAX_LEVEL_def upt_rec)
  ultimately show ?thesis
    using st by (intro exI [of _ st])
      (auto simp: sample_storage_def sample_mem_def storage_value_def value_of_def visible_def btree_skip_map_def fun_eq_iff split: option.split)
qed

theorem storage_refines_map_witness:
  "\<exists>ks ks'. run_ops (storage_run btree_skip_map le_crates sum_hashing sample_channel)
      [Op_Set [1] [2], Op_Get [1], Op_Remove [1], Op_Get [1], Op_Remove [3]] ks =
    Some ([Done, Found_Value (Some [2]), Done, Found_Value None, No_Key], ks')"
proof -
  obtain st where st: "storage_ok btree_skip_map keys_ascending le_crates sum_hashing Map.empty Map.empty sample_config0 (sample_storage [] st)"
      "storage_value btree_skip_map Map.empty (sample_storage [] st) = (\<lambda>key. None)"
    using sample_storage_ok [of "[]"] by auto
  show ?thesis
    using storage_refines_map [OF bt.mem_map_axioms le.int_encoding_axioms _ st(1),
        of sample_channel "[Op_Set [1] [2], Op_Get [1], Op_Remove [1], Op_Get [1], Op_Remove [3]]"] st(2)
    by (auto simp: sample_channel_def sample_storage_def i64_MAX_def)
qed

text \<open>C6: a flush that needs no major compaction changes no read. When no transaction is open, level 0 is below its threshold and made
  of \<open>SortedString\<close> tables, the memory table is not empty and its newest values can be stored as one table (in particular no value is
  an empty string), and the statistics of the version have room for a table, handling \<open>CompactTask::Flush\<close>
  succeeds, empties the memory table into a new table of level 0 and leaves every value as it was; what the
  immutable map shows is what the version stores.\<close>

theorem flush_correct:
  assumes "mem_map sm I" "int_encoding c" "lz4_codec c" "storage_ok sm I c hs tbls content cfg ks"
    and "tx_count (ks_mem ks) = 0" "\<not> mem_is_empty sm (ks_mem ks)" "table_storable c hs cfg (swap_data sm (mem (ks_mem ks)))"
    and "index_slice (level_table_type cfg) 0 = Ok SortedString" "is_threshold_exceeded_major (ks_version ks) cfg 0 = Ok False"
    and "ss_gen_buf (ks_store ks) + 1 < i64_MAX" "table_room (ks_version ks) 1"
  shows "\<exists>ks' tbls' content'. handle_task sm c hs bc cfg seeds True (Task_Flush wanted) ks = Some (Ok ks') \<and>
    storage_ok sm I c hs tbls' content' cfg ks' \<and> storage_value sm content' ks' = storage_value sm content ks \<and> mem_is_empty sm (ks_mem ks')"
  using flush_holds [OF assms] by blast

theorem flush_correct_witness:
  "\<exists>ks ks' tbls' content'. handle_task btree_skip_map le_crates sum_hashing wire_bincode sample_config0 (\<lambda>_. (11, 22)) True (Task_Flush False) ks =
      Some (Ok ks') \<and>
    storage_ok btree_skip_map keys_ascending le_crates sum_hashing tbls' content' sample_config0 (ks' :: (_, unit) kip_storage) \<and>
    mem_is_empty btree_skip_map (ks_mem ks') \<and> storage_value btree_skip_map content' ks' [1] = Some [7]"
proof -
  let ?entries = "[(InternalKey [1] 0, Some [7]), (InternalKey [2] 1, None)]"
  obtain st where st: "storage_ok btree_skip_map keys_ascending le_crates sum_hashing Map.empty Map.empty sample_config0 (sample_storage ?entries st)"
      "level_slice (ks_version (sample_storage ?entries st)) = level_slice_new" "ss_gen_buf (ks_store (sample_storage ?entries st)) = 10"
      "storage_value btree_skip_map Map.empty (sample_storage ?entries st) = (\<lambda>key. case latest ?entries key SEQ_MAX of Some v \<Rightarrow> v | None \<Rightarrow> None)"
      "table_room (ks_version (sample_storage ?entries st)) 1"
    using sample_storage_ok [of ?entries] by (auto simp: internal_key_less)
  let ?ks = "sample_storage ?entries st"
  have vals: "swap_data btree_skip_map (mem (ks_mem ?ks)) = sample_pairs"
    by (simp add: swap_data_def sample_storage_def btree_skip_map_def sample_pairs_def)
  have t: "tx_count (ks_mem ?ks) = 0" "\<not> mem_is_empty btree_skip_map (ks_mem ?ks)"
    by (simp_all add: sample_storage_def sample_mem_def mem_is_empty_def btree_skip_map_def)
  have v: "storage_value btree_skip_map Map.empty ?ks [1] = Some [7]"
    unfolding st(4) by (simp add: latest_Cons SEQ_MAX_def i64_MAX_def)
  have gen: "ss_gen_buf (ks_store ?ks) + 1 < i64_MAX" unfolding st(3) by (simp add: i64_MAX_def)
  have ty: "index_slice (level_table_type sample_config0) 0 = Ok SortedString" by (rule sample_level_type) (simp add: MAX_LEVEL_def)
  show ?thesis
    using flush_correct [OF bt.mem_map_axioms le.int_encoding_axioms le.lz4_codec_axioms st(1) t _ ty few_tables [OF st(2)] gen st(5),
        of wire_bincode "\<lambda>_. (11, 22)" False] vals v sample_storable
    by metis
qed

end
