(* ===== verification/Version_Iter.thy ===== *)
theory Version_Iter
  imports Level_Iter
begin

text \<open>
  \<open>src/src/kernel/lsm/version/iter.rs\<close>: the iterator over a version, a \<open>SeekMergingIter\<close> over the tables of level 0,
  the newest first, and one \<open>LevelIter\<close> for each of the levels 1 to \<open>MAX_LEVEL - 2\<close>. The boxed iterators are the
  values of \<open>version_source\<close>.
\<close>

section \<open>The iterator\<close>

datatype version_source = Table_Source table_iter | Level_Source level_iter

fun source_step :: "crates \<Rightarrow> (version_source, table_loader) iter_step" where
  "source_step c (Table_Source it) L =
     bind_oo (Some (ti_try_next c it (tl_cache L))) (\<lambda>(x, it', S). Some (Ok (x, Table_Source it', L\<lparr>tl_cache := S\<rparr>)))"
| "source_step c (Level_Source it) L =
     bind_oo (level_try_next c it L) (\<lambda>(x, it', L'). Some (Ok (x, Level_Source it', L')))"

fun source_seek :: "crates \<Rightarrow> (version_source, table_loader) iter_seek" where
  "source_seek c (Table_Source it) L to =
     bind_oo (Some (ti_seek c it (tl_cache L) to)) (\<lambda>(it', S). Some (Ok (Table_Source it', L\<lparr>tl_cache := S\<rparr>)))"
| "source_seek c (Level_Source it) L to =
     bind_oo (level_seek c it L to) (\<lambda>(it', L'). Some (Ok (Level_Source it', L')))"

fun source_is_valid :: "version_source \<Rightarrow> bool" where
  "source_is_valid (Table_Source it) = ti_is_valid it"
| "source_is_valid (Level_Source it) = level_is_valid it"

fun level_0_sources :: "crates \<Rightarrow> box_table list \<Rightarrow> table_loader \<Rightarrow> (version_source list \<times> table_loader) outcome option" where
  "level_0_sources c [] L = Some (Ok ([], L))"
| "level_0_sources c (table # ts) L =
     bind_oo (Some (table_iter_new c table (tl_cache L))) (\<lambda>(it, S).
     bind_oo (level_0_sources c ts (L\<lparr>tl_cache := S\<rparr>)) (\<lambda>(its, L').
     Some (Ok (Table_Source it # its, L'))))"

text \<open>An error of \<open>LevelIter::new\<close> is dropped together with the level.\<close>

fun level_sources :: "crates \<Rightarrow> version \<Rightarrow> nat list \<Rightarrow> table_loader \<Rightarrow> (version_source list \<times> table_loader) outcome option" where
  "level_sources c V [] L = Some (Ok ([], L))"
| "level_sources c V (level # levels) L =
     (case level_iter_new c V L level of
        None \<Rightarrow> None
      | Some (Ok it, L1) \<Rightarrow>
          bind_oo (level_sources c V levels L1) (\<lambda>(its, L2). Some (Ok (Level_Source it # its, L2)))
      | Some (Err _, L1) \<Rightarrow> level_sources c V levels L1
      | Some (Panic, L1) \<Rightarrow> Some Panic)"

definition merging_with_version :: "crates \<Rightarrow> version \<Rightarrow> table_loader \<Rightarrow> (version_source list \<times> table_loader) outcome option" where
  "merging_with_version c V L =
     bind_oo (tables_by_level_0 c V L) (\<lambda>(tables, L1).
     bind_oo (level_0_sources c tables L1) (\<lambda>(its, L2).
     bind_oo (level_sources c V [1..<MAX_LEVEL - 1] L2) (\<lambda>(its', L3).
     Some (Ok (its @ its', L3)))))"

type_synonym version_iter = "version_source merging_iter"

definition version_iter_new :: "crates \<Rightarrow> version \<Rightarrow> table_loader \<Rightarrow> (version_iter \<times> table_loader) outcome option" where
  "version_iter_new c V L = bind_oo (merging_with_version c V L) (\<lambda>(its, L1). merging_new (source_step c) its L1)"

definition version_iter_try_next :: "crates \<Rightarrow> (version_iter, table_loader) iter_step" where
  "version_iter_try_next c M L = merging_try_next (source_step c) M L"

definition version_iter_is_valid :: "version_iter \<Rightarrow> bool" where
  "version_iter_is_valid M = merging_is_valid source_is_valid M"

definition version_iter_seek :: "crates \<Rightarrow> (version_iter, table_loader) iter_seek" where
  "version_iter_seek c M L to = merging_seek (source_step c) (source_seek c) M L to"

section \<open>The sources\<close>

fun source_rest ::
  "crates \<Rightarrow> (i64 \<Rightarrow> ss_table option) \<Rightarrow> (i64 \<Rightarrow> key_value list option) \<Rightarrow> version_source \<Rightarrow> key_value list \<Rightarrow> bool" where
  "source_rest c tbls content (Table_Source it) kvs \<longleftrightarrow> ti_rest c tbls it kvs"
| "source_rest c tbls content (Level_Source it) kvs \<longleftrightarrow> li_rest c tbls content it kvs"

fun source_content ::
  "crates \<Rightarrow> (i64 \<Rightarrow> ss_table option) \<Rightarrow> (i64 \<Rightarrow> key_value list option) \<Rightarrow> version_source \<Rightarrow> key_value list \<Rightarrow> bool" where
  "source_content c tbls content (Table_Source it) kvs \<longleftrightarrow> ti_content c tbls it kvs"
| "source_content c tbls content (Level_Source it) kvs \<longleftrightarrow> li_content content it kvs"

interpretation source: kv_iter "source_step c" "loader_inv c hs tbls content" "source_rest c tbls content" for c hs tbls content
proof unfold_locales
  fix L it kvs assume inv: "loader_inv c hs tbls content L" and rest: "source_rest c tbls content it kvs"
  show "\<exists>it' L'. source_step c it L = Some (Ok (case kvs of [] \<Rightarrow> None | kv # _ \<Rightarrow> Some kv, it', L')) \<and>
      loader_inv c hs tbls content L' \<and> source_rest c tbls content it' (tl kvs)"
  proof (cases it)
    case (Table_Source t)
    have "cache_sound c tbls (tl_cache L)" using inv by (simp add: loader_inv_def)
    from ti.step_rest [OF this, of t kvs] show ?thesis using rest inv Table_Source by (fastforce simp: ti_step_def loader_inv_def)
  next
    case (Level_Source t)
    then show ?thesis using li.step_rest [OF inv, of t kvs] rest by fastforce
  qed
qed

interpretation source: kv_seek_iter "source_step c" "loader_inv c hs tbls content" "source_rest c tbls content" "source_seek c"
    "source_content c tbls content" for c hs tbls content
proof unfold_locales
  fix L it kvs to assume inv: "loader_inv c hs tbls content L" and con: "source_content c tbls content it kvs" and to: "to \<noteq> Seek_Last"
  show "\<exists>it' L' r. source_seek c it L to = Some (Ok (it', L')) \<and> loader_inv c hs tbls content L' \<and> source_content c tbls content it' kvs \<and>
      source_rest c tbls content it' r \<and> seek_to to kvs r"
  proof (cases it)
    case (Table_Source t)
    have "cache_sound c tbls (tl_cache L)" using inv by (simp add: loader_inv_def)
    from ti.seek_content [OF this, of t kvs, OF _ to] show ?thesis
      using con inv Table_Source by (fastforce simp: ti_seek_step_def loader_inv_def)
  next
    case (Level_Source t)
    then show ?thesis using li.seek_content [OF inv, of t kvs, OF _ to] con by fastforce
  qed
next
  fix L it kvs x it' L' assume inv: "loader_inv c hs tbls content L" and con: "source_content c tbls content it kvs"
    and run: "source_step c it L = Some (Ok (x, it', L'))"
  show "source_content c tbls content it' kvs"
  proof (cases it)
    case (Table_Source t)
    then show ?thesis using ti.step_content [of c tbls "tl_cache L" t kvs] con inv run
      by (auto simp: ti_step_def loader_inv_def elim!: bind_oo_OkE)
  next
    case (Level_Source t)
    then show ?thesis using level_step_content [of content t kvs] con run by (auto elim!: bind_oo_OkE)
  qed
qed

lemma get_tables_holds:
  assumes "loader_inv c hs tbls content L" "\<forall>s\<in>set ss. scope_live content s"
  shows "\<exists>ts L'. get_tables c ss L = Some (Ok (ts, L')) \<and> loader_inv c hs tbls content L' \<and>
    list_all2 (\<lambda>t s. table_holds c hs tbls t (scope_gen s) (scope_data content s)) ts ss"
  using assms
proof (induction ss arbitrary: L)
  case (Cons s ss)
  have live: "content (scope_gen s) = Some (scope_data content s)" using Cons.prems(2) by (simp add: scope_live_def)
  obtain t L1 where t: "loader_get c L (scope_gen s) = Some (Ok (Some t, L1))" "table_holds c hs tbls t (scope_gen s) (scope_data content s)"
      "loader_inv c hs tbls content L1"
    using loader_get_holds [OF Cons.prems(1) live] by blast
  then show ?case using Cons.IH [OF t(3)] Cons.prems(2) by auto
qed simp

lemma level_0_sources_rest:
  assumes "loader_inv c hs tbls content L" "list_all2 (\<lambda>t s. table_holds c hs tbls t (scope_gen s) (scope_data content s)) ts ss"
  shows "\<exists>its L'. level_0_sources c ts L = Some (Ok (its, L')) \<and> loader_inv c hs tbls content L' \<and>
    list_all2 (source_rest c tbls content) its (map (scope_data content) ss) \<and>
    list_all2 (source_content c tbls content) its (map (scope_data content) ss)"
  using assms
proof (induction ts arbitrary: ss L)
  case (Cons t ts)
  obtain s ss' where ss: "ss = s # ss'" "table_holds c hs tbls t (scope_gen s) (scope_data content s)"
      "list_all2 (\<lambda>t s. table_holds c hs tbls t (scope_gen s) (scope_data content s)) ts ss'"
    using Cons.prems(2) by (auto simp: list_all2_Cons1)
  have S: "cache_sound c tbls (tl_cache L)" using Cons.prems(1) by (simp add: loader_inv_def)
  obtain it S' where it: "table_iter_new c t (tl_cache L) = Ok (it, S')" "cache_sound c tbls S'" "ti_rest c tbls it (scope_data content s)"
      "ti_content c tbls it (scope_data content s)"
    using table_iter_new_rest [OF ss(2) S] by blast
  have "loader_inv c hs tbls content (L\<lparr>tl_cache := S'\<rparr>)" using Cons.prems(1) it(2) by (simp add: loader_inv_def)
  from Cons.IH [OF this ss(3)] show ?case using it ss(1) by fastforce
qed simp

text \<open>The levels that can be read: the empty ones are left out.\<close>

lemma level_sources_rest:
  assumes "loader_inv c hs tbls content L" "\<forall>level\<in>set levels. LEVEL_0 < level \<and> level < length (level_slice V)"
    and "\<forall>level\<in>set levels. level_slice V ! level = [] \<or> level_iterable content (level_slice V ! level)"
  shows "\<exists>its L'. level_sources c V levels L = Some (Ok (its, L')) \<and> loader_inv c hs tbls content L' \<and>
    list_all2 (source_rest c tbls content) its (map (level_data content) (filter (\<lambda>l. l \<noteq> []) (map ((!) (level_slice V)) levels))) \<and>
    list_all2 (source_content c tbls content) its (map (level_data content) (filter (\<lambda>l. l \<noteq> []) (map ((!) (level_slice V)) levels)))"
  using assms
proof (induction levels arbitrary: L)
  case (Cons level levels)
  show ?case
  proof (cases "level_slice V ! level = []")
    case True
    then show ?thesis using Cons by (simp add: level_iter_new_empty)
  next
    case False
    then obtain it L1 where it: "level_iter_new c V L level = Some (Ok it, L1)" "loader_inv c hs tbls content L1"
        "li_rest c tbls content it (level_data content (level_slice V ! level))" "li_content content it (level_data content (level_slice V ! level))"
      using level_iter_new_rest [OF Cons.prems(1), of level V] Cons.prems(2,3) by auto
    then show ?thesis using Cons.IH [OF it(2)] Cons.prems(2,3) False by fastforce
  qed
qed simp

section \<open>What the iterator delivers\<close>

definition tables_filled :: "(i64 \<Rightarrow> key_value list option) \<Rightarrow> version \<Rightarrow> bool" where
  "tables_filled content V \<longleftrightarrow> (\<forall>l\<in>set (level_slice V). \<forall>s\<in>set l. scope_data content s \<noteq> [])"

definition iter_data :: "(i64 \<Rightarrow> key_value list option) \<Rightarrow> version \<Rightarrow> key_value list list" where
  "iter_data content V = map (scope_data content) (rev (level_slice V ! 0)) @
     map (level_data content) (filter (\<lambda>l. l \<noteq> []) (map ((!) (level_slice V)) [1..<MAX_LEVEL - 1]))"

lemma concat_iter_data:
  "concat (iter_data content V) =
   level_data content (rev (level_slice V ! 0)) @ level_data content (level_slice V ! 1) @ level_data content (level_slice V ! 2)"
  by (simp add: iter_data_def level_data_def MAX_LEVEL_def upt_rec numeral_2_eq_2)

lemma merging_with_version_rest:
  assumes inv: "loader_inv c hs tbls content L" and V: "version_ok content cs V" "tables_filled content V"
  shows "\<exists>its L'. merging_with_version c V L = Some (Ok (its, L')) \<and> loader_inv c hs tbls content L' \<and>
    list_all2 (source_rest c tbls content) its (iter_data content V) \<and> list_all2 (source_content c tbls content) its (iter_data content V)"
proof -
  have len: "length (level_slice V) = MAX_LEVEL" using V(1) by (simp add: version_ok_def)
  have live: "scope_live content s" if "s \<in> set (level_slice V ! level)" "level < MAX_LEVEL" for s level
    using V(1) that len nth_mem [of level "level_slice V"] unfolding version_ok_def by metis
  have levels: "level_slice V ! level = [] \<or> level_iterable content (level_slice V ! level)"
      if "level \<in> set [1..<MAX_LEVEL - 1]" for level
    using V live [of _ level] that len unfolding level_iterable_def version_ok_def tables_filled_def
    by (auto simp: MAX_LEVEL_def)
  obtain ts L1 where ts: "tables_by_level_0 c V L = Some (Ok (ts, L1))" "loader_inv c hs tbls content L1"
      "list_all2 (\<lambda>t s. table_holds c hs tbls t (scope_gen s) (scope_data content s)) ts (rev (level_slice V ! 0))"
    using get_tables_holds [OF inv, of "rev (level_slice V ! 0)"] live [of _ 0] len
    by (auto simp: tables_by_level_0_def index_slice_def LEVEL_0_def MAX_LEVEL_def)
  obtain its L2 where its: "level_0_sources c ts L1 = Some (Ok (its, L2))" "loader_inv c hs tbls content L2"
      "list_all2 (source_rest c tbls content) its (map (scope_data content) (rev (level_slice V ! 0)))"
      "list_all2 (source_content c tbls content) its (map (scope_data content) (rev (level_slice V ! 0)))"
    using level_0_sources_rest [OF ts(2,3)] by blast
  let ?ls = "map (level_data content) (filter (\<lambda>l. l \<noteq> []) (map ((!) (level_slice V)) [1..<MAX_LEVEL - 1]))"
  obtain its' L3 where its': "level_sources c V [1..<MAX_LEVEL - 1] L2 = Some (Ok (its', L3))" "loader_inv c hs tbls content L3"
      "list_all2 (source_rest c tbls content) its' ?ls" "list_all2 (source_content c tbls content) its' ?ls"
  proof -
    have "\<forall>level\<in>set [1..<MAX_LEVEL - 1]. LEVEL_0 < level \<and> level < length (level_slice V)" using len by (auto simp: LEVEL_0_def)
    then show thesis using level_sources_rest [OF its(2) _ ballI [OF levels]] that by blast
  qed
  show ?thesis
    using ts(1) its its' by (auto simp: merging_with_version_def iter_data_def list_all2_appendI)
qed

lemma iter_data_ascending:
  assumes inv: "loader_inv c hs tbls content L" and V: "version_ok content cs V"
  shows "\<forall>kvs\<in>set (iter_data content V). keys_ascending kvs"
proof -
  have V': "length (level_slice V) = MAX_LEVEL" "\<forall>l\<in>set (level_slice V). \<forall>s\<in>set l. scope_live content s"
      "\<forall>level. 0 < level \<and> level < MAX_LEVEL \<longrightarrow> level_sorted (level_slice V ! level)"
    using V unfolding version_ok_def by blast+
  have live: "\<forall>s\<in>set (level_slice V ! level). scope_live content s" if "level < MAX_LEVEL" for level
    using V'(1,2) that nth_mem [of level "level_slice V"] by metis
  have "keys_ascending (scope_data content s)" if "s \<in> set (level_slice V ! 0)" for s
    using live_ascending [OF inv] live [of 0] that by (simp add: MAX_LEVEL_def)
  moreover have "keys_ascending (level_data content (level_slice V ! level))" if "0 < level" "level < MAX_LEVEL" for level
    using V'(3) live [OF that(2)] that by (intro level_data_ascending) (auto intro: live_ascending [OF inv])
  ultimately show ?thesis by (auto simp: iter_data_def MAX_LEVEL_def)
qed

lemma version_iter_new_rest:
  assumes inv: "loader_inv c hs tbls content L" and V: "version_ok content cs V" "tables_filled content V"
  shows "\<exists>M L'. version_iter_new c V L = Some (Ok (M, L')) \<and> loader_inv c hs tbls content L' \<and>
    source.mrest c tbls content M (merged (iter_data content V)) \<and> list_all2 (source_content c tbls content) (vec_iter M) (iter_data content V)"
proof -
  obtain its L1 where its: "merging_with_version c V L = Some (Ok (its, L1))" "loader_inv c hs tbls content L1"
      "list_all2 (source_rest c tbls content) its (iter_data content V)" "list_all2 (source_content c tbls content) its (iter_data content V)"
    using merging_with_version_rest [OF assms] by blast
  obtain M L2 where M: "merging_new (source_step c) its L1 = Some (Ok (M, L2))" "loader_inv c hs tbls content L2"
      "source.mrest c tbls content M (merged (iter_data content V))"
    using source.merging_new_rest [OF its(2,3) iter_data_ascending [OF inv V(1)]] by blast
  then show ?thesis using its(1) source.merging_new_content [OF its(2-4) M(1)] by (auto simp: version_iter_new_def)
qed

section \<open>Properties\<close>

text \<open>C16: a loop over \<open>try_next\<close> of a new \<open>VersionIter\<close> returns and delivers the newest pair of every key of the levels 0 to 2
  in ascending order; when level 3 is empty, that is everything the version stores.\<close>

theorem version_iter_correct:
  assumes "loader_inv c hs tbls content L" "version_ok content cs V" "tables_filled content V"
  shows "\<exists>M L' kvs. version_iter_new c V L = Some (Ok (M, L')) \<and>
    merging_collect (Suc (length kvs)) (source_step c) M L' = Some (Ok kvs) \<and> keys_ascending kvs \<and>
    map_of kvs = map_of (level_data content (rev (level_slice V ! 0)) @ level_data content (level_slice V ! 1) @
      level_data content (level_slice V ! 2)) \<and>
    (level_slice V ! 3 = [] \<longrightarrow> map_of kvs = map_of (version_data content V))"
proof -
  let ?kvs = "merged (iter_data content V)"
  obtain M L' where M: "version_iter_new c V L = Some (Ok (M, L'))" "loader_inv c hs tbls content L'"
      "source.mrest c tbls content M ?kvs"
    using version_iter_new_rest [OF assms] by blast
  have "merging_collect (Suc (length ?kvs)) (source_step c) M L' = Some (Ok ?kvs)"
    by (rule source.merging_collect_rest [OF M(2,3)]) simp
  moreover have "level_slice V ! 3 = [] \<longrightarrow> version_data content V = concat (iter_data content V)"
    unfolding concat_iter_data by (simp add: version_data_def MAX_LEVEL_def upt_rec numeral_2_eq_2 numeral_3_eq_3)
  ultimately show ?thesis
    using M(1) by (intro exI [of _ M] exI [of _ L'] exI [of _ ?kvs]) (simp add: concat_iter_data)
qed

theorem version_iter_correct_witness:
  "\<exists>L M L'. version_iter_new le_crates (sample_level 1) L = Some (Ok (M, L')) \<and>
    merging_collect 3 (source_step le_crates) M L' = Some (Ok sample_pairs)"
proof -
  obtain L tbls where L: "loader_inv le_crates sum_hashing tbls [5 \<mapsto> sample_pairs] L" using sample_table_loader by blast
  have V: "version_ok [5 \<mapsto> sample_pairs] [0] (sample_level 1)" "tables_filled [5 \<mapsto> sample_pairs] (sample_level 1)"
    using sample_level_ok [of 1]
    by (auto simp: MAX_LEVEL_def tables_filled_def sample_level_def sample_top_def scope_data_def sample_pairs_def)
  obtain M L' kvs where M: "version_iter_new le_crates (sample_level 1) L = Some (Ok (M, L'))"
      "merging_collect (Suc (length kvs)) (source_step le_crates) M L' = Some (Ok kvs)" "keys_ascending kvs" "map_of kvs = map_of sample_pairs"
    using version_iter_correct [OF L V] by (auto simp: sample_level_def sample_top_def scope_data_def)
  have "kvs = sample_pairs" by (rule keys_ascending_unique [OF M(3) _ M(4)]) (simp add: sample_pairs_def)
  then show ?thesis using M(1,2) by (auto simp: sample_pairs_def numeral_3_eq_3)
qed

text \<open>After \<open>seek(Seek::Backward(key))\<close> a \<open>VersionIter\<close> delivers, from the key on, exactly the pairs it would have
  delivered from the start. It may deliver smaller keys first: a table that ends before the key is not
  left.\<close>

theorem version_iter_seek_correct:
  assumes "loader_inv c hs tbls content L" "version_ok content cs V" "tables_filled content V"
  shows "\<exists>M L1 M' L' kvs. version_iter_new c V L = Some (Ok (M, L1)) \<and>
    version_iter_seek c M L1 (Seek_Backward key) = Some (Ok (M', L')) \<and>
    merging_collect (Suc (length kvs)) (source_step c) M' L' = Some (Ok kvs) \<and> keys_ascending kvs \<and>
    (\<forall>k\<ge>key. map_of kvs k = map_of (level_data content (rev (level_slice V ! 0)) @ level_data content (level_slice V ! 1) @
      level_data content (level_slice V ! 2)) k)"
proof -
  obtain M L1 where M: "version_iter_new c V L = Some (Ok (M, L1))" "loader_inv c hs tbls content L1"
      "list_all2 (source_content c tbls content) (vec_iter M) (iter_data content V)"
    using version_iter_new_rest [OF assms] by blast
  obtain M' L' rs where M': "version_iter_seek c M L1 (Seek_Backward key) = Some (Ok (M', L'))" "loader_inv c hs tbls content L'"
      "list_all2 (seek_to (Seek_Backward key)) (iter_data content V) rs" "source.mrest c tbls content M' (merged rs)"
    using source.merging_seek_rest [OF M(2,3), of "Seek_Backward key"] by (auto simp: version_iter_seek_def)
  have "merging_collect (Suc (length (merged rs))) (source_step c) M' L' = Some (Ok (merged rs))"
    by (rule source.merging_collect_rest [OF M'(2,4)]) simp
  moreover have "map_of (merged rs) k = map_of (concat (iter_data content V)) k" if "key \<le> k" for k
  proof -
    have "list_all2 (\<lambda>xs ys. map_of xs k = map_of ys k) rs (iter_data content V)"
      using M'(3) seek_to_map_of [OF _ that] by (auto simp: list_all2_conv_all_nth)
    then show ?thesis by (simp add: map_of_concat_cong)
  qed
  ultimately show ?thesis
    using M(1) M'(1) unfolding concat_iter_data
    by (intro exI [of _ M] exI [of _ L1] exI [of _ M'] exI [of _ L'] exI [of _ "merged rs"]) simp
qed

theorem version_iter_seek_correct_witness:
  "\<exists>L M L1 M' L' kvs. version_iter_new le_crates (sample_level 1) L = Some (Ok (M, L1)) \<and>
    version_iter_seek le_crates M L1 (Seek_Backward [2]) = Some (Ok (M', L')) \<and>
    merging_collect (Suc (length kvs)) (source_step le_crates) M' L' = Some (Ok kvs) \<and> map_of kvs [2] = Some None"
proof -
  obtain L tbls where L: "loader_inv le_crates sum_hashing tbls [5 \<mapsto> sample_pairs] L" using sample_table_loader by blast
  have V: "version_ok [5 \<mapsto> sample_pairs] [0] (sample_level 1)" "tables_filled [5 \<mapsto> sample_pairs] (sample_level 1)"
    using sample_level_ok [of 1]
    by (auto simp: MAX_LEVEL_def tables_filled_def sample_level_def sample_top_def scope_data_def sample_pairs_def)
  let ?d = "level_data [5 \<mapsto> sample_pairs]" and ?l = "level_slice (sample_level 1)"
  have "map_of (?d (rev (?l ! 0)) @ ?d (?l ! 1) @ ?d (?l ! 2)) [2] = Some None"
    by (simp add: sample_level_def sample_top_def scope_data_def sample_pairs_def)
  then show ?thesis using version_iter_seek_correct [OF L V, of "[2]"] by (metis order_refl)
qed

lemma all_less_3: "(\<forall>i<3. P i) \<longleftrightarrow> P 0 \<and> P 1 \<and> P (2 :: nat)"
  by (simp add: numeral_3_eq_3 numeral_2_eq_2 All_less_Suc conj_ac)

lemma level_data_rev: "set (level_data content (rev l)) = set (level_data content l)"
  by (simp add: level_data_def)

text \<open>C39: the loop \<open>for level in 1..MAX_LEVEL - 1\<close> leaves out level 3. In every well-formed version the keys stored in
  level 3 and in no other level are found by a query but not delivered by the iterator; for every other key the two
  agree.\<close>

theorem version_iter_misses_level_3:
  assumes "loader_inv c hs tbls content L" "version_ok content cs V" "tables_filled content V" "counters_ok cs"
  shows "\<exists>M L1 kvs. version_iter_new c V L = Some (Ok (M, L1)) \<and>
    merging_collect (Suc (length kvs)) (source_step c) M L1 = Some (Ok kvs) \<and>
    (\<forall>key. \<exists>found miss L' cs'. version_query c hs V key L cs = Some (Ok ((found, miss), L', cs')) \<and>
      (if key \<in> fst ` set (level_data content (level_slice V ! 3)) \<and>
          (\<forall>i<3. key \<notin> fst ` set (level_data content (level_slice V ! i)))
       then map_of kvs key = None \<and> (\<exists>v. found = Some (key, v))
       else found = map_option (\<lambda>v. (key, v)) (map_of kvs key)))"
proof -
  let ?kvs = "merged (iter_data content V)" and ?d = "\<lambda>i. level_data content (level_slice V ! i)"
  obtain M L1 where M: "version_iter_new c V L = Some (Ok (M, L1))" "loader_inv c hs tbls content L1"
      "source.mrest c tbls content M ?kvs"
    using version_iter_new_rest [OF assms(1-3)] by blast
  have run: "merging_collect (Suc (length ?kvs)) (source_step c) M L1 = Some (Ok ?kvs)"
    by (rule source.merging_collect_rest [OF M(2,3)]) simp
  have data: "version_data content V = concat (iter_data content V) @ ?d 3"
    unfolding concat_iter_data by (simp add: version_data_def MAX_LEVEL_def upt_rec numeral_2_eq_2 numeral_3_eq_3)
  have upper: "(\<forall>i<3. key \<notin> fst ` set (?d i)) \<longleftrightarrow> map_of ?kvs key = None" for key
    by (simp add: all_less_3 concat_iter_data map_of_eq_None_iff image_Un level_data_rev map_add_None del: map_of_append)
  have "\<exists>found miss L' cs'. version_query c hs V key L cs = Some (Ok ((found, miss), L', cs')) \<and>
      (if key \<in> fst ` set (?d 3) \<and> (\<forall>i<3. key \<notin> fst ` set (?d i)) then map_of ?kvs key = None \<and> (\<exists>v. found = Some (key, v))
       else found = map_option (\<lambda>v. (key, v)) (map_of ?kvs key))" for key
  proof -
    obtain miss L' cs' where q: "version_query c hs V key L cs =
        Some (Ok ((map_option (\<lambda>v. (key, v)) (map_of (version_data content V) key), miss), L', cs'))"
      using version_query_holds [OF assms(1,4,2), of key] by auto
    show ?thesis
      unfolding upper q using map_of_eq_None_iff [of "?d 3" key]
      by (auto simp: data map_add_def split: option.splits)
  qed
  then show ?thesis using M(1) run by blast
qed

theorem version_iter_misses_level_3_witness:
  "\<exists>L M L1 kvs miss L' cs' v. version_iter_new le_crates (sample_level 3) L = Some (Ok (M, L1)) \<and>
    merging_collect (Suc (length kvs)) (source_step le_crates) M L1 = Some (Ok kvs) \<and> map_of kvs [1] = None \<and>
    version_query le_crates sum_hashing (sample_level 3) [1] L [0] = Some (Ok ((Some ([1], v), miss), L', cs'))"
proof -
  obtain L tbls where L: "loader_inv le_crates sum_hashing tbls [5 \<mapsto> sample_pairs] L" using sample_table_loader by blast
  have V: "version_ok [5 \<mapsto> sample_pairs] [0] (sample_level 3)" "tables_filled [5 \<mapsto> sample_pairs] (sample_level 3)" "counters_ok [0]"
    using sample_level_ok [of 3]
    by (auto simp: MAX_LEVEL_def tables_filled_def sample_level_def sample_top_def scope_data_def sample_pairs_def counters_ok_def)
  have only: "[1] \<in> fst ` set (level_data [5 \<mapsto> sample_pairs] (level_slice (sample_level 3) ! 3)) \<and>
      (\<forall>i<3. [1] \<notin> fst ` set (level_data [5 \<mapsto> sample_pairs] (level_slice (sample_level 3) ! i)))"
    by (simp add: all_less_3 sample_level_def sample_top_def scope_data_def sample_pairs_def)
  obtain M L1 kvs where M: "version_iter_new le_crates (sample_level 3) L = Some (Ok (M, L1))"
      "merging_collect (Suc (length kvs)) (source_step le_crates) M L1 = Some (Ok kvs)"
      "\<exists>found miss L' cs'. version_query le_crates sum_hashing (sample_level 3) [1] L [0] = Some (Ok ((found, miss), L', cs')) \<and>
        map_of kvs [1] = None \<and> (\<exists>v. found = Some ([1], v))"
    using version_iter_misses_level_3 [OF L V] only by metis
  then show ?thesis by blast
qed

end
