(* ===== verification/Mvcc.thy ===== *)
theory Mvcc
  imports Storage Version_Iter
begin

text \<open>
  \<open>src/src/kernel/lsm/mvcc.rs\<close>: transactions with a buffer of writes and optimistic checks, and the iterator over a
  transaction. A transaction reads its buffer, then the memory table at its sequence number, then the
  version that was current when it began. \<open>commit\<close> consumes the transaction, so its model includes the
  destructor.

  \<open>BTreeMap::range\<close> panics on bounds in the wrong order (\<open>range_panics\<close>). The buffer that \<open>iter\<close> leaks and its
  destructor frees is a plain list here.
\<close>

section \<open>Transactions\<close>

datatype check_type = Optimistic

record transaction =
  tx_version :: version
  tx_seq :: i64
  tx_check :: check_type
  write_buf :: "(bytes, bytes option) btree_map option"

definition with_tx_count :: "(nat \<Rightarrow> nat) \<Rightarrow> ('m, 'q) kip_storage \<Rightarrow> ('m, 'q) kip_storage" where
  "with_tx_count f ks = ks\<lparr>ks_mem := (ks_mem ks)\<lparr>tx_count := f (tx_count (ks_mem ks))\<rparr>\<rparr>"

definition transaction_new :: "check_type \<Rightarrow> ('m, 'q) kip_storage \<Rightarrow> transaction \<times> ('m, 'q) kip_storage" where
  "transaction_new check ks =
     (let ks1 = with_tx_count (\<lambda>n. (n + 1) mod (usize_MAX + 1)) ks; (seq, seq') = sequence_create (ks_seq ks1)
      in (\<lparr>tx_version = ks_version ks1, tx_seq = seq, tx_check = check, write_buf = None\<rparr>, ks1\<lparr>ks_seq := seq'\<rparr>))"

definition transaction_drop :: "('m, 'q) kip_storage \<Rightarrow> ('m, 'q) kip_storage" where
  "transaction_drop ks = with_tx_count (\<lambda>n. if n = 0 then usize_MAX else n - 1) ks"

definition write_buf_or_init :: "transaction \<Rightarrow> (bytes, bytes option) btree_map" where
  "write_buf_or_init tx = (case write_buf tx of Some buf \<Rightarrow> buf | None \<Rightarrow> [])"

definition tx_get ::
  "'m mem_ops \<Rightarrow> crates \<Rightarrow> hashing \<Rightarrow> 'q task_channel \<Rightarrow> bytes \<Rightarrow> transaction \<Rightarrow> ('m, 'q) kip_storage \<Rightarrow>
   (bytes option \<times> ('m, 'q) kip_storage) outcome option" where
  "tx_get sm c hs ch key tx ks =
     (case Option.bind (write_buf tx) (\<lambda>buf. btree_get buf key) of
        Some val \<Rightarrow> Some (Ok (val, ks))
      | None \<Rightarrow>
          (case find_with_sequence_id sm (ks_mem ks) key (tx_seq tx) of
             Some (_, val) \<Rightarrow> Some (Ok (val, ks))
           | None \<Rightarrow>
               bind_oo (query_and_compaction c hs ch key (tx_version tx) (ks_store ks) (ks_chan ks)) (\<lambda>(kv, st, q).
                 let ks1 = set_store st (ks\<lparr>ks_chan := q\<rparr>) in
                 case kv of Some (_, val) \<Rightarrow> Some (Ok (val, ks1)) | None \<Rightarrow> Some (Ok (None, ks1)))))"

definition tx_set :: "bytes \<Rightarrow> bytes \<Rightarrow> transaction \<Rightarrow> transaction" where
  "tx_set key val tx = tx\<lparr>write_buf := Some (btree_insert key (Some val) (write_buf_or_init tx))\<rparr>"

definition tx_remove ::
  "'m mem_ops \<Rightarrow> crates \<Rightarrow> hashing \<Rightarrow> 'q task_channel \<Rightarrow> bytes \<Rightarrow> transaction \<Rightarrow> ('m, 'q) kip_storage \<Rightarrow>
   (unit outcome \<times> transaction \<times> ('m, 'q) kip_storage) option" where
  "tx_remove sm c hs ch key tx ks =
     (case tx_get sm c hs ch key tx ks of
        None \<Rightarrow> None
      | Some (Ok (Some _, ks1)) \<Rightarrow> Some (Ok (), tx\<lparr>write_buf := Some (btree_insert key None (write_buf_or_init tx))\<rparr>, ks1)
      | Some (Ok (None, ks1)) \<Rightarrow> Some (Err KeyNotFound, tx, ks1)
      | Some (Err e) \<Rightarrow> Some (Err e, tx, ks)
      | Some Panic \<Rightarrow> Some (Panic, tx, ks))"

text \<open>The body of \<open>commit\<close>, and \<open>commit\<close> with the destructor that runs on every way out.\<close>

definition commit_body ::
  "'m mem_ops \<Rightarrow> crates \<Rightarrow> 'q task_channel \<Rightarrow> transaction \<Rightarrow> ('m, 'q) kip_storage \<Rightarrow> (unit outcome \<times> ('m, 'q) kip_storage) option" where
  "commit_body sm c ch tx ks =
     (case write_buf tx of
        None \<Rightarrow> Some (Ok (), ks)
      | Some batch_data \<Rightarrow>
          (case tx_check tx of
             Optimistic \<Rightarrow>
               if check_key_conflict sm (ks_mem ks) batch_data (tx_seq tx) then Some (Err RepeatedWrite, ks)
               else
                 (let (seq, seq') = sequence_create (ks_seq ks); ks1 = ks\<lparr>ks_seq := seq'\<rparr> in
                  case insert_batch_data sm c batch_data seq (ks_mem ks1) of
                    None \<Rightarrow> None
                  | Some (Ok (is_exceeds, t)) \<Rightarrow>
                      (let ks2 = set_mem t ks1 in
                       if is_exceeds then
                         (case notify ch (Task_Flush False) (ks_chan ks2) of
                            Ok q \<Rightarrow> Some (Ok (), ks2\<lparr>ks_chan := q\<rparr>)
                          | Err e \<Rightarrow> Some (Err e, ks2)
                          | Panic \<Rightarrow> Some (Panic, ks2))
                       else Some (Ok (), ks2))
                  | Some (Err e) \<Rightarrow> Some (Err e, ks1)
                  | Some Panic \<Rightarrow> Some (Panic, ks1))))"

definition tx_commit ::
  "'m mem_ops \<Rightarrow> crates \<Rightarrow> 'q task_channel \<Rightarrow> transaction \<Rightarrow> ('m, 'q) kip_storage \<Rightarrow> (unit outcome \<times> ('m, 'q) kip_storage) option" where
  "tx_commit sm c ch tx ks = map_option (\<lambda>(r, ks1). (r, transaction_drop ks1)) (commit_body sm c ch tx ks)"

definition disk_iter :: "crates \<Rightarrow> transaction \<Rightarrow> table_loader \<Rightarrow> (version_iter \<times> table_loader) outcome option" where
  "disk_iter c tx L = version_iter_new c (tx_version tx) L"

section \<open>Iterating over a transaction\<close>

record buf_iter =
  buf_inner :: "key_value list"
  buf_pos :: nat

definition buf_is_valid :: "buf_iter \<Rightarrow> bool" where
  "buf_is_valid it \<longleftrightarrow> buf_pos it < length (buf_inner it)"

definition buf_try_next :: "buf_iter \<Rightarrow> key_value option \<times> buf_iter" where
  "buf_try_next it = (if buf_is_valid it then (Some (buf_inner it ! buf_pos it), it\<lparr>buf_pos := buf_pos it + 1\<rparr>) else (None, it))"

fun inner_try_next :: "key_value list \<Rightarrow> key_value option \<times> key_value list" where
  "inner_try_next [] = (None, [])"
| "inner_try_next (kv # kvs) = (Some kv, kvs)"

datatype tx_source = Inner_Source "key_value list" | Buf_Source buf_iter | Version_Source version_source

fun tx_step :: "crates \<Rightarrow> (tx_source, table_loader) iter_step" where
  "tx_step c (Inner_Source kvs) L = (let (x, kvs') = inner_try_next kvs in Some (Ok (x, Inner_Source kvs', L)))"
| "tx_step c (Buf_Source it) L = (let (x, it') = buf_try_next it in Some (Ok (x, Buf_Source it', L)))"
| "tx_step c (Version_Source it) L =
     bind_oo (source_step c it L) (\<lambda>(x, it', L'). Some (Ok (x, Version_Source it', L')))"

fun tx_source_is_valid :: "tx_source \<Rightarrow> bool" where
  "tx_source_is_valid (Inner_Source kvs) = True"
| "tx_source_is_valid (Buf_Source it) = buf_is_valid it"
| "tx_source_is_valid (Version_Source it) = source_is_valid it"

fun range_panics :: "bytes bound \<Rightarrow> bytes bound \<Rightarrow> bool" where
  "range_panics (Included a) (Included b) \<longleftrightarrow> b < a"
| "range_panics (Included a) (Excluded b) \<longleftrightarrow> b < a"
| "range_panics (Excluded a) (Included b) \<longleftrightarrow> b < a"
| "range_panics (Excluded a) (Excluded b) \<longleftrightarrow> b \<le> a"
| "range_panics _ _ \<longleftrightarrow> False"

fun seek_all :: "crates \<Rightarrow> bytes \<Rightarrow> version_source list \<Rightarrow> table_loader \<Rightarrow> (tx_source list \<times> table_loader) outcome option" where
  "seek_all c key [] L = Some (Ok ([], L))"
| "seek_all c key (it # srcs) L =
     bind_oo (source_seek c it L (Seek_Backward key)) (\<lambda>(it', L1).
     bind_oo (seek_all c key srcs L1) (\<lambda>(rest, L2). Some (Ok (Version_Source it' # rest, L2))))"

record tx_iter =
  txi_inner :: "tx_source merging_iter"
  txi_min :: "bytes bound"
  txi_max :: "bytes bound"
  is_overed :: bool
  is_inited :: bool

definition tx_iter_new ::
  "'m mem_ops \<Rightarrow> crates \<Rightarrow> bytes bound \<Rightarrow> bytes bound \<Rightarrow> transaction \<Rightarrow> 'm mem_table \<Rightarrow> table_loader \<Rightarrow>
   (tx_iter \<times> table_loader) outcome option" where
  "tx_iter_new sm c lo hi tx t L =
     bind_oo (Some (case write_buf tx of
         Some buf \<Rightarrow> if range_panics lo hi then Panic else Ok [Inner_Source (btree_range buf lo hi)]
       | None \<Rightarrow> Ok [])) (\<lambda>inner.
     bind_oo (Some (range_scan sm t lo hi (Some (tx_seq tx)))) (\<lambda>mem_buf.
     bind_oo (merging_with_version c (tx_version tx) L) (\<lambda>(vec_seek_iter, L1).
     bind_oo (case lo of
         Included key \<Rightarrow> seek_all c key vec_seek_iter L1
       | Excluded key \<Rightarrow> seek_all c key vec_seek_iter L1
       | Unbounded \<Rightarrow> Some (Ok ([], L1))) (\<lambda>(seeked, L2).
     bind_oo (merging_new (tx_step c) (inner @ [Buf_Source \<lparr>buf_inner = mem_buf, buf_pos = 0\<rparr>] @ seeked) L2) (\<lambda>(M, L3).
     Some (Ok (\<lparr>txi_inner = M, txi_min = lo, txi_max = hi, is_overed = False, is_inited = False\<rparr>, L3)))))))"

text \<open>\<open>item\<close> lies before the lower bound.\<close>

definition before_min :: "bytes bound \<Rightarrow> key_value option \<Rightarrow> bool" where
  "before_min lo item =
     (case lo of
        Included key \<Rightarrow> (case item of Some (k, _) \<Rightarrow> k < key | None \<Rightarrow> False)
      | Excluded key \<Rightarrow> (case item of Some (k, _) \<Rightarrow> k \<le> key | None \<Rightarrow> False)
      | Unbounded \<Rightarrow> False)"

partial_function (option) skip_loop ::
  "crates \<Rightarrow> bytes bound \<Rightarrow> key_value option \<Rightarrow> tx_source merging_iter \<Rightarrow> table_loader \<Rightarrow>
   (key_value option \<times> tx_source merging_iter \<times> table_loader) outcome option" where
  "skip_loop c lo item M L =
     (if \<not> before_min lo item then Some (Ok (item, M, L))
      else
        (case merging_try_next (tx_step c) M L of
           None \<Rightarrow> None
         | Some (Ok x) \<Rightarrow> skip_loop c lo (fst x) (fst (snd x)) (snd (snd x))
         | Some (Err e) \<Rightarrow> Some (Err e)
         | Some Panic \<Rightarrow> Some Panic))"

definition within_max :: "bytes bound \<Rightarrow> key_value option \<Rightarrow> key_value option" where
  "within_max hi item =
     (case hi of
        Included key \<Rightarrow> (case item of Some (k, v) \<Rightarrow> if k \<le> key then Some (k, v) else None | None \<Rightarrow> None)
      | Excluded key \<Rightarrow> (case item of Some (k, v) \<Rightarrow> if k < key then Some (k, v) else None | None \<Rightarrow> None)
      | Unbounded \<Rightarrow> item)"

definition tx_iter_try_next :: "crates \<Rightarrow> (tx_iter, table_loader) iter_step" where
  "tx_iter_try_next c it L =
     (if is_overed it then Some (Ok (None, it, L))
      else
        bind_oo (merging_try_next (tx_step c) (txi_inner it) L) (\<lambda>(item, M, L1).
        bind_oo (if is_inited it then Some (Ok (item, M, L1)) else skip_loop c (txi_min it) item M L1) (\<lambda>(item', M', L2).
          let opt = within_max (txi_max it) item'
          in Some (Ok (opt, it\<lparr>txi_inner := M', is_inited := True, is_overed := (opt = None)\<rparr>, L2)))))"

definition tx_iter_is_valid :: "tx_iter \<Rightarrow> bool" where
  "tx_iter_is_valid it = merging_is_valid tx_source_is_valid (txi_inner it)"

section \<open>What a transaction sees\<close>

definition buffered :: "transaction \<Rightarrow> bytes \<Rightarrow> bytes option option" where
  "buffered tx key = Option.bind (write_buf tx) (\<lambda>buf. btree_get buf key)"

definition tx_value :: "'m mem_ops \<Rightarrow> (i64 \<Rightarrow> key_value list option) \<Rightarrow> transaction \<Rightarrow> ('m, 'q) kip_storage \<Rightarrow> bytes \<Rightarrow> bytes option" where
  "tx_value sm content tx ks key =
     (case buffered tx key of
        Some v \<Rightarrow> v
      | None \<Rightarrow> value_of (visible sm (ks_mem ks) (tx_seq tx) key) (version_data content (tx_version tx)) key)"

definition tx_ok :: "(i64 \<Rightarrow> key_value list option) \<Rightarrow> transaction \<Rightarrow> ('m, 'q) kip_storage \<Rightarrow> bool" where
  "tx_ok content tx ks \<longleftrightarrow> version_ok content (ss_counters (ks_store ks)) (tx_version tx) \<and> tx_seq tx < ks_seq ks \<and>
     (\<forall>buf. write_buf tx = Some buf \<longrightarrow> keys_ascending buf)"

lemma tx_kept:
  assumes "tx_ok content tx ks" "snapshot_kept sm ks ks'"
  shows "tx_ok content tx ks'" "tx_value sm content tx ks' = tx_value sm content tx ks"
proof -
  have "version_ok content (ss_counters (ks_store ks')) (tx_version tx)"
    using assms seeks_ok_length unfolding tx_ok_def snapshot_kept_def version_ok_def by metis
  then show "tx_ok content tx ks'" using assms by (simp add: tx_ok_def snapshot_kept_def)
  show "tx_value sm content tx ks' = tx_value sm content tx ks"
    using assms by (auto simp: tx_value_def tx_ok_def snapshot_kept_def fun_eq_iff split: option.split)
qed

lemma tx_get_holds:
  assumes sm: "mem_map sm I" and ok: "storage_ok sm I c hs tbls content cfg ks" and alive: "\<forall>task q. fst (try_send ch task q) \<noteq> Closed"
    and tx: "version_ok content (ss_counters (ks_store ks)) (tx_version tx)"
  shows "\<exists>ks'. tx_get sm c hs ch key tx ks = Some (Ok (tx_value sm content tx ks key, ks')) \<and>
    storage_ok sm I c hs tbls content cfg ks' \<and> storage_value sm content ks' = storage_value sm content ks \<and> snapshot_kept sm ks ks'"
proof -
  have "mem_inv sm I (ks_seq ks) (ks_mem ks)" using ok by (simp add: storage_ok_def)
  from mem_map.find_with_sequence_id_visible [OF sm this]
  have find: "find_with_sequence_id sm (ks_mem ks) key (tx_seq tx) = map_option (\<lambda>v. (key, v)) (visible sm (ks_mem ks) (tx_seq tx) key)" .
  consider v where "buffered tx key = Some v" | v where "buffered tx key = None" "visible sm (ks_mem ks) (tx_seq tx) key = Some v"
    | "buffered tx key = None" "visible sm (ks_mem ks) (tx_seq tx) key = None" by (metis option.exhaust)
  then show ?thesis
  proof cases
    case 3
    obtain st q where q: "query_and_compaction c hs ch key (tx_version tx) (ks_store ks) (ks_chan ks) =
        Some (Ok (map_option (\<lambda>v. (key, v)) (map_of (version_data content (tx_version tx)) key), st, q))"
        "storage_ok sm I c hs tbls content cfg (set_store st (ks\<lparr>ks_chan := q\<rparr>))"
        "storage_value sm content (set_store st (ks\<lparr>ks_chan := q\<rparr>)) = storage_value sm content ks"
        "snapshot_kept sm ks (set_store st (ks\<lparr>ks_chan := q\<rparr>))"
      using query_keeps_storage [OF ok tx alive] by blast
    have "tx_get sm c hs ch key tx ks = Some (Ok (tx_value sm content tx ks key, set_store st (ks\<lparr>ks_chan := q\<rparr>)))"
      using find 3 q(1) by (auto simp: tx_get_def tx_value_def value_of_def Let_def buffered_def split: option.splits)
    then show ?thesis using q(2-) by blast
  qed (use ok find in \<open>auto simp: tx_get_def tx_value_def buffered_def value_of_def\<close>)
qed

text \<open>A new transaction sees what the store holds.\<close>

lemma with_tx_count_fields [simp]:
  "ks_seq (with_tx_count f ks) = ks_seq ks" "ks_store (with_tx_count f ks) = ks_store ks" "ks_chan (with_tx_count f ks) = ks_chan ks"
  "tx_count (ks_mem (with_tx_count f ks)) = f (tx_count (ks_mem ks))" "visible sm (ks_mem (with_tx_count f ks)) = visible sm (ks_mem ks)"
  by (auto simp: with_tx_count_def visible_def fun_eq_iff split: option.split)

lemma with_tx_count_ok [simp]:
  "storage_ok sm I c hs tbls content cfg (with_tx_count f ks) = storage_ok sm I c hs tbls content cfg ks"
  "storage_value sm content (with_tx_count f ks) = storage_value sm content ks"
  by (simp_all add: storage_value_def fun_eq_iff) (simp add: with_tx_count_def storage_ok_def mem_inv_def flushed_def)

lemma storage_ok_seq:
  assumes "mem_map sm I" "storage_ok sm I c hs tbls content cfg ks" "ks_seq ks < i64_MAX"
  shows "storage_ok sm I c hs tbls content cfg (ks\<lparr>ks_seq := ks_seq ks + 1\<rparr>)"
  using assms mem_map.mem_inv_mono [OF assms(1)] by (simp add: storage_ok_def)

lemma transaction_new_holds:
  assumes sm: "mem_map sm I" and ok: "storage_ok sm I c hs tbls content cfg ks" and seq: "ks_seq ks < i64_MAX"
    and n: "tx_count (ks_mem ks) < usize_MAX"
  shows "\<exists>tx ks'. transaction_new check ks = (tx, ks') \<and> storage_ok sm I c hs tbls content cfg ks' \<and> tx_ok content tx ks' \<and>
    storage_value sm content ks' = storage_value sm content ks \<and> tx_value sm content tx ks' = storage_value sm content ks \<and>
    tx_count (ks_mem ks') = Suc (tx_count (ks_mem ks)) \<and> ks_seq ks' = ks_seq ks + 1 \<and> tx_seq tx = ks_seq ks \<and> write_buf tx = None \<and>
    tx_version tx = ks_version ks \<and> ks_version ks' = ks_version ks \<and> ks_store ks' = ks_store ks \<and>
    (\<forall>s key. visible sm (ks_mem ks') s key = visible sm (ks_mem ks) s key)"
proof -
  have o: "mem_inv sm I (ks_seq ks) (ks_mem ks)" "0 \<le> ks_seq ks" "store_ok c hs tbls content (ks_store ks)"
    using ok by (simp_all add: storage_ok_def)
  let ?ks1 = "with_tx_count (\<lambda>n. (n + 1) mod (usize_MAX + 1)) ks"
  let ?ks = "?ks1\<lparr>ks_seq := ks_seq ks + 1\<rparr>"
  let ?tx = "\<lparr>tx_version = ks_version ks, tx_seq = ks_seq ks, tx_check = check, write_buf = None\<rparr>"
  have new: "transaction_new check ks = (?tx, ?ks)"
    using create_next(1) [OF o(2) seq] by (simp add: transaction_new_def Let_def)
  have ok': "storage_ok sm I c hs tbls content cfg ?ks"
    using storage_ok_seq [OF sm, of c hs tbls content cfg ?ks1] ok seq by simp
  have vis: "visible sm (ks_mem ?ks) s key = visible sm (ks_mem ks) s key" for s key
    using with_tx_count_fields(5) [of sm "\<lambda>n. (n + 1) mod (usize_MAX + 1)" ks] by simp
  have "visible sm (ks_mem ks) (ks_seq ks) key = visible sm (ks_mem ks) SEQ_MAX key" for key
    using mem_map.visible_newest [OF sm o(1), of "ks_seq ks"] mem_map.visible_newest [OF sm o(1), of SEQ_MAX] seq by (simp add: SEQ_MAX_def)
  then have "tx_value sm content ?tx ?ks = storage_value sm content ks"
    by (simp add: tx_value_def storage_value_def buffered_def fun_eq_iff vis)
  moreover have "storage_value sm content ?ks = storage_value sm content ks"
    by (simp add: storage_value_def fun_eq_iff vis)
  moreover have "tx_ok content ?tx ?ks" using store_okD(4) [OF o(3)] by (simp add: tx_ok_def)
  moreover have "tx_count (ks_mem ?ks) = Suc (tx_count (ks_mem ks))" using n by simp
  ultimately show ?thesis using new ok' vis by (intro exI [of _ ?tx] exI [of _ ?ks]) simp
qed

section \<open>Commit\<close>

text \<open>Some key of the buffer was written after the transaction began.\<close>

definition written_since :: "'m mem_ops \<Rightarrow> transaction \<Rightarrow> ('m, 'q) kip_storage \<Rightarrow> bool" where
  "written_since sm tx ks \<longleftrightarrow>
     (\<exists>buf key v s w. write_buf tx = Some buf \<and> (key, v) \<in> set buf \<and> tx_seq tx < s \<and> (InternalKey key s, w) \<in> set (sm_iter sm (mem (ks_mem ks))))"

abbreviation same_tx_count :: "('m, 'q) kip_storage \<Rightarrow> ('m, 'q) kip_storage \<Rightarrow> ('m, 'q) kip_storage" where
  "same_tx_count ks ks' \<equiv> with_tx_count (\<lambda>_. tx_count (ks_mem ks)) ks'"

lemma with_tx_count_tx [simp]: "tx_ok content tx (with_tx_count f ks) = tx_ok content tx ks"
    "tx_value sm content tx (with_tx_count f ks) = tx_value sm content tx ks"
  by (simp_all add: tx_ok_def tx_value_def fun_eq_iff split: option.split)

lemma insert_batch_frame:
  assumes "insert_batch_data sm c kvs n t = Some (Ok (b, t'))"
  shows "snd (wal_writer t') = snd (wal_writer t)" "immut t' = immut t" "tx_count t' = tx_count t"
    "g \<noteq> snd (wal_writer t) \<Longrightarrow> stored_bytes (wal t') g = stored_bytes (wal t) g"
proof -
  let ?t1 = "fold (batch_item sm n) kvs t"
  have f: "wal_writer ?t1 = wal_writer t" "immut ?t1 = immut t" "tx_count ?t1 = tx_count t" "wal ?t1 = wal t"
    by (induction kvs arbitrary: t) (auto simp: batch_item_def)
  have t': "wal_append c ?t1 (concat (map (data_to_bytes c) kvs)) = Some (Ok t')"
    using assms by (auto simp: insert_batch_data_def map_outcome_ok_Ok_iff Let_def)
  show "snd (wal_writer t') = snd (wal_writer t)" "immut t' = immut t" "tx_count t' = tx_count t"
    "g \<noteq> snd (wal_writer t) \<Longrightarrow> stored_bytes (wal t') g = stored_bytes (wal t) g"
    using wal_append_frame [OF t'] f by simp_all
qed

lemma commit_body_holds:
  assumes sm: "mem_map sm I" and c: "int_encoding c" and ok: "storage_ok sm I c hs tbls content cfg ks"
    and alive: "\<forall>task q. fst (try_send ch task q) \<noteq> Closed" and seq: "ks_seq ks < i64_MAX"
  shows "\<exists>ks'. commit_body sm c ch tx ks = Some (if written_since sm tx ks then Err RepeatedWrite else Ok (), ks') \<and>
    storage_ok sm I c hs tbls content cfg ks' \<and> snapshot_kept sm ks ks' \<and> ks_seq ks' \<le> ks_seq ks + 1 \<and>
    (\<forall>key. storage_value sm content ks' key =
      (if written_since sm tx ks then storage_value sm content ks key
       else case Option.bind (write_buf tx) (\<lambda>buf. map_of (rev buf) key) of Some v \<Rightarrow> v | None \<Rightarrow> storage_value sm content ks key))"
proof -
  have o: "mem_inv sm I (ks_seq ks) (ks_mem ks)" "store_ok c hs tbls content (ks_store ks)" "0 \<le> ks_seq ks"
      "wal (ks_mem ks) = tl_wal (ks_loader ks)" "content (snd (wal_writer (ks_mem ks))) = None"
    using ok by (simp_all add: storage_ok_def log_gen_free_def)
  show ?thesis
  proof (cases "write_buf tx")
    case None
    then show ?thesis using ok by (auto simp: commit_body_def written_since_def)
  next
    case (Some buf)
    have conflict: "check_key_conflict sm (ks_mem ks) buf (tx_seq tx) = written_since sm tx ks"
      using mem_map.check_key_conflict_iff [OF sm o(1)] Some by (auto simp: written_since_def)
    show ?thesis
    proof (cases "written_since sm tx ks")
      case True
      then show ?thesis using ok Some conflict by (cases "tx_check tx") (auto simp: commit_body_def)
    next
      case False
      obtain b t' where t': "insert_batch_data sm c buf (ks_seq ks) (ks_mem ks) = Some (Ok (b, t'))" "mem_inv sm I (ks_seq ks + 1) t'"
          "\<forall>seq key. visible sm t' seq key =
            (case map_of (rev buf) key of Some v \<Rightarrow> if ks_seq ks \<le> seq then Some v else visible sm (ks_mem ks) seq key
             | None \<Rightarrow> visible sm (ks_mem ks) seq key)"
        using mem_map.insert_batch_data_visible [OF sm c o(1,3), of buf] by blast
      note fr = insert_batch_frame [OF t'(1)]
      let ?ks1 = "set_mem t' (ks\<lparr>ks_seq := ks_seq ks + 1\<rparr>)"
      have sc: "sequence_create (ks_seq ks) = (ks_seq ks, ks_seq ks + 1)" by (rule create_next(1) [OF o(3) seq])
      have run: "\<exists>q. commit_body sm c ch tx ks = Some (Ok (), ?ks1\<lparr>ks_chan := q\<rparr>)"
      proof (cases b)
        case True
        obtain res q where "try_send ch (Task_Flush False) (ks_chan ?ks1) = (res, q)" "res \<noteq> Closed" using alive by (metis prod.collapse)
        then show ?thesis using t'(1) True Some conflict False sc
          by (cases res; cases "tx_check tx") (auto simp: commit_body_def notify_def Let_def)
      next
        case b: False
        then show ?thesis using t'(1) Some conflict False sc
          by (cases "tx_check tx") (auto simp: commit_body_def Let_def intro!: exI [of _ "ks_chan ?ks1"])
      qed
      have "store_ok c hs tbls content (with_loader (ks_store ks) ((ks_loader ks)\<lparr>tl_wal := wal t'\<rparr>))"
        using fr(4) o(4,5) by (intro store_ok_wal [OF o(2)]) (metis domIff)
      then have ok1: "storage_ok sm I c hs tbls content cfg (?ks1\<lparr>ks_chan := q\<rparr>)" for q
        using ok t'(2) fr(1,2) seq by (auto simp: storage_ok_def set_mem_def with_loader_def log_gen_free_def flushed_def)
      have mx: "ks_seq ks \<le> SEQ_MAX" using seq by (simp add: SEQ_MAX_def)
      have "storage_value sm content (?ks1\<lparr>ks_chan := q\<rparr>) key =
          (case map_of (rev buf) key of Some v \<Rightarrow> v | None \<Rightarrow> storage_value sm content ks key)" for q key
        using t'(3) mx by (auto simp: storage_value_def set_mem_def with_loader_def value_of_def split: option.split)
      moreover have "ks_seq (?ks1\<lparr>ks_chan := q\<rparr>) = ks_seq ks + 1" "snapshot_kept sm ks (?ks1\<lparr>ks_chan := q\<rparr>)" for q
        using t'(3) fr(3) by (auto simp: set_mem_def with_loader_def snapshot_kept_def split: option.split)
      ultimately show ?thesis using run ok1 Some False by fastforce
    qed
  qed
qed

lemma commit_holds:
  assumes sm: "mem_map sm I" and c: "int_encoding c" and ok: "storage_ok sm I c hs tbls content cfg ks"
    and alive: "\<forall>task q. fst (try_send ch task q) \<noteq> Closed" and seq: "ks_seq ks < i64_MAX" and n: "tx_count (ks_mem ks) = Suc n"
  shows "\<exists>ks'. tx_commit sm c ch tx ks = Some (if written_since sm tx ks then Err RepeatedWrite else Ok (), ks') \<and>
    storage_ok sm I c hs tbls content cfg ks' \<and> snapshot_kept sm ks (same_tx_count ks ks') \<and> ks_seq ks' \<le> ks_seq ks + 1 \<and>
    tx_count (ks_mem ks') = n \<and>
    (\<forall>key. storage_value sm content ks' key =
      (if written_since sm tx ks then storage_value sm content ks key
       else case Option.bind (write_buf tx) (\<lambda>buf. map_of (rev buf) key) of Some v \<Rightarrow> v | None \<Rightarrow> storage_value sm content ks key))"
proof -
  obtain ks1 where ks1: "commit_body sm c ch tx ks = Some (if written_since sm tx ks then Err RepeatedWrite else Ok (), ks1)"
      "storage_ok sm I c hs tbls content cfg ks1" "snapshot_kept sm ks ks1" "ks_seq ks1 \<le> ks_seq ks + 1"
      "\<forall>key. storage_value sm content ks1 key =
        (if written_since sm tx ks then storage_value sm content ks key
         else case Option.bind (write_buf tx) (\<lambda>buf. map_of (rev buf) key) of Some v \<Rightarrow> v | None \<Rightarrow> storage_value sm content ks key)"
    using commit_body_holds [OF sm c ok alive seq] by blast
  have "tx_count (ks_mem ks1) = Suc n" using ks1(3) n by (simp add: snapshot_kept_def)
  then show ?thesis
    using ks1 n by (intro exI [of _ "transaction_drop ks1"]) (simp add: tx_commit_def transaction_drop_def snapshot_kept_def)
qed

section \<open>Snapshots\<close>

text \<open>What can happen while a transaction is open: operations on the store, other transactions that begin and
  commit (\<open>m\<close> of them are open), and tasks for the compactor that need the memory table.\<close>

inductive others ::
  "'m mem_ops \<Rightarrow> crates \<Rightarrow> hashing \<Rightarrow> bincode \<Rightarrow> config \<Rightarrow> (i64 \<Rightarrow> 64 word \<times> 64 word) \<Rightarrow> 'q task_channel \<Rightarrow>
   nat \<Rightarrow> ('m, 'q) kip_storage \<Rightarrow> nat \<Rightarrow> ('m, 'q) kip_storage \<Rightarrow> bool"
  for sm c hs bc cfg seeds ch n ks where
  others_refl: "others sm c hs bc cfg seeds ch n ks n ks"
| others_op: "others sm c hs bc cfg seeds ch n ks m ks1 \<Longrightarrow> ks_seq ks1 < i64_MAX \<Longrightarrow> storage_run sm c hs ch op ks1 = Some (a, ks2) \<Longrightarrow>
    others sm c hs bc cfg seeds ch n ks m ks2"
| others_read: "others sm c hs bc cfg seeds ch n ks m ks1 \<Longrightarrow> tx_version tx = ks_version ks1 \<Longrightarrow>
    tx_get sm c hs ch key tx ks1 = Some (Ok (a, ks2)) \<Longrightarrow> others sm c hs bc cfg seeds ch n ks m ks2"
| others_begin: "others sm c hs bc cfg seeds ch n ks m ks1 \<Longrightarrow> ks_seq ks1 < i64_MAX \<Longrightarrow> tx_count (ks_mem ks1) < usize_MAX \<Longrightarrow>
    transaction_new check ks1 = (tx, ks2) \<Longrightarrow> others sm c hs bc cfg seeds ch n ks (Suc m) ks2"
| others_commit: "others sm c hs bc cfg seeds ch n ks (Suc m) ks1 \<Longrightarrow> ks_seq ks1 < i64_MAX \<Longrightarrow> tx_commit sm c ch tx ks1 = Some (r, ks2) \<Longrightarrow>
    others sm c hs bc cfg seeds ch n ks m ks2"
| others_flush: "others sm c hs bc cfg seeds ch n ks m ks1 \<Longrightarrow>
    handle_task sm c hs bc cfg seeds listens (Task_Flush wanted) ks1 = Some (Ok ks2) \<Longrightarrow> others sm c hs bc cfg seeds ch n ks m ks2"

text \<open>A flush waits for the open transactions.\<close>

lemma flush_blocked: "tx_count (ks_mem ks) \<noteq> 0 \<Longrightarrow> handle_task sm c hs bc cfg seeds listens (Task_Flush wanted) ks = None"
  by (simp add: handle_task_def check_then_compaction_def swap_def)

lemma others_keep:
  assumes sm: "mem_map sm I" and c: "int_encoding c" and alive: "\<forall>task q. fst (try_send ch task q) \<noteq> Closed"
    and ok: "storage_ok sm I c hs tbls content cfg ks" and n: "tx_count (ks_mem ks) = Suc n"
  shows "others sm c hs bc cfg seeds ch n ks m ks' \<Longrightarrow> storage_ok sm I c hs tbls content cfg ks' \<and> tx_count (ks_mem ks') = Suc m \<and>
    snapshot_kept sm ks (same_tx_count ks ks')"
proof (induction rule: others.induct)
  case others_refl
  then show ?case using ok n by (simp add: snapshot_kept_def)
next
  case (others_op m ks1 op a ks2)
  obtain ks' where "storage_run sm c hs ch op ks1 = Some (fst (map_op op (storage_value sm content ks1)), ks')"
      "storage_ok sm I c hs tbls content cfg ks'" "snapshot_kept sm ks1 ks'"
    using storage_run_holds [OF sm c alive _ others_op(2), of hs tbls content cfg op] others_op by blast
  then show ?case using others_op by (auto simp: snapshot_kept_def)
next
  case (others_read m ks1 tx key a ks2)
  have "version_ok content (ss_counters (ks_store ks1)) (tx_version tx)"
    using others_read(2,4) store_okD(4) by (fastforce simp: storage_ok_def)
  then obtain ks' where "tx_get sm c hs ch key tx ks1 = Some (Ok (tx_value sm content tx ks1 key, ks'))"
      "storage_ok sm I c hs tbls content cfg ks'" "snapshot_kept sm ks1 ks'"
    using tx_get_holds [OF sm _ alive] others_read by blast
  then show ?case using others_read by (auto simp: snapshot_kept_def)
next
  case (others_begin m ks1 check tx ks2)
  then have "storage_ok sm I c hs tbls content cfg ks2 \<and> tx_count (ks_mem ks2) = Suc (tx_count (ks_mem ks1)) \<and> ks_seq ks2 = ks_seq ks1 + 1 \<and>
      ks_store ks2 = ks_store ks1 \<and> (\<forall>s key. visible sm (ks_mem ks2) s key = visible sm (ks_mem ks1) s key)"
    using transaction_new_holds [OF sm _ others_begin(2,3), of c hs tbls content cfg check] by auto
  then show ?case using others_begin by (auto simp: snapshot_kept_def)
next
  case (others_commit m ks1 tx r ks2)
  then obtain ks' where "tx_commit sm c ch tx ks1 = Some (if written_since sm tx ks1 then Err RepeatedWrite else Ok (), ks')"
      "storage_ok sm I c hs tbls content cfg ks'" "snapshot_kept sm ks1 (same_tx_count ks1 ks')" "tx_count (ks_mem ks') = Suc m"
    using commit_holds [OF sm c _ alive others_commit(2), of hs tbls content cfg "Suc m" tx] by auto
  then show ?case using others_commit by (auto simp: snapshot_kept_def)
next
  case (others_flush m ks1 listens wanted ks2)
  then show ?case by (simp add: flush_blocked)
qed

text \<open>The calls of the transaction itself, with the answers of theory \<open>Storage\<close>.\<close>

fun tx_run ::
  "'m mem_ops \<Rightarrow> crates \<Rightarrow> hashing \<Rightarrow> 'q task_channel \<Rightarrow> store_op \<Rightarrow> transaction \<Rightarrow> ('m, 'q) kip_storage \<Rightarrow>
   (store_answer \<times> transaction \<times> ('m, 'q) kip_storage) option" where
  "tx_run sm c hs ch (Op_Set k v) tx ks = Some (Done, tx_set k v tx, ks)"
| "tx_run sm c hs ch (Op_Get k) tx ks =
     (case tx_get sm c hs ch k tx ks of Some (Ok (v, ks')) \<Rightarrow> Some (Found_Value v, tx, ks') | _ \<Rightarrow> None)"
| "tx_run sm c hs ch (Op_Remove k) tx ks =
     (case tx_remove sm c hs ch k tx ks of
        Some (Ok _, tx', ks') \<Rightarrow> Some (Done, tx', ks')
      | Some (Err KeyNotFound, tx', ks') \<Rightarrow> Some (No_Key, tx', ks')
      | _ \<Rightarrow> None)"

lemma tx_write:
  assumes "tx_ok content tx ks" "tx' = tx\<lparr>write_buf := Some (btree_insert key v (write_buf_or_init tx))\<rparr>"
  shows "tx_ok content tx' ks" "tx_value sm content tx' ks = (tx_value sm content tx ks)(key := v)"
proof -
  show "tx_ok content tx' ks" using assms by (auto simp: tx_ok_def write_buf_or_init_def split: option.splits)
  have "buffered tx' k = (if k = key then Some v else buffered tx k)" for k
    by (auto simp: assms(2) buffered_def write_buf_or_init_def btree_get_def split: option.split)
  then show "tx_value sm content tx' ks = (tx_value sm content tx ks)(key := v)"
    by (auto simp: tx_value_def assms(2) fun_eq_iff split: option.split)
qed

lemma tx_run_holds:
  assumes sm: "mem_map sm I" and ok: "storage_ok sm I c hs tbls content cfg ks" and alive: "\<forall>task q. fst (try_send ch task q) \<noteq> Closed"
    and tx: "tx_ok content tx ks"
  shows "\<exists>tx' ks'. tx_run sm c hs ch op tx ks = Some (fst (map_op op (tx_value sm content tx ks)), tx', ks') \<and>
    storage_ok sm I c hs tbls content cfg ks' \<and> tx_ok content tx' ks' \<and>
    tx_value sm content tx' ks' = snd (map_op op (tx_value sm content tx ks)) \<and> tx_count (ks_mem ks') = tx_count (ks_mem ks)"
proof -
  have V: "version_ok content (ss_counters (ks_store ks)) (tx_version tx)" using tx by (simp add: tx_ok_def)
  show ?thesis
  proof (cases op)
    case (Op_Set k v)
    then show ?thesis using ok tx_write [OF tx refl] by (simp add: tx_set_def)
  next
    case (Op_Get k)
    obtain ks' where ks': "tx_get sm c hs ch k tx ks = Some (Ok (tx_value sm content tx ks k, ks'))"
        "storage_ok sm I c hs tbls content cfg ks'" "snapshot_kept sm ks ks'"
      using tx_get_holds [OF sm ok alive V] by blast
    then show ?thesis using Op_Get tx_kept [OF tx ks'(3)] by (simp add: snapshot_kept_def)
  next
    case (Op_Remove k)
    obtain ks' where ks': "tx_get sm c hs ch k tx ks = Some (Ok (tx_value sm content tx ks k, ks'))"
        "storage_ok sm I c hs tbls content cfg ks'" "snapshot_kept sm ks ks'"
      using tx_get_holds [OF sm ok alive V] by blast
    note kept = tx_kept [OF tx ks'(3)]
    show ?thesis
    proof (cases "tx_value sm content tx ks k")
      case None
      then have "(tx_value sm content tx ks)(k := None) = tx_value sm content tx ks" by (simp add: fun_eq_iff)
      then show ?thesis using None Op_Remove ks' kept by (simp add: tx_remove_def snapshot_kept_def)
    next
      case (Some v)
      then show ?thesis using Op_Remove ks' kept tx_write [OF kept(1) refl, where key = k and v = None] by (simp add: tx_remove_def snapshot_kept_def)
    qed
  qed
qed

text \<open>The life of an open transaction: its calls \<open>ops\<close> with their answers, between steps of others; \<open>m\<close> other transactions are open.\<close>

inductive tx_session ::
  "'m mem_ops \<Rightarrow> crates \<Rightarrow> hashing \<Rightarrow> bincode \<Rightarrow> config \<Rightarrow> (i64 \<Rightarrow> 64 word \<times> 64 word) \<Rightarrow> 'q task_channel \<Rightarrow>
   nat \<Rightarrow> transaction \<Rightarrow> ('m, 'q) kip_storage \<Rightarrow> store_op list \<Rightarrow> store_answer list \<Rightarrow> nat \<Rightarrow> transaction \<Rightarrow> ('m, 'q) kip_storage \<Rightarrow> bool"
  for sm c hs bc cfg seeds ch n tx0 ks0 where
  session_begin: "tx_session sm c hs bc cfg seeds ch n tx0 ks0 [] [] n tx0 ks0"
| session_call: "tx_session sm c hs bc cfg seeds ch n tx0 ks0 ops as m tx ks \<Longrightarrow> tx_run sm c hs ch op tx ks = Some (a, tx', ks') \<Longrightarrow>
    tx_session sm c hs bc cfg seeds ch n tx0 ks0 (ops @ [op]) (as @ [a]) m tx' ks'"
| session_others: "tx_session sm c hs bc cfg seeds ch n tx0 ks0 ops as m tx ks \<Longrightarrow> others sm c hs bc cfg seeds ch m ks m' ks' \<Longrightarrow>
    tx_session sm c hs bc cfg seeds ch n tx0 ks0 ops as m' tx ks'"

lemma map_ops_snoc:
  "map_ops (ops @ [op]) v = (fst (map_ops ops v) @ [fst (map_op op (snd (map_ops ops v)))], snd (map_op op (snd (map_ops ops v))))"
  by (induction ops arbitrary: v) (simp_all add: case_prod_beta Let_def)

lemma tx_session_keeps:
  assumes sm: "mem_map sm I" and c: "int_encoding c" and alive: "\<forall>task q. fst (try_send ch task q) \<noteq> Closed"
    and ok: "storage_ok sm I c hs tbls content cfg ks0" "tx_ok content tx0 ks0" "tx_count (ks_mem ks0) = Suc n"
  shows "tx_session sm c hs bc cfg seeds ch n tx0 ks0 ops as m tx ks \<Longrightarrow> storage_ok sm I c hs tbls content cfg ks \<and> tx_ok content tx ks \<and>
    tx_count (ks_mem ks) = Suc m \<and> as = fst (map_ops ops (tx_value sm content tx0 ks0)) \<and>
    tx_value sm content tx ks = snd (map_ops ops (tx_value sm content tx0 ks0))"
proof (induction rule: tx_session.induct)
  case session_begin
  then show ?case using ok by simp
next
  case (session_call ops as m tx ks op a tx' ks')
  then show ?case using tx_run_holds [OF sm _ alive, of c hs tbls content cfg ks tx op] by (auto simp: map_ops_snoc)
next
  case (session_others ops as m tx ks m' ks')
  then have k: "storage_ok sm I c hs tbls content cfg ks'" "tx_count (ks_mem ks') = Suc m'" "snapshot_kept sm ks (same_tx_count ks ks')"
    using others_keep [OF sm c alive _ _ session_others(2), of tbls content] by auto
  then show ?case using tx_kept [of content tx ks sm, OF _ k(3)] session_others.IH by simp
qed

section \<open>Properties\<close>

text \<open>C4: snapshot isolation. A transaction is a private copy of the store at the moment it begins. In any interleaving of its own
  \<open>get\<close>, \<open>set\<close> and \<open>remove\<close> calls with operations on the store, other transactions that begin, read and commit, and flush requests, its
  answers so far are those of the map of the values the store had at the beginning, changed by the calls of the transaction alone; and
  every next call returns, with the answer of that map. Seek compactions, which replace tables meanwhile, are not among the
  interleaved steps.\<close>

theorem transaction_snapshot:
  assumes "mem_map sm I" "int_encoding c" "\<forall>task q. fst (try_send ch task q) \<noteq> Closed" "storage_ok sm I c hs tbls content cfg ks"
    and "ks_seq ks < i64_MAX" "tx_count (ks_mem ks) = n" "n < usize_MAX" "transaction_new check ks = (tx0, ks0)"
    and "tx_session sm c hs bc cfg seeds ch n tx0 ks0 ops as m tx ks1"
  shows "as = fst (map_ops ops (storage_value sm content ks)) \<and>
    (\<exists>tx' ks2. tx_run sm c hs ch op tx ks1 = Some (fst (map_op op (snd (map_ops ops (storage_value sm content ks)))), tx', ks2))"
proof -
  have b: "storage_ok sm I c hs tbls content cfg ks0" "tx_ok content tx0 ks0" "tx_value sm content tx0 ks0 = storage_value sm content ks"
      "tx_count (ks_mem ks0) = Suc n"
    using transaction_new_holds [OF assms(1,4,5), of check] assms(6-8) by auto
  have k: "storage_ok sm I c hs tbls content cfg ks1" "tx_ok content tx ks1" "as = fst (map_ops ops (storage_value sm content ks))"
      "tx_value sm content tx ks1 = snd (map_ops ops (storage_value sm content ks))"
    using tx_session_keeps [OF assms(1-3) b(1,2,4) assms(9)] b(3) by auto
  then show ?thesis using tx_run_holds [OF assms(1) k(1) assms(3) k(2), of op] by auto
qed

text \<open>C3: \<open>commit\<close>. It fails with \<open>RepeatedWrite\<close> exactly when a key of the buffer was written after the transaction began,
  and then changes no value; otherwise all writes of the buffer become visible at once. In both cases the
  transaction is closed.\<close>

theorem commit_correct:
  assumes "mem_map sm I" "int_encoding c" "\<forall>task q. fst (try_send ch task q) \<noteq> Closed" "storage_ok sm I c hs tbls content cfg ks"
    and "ks_seq ks < i64_MAX" "tx_count (ks_mem ks) = Suc n" "tx_ok content tx ks"
  shows "\<exists>ks'. tx_commit sm c ch tx ks = Some (if written_since sm tx ks then Err RepeatedWrite else Ok (), ks') \<and>
    storage_ok sm I c hs tbls content cfg ks' \<and> tx_count (ks_mem ks') = n \<and>
    (\<forall>key. storage_value sm content ks' key =
      (if written_since sm tx ks then storage_value sm content ks key
       else case buffered tx key of Some v \<Rightarrow> v | None \<Rightarrow> storage_value sm content ks key))"
proof -
  have "Option.bind (write_buf tx) (\<lambda>buf. map_of (rev buf) key) = buffered tx key" for key
    using assms(7) by (cases "write_buf tx") (auto simp: buffered_def tx_ok_def btree_get_def map_of_rev_distinct ascending_distinct)
  then show ?thesis using commit_holds [OF assms(1,2,4,3,5,6), of tx] by auto
qed

definition sample_entries :: "(internal_key \<times> bytes option) list" where
  "sample_entries = [(InternalKey [1] 0, Some [7]), (InternalKey [2] 1, None)]"

lemma sample_begin:
  "\<exists>ks :: (_, unit) kip_storage. \<exists>tx ks0.
    storage_ok btree_skip_map keys_ascending le_crates sum_hashing Map.empty Map.empty sample_config0 ks \<and>
    storage_value btree_skip_map Map.empty ks [1] = Some [7] \<and> ks_seq ks = 2 \<and> tx_count (ks_mem ks) = 0 \<and>
    transaction_new Optimistic ks = (tx, ks0) \<and> mem (ks_mem ks0) = sample_entries \<and>
    storage_ok btree_skip_map keys_ascending le_crates sum_hashing Map.empty Map.empty sample_config0 ks0 \<and> tx_ok Map.empty tx ks0 \<and>
    ks_seq ks0 = 3 \<and> tx_seq tx = 2 \<and> tx_count (ks_mem ks0) = 1 \<and> write_buf tx = None"
proof -
  obtain st where st: "storage_ok btree_skip_map keys_ascending le_crates sum_hashing Map.empty Map.empty sample_config0 (sample_storage sample_entries st)"
      "storage_value btree_skip_map Map.empty (sample_storage sample_entries st) =
        (\<lambda>key. case latest sample_entries key SEQ_MAX of Some v \<Rightarrow> v | None \<Rightarrow> None)"
    using sample_storage_ok [of sample_entries] by (auto simp: internal_key_less sample_entries_def)
  let ?ks = "sample_storage sample_entries st"
  have ks: "ks_seq ?ks = 2" "tx_count (ks_mem ?ks) = 0" "mem (ks_mem ?ks) = sample_entries" by (simp_all add: sample_storage_def sample_mem_def)
  have v: "storage_value btree_skip_map Map.empty ?ks [1] = Some [7]"
    unfolding st(2) by (simp add: sample_entries_def latest_Cons SEQ_MAX_def i64_MAX_def)
  obtain tx ks0 where tx: "transaction_new Optimistic ?ks = (tx, ks0)"
      "storage_ok btree_skip_map keys_ascending le_crates sum_hashing Map.empty Map.empty sample_config0 ks0" "tx_ok Map.empty tx ks0"
      "tx_count (ks_mem ks0) = 1" "ks_seq ks0 = 3" "tx_seq tx = 2" "write_buf tx = None"
    using transaction_new_holds [OF bt.mem_map_axioms st(1), of Optimistic] ks by (auto simp: i64_MAX_def usize_MAX_def)
  have "mem (ks_mem ks0) = sample_entries"
    using tx(1) ks(3) by (auto simp: transaction_new_def with_tx_count_def Let_def split: prod.splits)
  then show ?thesis using st(1) v ks tx by (intro exI [of _ ?ks] exI [of _ tx] exI [of _ ks0]) simp
qed

lemma sample_channel_alive: "\<forall>task q. fst (try_send sample_channel task q) \<noteq> Closed"
  by (simp add: sample_channel_def)

theorem transaction_snapshot_witness:
  "\<exists>ks :: (_, unit) kip_storage. \<exists>tx0 ks0 ks1 tx2 ks2 tx3 ks3 tx4 ks4. transaction_new Optimistic ks = (tx0, ks0) \<and>
    tx_run btree_skip_map le_crates sum_hashing sample_channel (Op_Set [2] [5]) tx0 ks0 = Some (Done, tx0\<lparr>write_buf := Some [([2], Some [5])]\<rparr>, ks0) \<and>
    storage_run btree_skip_map le_crates sum_hashing sample_channel (Op_Set [1] [9]) ks0 = Some (Done, ks1) \<and>
    tx_run btree_skip_map le_crates sum_hashing sample_channel (Op_Remove [1]) (tx0\<lparr>write_buf := Some [([2], Some [5])]\<rparr>) ks1 = Some (Done, tx2, ks2) \<and>
    tx_run btree_skip_map le_crates sum_hashing sample_channel (Op_Get [2]) tx2 ks2 = Some (Found_Value (Some [5]), tx3, ks3) \<and>
    tx_run btree_skip_map le_crates sum_hashing sample_channel (Op_Get [1]) tx3 ks3 = Some (Found_Value None, tx4, ks4)"
proof -
  obtain ks :: "(_, unit) kip_storage" and tx0 ks0 where b: "storage_ok btree_skip_map keys_ascending le_crates sum_hashing Map.empty Map.empty sample_config0 ks"
      "storage_value btree_skip_map Map.empty ks [1] = Some [7]" "ks_seq ks = 2" "tx_count (ks_mem ks) = 0"
      "transaction_new Optimistic ks = (tx0, ks0)" "ks_seq ks0 = 3"
      "storage_ok btree_skip_map keys_ascending le_crates sum_hashing Map.empty Map.empty sample_config0 ks0" "write_buf tx0 = None"
    using sample_begin by blast
  have seq: "ks_seq ks < i64_MAX" "ks_seq ks0 < i64_MAX" "0 < usize_MAX" using b(3,6) by (simp_all add: i64_MAX_def usize_MAX_def)
  let ?S = "tx_session btree_skip_map le_crates sum_hashing wire_bincode sample_config0 (\<lambda>_. (11, 22)) sample_channel 0 tx0 ks0"
  let ?run = "tx_run btree_skip_map le_crates sum_hashing sample_channel" and ?v = "storage_value btree_skip_map Map.empty ks"
  note snapshot = transaction_snapshot [OF bt.mem_map_axioms le.int_encoding_axioms sample_channel_alive b(1) seq(1) b(4) seq(3) b(5)]
  let ?tx1 = "tx0\<lparr>write_buf := Some [([2], Some [5])]\<rparr>"
  have 1: "?run (Op_Set [2] [5]) tx0 ks0 = Some (Done, ?tx1, ks0)" using b(8) by (simp add: tx_set_def write_buf_or_init_def)
  obtain ks1 where ks1: "storage_run btree_skip_map le_crates sum_hashing sample_channel (Op_Set [1] [9]) ks0 = Some (Done, ks1)"
    using storage_run_holds [OF bt.mem_map_axioms le.int_encoding_axioms sample_channel_alive b(7) seq(2), of "Op_Set [1] [9]"] by auto
  have S1: "?S [Op_Set [2] [5]] [Done] 0 ?tx1 ks1"
    using session_others [OF session_call [OF session_begin 1] others_op [OF others_refl seq(2) ks1]] by simp
  obtain tx2 ks2 where 2: "?run (Op_Remove [1]) ?tx1 ks1 = Some (Done, tx2, ks2)"
    using snapshot [OF S1, of "Op_Remove [1]"] b(2) by auto
  have S2: "?S [Op_Set [2] [5], Op_Remove [1]] [Done, Done] 0 tx2 ks2" using session_call [OF S1 2] by simp
  obtain tx3 ks3 where 3: "?run (Op_Get [2]) tx2 ks2 = Some (Found_Value (Some [5]), tx3, ks3)"
    using snapshot [OF S2, of "Op_Get [2]"] by auto
  have S3: "?S [Op_Set [2] [5], Op_Remove [1], Op_Get [2]] [Done, Done, Found_Value (Some [5])] 0 tx3 ks3" using session_call [OF S2 3] by simp
  obtain tx4 ks4 where "?run (Op_Get [1]) tx3 ks3 = Some (Found_Value None, tx4, ks4)"
    using snapshot [OF S3, of "Op_Get [1]"] by auto
  then show ?thesis using b(5) 1 2 3 ks1 by blast
qed

theorem commit_correct_witness:
  "\<exists>tx :: transaction. \<exists>ks :: (_, unit) kip_storage. \<exists>ks'. buffered tx [1] = Some (Some [9]) \<and>
    tx_commit btree_skip_map le_crates sample_channel tx ks = Some (Ok (), ks') \<and> tx_count (ks_mem ks') = 0 \<and>
    storage_value btree_skip_map Map.empty ks' [1] = Some [9]"
proof -
  obtain ks0 :: "(_, unit) kip_storage" and tx where
      b: "storage_ok btree_skip_map keys_ascending le_crates sum_hashing Map.empty Map.empty sample_config0 ks0" "mem (ks_mem ks0) = sample_entries"
      "tx_ok Map.empty tx ks0" "ks_seq ks0 = 3" "tx_seq tx = 2" "tx_count (ks_mem ks0) = Suc 0" "write_buf tx = None"
    using sample_begin by auto
  let ?tx = "tx_set [1] [9] tx"
  have tx: "tx_ok Map.empty ?tx ks0" "buffered ?tx [1] = Some (Some [9])"
    using b(3,7) by (simp_all add: tx_ok_def tx_set_def write_buf_or_init_def buffered_def btree_get_def)
  have "\<not> written_since btree_skip_map ?tx ks0"
    using b(2,5) by (auto simp: written_since_def tx_set_def sample_entries_def btree_skip_map_def)
  moreover have "ks_seq ks0 < i64_MAX" using b(4) by (simp add: i64_MAX_def)
  ultimately show ?thesis
    using commit_correct [OF bt.mem_map_axioms le.int_encoding_axioms sample_channel_alive b(1) _ b(6) tx(1)] tx(2) by force
qed

section \<open>The iterator of a transaction\<close>

fun tx_rest ::
  "crates \<Rightarrow> (i64 \<Rightarrow> ss_table option) \<Rightarrow> (i64 \<Rightarrow> key_value list option) \<Rightarrow> tx_source \<Rightarrow> key_value list \<Rightarrow> bool" where
  "tx_rest c tbls content (Inner_Source kvs0) kvs \<longleftrightarrow> kvs = kvs0"
| "tx_rest c tbls content (Buf_Source it) kvs \<longleftrightarrow> kvs = drop (buf_pos it) (buf_inner it)"
| "tx_rest c tbls content (Version_Source it) kvs \<longleftrightarrow> source_rest c tbls content it kvs"

interpretation tx: kv_iter "tx_step c" "loader_inv c hs tbls content" "tx_rest c tbls content" for c hs tbls content
proof unfold_locales
  fix L it kvs assume inv: "loader_inv c hs tbls content L" and rest: "tx_rest c tbls content it kvs"
  show "\<exists>it' L'. tx_step c it L = Some (Ok (case kvs of [] \<Rightarrow> None | kv # _ \<Rightarrow> Some kv, it', L')) \<and>
      loader_inv c hs tbls content L' \<and> tx_rest c tbls content it' (tl kvs)"
  proof (cases it)
    case (Inner_Source kvs0)
    then show ?thesis using inv rest by (cases kvs0) auto
  next
    case (Buf_Source b)
    then have kvs: "kvs = drop (buf_pos b) (buf_inner b)" using rest by simp
    show ?thesis
    proof (cases "buf_pos b < length (buf_inner b)")
      case True
      then have "kvs = buf_inner b ! buf_pos b # drop (Suc (buf_pos b)) (buf_inner b)" using kvs by (simp add: Cons_nth_drop_Suc)
      then show ?thesis using Buf_Source inv True by (simp add: buf_try_next_def buf_is_valid_def)
    next
      case False
      then show ?thesis using Buf_Source inv kvs by (simp add: buf_try_next_def buf_is_valid_def)
    qed
  next
    case (Version_Source src1)
    then show ?thesis using source.step_rest [OF inv, of src1 kvs] rest by fastforce
  qed
qed

lemma seek_all_rest:
  assumes "loader_inv c hs tbls content L" "list_all2 (source_content c tbls content) its kvss"
  shows "\<exists>its' L' rs. seek_all c key its L = Some (Ok (its', L')) \<and> loader_inv c hs tbls content L' \<and>
    list_all2 (seek_to (Seek_Backward key)) kvss rs \<and> list_all2 (tx_rest c tbls content) its' rs"
  using assms
proof (induction its arbitrary: kvss L)
  case (Cons it its)
  obtain kvs kvss1 where kvss: "kvss = kvs # kvss1" "source_content c tbls content it kvs" "list_all2 (source_content c tbls content) its kvss1"
    using Cons.prems(2) by (auto simp: list_all2_Cons1)
  obtain it1 L1 r where it1: "source_seek c it L (Seek_Backward key) = Some (Ok (it1, L1))" "loader_inv c hs tbls content L1"
      "source_rest c tbls content it1 r" "seek_to (Seek_Backward key) kvs r"
    using source.seek_content [OF Cons.prems(1) kvss(2), of "Seek_Backward key"] by auto
  obtain its2 L2 rs where "seek_all c key its L1 = Some (Ok (its2, L2))" "loader_inv c hs tbls content L2"
      "list_all2 (seek_to (Seek_Backward key)) kvss1 rs" "list_all2 (tx_rest c tbls content) its2 rs"
    using Cons.IH [OF it1(2) kvss(3)] by blast
  then show ?case using it1 kvss(1)
    by (intro exI [of _ "Version_Source it1 # its2"] exI [of _ L2] exI [of _ "r # rs"]) simp
qed simp

text \<open>A loop over the iterator.\<close>

fun tx_collect :: "nat \<Rightarrow> crates \<Rightarrow> tx_iter \<Rightarrow> table_loader \<Rightarrow> key_value list outcome option" where
  "tx_collect 0 c it L = None"
| "tx_collect (Suc n) c it L =
     (case tx_iter_try_next c it L of
        Some (Ok (Some kv, it', L')) \<Rightarrow> map_option (map_outcome_ok ((#) kv)) (tx_collect n c it' L')
      | Some (Ok (None, it', L')) \<Rightarrow> Some (Ok [])
      | Some (Err e) \<Rightarrow> Some (Err e)
      | Some Panic \<Rightarrow> Some Panic
      | None \<Rightarrow> None)"

lemma before_min_Some: "before_min lo (Some kv) \<longleftrightarrow> \<not> above lo (fst kv)"
  by (cases lo; cases kv) (auto simp: before_min_def not_le)

lemma before_min_None [simp]: "\<not> before_min lo None"
  by (cases lo) (auto simp: before_min_def)

lemma within_max_item: "within_max hi None = None" "within_max hi (Some kv) = (if below hi (fst kv) then Some kv else None)"
  by (cases hi; cases kv; auto simp: within_max_def)+

lemma skip_loop_rest:
  assumes "loader_inv c hs tbls content L" "tx.mrest c tbls content M (tl out)" "item = (case out of [] \<Rightarrow> None | kv # _ \<Rightarrow> Some kv)"
  shows "\<exists>M' L'. skip_loop c lo item M L =
      Some (Ok (case dropWhile (\<lambda>(k, _). \<not> above lo k) out of [] \<Rightarrow> None | kv # _ \<Rightarrow> Some kv, M', L')) \<and>
    loader_inv c hs tbls content L' \<and> tx.mrest c tbls content M' (tl (dropWhile (\<lambda>(k, _). \<not> above lo k) out))"
  using assms
proof (induction out arbitrary: item M L)
  case Nil
  then show ?case by (subst skip_loop.simps) auto
next
  case (Cons kv out)
  show ?case
  proof (cases "above lo (fst kv)")
    case True
    then show ?thesis using Cons.prems by (subst skip_loop.simps) (auto simp: before_min_Some case_prod_unfold)
  next
    case False
    obtain M1 L1 where n: "merging_try_next (tx_step c) M L = Some (Ok (case out of [] \<Rightarrow> None | kv # _ \<Rightarrow> Some kv, M1, L1))"
        "loader_inv c hs tbls content L1" "tx.mrest c tbls content M1 (tl out)"
      using tx.merging_try_next_rest [OF Cons.prems(1,2)] by auto
    from Cons.IH [OF n(2,3) refl] show ?thesis
      using False n(1) Cons.prems(3) by (subst skip_loop.simps) (simp add: before_min_Some case_prod_unfold)
  qed
qed

lemma tx_collect_inited:
  assumes "loader_inv c hs tbls content L" "tx.mrest c tbls content (txi_inner it) out" "is_inited it" "\<not> is_overed it" "length out < n"
  shows "tx_collect n c it L = Some (Ok (takeWhile (\<lambda>(k, _). below (txi_max it) k) out))"
  using assms
proof (induction n arbitrary: it L out)
  case (Suc n)
  obtain M1 L1 where step: "merging_try_next (tx_step c) (txi_inner it) L = Some (Ok (case out of [] \<Rightarrow> None | kv # _ \<Rightarrow> Some kv, M1, L1))"
      "loader_inv c hs tbls content L1" "tx.mrest c tbls content M1 (tl out)"
    using tx.merging_try_next_rest [OF Suc.prems(1,2)] by blast
  show ?case
  proof (cases out)
    case (Cons kv out')
    have "tx_collect n c (it\<lparr>txi_inner := M1, is_inited := True, is_overed := False\<rparr>) L1 =
        Some (Ok (takeWhile (\<lambda>(k, _). below (txi_max it) k) out'))"
      using Suc.IH [OF step(2), of "it\<lparr>txi_inner := M1, is_inited := True, is_overed := False\<rparr>" out'] step(3) Suc.prems(5) Cons by simp
    then show ?thesis
      using Suc.prems(3,4) step(1) Cons by (simp add: tx_iter_try_next_def within_max_item case_prod_unfold)
  qed (use Suc.prems(3,4) step(1) in \<open>simp add: tx_iter_try_next_def within_max_item\<close>)
qed simp

lemma tx_collect_new:
  assumes inv: "loader_inv c hs tbls content L" and rest: "tx.mrest c tbls content (txi_inner it) out"
    and it: "\<not> is_inited it" "\<not> is_overed it" and n: "length out < n"
  shows "tx_collect n c it L = Some (Ok (takeWhile (\<lambda>(k, _). below (txi_max it) k) (dropWhile (\<lambda>(k, _). \<not> above (txi_min it) k) out)))"
proof -
  define rem where "rem = dropWhile (\<lambda>(k, _). \<not> above (txi_min it) k) out"
  obtain m where m: "n = Suc m" using n by (cases n) auto
  obtain M1 L1 where step: "merging_try_next (tx_step c) (txi_inner it) L = Some (Ok (case out of [] \<Rightarrow> None | kv # _ \<Rightarrow> Some kv, M1, L1))"
      "loader_inv c hs tbls content L1" "tx.mrest c tbls content M1 (tl out)"
    using tx.merging_try_next_rest [OF inv rest] by blast
  obtain M2 L2 where skip: "skip_loop c (txi_min it) (case out of [] \<Rightarrow> None | kv # _ \<Rightarrow> Some kv) M1 L1 =
        Some (Ok (case rem of [] \<Rightarrow> None | kv # _ \<Rightarrow> Some kv, M2, L2))"
      "loader_inv c hs tbls content L2" "tx.mrest c tbls content M2 (tl rem)"
    using skip_loop_rest [OF step(2,3) refl] unfolding rem_def by blast
  have "tx_collect n c it L = Some (Ok (takeWhile (\<lambda>(k, _). below (txi_max it) k) rem))"
  proof (cases rem)
    case Nil
    then show ?thesis using it step(1) skip(1) m by (simp add: tx_iter_try_next_def within_max_item)
  next
    case (Cons kv out')
    have "length rem \<le> length out" unfolding rem_def by (rule length_dropWhile_le)
    then have "length out' < m" using Cons n m by simp
    then have "tx_collect m c (it\<lparr>txi_inner := M2, is_inited := True, is_overed := False\<rparr>) L2 =
        Some (Ok (takeWhile (\<lambda>(k, _). below (txi_max it) k) out'))"
      using tx_collect_inited [OF skip(2), of "it\<lparr>txi_inner := M2, is_inited := True, is_overed := False\<rparr>" out'] skip(3) Cons by simp
    then show ?thesis
      using it step(1) skip(1) m Cons by (simp add: tx_iter_try_next_def within_max_item case_prod_unfold)
  qed
  then show ?thesis by (simp add: rem_def)
qed

lemma above_trans: "above lo a \<Longrightarrow> a \<le> b \<Longrightarrow> above lo b"
  by (cases lo) auto

lemma below_trans: "below hi b \<Longrightarrow> a \<le> b \<Longrightarrow> below hi a"
  by (cases hi) auto

lemma takeWhile_below: "keys_ascending kvs \<Longrightarrow> takeWhile (\<lambda>(k, _). below hi k) kvs = filter (\<lambda>(k, _). below hi k) kvs"
proof (induction kvs)
  case (Cons kv kvs)
  show ?case
  proof (cases "below hi (fst kv)")
    case False
    then have "\<not> below hi (fst x)" if "x \<in> set kvs" for x
      using Cons.prems that below_trans [of hi "fst x" "fst kv"] by (auto simp: less_imp_le)
    then show ?thesis using False by (auto simp: case_prod_unfold intro!: filter_False [symmetric])
  qed (use Cons in \<open>simp add: case_prod_unfold\<close>)
qed simp

lemma dropWhile_above: "keys_ascending kvs \<Longrightarrow> dropWhile (\<lambda>(k, _). \<not> above lo k) kvs = filter (\<lambda>(k, _). above lo k) kvs"
proof (induction kvs)
  case (Cons kv kvs)
  show ?case
  proof (cases "above lo (fst kv)")
    case True
    then have "above lo (fst x)" if "x \<in> set kvs" for x
      using Cons.prems that above_trans [of lo "fst kv" "fst x"] by (auto simp: less_imp_le)
    then show ?thesis using True by (auto simp: case_prod_unfold intro!: filter_True [symmetric])
  qed (use Cons in \<open>simp add: case_prod_unfold\<close>)
qed simp

lemma window_filter:
  assumes "keys_ascending kvs"
  shows "takeWhile (\<lambda>(k, _). below hi k) (dropWhile (\<lambda>(k, _). \<not> above lo k) kvs) = filter (\<lambda>(k, _). above lo k \<and> below hi k) kvs"
  unfolding dropWhile_above [OF assms] takeWhile_below [OF ascending_filter [OF assms]] by (simp add: case_prod_unfold conj_commute)

text \<open>The tables an iterator looks at: those of the levels 0 to 2, and none when there is no lower bound.\<close>

definition tx_tables :: "(i64 \<Rightarrow> key_value list option) \<Rightarrow> bytes bound \<Rightarrow> version \<Rightarrow> key_value list" where
  "tx_tables content lo V =
     (if lo = Unbounded then []
      else level_data content (rev (level_slice V ! 0)) @ level_data content (level_slice V ! 1) @ level_data content (level_slice V ! 2))"

definition tx_entry :: "'m mem_ops \<Rightarrow> transaction \<Rightarrow> 'm mem_table \<Rightarrow> key_value list \<Rightarrow> bytes \<Rightarrow> bytes option option" where
  "tx_entry sm tx t tables key =
     (case buffered tx key of Some v \<Rightarrow> Some v
      | None \<Rightarrow> (case visible sm t (tx_seq tx) key of Some v \<Rightarrow> Some v | None \<Rightarrow> map_of tables key))"

lemma tx_seeked_rest:
  assumes "loader_inv c hs tbls content L" "version_ok content cs V" "tables_filled content V"
  shows "\<exists>its L1 its' L' rs. merging_with_version c V L = Some (Ok (its, L1)) \<and>
    (case lo of Included key \<Rightarrow> seek_all c key its L1 | Excluded key \<Rightarrow> seek_all c key its L1 | Unbounded \<Rightarrow> Some (Ok ([], L1))) = Some (Ok (its', L')) \<and>
    loader_inv c hs tbls content L' \<and> list_all2 (tx_rest c tbls content) its' rs \<and> (\<forall>kvs\<in>set rs. keys_ascending kvs) \<and>
    (\<forall>key. above lo key \<longrightarrow> map_of (concat rs) key = map_of (tx_tables content lo V) key)"
proof -
  obtain its L1 where its: "merging_with_version c V L = Some (Ok (its, L1))" "loader_inv c hs tbls content L1"
      "list_all2 (source_content c tbls content) its (iter_data content V)"
    using merging_with_version_rest [OF assms] by blast
  have seek: "\<exists>its' L' rs. seek_all c key its L1 = Some (Ok (its', L')) \<and> loader_inv c hs tbls content L' \<and>
      list_all2 (tx_rest c tbls content) its' rs \<and> (\<forall>kvs\<in>set rs. keys_ascending kvs) \<and>
      (\<forall>k\<ge>key. map_of (concat rs) k = map_of (concat (iter_data content V)) k)" for key
  proof -
    obtain its' L' rs where s: "seek_all c key its L1 = Some (Ok (its', L'))" "loader_inv c hs tbls content L'"
        "list_all2 (seek_to (Seek_Backward key)) (iter_data content V) rs" "list_all2 (tx_rest c tbls content) its' rs"
      using seek_all_rest [OF its(2,3)] by blast
    have "keys_ascending kvs" if "kvs \<in> set rs" for kvs
      using s(3) that by (auto simp: list_all2_conv_all_nth in_set_conv_nth seek_to_def)
    moreover have "map_of (concat rs) k = map_of (concat (iter_data content V)) k" if "key \<le> k" for k
      using s(3) that by (intro map_of_concat_cong) (auto simp: list_all2_conv_all_nth seek_to_map_of)
    ultimately show ?thesis using s by blast
  qed
  show ?thesis
  proof (cases lo)
    case (Included key)
    then show ?thesis using its(1) seek [of key] unfolding concat_iter_data by (fastforce simp: tx_tables_def)
  next
    case (Excluded key)
    then show ?thesis using its(1) seek [of key] unfolding concat_iter_data by (fastforce simp: tx_tables_def)
  next
    case Unbounded
    then show ?thesis using its(1,2) by (auto simp: tx_tables_def intro!: exI [of _ "[]"])
  qed
qed

lemma tx_iter_delivers:
  assumes sm: "mem_map sm I" and mem: "mem_inv sm I n t" "n \<le> i64_MAX" and inv: "loader_inv c hs tbls content L"
    and V: "version_ok content cs (tx_version tx)" "tables_filled content (tx_version tx)"
    and buf: "\<forall>buf. write_buf tx = Some buf \<longrightarrow> keys_ascending buf" and range: "\<not> range_panics lo hi"
  shows "\<exists>it L' kvs n. tx_iter_new sm c lo hi tx t L = Some (Ok (it, L')) \<and> tx_collect n c it L' = Some (Ok kvs) \<and>
    keys_ascending kvs \<and>
    (\<forall>key. map_of kvs key =
      (if above lo key \<and> below hi key then tx_entry sm tx t (tx_tables content lo (tx_version tx)) key else None))"
proof -
  obtain its L1 its' L2 rs where vi: "merging_with_version c (tx_version tx) L = Some (Ok (its, L1))"
      "(case lo of Included key \<Rightarrow> seek_all c key its L1 | Excluded key \<Rightarrow> seek_all c key its L1 | Unbounded \<Rightarrow> Some (Ok ([], L1))) = Some (Ok (its', L2))"
      "loader_inv c hs tbls content L2" "list_all2 (tx_rest c tbls content) its' rs" "\<forall>kvs\<in>set rs. keys_ascending kvs"
      "\<forall>key. above lo key \<longrightarrow> map_of (concat rs) key = map_of (tx_tables content lo (tx_version tx)) key"
    using tx_seeked_rest [OF inv V, of lo] by blast
  obtain res where res: "range_scan sm t lo hi (Some (tx_seq tx)) = Ok res" "keys_ascending res"
      "\<forall>key. map_of res key = (if above lo key \<and> below hi key then visible sm t (tx_seq tx) key else None)"
    using mem_map.range_scan_visible [OF sm mem, of lo hi "Some (tx_seq tx)"] by (auto simp: scan_seq_def)
  define inner where "inner = (case write_buf tx of Some buf \<Rightarrow> [btree_range buf lo hi] | None \<Rightarrow> [])"
  have inner: "\<forall>kvs\<in>set inner. keys_ascending kvs"
      "\<forall>key. map_of (concat inner) key = (if above lo key \<and> below hi key then buffered tx key else None)"
    using buf by (auto simp: inner_def btree_range_def ascending_filter buffered_def btree_get_def map_of_filter_key split: option.split)
  let ?kvss = "inner @ res # rs"
  obtain M L3 where M: "merging_new (tx_step c) (map Inner_Source inner @ Buf_Source \<lparr>buf_inner = res, buf_pos = 0\<rparr> # its') L2 = Some (Ok (M, L3))"
      "loader_inv c hs tbls content L3" "tx.mrest c tbls content M (merged ?kvss)"
  proof -
    have "list_all2 (tx_rest c tbls content) (map Inner_Source inner) inner" by (simp add: list_all2_conv_all_nth)
    then have "list_all2 (tx_rest c tbls content) (map Inner_Source inner @ Buf_Source \<lparr>buf_inner = res, buf_pos = 0\<rparr> # its') ?kvss"
      using vi(4) by (intro list_all2_appendI) auto
    from tx.merging_new_rest [OF vi(3) this] show thesis using that inner(1) res(2) vi(5) by auto
  qed
  let ?it = "\<lparr>txi_inner = M, txi_min = lo, txi_max = hi, is_overed = False, is_inited = False\<rparr>"
  have new: "tx_iter_new sm c lo hi tx t L = Some (Ok (?it, L3))"
    using vi(1,2) res(1) M(1) range by (cases "write_buf tx") (simp_all add: tx_iter_new_def inner_def)
  let ?out = "filter (\<lambda>(k, _). above lo k \<and> below hi k) (merged ?kvss)"
  have "tx_collect (Suc (length (merged ?kvss))) c ?it L3 = Some (Ok ?out)"
    using tx_collect_new [OF M(2), of ?it "merged ?kvss" "Suc (length (merged ?kvss))"] M(3) window_filter [OF merged_ascending, of hi lo ?kvss]
    by (simp del: tx_collect.simps)
  moreover have "map_of ?out key = (if above lo key \<and> below hi key then tx_entry sm tx t (tx_tables content lo (tx_version tx)) key else None)" for key
    using inner(2) res(3) vi(6) by (auto simp: map_of_filter_key tx_entry_def map_add_def split: option.split)
  ultimately show ?thesis
    using new by (intro exI [of _ ?it] exI [of _ L3] exI [of _ ?out] exI [of _ "Suc (length (merged ?kvss))"]) (simp add: ascending_filter del: tx_collect.simps)
qed


text \<open>C7: an iterator of a transaction with a lower bound. \<open>iter\<close> succeeds, and a loop over \<open>try_next\<close> returns with the keys
  inside the bounds in ascending order, each with what the transaction has buffered for it, else with what the
  memory table shows at its sequence number, else with the newest pair of the levels 0 to 2 of its version. When level 3 is
  empty this is what \<open>get\<close> reads.\<close>

theorem tx_iter_correct:
  assumes "mem_map sm I" "storage_ok sm I c hs tbls content cfg ks" "tx_ok content tx ks" "tables_filled content (tx_version tx)"
    and "lo \<noteq> Unbounded" "\<not> range_panics lo hi"
  shows "\<exists>it L' kvs n. tx_iter_new sm c lo hi tx (ks_mem ks) (ks_loader ks) = Some (Ok (it, L')) \<and>
    tx_collect n c it L' = Some (Ok kvs) \<and> keys_ascending kvs \<and>
    (\<forall>key. map_of kvs key =
      (if above lo key \<and> below hi key then tx_entry sm tx (ks_mem ks) (tx_tables content lo (tx_version tx)) key else None)) \<and>
    (level_slice (tx_version tx) ! 3 = [] \<longrightarrow>
      (\<forall>key. above lo key \<and> below hi key \<longrightarrow> Option.bind (map_of kvs key) (\<lambda>v. v) = tx_value sm content tx ks key))"
proof -
  have o: "mem_inv sm I (ks_seq ks) (ks_mem ks)" "ks_seq ks \<le> i64_MAX" "loader_inv c hs tbls content (ks_loader ks)"
    using assms(2) store_okD(1) by (auto simp: storage_ok_def)
  have tx: "version_ok content (ss_counters (ks_store ks)) (tx_version tx)" "\<forall>buf. write_buf tx = Some buf \<longrightarrow> keys_ascending buf"
    using assms(3) by (simp_all add: tx_ok_def)
  have "tx_tables content lo (tx_version tx) = version_data content (tx_version tx)" if "level_slice (tx_version tx) ! 3 = []"
    using assms(5) that by (simp add: tx_tables_def version_data_def MAX_LEVEL_def upt_rec numeral_2_eq_2 numeral_3_eq_3)
  then show ?thesis
    using tx_iter_delivers [OF assms(1) o(1,2,3) tx(1) assms(4) tx(2) assms(6)]
    by (fastforce simp: tx_entry_def tx_value_def value_of_def split: option.split)
qed

text \<open>C38: \<open>iter\<close> without a lower bound drops the iterators of the version. The loop delivers the buffer and the memory table, and
  no key that only the tables have.\<close>

theorem tx_iter_unbounded_misses_tables:
  assumes "mem_map sm I" "mem_inv sm I n t" "n \<le> i64_MAX" "loader_inv c hs tbls content L"
    and "version_ok content cs (tx_version tx)" "tables_filled content (tx_version tx)"
    and "\<forall>buf. write_buf tx = Some buf \<longrightarrow> keys_ascending buf"
  shows "\<exists>it L' kvs n. tx_iter_new sm c Unbounded hi tx t L = Some (Ok (it, L')) \<and> tx_collect n c it L' = Some (Ok kvs) \<and>
    (\<forall>key. map_of kvs key =
      (if below hi key then (case buffered tx key of Some v \<Rightarrow> Some v | None \<Rightarrow> visible sm t (tx_seq tx) key) else None))"
proof -
  have "(if above Unbounded key \<and> below hi key then tx_entry sm tx t (tx_tables content Unbounded (tx_version tx)) key else None) =
      (if below hi key then (case buffered tx key of Some v \<Rightarrow> Some v | None \<Rightarrow> visible sm t (tx_seq tx) key) else None)" for key
    by (auto simp: tx_entry_def tx_tables_def split: option.split)
  moreover have "\<not> range_panics Unbounded hi" by simp
  ultimately show ?thesis using tx_iter_delivers [OF assms] by metis
qed

theorem tx_iter_correct_witness:
  "\<exists>tx :: transaction. \<exists>ks :: (_, unit) kip_storage. \<exists>it L' kvs n.
    tx_iter_new btree_skip_map le_crates (Included [1]) (Excluded [4]) tx (ks_mem ks) (ks_loader ks) = Some (Ok (it, L')) \<and>
    tx_collect n le_crates it L' = Some (Ok kvs) \<and> map_of kvs [3] = Some (Some [9]) \<and> map_of kvs [2] = Some None"
proof -
  obtain ks0 :: "(_, unit) kip_storage" and tx where
      b: "storage_ok btree_skip_map keys_ascending le_crates sum_hashing Map.empty Map.empty sample_config0 ks0" "mem (ks_mem ks0) = sample_entries"
      "tx_ok Map.empty tx ks0" "tx_seq tx = 2" "write_buf tx = None"
    using sample_begin by auto
  let ?tx = "tx_set [3] [9] tx"
  have tx: "tx_ok Map.empty ?tx ks0" "buffered ?tx [3] = Some (Some [9])" "buffered ?tx [2] = None"
    using b(3,5) by (simp_all add: tx_ok_def tx_set_def write_buf_or_init_def buffered_def btree_get_def)
  have "tables_filled Map.empty (tx_version ?tx)"
    using tx(1) by (force simp: tx_ok_def version_ok_def scope_live_def tables_filled_def)
  moreover have "visible btree_skip_map (ks_mem ks0) 2 [2] = Some None"
    by (simp add: visible_def b(2) btree_skip_map_def sample_entries_def latest_Cons)
  then have "tx_entry btree_skip_map ?tx (ks_mem ks0) d [2] = Some None" for d
    using tx(3) b(4) by (simp add: tx_entry_def tx_set_def)
  moreover have "tx_entry btree_skip_map ?tx (ks_mem ks0) d [3] = Some (Some [9])" for d using tx(2) by (simp add: tx_entry_def)
  ultimately show ?thesis
    using tx_iter_correct [OF bt.mem_map_axioms b(1) tx(1), of "Included [1]" "Excluded [4]"] by fastforce
qed

theorem tx_iter_unbounded_misses_tables_witness:
  "\<exists>L it L' kvs n. tx_iter_new btree_skip_map le_crates Unbounded Unbounded
      \<lparr>tx_version = sample_level 1, tx_seq = 2, tx_check = Optimistic, write_buf = None\<rparr> (sample_mem\<lparr>mem := [], immut := None\<rparr>) L = Some (Ok (it, L')) \<and>
    tx_collect n le_crates it L' = Some (Ok kvs) \<and> map_of kvs [1] = None \<and> map_of (version_data [5 \<mapsto> sample_pairs] (sample_level 1)) [1] \<noteq> None"
proof -
  obtain L tbls where L: "loader_inv le_crates sum_hashing tbls [5 \<mapsto> sample_pairs] L" using sample_table_loader by blast
  have V: "version_ok [5 \<mapsto> sample_pairs] [0] (sample_level 1)" "tables_filled [5 \<mapsto> sample_pairs] (sample_level 1)"
    using sample_level_ok [of 1]
    by (auto simp: MAX_LEVEL_def tables_filled_def sample_level_def sample_top_def scope_data_def sample_pairs_def)
  let ?t = "sample_mem\<lparr>mem := [], immut := None\<rparr>"
  have t: "mem_inv btree_skip_map keys_ascending 2 ?t" "2 \<le> i64_MAX" "visible btree_skip_map ?t 2 [1] = None"
    using sample_mem_inv by (simp_all add: mem_inv_def entries_before_def i64_MAX_def visible_def btree_skip_map_def sample_mem_def latest_def)
  have "map_of (version_data [5 \<mapsto> sample_pairs] (sample_level 1)) [1] \<noteq> None"
    by (simp add: version_data_def MAX_LEVEL_def upt_rec sample_level_def sample_top_def scope_data_def sample_pairs_def)
  then show ?thesis
    using tx_iter_unbounded_misses_tables [OF bt.mem_map_axioms t(1,2) L, of "[0]"
        "\<lparr>tx_version = sample_level 1, tx_seq = 2, tx_check = Optimistic, write_buf = None\<rparr>" Unbounded] V t(3)
    by (fastforce simp: buffered_def)
qed

end
