(* ===== verification/Store_Open.thy ===== *)
theory Store_Open
  imports Mvcc
begin

text \<open>
  Opening a store: \<open>open\<close> and \<open>open_with_config\<close> of \<open>src/src/kernel/lsm/storage.rs\<close> with the lock file of
  \<open>src/src/kernel/mod.rs\<close>, and what a store that is opened again finds. What the file system and the crate of the lock file
  answer is a parameter: the result of creating the directory, of opening the lock file and of every attempt to lock it. The time is a
  parameter, too. Spawning the task of the compactor, whose
  steps are \<open>handle_task\<close>, is left out.
\<close>

section \<open>The lock file\<close>

text \<open>\<open>i\<close> counts the attempts and \<open>slept\<close> the milliseconds of the pauses between them.\<close>

partial_function (option) lock_loop :: "(nat \<Rightarrow> bool outcome) \<Rightarrow> nat \<Rightarrow> nat \<Rightarrow> nat \<Rightarrow> (unit outcome \<times> nat) option" where
  "lock_loop try_lock i backoff slept =
     (case try_lock i of
        Ok locked \<Rightarrow>
          if locked then Some (Ok (), slept)
          else if backoff > 4 then Some (Err ProcessExists, slept)
          else lock_loop try_lock (Suc i) (backoff * 2) (slept + backoff * 100)
      | Err e \<Rightarrow> Some (Err e, slept)
      | Panic \<Rightarrow> Some (Panic, slept))"

definition lock_or_time_out :: "unit outcome \<Rightarrow> (nat \<Rightarrow> bool outcome) \<Rightarrow> (unit outcome \<times> nat) option" where
  "lock_or_time_out opened try_lock =
     (case opened of
        Ok _ \<Rightarrow> lock_loop try_lock 0 1 0
      | Err e \<Rightarrow> Some (Err e, 0)
      | Panic \<Rightarrow> Some (Panic, 0))"

section \<open>Opening\<close>

text \<open>The answers of the file system.\<close>

record open_env =
  env_create_dir :: "unit outcome"
  env_open_lock :: "unit outcome"
  env_try_lock :: "nat \<Rightarrow> bool outcome"

definition gen_init :: "i64 \<Rightarrow> i64" where
  "gen_init timestamp_millis = timestamp_millis"

definition open_with_config ::
  "'m mem_ops \<Rightarrow> crates \<Rightarrow> bincode \<Rightarrow> open_env \<Rightarrow> i64 \<Rightarrow> directory \<times> directory \<times> directory \<Rightarrow> (i64 \<Rightarrow> 64 word) \<Rightarrow>
   (i64 \<times> block_index option \<Rightarrow> 64 word) \<Rightarrow> 'q \<Rightarrow> i64 \<Rightarrow> config \<Rightarrow> ('m, 'q) kip_storage outcome option" where
  "open_with_config sm c bc env now dirs hash1 hash2 q seq cfg =
     (let gen_buf = gen_init now; (wals, files, logs) = dirs in
      bind_oo (Some (env_create_dir env)) (\<lambda>_.
      bind_oo (map_option fst (lock_or_time_out (env_open_lock env) (env_try_lock env))) (\<lambda>_.
      store_inner_new sm c bc cfg wals files logs hash1 hash2 gen_buf q seq)))"

definition storage_open ::
  "'m mem_ops \<Rightarrow> crates \<Rightarrow> bincode \<Rightarrow> open_env \<Rightarrow> i64 \<Rightarrow> directory \<times> directory \<times> directory \<Rightarrow> (i64 \<Rightarrow> 64 word) \<Rightarrow>
   (i64 \<times> block_index option \<Rightarrow> 64 word) \<Rightarrow> 'q \<Rightarrow> i64 \<Rightarrow> (nat \<Rightarrow> nat) \<Rightarrow> 64 word \<Rightarrow> ('m, 'q) kip_storage outcome option" where
  "storage_open sm c bc env now dirs hash1 hash2 q seq bits_count hashers_count =
     open_with_config sm c bc env now dirs hash1 hash2 q seq (config_new bits_count hashers_count)"

text \<open>The directories a store leaves behind.\<close>

definition store_dirs :: "('m, 'q) kip_storage \<Rightarrow> directory \<times> directory \<times> directory" where
  "store_dirs ks = (wal (ks_mem ks), tl_files (ks_loader ks), vs_logs (ss_status (ks_store ks)))"

section \<open>What the log of the memory table holds\<close>

definition mem_logged :: "'m mem_ops \<Rightarrow> crates \<Rightarrow> 'm mem_table \<Rightarrow> bool" where
  "mem_logged sm c t \<longleftrightarrow>
     (\<exists>kvss. wal_holds c t (snd (wal_writer t)) (map (log_entry c) kvss) \<and> (\<forall>kvs\<in>set kvss. \<forall>kv\<in>set kvs. kv_storable kv) \<and>
       (\<forall>key. latest (sm_iter sm (mem t)) key SEQ_MAX = map_of (rev (concat kvss)) key))"

lemma mem_logged_step:
  assumes "mem_logged sm c t" "\<forall>kv\<in>set kvs. kv_storable kv" "snd (wal_writer t') = snd (wal_writer t)"
    and "\<And>gen rs. wal_holds c t gen rs \<Longrightarrow> wal_holds c t' gen (rs @ [log_entry c kvs])"
    and "\<And>key. latest (sm_iter sm (mem t')) key SEQ_MAX =
      (case map_of (rev kvs) key of Some v \<Rightarrow> Some v | None \<Rightarrow> latest (sm_iter sm (mem t)) key SEQ_MAX)"
  shows "mem_logged sm c t'"
proof -
  obtain kvss where kvss: "wal_holds c t (snd (wal_writer t)) (map (log_entry c) kvss)" "\<forall>kvs\<in>set kvss. \<forall>kv\<in>set kvs. kv_storable kv"
      "\<forall>key. latest (sm_iter sm (mem t)) key SEQ_MAX = map_of (rev (concat kvss)) key"
    using assms(1) by (auto simp: mem_logged_def)
  have "wal_holds c t' (snd (wal_writer t')) (map (log_entry c) (kvss @ [kvs]))" using assms(3) assms(4) [OF kvss(1)] by simp
  moreover have "latest (sm_iter sm (mem t')) key SEQ_MAX = map_of (rev (concat (kvss @ [kvs]))) key" for key
    using assms(5) [of key] kvss(3) by (simp add: map_add_def split: option.split)
  moreover have "\<forall>kvs\<in>set (kvss @ [kvs]). \<forall>kv\<in>set kvs. kv_storable kv" using kvss(2) assms(2) by simp
  ultimately show ?thesis unfolding mem_logged_def by blast
qed

lemma insert_data_logged:
  assumes sm: "mem_map sm I" and c: "int_encoding c" and inv: "mem_inv sm I n t" "0 \<le> n" "n < i64_MAX"
    and run: "insert_data sm c kv n t = Some (Ok (b, n', t'))" and kv: "kv_storable kv" and logged: "mem_logged sm c t"
  shows "mem_logged sm c t'"
proof (rule mem_logged_step [OF logged, of "[kv]"])
  show "\<And>gen rs. wal_holds c t gen rs \<Longrightarrow> wal_holds c t' gen (rs @ [log_entry c [kv]])" by (rule insert_data_wal [OF c _ run])
  have "mem t' = mem (fold (batch_item sm n) [kv] t)"
    using run create_next(1) [OF inv(2,3)]
    by (auto simp: insert_data_def map_outcome_ok_Ok_iff Let_def batch_item_def wal_append_def case_prod_beta)
  then show "latest (sm_iter sm (mem t')) key SEQ_MAX =
      (case map_of (rev [kv]) key of Some v \<Rightarrow> Some v | None \<Rightarrow> latest (sm_iter sm (mem t)) key SEQ_MAX)" for key
    using fold_batch_latest [OF sm inv, of "[kv]" key] by simp
qed (use kv insert_data_frame(1) [OF run] in simp_all)

lemma insert_batch_data_logged:
  assumes sm: "mem_map sm I" and c: "int_encoding c" and inv: "mem_inv sm I n t" "0 \<le> n" "n < i64_MAX"
    and run: "insert_batch_data sm c kvs n t = Some (Ok (b, t'))" and kvs: "\<forall>kv\<in>set kvs. kv_storable kv" and logged: "mem_logged sm c t"
  shows "mem_logged sm c t'"
proof (rule mem_logged_step [OF logged kvs insert_batch_frame(1) [OF run]])
  show "\<And>gen rs. wal_holds c t gen rs \<Longrightarrow> wal_holds c t' gen (rs @ [log_entry c kvs])" by (rule insert_batch_data_wal [OF c _ run])
  have "mem t' = mem (fold (batch_item sm n) kvs t)"
    using run by (auto simp: insert_batch_data_def map_outcome_ok_Ok_iff Let_def wal_append_def case_prod_beta)
  then show "latest (sm_iter sm (mem t')) key SEQ_MAX =
      (case map_of (rev kvs) key of Some v \<Rightarrow> Some v | None \<Rightarrow> latest (sm_iter sm (mem t)) key SEQ_MAX)" for key
    using fold_batch_latest [OF sm inv, of kvs key] by simp
qed

lemma mem_logged_kept:
  assumes "mem_logged sm c t" "mem t' = mem t" "wal_writer t' = wal_writer t" "kept_dir G (wal t) (wal t')"
    and "\<forall>g\<in>G. g < snd (wal_writer t)"
  shows "mem_logged sm c t'"
proof -
  have "wal_holds c t' gen rs" if "wal_holds c t gen rs" "gen = snd (wal_writer t)" for gen rs
    using that assms(3-5) unfolding wal_holds_def kept_dir_def btree_get_def by fastforce
  then show ?thesis using assms(1-3) unfolding mem_logged_def by metis
qed

section \<open>Stores that survive a crash\<close>

text \<open>The version log and the write-ahead log hold what the store has in memory, and every table is older than the active log; \<open>n\<close> is
  the number of flushes, each of which adds less than 33 bits to the statistics in the log.\<close>

definition durable ::
  "'m mem_ops \<Rightarrow> ('m \<Rightarrow> bool) \<Rightarrow> crates \<Rightarrow> bincode \<Rightarrow> hashing \<Rightarrow> (i64 \<Rightarrow> ss_table option) \<Rightarrow> (i64 \<Rightarrow> key_value list option) \<Rightarrow> config \<Rightarrow> nat \<Rightarrow>
   ('m, 'q) kip_storage \<Rightarrow> bool" where
  "durable sm I c bc hs tbls content cfg n ks \<longleftrightarrow>
     storage_ok sm I c hs tbls content cfg ks \<and> (\<exists>ws. status_logs c bc (ss_status (ks_store ks)) ws \<and> log_weight ws \<le> n * 2 ^ 33) \<and>
     snd (ver_log_writer (ss_status (ks_store ks))) < ss_gen_buf (ks_store ks) \<and> mem_logged sm c (ks_mem ks) \<and>
     (\<forall>g\<in>dom content. g < snd (wal_writer (ks_mem ks)))"

lemma status_logs_loader [simp]: "status_logs c bc (st\<lparr>vs_loader := L\<rparr>) ws = status_logs c bc st ws"
  by (simp add: status_logs_def)

text \<open>Reads.\<close>

definition read_frame :: "i64 set \<Rightarrow> ('m, 'q) kip_storage \<Rightarrow> ('m, 'q) kip_storage \<Rightarrow> bool" where
  "read_frame G ks ks' \<longleftrightarrow> mem (ks_mem ks') = mem (ks_mem ks) \<and> wal_writer (ks_mem ks') = wal_writer (ks_mem ks) \<and>
     kept_dir G (wal (ks_mem ks)) (wal (ks_mem ks')) \<and> (\<exists>L. ss_status (ks_store ks') = (ss_status (ks_store ks))\<lparr>vs_loader := L\<rparr>) \<and>
     ss_gen_buf (ks_store ks') = ss_gen_buf (ks_store ks)"

lemma read_frame_refl [simp]: "read_frame G ks ks"
proof -
  have "ss_status (ks_store ks) = (ss_status (ks_store ks))\<lparr>vs_loader := vs_loader (ss_status (ks_store ks))\<rparr>" by simp
  then show ?thesis unfolding read_frame_def by (metis kept_dir_refl)
qed

lemma query_frame:
  assumes "query_and_compaction c hs ch key V (ks_store ks) q = Some (Ok (kv, st, q'))" "wal (ks_mem ks) = tl_wal (ks_loader ks)"
  shows "read_frame (version_gens V) ks (set_store st (ks\<lparr>ks_chan := q'\<rparr>))"
proof -
  obtain r L' cs' where q: "version_query c hs V key (ks_loader ks) (ss_counters (ks_store ks)) = Some (Ok (r, L', cs'))"
      "st = (with_loader (ks_store ks) L')\<lparr>ss_counters := cs'\<rparr>"
    using assms(1) by (auto simp: query_and_compaction_def Let_def elim!: bind_oo_OkE split: option.splits)
  have "kept_files (version_gens V) (ks_loader ks) L'" using version_query_kept [OF q(1)] by blast
  then show ?thesis using q(2) assms(2) by (auto simp: read_frame_def set_store_def with_loader_def kept_files_def)
qed

lemma durable_read:
  assumes "durable sm I c bc hs tbls content cfg n ks" "read_frame (version_gens V) ks ks'" "version_ok content cs V"
    and "storage_ok sm I c hs tbls content cfg ks'"
  shows "durable sm I c bc hs tbls content cfg n ks'"
proof -
  have "g \<in> dom content" if "g \<in> version_gens V" for g
    using assms(3) that unfolding version_ok_def version_gens_def scope_live_def by blast
  then have "\<forall>g\<in>version_gens V. g < snd (wal_writer (ks_mem ks))" using assms(1) by (auto simp: durable_def)
  then have "mem_logged sm c (ks_mem ks')"
    using assms(1,2) mem_logged_kept by (auto simp: durable_def read_frame_def)
  then show ?thesis using assms(1,2,4) by (auto simp: durable_def read_frame_def)
qed

lemma durable_get:
  assumes sm: "mem_map sm I" and alive: "\<forall>task q. fst (try_send ch task q) \<noteq> Closed" and d: "durable sm I c bc hs tbls content cfg n ks"
    and run: "storage_get sm c hs ch key ks = Some (Ok (v, ks'))"
  shows "durable sm I c bc hs tbls content cfg n ks'" "ks_seq ks' = ks_seq ks"
proof -
  have ok: "storage_ok sm I c hs tbls content cfg ks" using d by (simp add: durable_def)
  have ok': "storage_ok sm I c hs tbls content cfg ks' \<and> ks_seq ks' = ks_seq ks" using storage_get_holds [OF sm ok alive, of key] run by auto
  then show "ks_seq ks' = ks_seq ks" by simp
  have "wal (ks_mem ks) = tl_wal (ks_loader ks)" "version_ok content (ss_counters (ks_store ks)) (ks_version ks)"
    using ok store_okD(4) by (auto simp: storage_ok_def)
  moreover from this(1) have "read_frame (version_gens (ks_version ks)) ks ks'"
    using run query_frame [of c hs ch key "ks_version ks" ks]
    by (auto simp: storage_get_def Let_def elim!: bind_oo_OkE split: option.splits)
  ultimately show "durable sm I c bc hs tbls content cfg n ks'" using durable_read [OF d] ok' by blast
qed

text \<open>Writes.\<close>

lemma set_mem_durable:
  assumes "durable sm I c bc hs tbls content cfg n ks" "storage_ok sm I c hs tbls content cfg (set_mem t (ks\<lparr>ks_seq := s\<rparr>)\<lparr>ks_chan := q\<rparr>)"
    and "mem_logged sm c t" "snd (wal_writer t) = snd (wal_writer (ks_mem ks))"
  shows "durable sm I c bc hs tbls content cfg n (set_mem t (ks\<lparr>ks_seq := s\<rparr>)\<lparr>ks_chan := q\<rparr>)"
  using assms by (simp add: durable_def set_mem_def with_loader_def)

lemma durable_append:
  assumes sm: "mem_map sm I" and c: "int_encoding c" and alive: "\<forall>task q. fst (try_send ch task q) \<noteq> Closed"
    and d: "durable sm I c bc hs tbls content cfg n ks" and seq: "ks_seq ks < i64_MAX" and kv: "kv_storable kv"
    and run: "append_cmd_data sm c ch kv ks = Some (r, ks')"
  shows "durable sm I c bc hs tbls content cfg n ks'"
proof -
  have ok: "storage_ok sm I c hs tbls content cfg ks" using d by (simp add: durable_def)
  then have o: "mem_inv sm I (ks_seq ks) (ks_mem ks)" "0 \<le> ks_seq ks" by (simp_all add: storage_ok_def)
  have ok': "r = Ok ()" "storage_ok sm I c hs tbls content cfg ks'" using append_holds [OF sm c ok alive seq, of kv] run by auto
  then obtain b s t q where t: "insert_data sm c kv (ks_seq ks) (ks_mem ks) = Some (Ok (b, s, t))" "ks' = set_mem t (ks\<lparr>ks_seq := s\<rparr>)\<lparr>ks_chan := q\<rparr>"
    using run
    by (auto simp: append_cmd_data_def Let_def split: option.splits outcome.splits prod.splits if_splits)
      (metis kip_storage.surjective kip_storage.update_convs(3))+
  have "mem_logged sm c t" using insert_data_logged [OF sm c o seq t(1) kv] d by (simp add: durable_def)
  then show ?thesis using set_mem_durable [OF d] ok'(2) t(2) insert_data_frame(1) [OF t(1)] by blast
qed

fun op_storable :: "store_op \<Rightarrow> bool" where
  "op_storable (Op_Set k v) = kv_storable (k, Some v)"
| "op_storable (Op_Get k) = True"
| "op_storable (Op_Remove k) = kv_storable (k, None)"

lemma durable_run:
  assumes sm: "mem_map sm I" and c: "int_encoding c" and alive: "\<forall>task q. fst (try_send ch task q) \<noteq> Closed"
    and d: "durable sm I c bc hs tbls content cfg n ks" and seq: "ks_seq ks < i64_MAX" and op: "op_storable op"
    and run: "storage_run sm c hs ch op ks = Some (a, ks')"
  shows "durable sm I c bc hs tbls content cfg n ks'"
proof (cases op)
  case (Op_Set k v)
  then obtain r where "append_cmd_data sm c ch (k, Some v) ks = Some (r, ks')"
    using run by (auto simp: storage_set_def split: option.splits outcome.splits)
  then show ?thesis using durable_append [OF sm c alive d seq] op Op_Set by auto
next
  case (Op_Get k)
  then show ?thesis using run durable_get(1) [OF sm alive d] by (auto split: option.splits outcome.splits)
next
  case (Op_Remove k)
  have ok: "storage_ok sm I c hs tbls content cfg ks" using d by (simp add: durable_def)
  obtain v ks1 where ks1: "storage_get sm c hs ch k ks = Some (Ok (v, ks1))" using storage_get_holds [OF sm ok alive] by blast
  note d1 = durable_get [OF sm alive d ks1]
  show ?thesis
  proof (cases v)
    case None
    then have "ks' = ks1" using run Op_Remove ks1 by (simp add: storage_remove_def)
    then show ?thesis using d1 by simp
  next
    case (Some w)
    then obtain r where "append_cmd_data sm c ch (k, None) ks1 = Some (r, ks')"
      using run Op_Remove ks1 by (auto simp: storage_remove_def split: option.splits outcome.splits kernel_error.splits)
    then show ?thesis using durable_append [OF sm c alive d1(1)] d1(2) seq op Op_Remove by auto
  qed
qed

text \<open>Transactions.\<close>

lemma durable_tx_count: "durable sm I c bc hs tbls content cfg n (with_tx_count f ks) = durable sm I c bc hs tbls content cfg n ks"
proof -
  have "wal_holds c (ks_mem (with_tx_count f ks)) gen rs = wal_holds c (ks_mem ks) gen rs" for gen rs
    by (simp add: with_tx_count_def wal_holds_def)
  moreover have "mem (ks_mem (with_tx_count f ks)) = mem (ks_mem ks)" "wal_writer (ks_mem (with_tx_count f ks)) = wal_writer (ks_mem ks)"
    by (simp_all add: with_tx_count_def)
  ultimately show ?thesis by (simp add: durable_def mem_logged_def)
qed

lemma durable_begin:
  assumes sm: "mem_map sm I" and d: "durable sm I c bc hs tbls content cfg n ks" and seq: "ks_seq ks < i64_MAX"
    and run: "transaction_new check ks = (tx, ks')"
  shows "durable sm I c bc hs tbls content cfg n ks'"
proof -
  let ?ks1 = "with_tx_count (\<lambda>n. (n + 1) mod (usize_MAX + 1)) ks"
  have ok: "storage_ok sm I c hs tbls content cfg ?ks1" "0 \<le> ks_seq ks" using d by (simp_all add: durable_def) (simp add: storage_ok_def)
  have "ks' = ?ks1\<lparr>ks_seq := ks_seq ks + 1\<rparr>" using run create_next(1) [OF ok(2) seq] by (auto simp: transaction_new_def Let_def)
  moreover have "storage_ok sm I c hs tbls content cfg (?ks1\<lparr>ks_seq := ks_seq ?ks1 + 1\<rparr>)" by (rule storage_ok_seq [OF sm ok(1)]) (simp add: seq)
  moreover have "durable sm I c bc hs tbls content cfg n ?ks1" using d by (simp add: durable_tx_count)
  ultimately show ?thesis by (simp add: durable_def)
qed

lemma durable_commit:
  assumes sm: "mem_map sm I" and c: "int_encoding c" and alive: "\<forall>task q. fst (try_send ch task q) \<noteq> Closed"
    and d: "durable sm I c bc hs tbls content cfg n ks" and seq: "ks_seq ks < i64_MAX"
    and buf: "\<forall>buf. write_buf tx = Some buf \<longrightarrow> (\<forall>kv\<in>set buf. kv_storable kv)"
    and run: "tx_commit sm c ch tx ks = Some (r, ks')"
  shows "durable sm I c bc hs tbls content cfg n ks'"
proof -
  have ok: "storage_ok sm I c hs tbls content cfg ks" using d by (simp add: durable_def)
  then have o: "mem_inv sm I (ks_seq ks) (ks_mem ks)" "0 \<le> ks_seq ks" by (simp_all add: storage_ok_def)
  obtain ks1 where ks1: "commit_body sm c ch tx ks = Some (r, ks1)" "ks' = transaction_drop ks1"
    using run by (auto simp: tx_commit_def)
  have ok1: "storage_ok sm I c hs tbls content cfg ks1" using commit_body_holds [OF sm c ok alive seq, of tx] ks1(1) by auto
  have "durable sm I c bc hs tbls content cfg n ks1"
  proof (cases "ks1 = ks")
    case False
    then obtain kvs where kvs: "write_buf tx = Some kvs" "\<not> check_key_conflict sm (ks_mem ks) kvs (tx_seq tx)"
      using ks1(1) by (cases "tx_check tx") (auto simp: commit_body_def split: option.splits if_splits)
    obtain b t where t: "insert_batch_data sm c kvs (ks_seq ks) (ks_mem ks) = Some (Ok (b, t))"
      using mem_map.insert_batch_data_visible [OF sm c o, of kvs] by blast
    have "\<exists>q. ks1 = set_mem t (ks\<lparr>ks_seq := ks_seq ks + 1\<rparr>)\<lparr>ks_chan := q\<rparr>"
      using ks1(1) kvs t create_next(1) [OF o(2) seq]
      by (cases "tx_check tx") (auto simp: commit_body_def Let_def split: outcome.splits if_splits
          intro: exI [of _ "ks_chan (set_mem t (ks\<lparr>ks_seq := ks_seq ks + 1\<rparr>))"])
    moreover have "mem_logged sm c t" using insert_batch_data_logged [OF sm c o seq t] buf kvs(1) d by (simp add: durable_def)
    ultimately show ?thesis using set_mem_durable [OF d] ok1 insert_batch_frame(1) [OF t] by blast
  qed (use d in simp)
  then show ?thesis by (simp add: ks1(2) transaction_drop_def durable_tx_count)
qed

text \<open>Opening the directories again.\<close>

lemma same_tables_distinct:
  assumes "same_tables V W" "\<forall>l\<in>set (level_slice W). distinct (map scope_gen l)"
  shows "\<forall>l\<in>set (level_slice V). distinct (map scope_gen l)"
proof -
  have gens: "map (map scope_gen) (level_slice U) = map (map scope_gen) (map (map strip) (level_slice U))" for U by simp
  have "map (map scope_gen) (level_slice V) = map (map scope_gen) (level_slice W)"
    using assms(1) unfolding gens [of V] gens [of W] same_tables_def by simp
  then show ?thesis using assms(2) by (metis (no_types, lifting) imageE imageI image_set)
qed

lemma durable_reopen:
  assumes sm: "mem_map sm I" and c: "int_encoding c" "bincode_codec bc" and d: "durable sm I c bc hs tbls content cfg n ks"
    and cfg: "table_cache_size cfg mod 16 = 0" "0 < table_cache_size cfg" "block_cache_size cfg mod 16 = 0" "0 < block_cache_size cfg"
    and now: "ss_gen_buf (ks_store ks) \<le> now" "now + 1 < i64_MAX"
  shows "\<exists>ks'. store_inner_new sm c bc cfg (wal (ks_mem ks)) (tl_files (ks_loader ks)) (vs_logs (ss_status (ks_store ks))) hash1 hash2 now q 1 =
      Some (Ok ks') \<and> storage_ok sm I c hs tbls content cfg ks' \<and> storage_value sm content ks' = storage_value sm content ks"
proof -
  let ?t = "ks_mem ks" and ?L = "ks_loader ks" and ?st = "ss_status (ks_store ks)" and ?gen = "snd (wal_writer (ks_mem ks))"
  have ok: "store_ok c hs tbls content (ks_store ks)" "wal ?t = tl_wal ?L" "flushed sm content ?t (ks_version ks)"
      "log_gen_free tbls content ?gen ?L (ss_gen_buf (ks_store ks))"
    using d by (simp_all add: durable_def storage_ok_def)
  note s = store_okD [OF ok(1)]
  obtain ws where ws: "status_logs c bc ?st ws" using d by (auto simp: durable_def)
  obtain kvss where kvss: "wal_holds c ?t ?gen (map (log_entry c) kvss)" "\<forall>kvs\<in>set kvss. \<forall>kv\<in>set kvs. kv_storable kv"
      "\<forall>key. latest (sm_iter sm (mem ?t)) key SEQ_MAX = map_of (rev (concat kvss)) key"
    using d by (auto simp: durable_def mem_logged_def)
  have g: "gen_create now = (now, now + 1)" "gen_create (now + 1) = (now + 1, now + 1 + 1)"
    using create_next(2) [of now] create_next(2) [of "now + 1"] s(7) now by auto
  obtain t where t: "mem_table_new sm c cfg (wal ?t) now = Some (Ok (now + 1, t))" "mem_inv sm I 1 t"
      "\<forall>key. mem_find sm t key = map_option (\<lambda>v. (key, v)) (map_of (rev (concat kvss)) key)" "wal t = wal ?t" "immut t = None"
      "snd (wal_writer t) = ?gen"
    using mem_map.mem_table_new_recovers [OF sm c(1) kvss(2), of "wal ?t" ?gen cfg now] kvss(1) g(1) by (auto simp: wal_holds_def)
  have "backed c hs tbls (tl_files ?L) (wal ?t) gen kvs" if "content gen = Some kvs" for gen kvs
    using s(1) that ok(2) by (simp add: loader_inv_def)
  then obtain L where L: "loader_new cfg (tl_files ?L) (wal ?t) hash1 hash2 = Ok L" "loader_inv c hs tbls content L"
    using loader_new_restart [OF cfg, of content c hs tbls] by blast
  have L': "tl_files L = tl_files ?L" "tl_config L = cfg" "tl_wal L = wal ?t" using L(1) by (auto simp: loader_new_def and_then_Ok_iff)
  obtain st' tag cs' where st': "load_with_path c bc cfg (tl_files ?L) (wal ?t) (vs_logs ?st) hash1 hash2 (now + 1) [] =
        Some (Ok ((st', tag), now + 1 + 1, cs'))" "same_tables (vs_version st') (vs_version ?st)" "vs_loader st' = L" "counters_ok cs'" "status_ok st'"
      "\<forall>l\<in>set (level_slice (vs_version st')). \<forall>s\<in>set l. seeks_ok cs' s"
    using load_with_path_logs [OF c ws _ L(1), of "[]" "now + 1"] g(2) by (auto simp: counters_ok_def)
  note V = same_tables_ok [OF st'(2) s(4) st'(6)]
  let ?ks = "\<lparr>ks_mem = t\<lparr>wal := tl_wal (vs_loader st')\<rparr>,
    ks_store = \<lparr>ss_status = st', ss_counters = cs', ss_gen_buf = now + 1 + 1, ss_tags = [tag]\<rparr>, ks_chan = q, ks_seq = 1\<rparr>"
  have "loader_fresh tbls content L (now + 1 + 1)" using s(6) L'(1) now(1) by (simp add: loader_fresh_def)
  then have "store_ok c hs tbls content (ks_store ?ks)"
    using st'(3-5) L(2) V(1) same_tables_distinct [OF st'(2) s(5)] s(7) now(1) by (simp add: store_ok_def)
  then have ok': "storage_ok sm I c hs tbls content cfg ?ks"
    using t(2,5,6) st'(3) L' ok(4) now(1) by (simp add: storage_ok_def flushed_def log_gen_free_def i64_MAX_def)
  have "visible sm (t\<lparr>wal := tl_wal (vs_loader st')\<rparr>) SEQ_MAX key = latest (sm_iter sm (mem ?t)) key SEQ_MAX" for key
    using t(3) mem_map.mem_find_visible [OF sm t(2), of key] kvss(3)
    by (cases "visible sm t SEQ_MAX key"; cases "map_of (rev (concat kvss)) key") auto
  then have "storage_value sm content ?ks key = storage_value sm content ks key" for key
    using ok(3) V(2) by (auto simp: storage_value_def value_of_def flushed_def visible_def [of sm ?t] split: option.splits)
  moreover have "store_inner_new sm c bc cfg (wal ?t) (tl_files ?L) (vs_logs ?st) hash1 hash2 now q 1 = Some (Ok ?ks)"
    using t(1,4) st'(1) by (simp add: store_inner_new_def)
  ultimately show ?thesis using ok' by blast
qed

text \<open>A new database.\<close>

lemma durable_new:
  assumes sm: "mem_map sm I" and c: "int_encoding c"
    and cfg: "table_cache_size cfg mod 16 = 0" "0 < table_cache_size cfg" "block_cache_size cfg mod 16 = 0" "0 < block_cache_size cfg"
    and now: "0 \<le> now" "now + 2 < i64_MAX"
  shows "\<exists>ks. store_inner_new sm c bc cfg [] [] [] hash1 hash2 now q 1 = Some (Ok ks) \<and>
    durable sm I c bc hs Map.empty Map.empty cfg 0 ks \<and> storage_value sm Map.empty ks = (\<lambda>_. None) \<and> ss_gen_buf (ks_store ks) = now + 3 \<and> ks_seq ks = 1"
proof -
  have om: "ordered_map sm I" using sm by (simp add: mem_map_def)
  have g: "gen_create now = (now, now + 1)" using create_next(2) [OF now(1)] now(2) by auto
  obtain t where t: "mem_table_new sm c cfg [] now = Some (Ok (now + 1, t))" "mem_inv sm I 1 t" "wal_holds c t now []" "immut t = None"
      "\<forall>seq key. visible sm t seq key = None" "mem t = sm_new sm"
    using mem_table_new_empty [OF sm c, of cfg now] g by auto
  have wal: "wal_writer t = (\<lparr>dst = file_at [] [], current_block_offset = 0, log_block_size = BLOCK_SIZE\<rparr>, now)"
    using t(3) by (simp add: wal_holds_def)
  obtain L where L: "loader_new cfg [] (wal t) hash1 hash2 = Ok L" "loader_inv c hs Map.empty Map.empty L"
    using loader_new_restart [OF cfg, of Map.empty c hs Map.empty "[]" "wal t" hash1 hash2] by auto
  have L': "tl_files L = []" "tl_config L = cfg" "tl_wal L = wal t" using L(1) by (auto simp: loader_new_def and_then_Ok_iff)
  obtain st tag where st: "load_with_path c bc cfg [] (wal t) [] hash1 hash2 (now + 1) [] = Some (Ok ((st, tag), now + 1 + 2, []))" "vs_loader st = L"
    using load_with_path_fresh [OF L(1), of "now + 1" c bc "[]"] now by auto
  have st': "status_logs c bc st []" "snd (ver_log_writer st) = now + 1"
      "vs_version st = \<lparr>version_num = 1, level_slice = level_slice_new, meta_data = \<lparr>vm_size_of_disk = 0, vm_len = 0\<rparr>\<rparr>"
    using load_with_path_empty [OF st(1)] now by auto
  have "log_weight [] = 0" by (simp add: log_weight_def)
  then have logs: "\<exists>ws. status_logs c bc st ws \<and> log_weight ws \<le> 0" using st'(1) by fastforce
  let ?ks = "\<lparr>ks_mem = t\<lparr>wal := tl_wal (vs_loader st)\<rparr>, ks_store = \<lparr>ss_status = st, ss_counters = [], ss_gen_buf = now + 1 + 2, ss_tags = [tag]\<rparr>,
    ks_chan = q, ks_seq = 1\<rparr>"
  have "version_ok Map.empty [] (vs_version st)"
    by (auto simp: st'(3) version_ok_def level_slice_new_def MAX_LEVEL_def level_sorted_def less_Suc_eq numeral_eq_Suc nth_Cons')
  then have "store_ok c hs Map.empty Map.empty (ks_store ?ks)"
    using st(2) st'(3) L(2) L'(1) status_logs_ok [OF st'(1)] now(1)
    by (auto simp: store_ok_def counters_ok_def loader_fresh_def btree_get_def level_slice_new_def)
  then have "storage_ok sm I c hs Map.empty Map.empty cfg ?ks"
    using t(2,4) wal st(2) L' by (simp add: storage_ok_def flushed_def log_gen_free_def i64_MAX_def btree_get_def)
  moreover have "mem_logged sm c (t\<lparr>wal := tl_wal (vs_loader st)\<rparr>)"
    unfolding mem_logged_def using t(3,6) wal st(2) L'(3) ordered_map.iter_new [OF om] wal_holds_cong [of "t\<lparr>wal := wal t\<rparr>" t c now "[]"]
    by (intro exI [of _ "[]"]) simp
  ultimately have "durable sm I c bc hs Map.empty Map.empty cfg 0 ?ks" using st' logs by (auto simp: durable_def)
  moreover have "version_data Map.empty (vs_version st) = []"
    by (simp add: version_data_def st'(3) level_slice_new_def MAX_LEVEL_def upt_rec)
  then have "storage_value sm Map.empty ?ks = (\<lambda>_. None)" using t(5) by (simp add: fun_eq_iff storage_value_def value_of_def)
  moreover have "store_inner_new sm c bc cfg [] [] [] hash1 hash2 now q 1 = Some (Ok ?ks)"
    using t(1) st(1) by (simp add: store_inner_new_def)
  ultimately show ?thesis by (intro exI [of _ ?ks]) simp
qed

text \<open>The flush.\<close>

lemma minor_compaction_logs:
  assumes c: "int_encoding c" "lz4_codec c" and ok: "store_ok c hs tbls content st"
    and cfg: "tl_config (vs_loader (ss_status st)) = cfg" "index_slice (level_table_type cfg) 0 = Ok SortedString"
    and few: "is_threshold_exceeded_major (vs_version (ss_status st)) cfg 0 = Ok False" and vals: "table_storable c hs cfg vals"
    and gen: "tbls gen = None" "btree_get (tl_files (vs_loader (ss_status st))) gen = None" "ss_gen_buf st < i64_MAX"
    and logs: "status_logs c bc (ss_status st) ws" "snd (ver_log_writer (ss_status st)) < ss_gen_buf st"
    and safe: "ver_log_snapshot_threshold cfg \<le> edit_approximate_count (ss_status st) \<Longrightarrow> snapshot_safe (vs_version (ss_status st))"
    and run: "minor_compaction c hs bc cfg seeds gen vals st = Some (Ok st')" and room: "log_weight ws + 2 ^ 33 \<le> u64_MAX"
  shows "(\<exists>ws'. status_logs c bc (ss_status st') ws' \<and> log_weight ws' \<le> log_weight ws + 2 ^ 33) \<and> snd (ver_log_writer (ss_status st')) < ss_gen_buf st' \<and>
    tl_wal (vs_loader (ss_status st')) = tl_wal (vs_loader (ss_status st))"
proof -
  note d = store_okD [OF ok]
  let ?L = "vs_loader (ss_status st)" and ?cs = "ss_counters st"
  have kvs: "keys_ascending vals" "vals \<noteq> []" using vals by (auto simp: table_storable_def table_input_ok_def)
  have st0: "table_storable c hs (tl_config ?L) vals" using vals cfg(1) by simp
  obtain scope m L' cs' where t: "loader_create c hs ?L ?cs (seeds gen) gen vals LEVEL_0 SortedString = Ok ((scope, m), L', cs')"
      "from_sorted_vec_data ?cs gen vals = Ok (scope, cs')"
    using loader_create_holds [OF c d(1) st0 gen(1,2), of ?cs "seeds gen" LEVEL_0] by metis
  have s: "cs' = ?cs @ [0]" "allowed_seeks scope = Some (length ?cs)"
    using from_sorted_vec_data_covers [OF kvs, of ?cs gen] t(2) by auto
  have wal: "tl_wal L' = tl_wal ?L"
    using t(1) by (auto simp: loader_create_def create_ss_table_def and_then_Ok_iff map_outcome_ok_Ok_iff Let_def split: prod.splits)
  let ?st1 = "(with_loader st L')\<lparr>ss_counters := cs'\<rparr>"
  have dl: "data_loading_with_level c cfg ?st1 0 scope False = Some (Ok (None, ?st1))"
    using few by (simp add: data_loading_with_level_def MAX_LEVEL_def with_loader_def)
  have "apply_pending c bc cfg [NewFile [scope] 0 0 m] ?st1 = Some (Ok st')"
    using run kvs(2) cfg(2) t(1) dl
    by (auto simp: minor_compaction_def LEVEL_0_def major_compaction_def MAX_LEVEL_def numeral_eq_Suc major_round_def elim!: bind_oo_OkE)
  then obtain status' tag g' where la: "log_and_apply c bc cs' ((ss_status st)\<lparr>vs_loader := L'\<rparr>) [NewFile [scope] 0 0 m] (ver_log_snapshot_threshold cfg) (ss_gen_buf st) =
        Some (Ok ((status', tag), g'))" "ss_status st' = status'" "ss_gen_buf st' = g'"
    by (auto simp: apply_pending_def with_loader_def elim!: bind_oo_OkE)
  have cs: "counters_ok cs'" "\<forall>l\<in>set (level_slice (vs_version (ss_status st))). \<forall>s\<in>set l. seeks_ok cs' s" "seeks_ok cs' scope"
    using d(3,4) s seeks_ok_append unfolding version_ok_def by (auto simp: counters_ok_def seeks_ok_def)
  have small: "edits_weight [NewFile [scope] 0 0 m] \<le> 2 ^ 33" using loader_create_small [OF c d(1) st0 gen(1,2) t(1)] by simp
  then have "log_weight ws + edits_weight [NewFile [scope] 0 0 m] \<le> u64_MAX" using room by simp
  then have "(\<exists>ws'. status_logs c bc status' ws' \<and> log_weight ws' \<le> log_weight ws + edits_weight [NewFile [scope] 0 0 m]) \<and>
      snd (ver_log_writer status') < g' \<and> ss_gen_buf st \<le> g'"
    using log_and_apply_logs [OF c(1) _ _ d(7) gen(3) la(1) cs(1), of ws] logs cs(2,3) safe by auto
  then have "(\<exists>ws'. status_logs c bc status' ws' \<and> log_weight ws' \<le> log_weight ws + 2 ^ 33) \<and>
      snd (ver_log_writer status') < g' \<and> ss_gen_buf st \<le> g'"
    using small by (meson add_left_mono order.trans)
  moreover have "vs_loader status' = L'"
  proof -
    have "status_ok ((ss_status st)\<lparr>vs_loader := L'\<rparr>)" using d(2) by (simp add: status_ok_def)
    moreover obtain V tag' where "version_apply (vs_version ((ss_status st)\<lparr>vs_loader := L'\<rparr>)) [NewFile [scope] 0 0 m] = Ok (V, tag')"
      using la(1) by (auto simp: log_and_apply_def elim!: bind_oo_OkE)
    ultimately show ?thesis
      using log_and_apply_ok [OF c(1), of "(ss_status st)\<lparr>vs_loader := L'\<rparr>" _ V tag' bc cs' "ver_log_snapshot_threshold cfg" "ss_gen_buf st"] la(1)
      by fastforce
  qed
  ultimately show ?thesis using la(2,3) wal by simp
qed


lemma flush_run:
  assumes t: "tx_count (ks_mem ks) = 0" "\<not> mem_is_empty sm (ks_mem ks)" "swap_data sm (mem (ks_mem ks)) \<noteq> []"
    and g: "gen_create (ss_gen_buf (ks_store ks)) = (g, g')"
    and run: "handle_task sm c hs bc cfg seeds True (Task_Flush wanted) ks = Some (Ok ks')"
  obtains w st' L where "w = log_loader_writer (wal (ks_mem ks)) g"
    and "minor_compaction c hs bc cfg seeds (snd (wal_writer (ks_mem ks))) (swap_data sm (mem (ks_mem ks)))
      (with_loader ((ks_store ks)\<lparr>ss_gen_buf := g'\<rparr>) ((ks_loader ks)\<lparr>tl_wal := snd w\<rparr>)) = Some (Ok st')"
    and "wal_writer (ks_mem ks') = (fst w, g)" "mem (ks_mem ks') = sm_new sm" "wal (ks_mem ks') = tl_wal (vs_loader (ss_status st'))"
    and "ss_status (ks_store ks') = (ss_status st')\<lparr>vs_loader := L\<rparr>" "ss_gen_buf (ks_store ks') = ss_gen_buf st'"
proof -
  let ?t = "ks_mem ks" and ?st = "ks_store ks"
  define w where "w = log_loader_writer (wal ?t) g"
  define t1 where "t1 = ?t\<lparr>mem_trigger := trigger_reset (mem_trigger ?t), immut := Some (mem ?t), mem := sm_new sm, wal := snd w, wal_writer := (fst w, g)\<rparr>"
  have sw: "swap sm (ss_gen_buf ?st) ?t = Some (Some (snd (wal_writer ?t), swap_data sm (mem ?t)), g', t1)"
    using t g by (simp add: swap_def mem_is_empty_def t1_def w_def case_prod_beta Let_def)
  obtain st' where st': "minor_compaction c hs bc cfg seeds (snd (wal_writer ?t)) (swap_data sm (mem ?t))
        (with_loader (?st\<lparr>ss_gen_buf := g'\<rparr>) ((ks_loader ks)\<lparr>tl_wal := snd w\<rparr>)) = Some (Ok st')"
      "ks' = set_mem (t1\<lparr>wal := tl_wal (vs_loader (ss_status st'))\<rparr>) (ks\<lparr>ks_store := st'\<rparr>)"
    using run sw t(3) by (auto simp: handle_task_def check_then_compaction_def Let_def t1_def with_loader_def elim!: bind_oo_OkE split: if_splits)
  show thesis
    by (rule that [of w st' "vs_loader (ss_status st')", OF w_def st'(1)]) (simp_all add: st'(2) set_mem_def with_loader_def t1_def)
qed

lemma durable_flush:
  assumes sm: "mem_map sm I" and c: "int_encoding c" "lz4_codec c" and d: "durable sm I c bc hs tbls content cfg n ks"
    and t: "tx_count (ks_mem ks) = 0" "\<not> mem_is_empty sm (ks_mem ks)" and vals: "table_storable c hs cfg (swap_data sm (mem (ks_mem ks)))"
    and cfg: "index_slice (level_table_type cfg) 0 = Ok SortedString" "is_threshold_exceeded_major (ks_version ks) cfg 0 = Ok False"
    and gen: "ss_gen_buf (ks_store ks) + 1 < i64_MAX"
    and safe: "ver_log_snapshot_threshold cfg \<le> edit_approximate_count (ss_status (ks_store ks)) \<longrightarrow> snapshot_safe (ks_version ks)"
    and run: "handle_task sm c hs bc cfg seeds True (Task_Flush wanted) ks = Some (Ok ks')" and n: "n < 2 ^ 30"
  shows "\<exists>tbls' content'. durable sm I c bc hs tbls' content' cfg (Suc n) ks' \<and> storage_value sm content' ks' = storage_value sm content ks"
proof -
  let ?t = "ks_mem ks" and ?st = "ks_store ks" and ?old = "snd (wal_writer (ks_mem ks))" and ?new = "ss_gen_buf (ks_store ks)"
  have om: "ordered_map sm I" using sm by (simp add: mem_map_def)
  have ok: "storage_ok sm I c hs tbls content cfg ks" using d by (simp add: durable_def)
  have o: "store_ok c hs tbls content ?st" "wal ?t = tl_wal (ks_loader ks)" "tl_config (ks_loader ks) = cfg"
      "log_gen_free tbls content ?old (ks_loader ks) ?new"
    using ok by (simp_all add: storage_ok_def)
  note s = store_okD [OF o(1)]
  obtain ws kvss where ws: "status_logs c bc (ss_status ?st) ws" "snd (ver_log_writer (ss_status ?st)) < ?new" "log_weight ws \<le> n * 2 ^ 33"
    and kvss: "wal_holds c ?t ?old (map (log_entry c) kvss)" and dom: "\<forall>g\<in>dom content. g < ?old"
    using d by (auto simp: durable_def mem_logged_def)
  have room: "log_weight ws + 2 ^ 33 \<le> u64_MAX" using ws(3) n by (simp add: u64_MAX_def)
  have "table_room (ks_version ks) 1"
    using status_logs_weight [OF ws(1)] room by (simp add: table_room_def u64_MAX_def usize_MAX_def)
  then obtain tbls' content' where f: "storage_ok sm I c hs tbls' content' cfg ks'" "storage_value sm content' ks' = storage_value sm content ks"
      "content' = content(?old \<mapsto> swap_data sm (mem ?t))"
    using flush_holds [OF sm c ok t vals cfg gen, of bc seeds wanted] run by auto
  have g: "gen_create ?new = (?new, ?new + 1)" using create_next(2) [OF s(7)] gen by simp
  have ne: "swap_data sm (mem ?t) \<noteq> []" using vals by (simp add: table_storable_def table_input_ok_def)
  obtain w st' L where w: "w = log_loader_writer (wal ?t) ?new"
    and mc: "minor_compaction c hs bc cfg seeds ?old (swap_data sm (mem ?t)) (with_loader (?st\<lparr>ss_gen_buf := ?new + 1\<rparr>) ((ks_loader ks)\<lparr>tl_wal := snd w\<rparr>)) = Some (Ok st')"
    and ks': "wal_writer (ks_mem ks') = (fst w, ?new)" "mem (ks_mem ks') = sm_new sm" "wal (ks_mem ks') = tl_wal (vs_loader (ss_status st'))"
      "ss_status (ks_store ks') = (ss_status st')\<lparr>vs_loader := L\<rparr>" "ss_gen_buf (ks_store ks') = ss_gen_buf st'"
    using flush_run [OF t ne g run] by metis
  have keys: "\<forall>g\<in>fst ` set (wal ?t). g \<le> ?old" "keys_ascending (wal ?t)" "?old < ?new" using kvss o(4) by (auto simp: wal_holds_def log_gen_free_def)
  then have fresh: "btree_get (wal ?t) ?new = None" by (force simp: btree_get_def map_of_eq_None_iff)
  have opened: "w = (log_writer_new \<lparr>contents = [], position = 0\<rparr>, btree_insert ?new [] (wal ?t))"
    by (simp add: w log_loader_writer_def factory_writer_def open_or_create_new [OF fresh])
  let ?st1 = "with_loader (?st\<lparr>ss_gen_buf := ?new + 1\<rparr>) ((ks_loader ks)\<lparr>tl_wal := snd w\<rparr>)"
  have "store_ok c hs tbls content (?st\<lparr>ss_gen_buf := ?new + 1\<rparr>)" using o(1) loader_fresh_mono [OF s(6), of "?new + 1"] s(7) by (simp add: store_ok_def)
  moreover have "stored_bytes (snd w) g = stored_bytes (tl_wal (ks_loader ks)) g" for g
    using open_stored_bytes [of "wal ?t" ?new g] o(2) by (simp add: w log_loader_writer_def factory_writer_def case_prod_beta)
  ultimately have ok1: "store_ok c hs tbls content ?st1"
    using store_ok_wal [of c hs tbls content "?st\<lparr>ss_gen_buf := ?new + 1\<rparr>" "snd w"] by simp
  have st': "(\<exists>ws'. status_logs c bc (ss_status st') ws' \<and> log_weight ws' \<le> log_weight ws + 2 ^ 33) \<and> snd (ver_log_writer (ss_status st')) < ss_gen_buf st' \<and> tl_wal (vs_loader (ss_status st')) = snd w"
    using minor_compaction_logs [OF c ok1 _ cfg(1) _ vals _ _ _ _ _ _ mc, of ws] o(3,4) cfg(2) gen ws(1,2) room safe by (simp add: with_loader_def log_gen_free_def)
  have "wal_holds c (ks_mem ks') ?new []"
    using keys st' by (auto simp: wal_holds_def ks'(1,3) opened log_writer_new_at keys_btree_insert)
  then have "mem_logged sm c (ks_mem ks')"
    unfolding mem_logged_def by (intro exI [of _ "[]"]) (simp add: ks'(1,2) ordered_map.iter_new [OF om])
  moreover have "\<exists>ws'. status_logs c bc (ss_status (ks_store ks')) ws' \<and> log_weight ws' \<le> Suc n * 2 ^ 33"
      "snd (ver_log_writer (ss_status (ks_store ks'))) < ss_gen_buf (ks_store ks')"
    using st' ws(3) by (auto simp: ks'(4,5))
  moreover have "\<forall>g\<in>dom content'. g < snd (wal_writer (ks_mem ks'))" using dom keys(3) by (force simp: f(3) ks'(1) dom_def)
  ultimately show ?thesis using f by (intro exI [of _ tbls'] exI [of _ content']) (simp add: durable_def)
qed


text \<open>The life of a store between two openings: it is created, then written, read and flushed, with transactions that begin
  and commit. The keys and values written can be stored (\<open>kv_storable\<close>: no empty value, lengths of 32 bits). A flush happens while level 0 is
  below its threshold, so that no major compaction follows, and may take a snapshot of the version log only in the situations in
  which a snapshot is faithful. \<open>n\<close> counts the flushes, of which there are at most \<open>2 ^ 30\<close>.\<close>

inductive store_history ::
  "'m mem_ops \<Rightarrow> crates \<Rightarrow> hashing \<Rightarrow> bincode \<Rightarrow> config \<Rightarrow> (i64 \<Rightarrow> 64 word \<times> 64 word) \<Rightarrow> 'q task_channel \<Rightarrow> nat \<Rightarrow> ('m, 'q) kip_storage \<Rightarrow> bool"
  for sm c hs bc cfg seeds ch where
  opened: "0 \<le> now \<Longrightarrow> now + 2 < i64_MAX \<Longrightarrow>
    open_with_config sm c bc env now ([], [], []) hash1 hash2 q 1 cfg = Some (Ok ks) \<Longrightarrow> store_history sm c hs bc cfg seeds ch 0 ks"
| operation: "store_history sm c hs bc cfg seeds ch n ks \<Longrightarrow> ks_seq ks < i64_MAX \<Longrightarrow> op_storable op \<Longrightarrow>
    storage_run sm c hs ch op ks = Some (a, ks') \<Longrightarrow> store_history sm c hs bc cfg seeds ch n ks'"
| began: "store_history sm c hs bc cfg seeds ch n ks \<Longrightarrow> ks_seq ks < i64_MAX \<Longrightarrow> transaction_new check ks = (tx, ks') \<Longrightarrow>
    store_history sm c hs bc cfg seeds ch n ks'"
| committed: "store_history sm c hs bc cfg seeds ch n ks \<Longrightarrow> ks_seq ks < i64_MAX \<Longrightarrow>
    \<forall>buf. write_buf tx = Some buf \<longrightarrow> (\<forall>kv\<in>set buf. kv_storable kv) \<Longrightarrow>
    tx_commit sm c ch tx ks = Some (r, ks') \<Longrightarrow> store_history sm c hs bc cfg seeds ch n ks'"
| flush: "store_history sm c hs bc cfg seeds ch n ks \<Longrightarrow> tx_count (ks_mem ks) = 0 \<Longrightarrow> \<not> mem_is_empty sm (ks_mem ks) \<Longrightarrow>
    table_storable c hs cfg (swap_data sm (mem (ks_mem ks))) \<Longrightarrow> is_threshold_exceeded_major (ks_version ks) cfg 0 = Ok False \<Longrightarrow>
    ss_gen_buf (ks_store ks) + 1 < i64_MAX \<Longrightarrow>
    ver_log_snapshot_threshold cfg \<le> edit_approximate_count (ss_status (ks_store ks)) \<longrightarrow> snapshot_safe (ks_version ks) \<Longrightarrow> n < 2 ^ 30 \<Longrightarrow>
    handle_task sm c hs bc cfg seeds True (Task_Flush wanted) ks = Some (Ok ks') \<Longrightarrow> store_history sm c hs bc cfg seeds ch (Suc n) ks'"

text \<open>The directory is there and the lock is free.\<close>

definition env_free :: "open_env \<Rightarrow> bool" where
  "env_free env \<longleftrightarrow> env_create_dir env = Ok () \<and> env_open_lock env = Ok () \<and> env_try_lock env 0 = Ok True"

lemma open_locked:
  "env_free env \<Longrightarrow> open_with_config sm c bc env now (wals, files, logs) hash1 hash2 q seq cfg =
    store_inner_new sm c bc cfg wals files logs hash1 hash2 now q seq"
  by (simp add: open_with_config_def env_free_def lock_or_time_out_def lock_loop.simps gen_init_def)

lemma open_Ok:
  "open_with_config sm c bc env now (wals, files, logs) hash1 hash2 q seq cfg = Some (Ok ks) \<Longrightarrow>
    store_inner_new sm c bc cfg wals files logs hash1 hash2 now q seq = Some (Ok ks)"
  by (auto simp: open_with_config_def gen_init_def elim!: bind_oo_OkE)

lemma store_history_durable:
  assumes sm: "mem_map sm I" and c: "int_encoding c" "lz4_codec c" and alive: "\<forall>task q. fst (try_send ch task q) \<noteq> Closed"
    and cfg: "table_cache_size cfg mod 16 = 0" "0 < table_cache_size cfg" "block_cache_size cfg mod 16 = 0" "0 < block_cache_size cfg"
      "index_slice (level_table_type cfg) 0 = Ok SortedString"
  shows "store_history sm c hs bc cfg seeds ch n ks \<Longrightarrow> \<exists>tbls content. durable sm I c bc hs tbls content cfg n ks"
proof (induction rule: store_history.induct)
  case (opened now env hash1 hash2 q ks)
  then show ?case using durable_new [OF sm c(1) cfg(1-4) opened(1,2), of bc hash1 hash2 q hs] open_Ok [OF opened(3)] by auto
next
  case (operation n ks op a ks')
  then show ?case using durable_run [OF sm c(1) alive] by blast
next
  case (began n ks check tx ks')
  then show ?case using durable_begin [OF sm] by blast
next
  case (committed n ks tx r ks')
  then show ?case using durable_commit [OF sm c(1) alive] by blast
next
  case (flush n ks wanted ks')
  then show ?case using durable_flush [OF sm c _ _ _ _ cfg(5)] by blast
qed

section \<open>Properties\<close>

text \<open>C2: a store survives its first crash if it has only done what \<open>store_history\<close> allows: keys and values that can be stored, no empty
  value among them, writes, commits, and flushes while level 0 is below its threshold, with snapshots of the version log only where these are
  faithful. Then opening the directories again later succeeds and gives a well-formed store in which every key has the value it had
  before the crash. The write-ahead log is one whose records are in the file, that is one written with \<open>IoType::Direct\<close>, or flushed; the
  default writer buffers, and theory \<open>Buf_Io\<close> shows what is lost then.\<close>

theorem store_reopen:
  assumes "mem_map sm I" "int_encoding c" "lz4_codec c" "bincode_codec bc" "\<forall>task q. fst (try_send ch task q) \<noteq> Closed"
    and "table_cache_size cfg mod 16 = 0" "0 < table_cache_size cfg" "block_cache_size cfg mod 16 = 0" "0 < block_cache_size cfg"
    and "index_slice (level_table_type cfg) 0 = Ok SortedString" "store_history sm c hs bc cfg seeds ch n ks"
    and "ss_gen_buf (ks_store ks) \<le> now" "now + 1 < i64_MAX" "env_free env"
  shows "\<exists>tbls content ks'. open_with_config sm c bc env now (store_dirs ks) hash1 hash2 q 1 cfg = Some (Ok ks') \<and>
    storage_ok sm I c hs tbls content cfg ks \<and> storage_ok sm I c hs tbls content cfg ks' \<and>
    storage_value sm content ks' = storage_value sm content ks"
proof -
  obtain tbls content where d: "durable sm I c bc hs tbls content cfg n ks"
    using store_history_durable [OF assms(1-3,5-10) assms(11)] by blast
  then have "storage_ok sm I c hs tbls content cfg ks" by (simp add: durable_def)
  then show ?thesis
    using durable_reopen [OF assms(1,2,4) d assms(6-9,12,13), of hash1 hash2 q] assms(14) by (auto simp: store_dirs_def open_locked)
qed

lemma append_gen_buf: "append_cmd_data sm c ch kv ks = Some (r, ks') \<Longrightarrow> ss_gen_buf (ks_store ks') = ss_gen_buf (ks_store ks)"
  by (auto simp: append_cmd_data_def set_mem_def with_loader_def Let_def split: option.splits outcome.splits if_splits)

lemma sample_caches: "table_cache_size sample_config0 mod 16 = 0" "0 < table_cache_size sample_config0"
    "block_cache_size sample_config0 mod 16 = 0" "0 < block_cache_size sample_config0"
  by (simp_all add: sample_config0_def sample_config_def config_new_def DEFAULT_TABLE_CACHE_SIZE_def DEFAULT_BLOCK_CACHE_SIZE_def)

definition sample_env :: open_env where
  "sample_env = \<lparr>env_create_dir = Ok (), env_open_lock = Ok (), env_try_lock = (\<lambda>_. Ok True)\<rparr>"

lemma sample_env_free: "env_free sample_env"
  by (simp add: sample_env_def env_free_def)

theorem store_reopen_witness:
  "\<exists>n ks ks' ks''. store_history btree_skip_map le_crates sum_hashing wire_bincode sample_config0 (\<lambda>_. (11, 22)) sample_channel n ks \<and>
    open_with_config btree_skip_map le_crates wire_bincode sample_env 9 (store_dirs ks) (\<lambda>_. 0) (\<lambda>_. 0) () 1 sample_config0 = Some (Ok ks') \<and>
    storage_get btree_skip_map le_crates sum_hashing sample_channel [1] ks' = Some (Ok (Some [2], ks''))"
proof -
  let ?H = "store_history btree_skip_map le_crates sum_hashing wire_bincode sample_config0 (\<lambda>_. (11, 22)) sample_channel"
  obtain ks0 where ks0: "store_inner_new btree_skip_map le_crates wire_bincode sample_config0 [] [] [] (\<lambda>_. 0) (\<lambda>_. 0) 5 () 1 = Some (Ok ks0)"
      "durable btree_skip_map keys_ascending le_crates wire_bincode sum_hashing Map.empty Map.empty sample_config0 0 ks0"
      "ss_gen_buf (ks_store ks0) = 8" "ks_seq ks0 = 1"
    using durable_new [OF bt.mem_map_axioms le.int_encoding_axioms sample_caches, of 5 wire_bincode "\<lambda>_. 0" "\<lambda>_. 0" "()" sum_hashing]
    by (auto simp: i64_MAX_def)
  have new: "open_with_config btree_skip_map le_crates wire_bincode sample_env 5 ([], [], []) (\<lambda>_. 0) (\<lambda>_. 0) () 1 sample_config0 = Some (Ok ks0)"
    by (simp add: open_locked sample_env_free ks0(1))
  have H0: "?H 0 ks0" by (rule opened [OF _ _ new]) (simp_all add: i64_MAX_def)
  have ok0: "storage_ok btree_skip_map keys_ascending le_crates sum_hashing Map.empty Map.empty sample_config0 ks0" using ks0(2) by (simp add: durable_def)
  have seq: "ks_seq ks0 < i64_MAX" by (simp add: ks0(4) i64_MAX_def)
  obtain ks where ks: "append_cmd_data btree_skip_map le_crates sample_channel ([1], Some [2]) ks0 = Some (Ok (), ks)"
      "storage_ok btree_skip_map keys_ascending le_crates sum_hashing Map.empty Map.empty sample_config0 ks"
      "storage_value btree_skip_map Map.empty ks [1] = Some [2]"
    using append_holds [OF bt.mem_map_axioms le.int_encoding_axioms ok0 sample_channel_alive seq, of "([1], Some [2])"] by auto
  have H: "?H 0 ks"
    by (rule operation [OF H0 seq, of "Op_Set [1] [2]"]) (simp_all add: kv_storable_def storage_set_def ks(1))
  have "ss_gen_buf (ks_store ks) \<le> 9" using append_gen_buf [OF ks(1)] ks0(3) by simp
  then obtain tbls content ks' where ks': "open_with_config btree_skip_map le_crates wire_bincode sample_env 9 (store_dirs ks) (\<lambda>_. 0) (\<lambda>_. 0) () 1 sample_config0 = Some (Ok ks')"
      "storage_ok btree_skip_map keys_ascending le_crates sum_hashing tbls content sample_config0 ks"
      "storage_ok btree_skip_map keys_ascending le_crates sum_hashing tbls content sample_config0 ks'"
      "storage_value btree_skip_map content ks' = storage_value btree_skip_map content ks"
    using store_reopen [OF bt.mem_map_axioms le.int_encoding_axioms le.lz4_codec_axioms wire.bincode_codec_axioms sample_channel_alive sample_caches
        sample_level_type H, of 9 sample_env "\<lambda>_. 0" "\<lambda>_. 0" "()"] sample_env_free
    by (auto simp: i64_MAX_def MAX_LEVEL_def)
  have "storage_value btree_skip_map content ks [1] = Some [2]"
    using storage_get_holds [OF bt.mem_map_axioms ks(2) sample_channel_alive, of "[1]"] ks(3)
      storage_get_holds [OF bt.mem_map_axioms ks'(2) sample_channel_alive, of "[1]"] by auto
  then show ?thesis
    using storage_get_holds [OF bt.mem_map_axioms ks'(3) sample_channel_alive, of "[1]"] ks'(1,4) H by metis
qed

text \<open>C35: the lock file. If it cannot be opened the error is returned. Otherwise at most four attempts are made, with pauses of 100, 200 and 400 milliseconds; the first attempt that
  succeeds or fails with an error decides, and when all of them find the file locked the answer is
  \<open>ProcessExists\<close>.\<close>

theorem lock_or_time_out_correct:
  "lock_or_time_out opened try_lock =
     Some (case opened of
         Ok _ \<Rightarrow>
           (case List.find (\<lambda>i. try_lock i \<noteq> Ok False) [0..<4] of
              None \<Rightarrow> (Err ProcessExists, 700)
            | Some i \<Rightarrow> (map_outcome_ok (\<lambda>_. ()) (try_lock i), 100 * (2 ^ i - 1)))
       | Err e \<Rightarrow> (Err e, 0)
       | Panic \<Rightarrow> (Panic, 0))"
  by (simp add: lock_or_time_out_def lock_loop.simps upt_rec split: outcome.split)

end
