(* ===== verification/Server.thy ===== *)
theory Server
  imports Storage
begin

text \<open>
  \<open>src/src/server\<close>: the service \<open>KipdbServer\<close> that answers requests with the store (\<open>server.rs\<close>) and the client
  \<open>KipdbClient\<close> (\<open>client.rs\<close>). The messages are those of \<open>src/src/proto/kipdb.proto\<close>. The code generated from it and
  the transport are not part of the sources: the stub the client calls is a parameter, the record \<open>rpc_stub\<close>, and the
  locale \<open>rpc_link\<close> states that a call reaches the handler and brings its reply back. That is an ideal link: the
  connection does not fail, and no message is larger than the transport accepts (by default 4 MB for tonic).

  A handler replies, returns a status, or crashes when the store panics. After a failed read the store counts
  as unchanged.
\<close>

section \<open>The service\<close>

datatype 'a handled = Reply 'a | Failed_Status string | Crashed

text \<open>\<open>map_or(false, |_| true)\<close>.\<close>

fun succeeded :: "'a outcome \<Rightarrow> bool handled" where
  "succeeded (Ok _) = Reply True"
| "succeeded (Err _) = Reply False"
| "succeeded Panic = Crashed"

fun status_reply :: "string \<Rightarrow> 'a outcome \<Rightarrow> 'a handled" where
  "status_reply msg (Ok x) = Reply x"
| "status_reply msg (Err _) = Failed_Status msg"
| "status_reply msg Panic = Crashed"

definition server_set ::
  "'m mem_ops \<Rightarrow> crates \<Rightarrow> 'q task_channel \<Rightarrow> bytes \<times> bytes \<Rightarrow> ('m, 'q) kip_storage \<Rightarrow> (bool handled \<times> ('m, 'q) kip_storage) option" where
  "server_set sm c ch req ks = map_option (\<lambda>(r, ks'). (succeeded r, ks')) (storage_set sm c ch (fst req) (snd req) ks)"

definition server_remove ::
  "'m mem_ops \<Rightarrow> crates \<Rightarrow> hashing \<Rightarrow> 'q task_channel \<Rightarrow> bytes \<Rightarrow> ('m, 'q) kip_storage \<Rightarrow> (bool handled \<times> ('m, 'q) kip_storage) option" where
  "server_remove sm c hs ch key ks = map_option (\<lambda>(r, ks'). (succeeded r, ks')) (storage_remove sm c hs ch key ks)"

definition server_get ::
  "'m mem_ops \<Rightarrow> crates \<Rightarrow> hashing \<Rightarrow> 'q task_channel \<Rightarrow> bytes \<Rightarrow> ('m, 'q) kip_storage \<Rightarrow>
   (bytes option handled \<times> ('m, 'q) kip_storage) option" where
  "server_get sm c hs ch key ks =
     (case storage_get sm c hs ch key ks of
        None \<Rightarrow> None
      | Some (Ok (val, ks')) \<Rightarrow> Some (Reply val, ks')
      | Some (Err _) \<Rightarrow> Some (Reply None, ks)
      | Some Panic \<Rightarrow> Some (Crashed, ks))"

text \<open>The loops of the batch requests, with the failures or values collected so far.\<close>

fun batch_set_loop ::
  "'m mem_ops \<Rightarrow> crates \<Rightarrow> 'q task_channel \<Rightarrow> (bytes \<times> bytes) list \<Rightarrow> (bytes \<times> bytes) list \<Rightarrow> ('m, 'q) kip_storage \<Rightarrow>
   ((bytes \<times> bytes) list handled \<times> ('m, 'q) kip_storage) option" where
  "batch_set_loop sm c ch [] failure ks = Some (Reply failure, ks)"
| "batch_set_loop sm c ch (kv # kvs) failure ks =
     (case storage_set sm c ch (fst kv) (snd kv) ks of
        None \<Rightarrow> None
      | Some (Ok _, ks') \<Rightarrow> batch_set_loop sm c ch kvs failure ks'
      | Some (Err _, ks') \<Rightarrow> batch_set_loop sm c ch kvs (failure @ [kv]) ks'
      | Some (Panic, ks') \<Rightarrow> Some (Crashed, ks'))"

definition server_batch_set ::
  "'m mem_ops \<Rightarrow> crates \<Rightarrow> 'q task_channel \<Rightarrow> (bytes \<times> bytes) list \<Rightarrow> ('m, 'q) kip_storage \<Rightarrow>
   ((bytes \<times> bytes) list handled \<times> ('m, 'q) kip_storage) option" where
  "server_batch_set sm c ch kvs ks = batch_set_loop sm c ch kvs [] ks"

fun batch_remove_loop ::
  "'m mem_ops \<Rightarrow> crates \<Rightarrow> hashing \<Rightarrow> 'q task_channel \<Rightarrow> bytes list \<Rightarrow> bytes list \<Rightarrow> ('m, 'q) kip_storage \<Rightarrow>
   (bytes list handled \<times> ('m, 'q) kip_storage) option" where
  "batch_remove_loop sm c hs ch [] failure ks = Some (Reply failure, ks)"
| "batch_remove_loop sm c hs ch (key # keys) failure ks =
     (case storage_remove sm c hs ch key ks of
        None \<Rightarrow> None
      | Some (Ok _, ks') \<Rightarrow> batch_remove_loop sm c hs ch keys failure ks'
      | Some (Err _, ks') \<Rightarrow> batch_remove_loop sm c hs ch keys (failure @ [key]) ks'
      | Some (Panic, ks') \<Rightarrow> Some (Crashed, ks'))"

definition server_batch_remove ::
  "'m mem_ops \<Rightarrow> crates \<Rightarrow> hashing \<Rightarrow> 'q task_channel \<Rightarrow> bytes list \<Rightarrow> ('m, 'q) kip_storage \<Rightarrow>
   (bytes list handled \<times> ('m, 'q) kip_storage) option" where
  "server_batch_remove sm c hs ch keys ks = batch_remove_loop sm c hs ch keys [] ks"

fun batch_get_loop ::
  "'m mem_ops \<Rightarrow> crates \<Rightarrow> hashing \<Rightarrow> 'q task_channel \<Rightarrow> bytes list \<Rightarrow> bytes list \<Rightarrow> ('m, 'q) kip_storage \<Rightarrow>
   (bytes list handled \<times> ('m, 'q) kip_storage) option" where
  "batch_get_loop sm c hs ch [] vals ks = Some (Reply vals, ks)"
| "batch_get_loop sm c hs ch (key # keys) vals ks =
     (case storage_get sm c hs ch key ks of
        None \<Rightarrow> None
      | Some (Ok (val, ks')) \<Rightarrow> batch_get_loop sm c hs ch keys (vals @ [case val of Some v \<Rightarrow> v | None \<Rightarrow> []]) ks'
      | Some (Err _) \<Rightarrow> batch_get_loop sm c hs ch keys (vals @ [[]]) ks
      | Some Panic \<Rightarrow> Some (Crashed, ks))"

definition server_batch_get ::
  "'m mem_ops \<Rightarrow> crates \<Rightarrow> hashing \<Rightarrow> 'q task_channel \<Rightarrow> bytes list \<Rightarrow> ('m, 'q) kip_storage \<Rightarrow>
   (bytes list handled \<times> ('m, 'q) kip_storage) option" where
  "server_batch_get sm c hs ch keys ks = batch_get_loop sm c hs ch keys [] ks"

text \<open>\<open>size_of_disk\<close> and \<open>len\<close> of the store always succeed.\<close>

definition server_size_of_disk :: "('m, 'q) kip_storage \<Rightarrow> nat handled" where
  "server_size_of_disk ks = status_reply ''Failed to get size of disk'' (Ok (storage_size_of_disk ks))"

definition server_len :: "'m mem_ops \<Rightarrow> ('m, 'q) kip_storage \<Rightarrow> nat handled" where
  "server_len sm ks = status_reply ''Failed to get len'' (Ok (storage_len sm ks))"

definition server_flush :: "'q task_channel \<Rightarrow> ('m, 'q) kip_storage \<Rightarrow> bool handled \<times> ('m, 'q) kip_storage" where
  "server_flush ch ks =
     (succeeded (storage_flush ch ks), case storage_flush ch ks of Ok ks' \<Rightarrow> ks' | _ \<Rightarrow> ks)"

section \<open>The client\<close>

datatype connection_error =
    Connection_IO | Disconnected | WriteFailed | WrongInstruction | EncodeErr | DecodeErr | FlushError
  | TonicTransportErr string | TonicFailureStatus string | AddrParseError | Connection_KernelError kernel_error

text \<open>The generated client: each call changes the state on the other side and returns a status or a reply.\<close>

record 's rpc_stub =
  call_set :: "bytes \<times> bytes \<Rightarrow> 's \<Rightarrow> ((string + bool) \<times> 's) option"
  call_remove :: "bytes \<Rightarrow> 's \<Rightarrow> ((string + bool) \<times> 's) option"
  call_get :: "bytes \<Rightarrow> 's \<Rightarrow> ((string + bytes option) \<times> 's) option"
  call_batch_set :: "(bytes \<times> bytes) list \<Rightarrow> 's \<Rightarrow> ((string + (bytes \<times> bytes) list) \<times> 's) option"
  call_batch_remove :: "bytes list \<Rightarrow> 's \<Rightarrow> ((string + bytes list) \<times> 's) option"
  call_batch_get :: "bytes list \<Rightarrow> 's \<Rightarrow> ((string + bytes list) \<times> 's) option"
  call_size_of_disk :: "'s \<Rightarrow> ((string + nat) \<times> 's) option"
  call_len :: "'s \<Rightarrow> ((string + nat) \<times> 's) option"
  call_flush :: "'s \<Rightarrow> ((string + bool) \<times> 's) option"

text \<open>The operator \<open>?\<close> on the result of a call.\<close>

definition received :: "('a \<Rightarrow> connection_error + 'b) \<Rightarrow> ((string + 'a) \<times> 's) option \<Rightarrow> ((connection_error + 'b) \<times> 's) option" where
  "received f r = map_option (\<lambda>(x, s). (case x of Inl msg \<Rightarrow> Inl (TonicFailureStatus msg) | Inr a \<Rightarrow> f a, s)) r"

definition client_set :: "'s rpc_stub \<Rightarrow> bytes \<Rightarrow> bytes \<Rightarrow> 's \<Rightarrow> ((connection_error + unit) \<times> 's) option" where
  "client_set conn key val s = received (\<lambda>success. if success then Inr () else Inl WriteFailed) (call_set conn (key, val) s)"

definition client_remove :: "'s rpc_stub \<Rightarrow> bytes \<Rightarrow> 's \<Rightarrow> ((connection_error + unit) \<times> 's) option" where
  "client_remove conn key s = received (\<lambda>success. if success then Inr () else Inl WriteFailed) (call_remove conn key s)"

definition client_get :: "'s rpc_stub \<Rightarrow> bytes \<Rightarrow> 's \<Rightarrow> ((connection_error + bytes option) \<times> 's) option" where
  "client_get conn key s = received Inr (call_get conn key s)"

definition client_batch_set :: "'s rpc_stub \<Rightarrow> (bytes \<times> bytes) list \<Rightarrow> 's \<Rightarrow> ((connection_error + (bytes \<times> bytes) list) \<times> 's) option" where
  "client_batch_set conn kvs s =
     received (\<lambda>failure. Inr (map (\<lambda>kv. (fst kv, snd kv)) failure)) (call_batch_set conn (map (\<lambda>(key, val). (key, val)) kvs) s)"

definition client_batch_remove :: "'s rpc_stub \<Rightarrow> bytes list \<Rightarrow> 's \<Rightarrow> ((connection_error + bytes list) \<times> 's) option" where
  "client_batch_remove conn keys s = received Inr (call_batch_remove conn keys s)"

definition client_batch_get :: "'s rpc_stub \<Rightarrow> bytes list \<Rightarrow> 's \<Rightarrow> ((connection_error + bytes list) \<times> 's) option" where
  "client_batch_get conn keys s = received Inr (call_batch_get conn keys s)"

definition client_flush :: "'s rpc_stub \<Rightarrow> 's \<Rightarrow> ((connection_error + unit) \<times> 's) option" where
  "client_flush conn s = received (\<lambda>success. if success then Inr () else Inl FlushError) (call_flush conn s)"

definition client_size_of_disk :: "'s rpc_stub \<Rightarrow> 's \<Rightarrow> ((connection_error + nat) \<times> 's) option" where
  "client_size_of_disk conn s = received Inr (call_size_of_disk conn s)"

definition client_len :: "'s rpc_stub \<Rightarrow> 's \<Rightarrow> ((connection_error + nat) \<times> 's) option" where
  "client_len conn s = received Inr (call_len conn s)"

section \<open>The link between client and service\<close>

locale rpc_link =
  fixes conn :: "('m, 'q) kip_storage rpc_stub" and sm :: "'m mem_ops" and c :: crates and hs :: hashing and ch :: "'q task_channel"
  assumes link_set: "server_set sm c ch req ks = Some (Reply b, ks') \<Longrightarrow> call_set conn req ks = Some (Inr b, ks')"
    and link_remove: "server_remove sm c hs ch key ks = Some (Reply b, ks') \<Longrightarrow> call_remove conn key ks = Some (Inr b, ks')"
    and link_get: "server_get sm c hs ch key ks = Some (Reply v, ks') \<Longrightarrow> call_get conn key ks = Some (Inr v, ks')"
    and link_batch_set: "server_batch_set sm c ch kvs ks = Some (Reply fs, ks') \<Longrightarrow> call_batch_set conn kvs ks = Some (Inr fs, ks')"
    and link_batch_remove: "server_batch_remove sm c hs ch keys ks = Some (Reply ks1, ks') \<Longrightarrow> call_batch_remove conn keys ks = Some (Inr ks1, ks')"
    and link_batch_get: "server_batch_get sm c hs ch keys ks = Some (Reply vs, ks') \<Longrightarrow> call_batch_get conn keys ks = Some (Inr vs, ks')"

text \<open>A stub that calls the handlers directly.\<close>

fun delivered :: "'a handled \<Rightarrow> string + 'a" where
  "delivered (Reply x) = Inr x"
| "delivered (Failed_Status msg) = Inl msg"
| "delivered Crashed = Inl ''h2 protocol error''"

definition direct_stub :: "'m mem_ops \<Rightarrow> crates \<Rightarrow> hashing \<Rightarrow> 'q task_channel \<Rightarrow> ('m, 'q) kip_storage rpc_stub" where
  "direct_stub sm c hs ch = \<lparr>
     call_set = (\<lambda>req ks. map_option (map_prod delivered id) (server_set sm c ch req ks)),
     call_remove = (\<lambda>key ks. map_option (map_prod delivered id) (server_remove sm c hs ch key ks)),
     call_get = (\<lambda>key ks. map_option (map_prod delivered id) (server_get sm c hs ch key ks)),
     call_batch_set = (\<lambda>kvs ks. map_option (map_prod delivered id) (server_batch_set sm c ch kvs ks)),
     call_batch_remove = (\<lambda>keys ks. map_option (map_prod delivered id) (server_batch_remove sm c hs ch keys ks)),
     call_batch_get = (\<lambda>keys ks. map_option (map_prod delivered id) (server_batch_get sm c hs ch keys ks)),
     call_size_of_disk = (\<lambda>ks. Some (delivered (server_size_of_disk ks), ks)),
     call_len = (\<lambda>ks. Some (delivered (server_len sm ks), ks)),
     call_flush = (\<lambda>ks. Some (map_prod delivered id (server_flush ch ks)))\<rparr>"

interpretation direct: rpc_link "direct_stub sm c hs ch" sm c hs ch for sm c hs ch
  by unfold_locales (simp_all add: direct_stub_def)

section \<open>A remote map\<close>

datatype client_op = C_Set bytes bytes | C_Get bytes | C_Remove bytes | C_Batch_Set "(bytes \<times> bytes) list"
  | C_Batch_Get "bytes list" | C_Batch_Remove "bytes list"

datatype client_answer = A_Done | A_Value "bytes option" | A_Pairs "(bytes \<times> bytes) list" | A_Keys "bytes list" | A_Error connection_error

definition answer :: "('a \<Rightarrow> client_answer) \<Rightarrow> ((connection_error + 'a) \<times> 's) option \<Rightarrow> (client_answer \<times> 's) option" where
  "answer f r = map_option (map_prod (\<lambda>x. case x of Inl e \<Rightarrow> A_Error e | Inr a \<Rightarrow> f a) id) r"

fun client_run :: "'s rpc_stub \<Rightarrow> client_op \<Rightarrow> 's \<Rightarrow> (client_answer \<times> 's) option" where
  "client_run conn (C_Set key val) s = answer (\<lambda>_. A_Done) (client_set conn key val s)"
| "client_run conn (C_Get key) s = answer A_Value (client_get conn key s)"
| "client_run conn (C_Remove key) s = answer (\<lambda>_. A_Done) (client_remove conn key s)"
| "client_run conn (C_Batch_Set kvs) s = answer A_Pairs (client_batch_set conn kvs s)"
| "client_run conn (C_Batch_Get keys) s = answer A_Keys (client_batch_get conn keys s)"
| "client_run conn (C_Batch_Remove keys) s = answer A_Keys (client_batch_remove conn keys s)"

fun client_runs :: "'s rpc_stub \<Rightarrow> client_op list \<Rightarrow> 's \<Rightarrow> (client_answer list \<times> 's) option" where
  "client_runs conn [] s = Some ([], s)"
| "client_runs conn (op # ops) s =
     (case client_run conn op s of
        None \<Rightarrow> None
      | Some (a, s1) \<Rightarrow> map_option (\<lambda>(as, s2). (a # as, s2)) (client_runs conn ops s1))"

text \<open>What the calls do to a map. A batch of removals reports the keys that are missing when their turn comes; a batch of reads
  gives the empty value for a missing key.\<close>

type_synonym value_map = "bytes \<Rightarrow> bytes option"

fun missing :: "bytes list \<Rightarrow> value_map \<Rightarrow> bytes list" where
  "missing [] m = []"
| "missing (key # keys) m = (if m key = None then [key] else []) @ missing keys (m(key := None))"

fun map_client :: "client_op \<Rightarrow> value_map \<Rightarrow> client_answer \<times> value_map" where
  "map_client (C_Set key val) m = (A_Done, m(key := Some val))"
| "map_client (C_Get key) m = (A_Value (m key), m)"
| "map_client (C_Remove key) m = (if m key = None then A_Error WriteFailed else A_Done, m(key := None))"
| "map_client (C_Batch_Set kvs) m = (A_Pairs [], fold (\<lambda>(key, val) m. m(key := Some val)) kvs m)"
| "map_client (C_Batch_Get keys) m = (A_Keys (map (\<lambda>key. case m key of Some v \<Rightarrow> v | None \<Rightarrow> []) keys), m)"
| "map_client (C_Batch_Remove keys) m = (A_Keys (missing keys m), fold (\<lambda>key m. m(key := None)) keys m)"

fun map_clients :: "client_op list \<Rightarrow> value_map \<Rightarrow> client_answer list \<times> value_map" where
  "map_clients [] m = ([], m)"
| "map_clients (op # ops) m = (let (a, m1) = map_client op m; (as, m2) = map_clients ops m1 in (a # as, m2))"

fun op_writes :: "client_op \<Rightarrow> nat" where
  "op_writes (C_Set key val) = 1"
| "op_writes (C_Get key) = 0"
| "op_writes (C_Remove key) = 1"
| "op_writes (C_Batch_Set kvs) = length kvs"
| "op_writes (C_Batch_Get keys) = 0"
| "op_writes (C_Batch_Remove keys) = length keys"

text \<open>The batch loops.\<close>

definition writable :: "'m mem_ops \<Rightarrow> ('m \<Rightarrow> bool) \<Rightarrow> crates \<Rightarrow> 'q task_channel \<Rightarrow> bool" where
  "writable sm I c ch \<longleftrightarrow> mem_map sm I \<and> int_encoding c \<and> (\<forall>task q. fst (try_send ch task q) \<noteq> Closed)"

lemma storage_set_holds:
  assumes "writable sm I c ch" "storage_ok sm I c hs tbls content cfg ks" "ks_seq ks < i64_MAX"
  shows "\<exists>ks'. storage_set sm c ch key val ks = Some (Ok (), ks') \<and> storage_ok sm I c hs tbls content cfg ks' \<and>
    storage_value sm content ks' = (storage_value sm content ks)(key := Some val) \<and> ks_seq ks' = ks_seq ks + 1"
  using append_holds [of sm I c hs tbls content cfg ks ch "(key, Some val)"] assms by (auto simp: storage_set_def writable_def)

lemma batch_set_holds:
  assumes w: "writable sm I c ch" and "storage_ok sm I c hs tbls content cfg ks" "ks_seq ks + int (length kvs) \<le> i64_MAX"
  shows "\<exists>ks'. batch_set_loop sm c ch kvs fs ks = Some (Reply fs, ks') \<and> storage_ok sm I c hs tbls content cfg ks' \<and>
    storage_value sm content ks' = fold (\<lambda>(key, val) m. m(key := Some val)) kvs (storage_value sm content ks) \<and>
    ks_seq ks' \<le> ks_seq ks + int (length kvs)"
  using assms(2,3)
proof (induction kvs arbitrary: ks)
  case (Cons kv kvs)
  obtain ks1 where ks1: "storage_set sm c ch (fst kv) (snd kv) ks = Some (Ok (), ks1)" "storage_ok sm I c hs tbls content cfg ks1"
      "storage_value sm content ks1 = (storage_value sm content ks)(fst kv := Some (snd kv))" "ks_seq ks1 = ks_seq ks + 1"
    using storage_set_holds [OF w Cons.prems(1)] Cons.prems(2) by auto
  then show ?case using Cons.IH [OF ks1(2)] Cons.prems(2) by (auto simp: case_prod_unfold)
qed simp

lemma batch_remove_holds:
  assumes w: "writable sm I c ch" and "storage_ok sm I c hs tbls content cfg ks" "ks_seq ks + int (length keys) \<le> i64_MAX"
  shows "\<exists>ks'. batch_remove_loop sm c hs ch keys fs ks = Some (Reply (fs @ missing keys (storage_value sm content ks)), ks') \<and>
    storage_ok sm I c hs tbls content cfg ks' \<and>
    storage_value sm content ks' = fold (\<lambda>key m. m(key := None)) keys (storage_value sm content ks) \<and> ks_seq ks' \<le> ks_seq ks + int (length keys)"
  using assms(2,3)
proof (induction keys arbitrary: ks fs)
  case (Cons key keys)
  obtain ks1 where ks1: "storage_remove sm c hs ch key ks = Some (if storage_value sm content ks key = None then Err KeyNotFound else Ok (), ks1)"
      "storage_ok sm I c hs tbls content cfg ks1" "storage_value sm content ks1 = (storage_value sm content ks)(key := None)" "ks_seq ks1 \<le> ks_seq ks + 1"
    using storage_remove_holds [of sm I c hs tbls content cfg ks ch key] w Cons.prems by (auto simp: writable_def)
  then show ?case
    using Cons.IH [OF ks1(2), of "fs @ (if storage_value sm content ks key = None then [key] else [])"] Cons.prems(2)
    by (cases "storage_value sm content ks key") (auto simp: fun_upd_def)
qed simp

lemma batch_get_holds:
  assumes w: "writable sm I c ch" and "storage_ok sm I c hs tbls content cfg ks"
  shows "\<exists>ks'. batch_get_loop sm c hs ch keys vs ks =
      Some (Reply (vs @ map (\<lambda>key. case storage_value sm content ks key of Some v \<Rightarrow> v | None \<Rightarrow> []) keys), ks') \<and>
    storage_ok sm I c hs tbls content cfg ks' \<and> storage_value sm content ks' = storage_value sm content ks \<and> ks_seq ks' = ks_seq ks"
  using assms(2)
proof (induction keys arbitrary: ks vs)
  case (Cons key keys)
  obtain ks1 where ks1: "storage_get sm c hs ch key ks = Some (Ok (storage_value sm content ks key, ks1))"
      "storage_ok sm I c hs tbls content cfg ks1" "storage_value sm content ks1 = storage_value sm content ks" "ks_seq ks1 = ks_seq ks"
    using storage_get_holds [OF _ Cons.prems, of ch key] w by (auto simp: writable_def)
  then show ?case using Cons.IH [OF ks1(2), of "vs @ [case storage_value sm content ks key of Some v \<Rightarrow> v | None \<Rightarrow> []]"] by simp
qed simp

context rpc_link
begin

lemma client_run_holds:
  assumes w: "writable sm I c ch" and ok: "storage_ok sm I c hs tbls content cfg ks" and room: "ks_seq ks + int (op_writes op) \<le> i64_MAX"
  shows "\<exists>ks'. client_run conn op ks = Some (fst (map_client op (storage_value sm content ks)), ks') \<and>
    storage_ok sm I c hs tbls content cfg ks' \<and> storage_value sm content ks' = snd (map_client op (storage_value sm content ks)) \<and>
    ks_seq ks' \<le> ks_seq ks + int (op_writes op)"
proof (cases op)
  case (C_Set key val)
  obtain ks' where ks': "storage_set sm c ch key val ks = Some (Ok (), ks')" "storage_ok sm I c hs tbls content cfg ks'"
      "storage_value sm content ks' = (storage_value sm content ks)(key := Some val)" "ks_seq ks' = ks_seq ks + 1"
    using storage_set_holds [OF w ok] room C_Set by auto
  then have "call_set conn (key, val) ks = Some (Inr True, ks')" by (intro link_set) (simp add: server_set_def)
  then show ?thesis using ks' C_Set by (simp add: client_set_def received_def answer_def)
next
  case (C_Get key)
  obtain ks' where ks': "storage_get sm c hs ch key ks = Some (Ok (storage_value sm content ks key, ks'))" "storage_ok sm I c hs tbls content cfg ks'"
      "storage_value sm content ks' = storage_value sm content ks" "ks_seq ks' = ks_seq ks"
    using storage_get_holds [OF _ ok, of ch key] w by (auto simp: writable_def)
  then have "call_get conn key ks = Some (Inr (storage_value sm content ks key), ks')" by (intro link_get) (simp add: server_get_def)
  then show ?thesis using ks' C_Get by (simp add: client_get_def received_def answer_def)
next
  case (C_Remove key)
  obtain ks' where ks': "storage_remove sm c hs ch key ks = Some (if storage_value sm content ks key = None then Err KeyNotFound else Ok (), ks')"
      "storage_ok sm I c hs tbls content cfg ks'" "storage_value sm content ks' = (storage_value sm content ks)(key := None)" "ks_seq ks' \<le> ks_seq ks + 1"
    using storage_remove_holds [OF _ _ ok, of ch key] w room C_Remove by (auto simp: writable_def)
  then have "call_remove conn key ks = Some (Inr (storage_value sm content ks key \<noteq> None), ks')" by (intro link_remove) (simp add: server_remove_def)
  then show ?thesis using ks' C_Remove by (simp add: client_remove_def received_def answer_def)
next
  case (C_Batch_Set kvs)
  obtain ks' where ks': "batch_set_loop sm c ch kvs [] ks = Some (Reply [], ks')" "storage_ok sm I c hs tbls content cfg ks'"
      "storage_value sm content ks' = fold (\<lambda>(key, val) m. m(key := Some val)) kvs (storage_value sm content ks)" "ks_seq ks' \<le> ks_seq ks + int (length kvs)"
    using batch_set_holds [OF w ok, of kvs "[]"] room C_Batch_Set by auto
  then have "call_batch_set conn kvs ks = Some (Inr [], ks')" by (intro link_batch_set) (simp add: server_batch_set_def)
  then show ?thesis using ks' C_Batch_Set by (simp add: client_batch_set_def received_def answer_def)
next
  case (C_Batch_Get keys)
  let ?vals = "map (\<lambda>key. case storage_value sm content ks key of Some v \<Rightarrow> v | None \<Rightarrow> []) keys"
  obtain ks' where ks': "batch_get_loop sm c hs ch keys [] ks = Some (Reply ?vals, ks')" "storage_ok sm I c hs tbls content cfg ks'"
      "storage_value sm content ks' = storage_value sm content ks" "ks_seq ks' = ks_seq ks"
    using batch_get_holds [OF w ok, of keys "[]"] by auto
  then have "call_batch_get conn keys ks = Some (Inr ?vals, ks')" by (intro link_batch_get) (simp add: server_batch_get_def)
  then show ?thesis using ks' C_Batch_Get by (simp add: client_batch_get_def received_def answer_def)
next
  case (C_Batch_Remove keys)
  let ?fs = "missing keys (storage_value sm content ks)"
  obtain ks' where ks': "batch_remove_loop sm c hs ch keys [] ks = Some (Reply ?fs, ks')" "storage_ok sm I c hs tbls content cfg ks'"
      "storage_value sm content ks' = fold (\<lambda>key m. m(key := None)) keys (storage_value sm content ks)" "ks_seq ks' \<le> ks_seq ks + int (length keys)"
    using batch_remove_holds [OF w ok, of keys "[]"] room C_Batch_Remove by auto
  then have "call_batch_remove conn keys ks = Some (Inr ?fs, ks')" by (intro link_batch_remove) (simp add: server_batch_remove_def)
  then show ?thesis using ks' C_Batch_Remove by (simp add: client_batch_remove_def received_def answer_def)
qed

lemma client_runs_hold:
  assumes w: "writable sm I c ch" and "storage_ok sm I c hs tbls content cfg ks" "ks_seq ks + int (sum_list (map op_writes ops)) \<le> i64_MAX"
  shows "\<exists>ks'. client_runs conn ops ks = Some (fst (map_clients ops (storage_value sm content ks)), ks') \<and>
    storage_ok sm I c hs tbls content cfg ks' \<and> storage_value sm content ks' = snd (map_clients ops (storage_value sm content ks))"
  using assms(2,3)
proof (induction ops arbitrary: ks)
  case (Cons op ops)
  obtain ks1 where ks1: "client_run conn op ks = Some (fst (map_client op (storage_value sm content ks)), ks1)" "storage_ok sm I c hs tbls content cfg ks1"
      "storage_value sm content ks1 = snd (map_client op (storage_value sm content ks))" "ks_seq ks1 \<le> ks_seq ks + int (op_writes op)"
    using client_run_holds [OF w Cons.prems(1), of op] Cons.prems(2) by auto
  then obtain ks2 where "client_runs conn ops ks1 = Some (fst (map_clients ops (storage_value sm content ks1)), ks2)"
      "storage_ok sm I c hs tbls content cfg ks2" "storage_value sm content ks2 = snd (map_clients ops (storage_value sm content ks1))"
    using Cons.IH [OF ks1(2)] Cons.prems(2) by auto
  then show ?case using ks1 by (simp add: case_prod_beta Let_def)
qed simp

end

section \<open>Properties\<close>

text \<open>C5: a client sees a map. Over a transport that brings requests to the handlers and replies back, any sequence of calls of
  \<open>KipdbClient\<close> is answered as by a map: \<open>batch_set\<close> applies its pairs in order and reports no failure, \<open>batch_remove\<close> reports
  the keys that are missing when their turn comes, \<open>batch_get\<close> gives the empty value for a missing key, and \<open>remove\<close> of
  a missing key is \<open>WriteFailed\<close>.\<close>

theorem client_refines_map:
  assumes "rpc_link conn sm c hs ch" "mem_map sm I" "int_encoding c" "\<forall>task q. fst (try_send ch task q) \<noteq> Closed"
    and "storage_ok sm I c hs tbls content cfg ks" "ks_seq ks + int (sum_list (map op_writes ops)) \<le> i64_MAX"
  shows "\<exists>ks'. client_runs conn ops ks = Some (fst (map_clients ops (storage_value sm content ks)), ks') \<and>
    storage_ok sm I c hs tbls content cfg ks' \<and> storage_value sm content ks' = snd (map_clients ops (storage_value sm content ks))"
  using rpc_link.client_runs_hold [OF assms(1) _ assms(5,6)] assms(2-4) by (simp add: writable_def)

theorem client_refines_map_witness:
  "\<exists>ks ks'. client_runs (direct_stub btree_skip_map le_crates sum_hashing sample_channel)
      [C_Batch_Set [([1], [2]), ([3], [4])], C_Batch_Remove [[1], [1]], C_Batch_Get [[1], [3]], C_Remove [5]] ks =
    Some ([A_Pairs [], A_Keys [[1]], A_Keys [[], [4]], A_Error WriteFailed], ks')"
proof -
  let ?ops = "[C_Batch_Set [([1], [2]), ([3], [4])], C_Batch_Remove [[1], [1]], C_Batch_Get [[1], [3]], C_Remove [5]]"
  obtain st where st: "storage_ok btree_skip_map keys_ascending le_crates sum_hashing Map.empty Map.empty sample_config0 (sample_storage [] st)"
      "storage_value btree_skip_map Map.empty (sample_storage [] st) = (\<lambda>key. None)"
    using sample_storage_ok [of "[]"] by auto
  show ?thesis
    using client_refines_map [OF direct.rpc_link_axioms bt.mem_map_axioms le.int_encoding_axioms _ st(1), of sample_channel ?ops] st(2)
    by (auto simp: sample_channel_def sample_storage_def i64_MAX_def)
qed

end
