(* ===== verification/Spec2Isabelle.thy ===== *)
theory Spec2Isabelle
  imports Buf_Io Cleaner Store_Open Server
begin

text \<open>
  A model of KipDB, an embedded key-value store organised as a log-structured merge tree
  (\<open>src/src/kernel\<close>), with the theorems that make its components correct.

  \<^bold>\<open>The program.\<close> A write goes to the write-ahead log and to the memory table, an ordered map from keys with a
  sequence number to values, where no value is a deletion. When the trigger of the memory table is exceeded the store
  sends a task to the compactor, which swaps the memory table out, writes it as a table of level 0 and, level
  by level, merges tables that have grown too many into the next level. The tables that exist and their
  key ranges are a version. Versions are immutable; edits give the next one and are written to the version log. The cleaner
  deletes the files of a table when no version that is alive refers to it. A read looks into the memory table, then
  into the tables of the current version from the youngest to the oldest. A transaction keeps the version and the
  sequence number of its start, buffers its writes and checks for conflicts when it commits. A server offers the
  store to clients over the network.

  \<^bold>\<open>Theories and sources\<close> (paths below \<open>src/src/kernel\<close>):

  \<^item> \<open>KipDB_Prelude\<close>: byte strings, outcomes (\<open>Ok\<close>, \<open>Err\<close> with a \<open>KernelError\<close>, \<open>Panic\<close>), 64 bit integers, bounds,
    binary search, slices and the iterator adaptors the code uses; \<open>error.rs\<close>.
  \<^item> \<open>Ordered_Map\<close>: \<open>BTreeMap\<close>, and the contract of the skip map of the memory table.
  \<^item> \<open>Crates\<close>: contracts of the encoding, checksum and compression crates, with an instance that satisfies them.
  \<^item> \<open>Kip_Config\<close>: \<open>Config\<close> of \<open>lsm/storage.rs\<close>, \<open>lsm/trigger.rs\<close>.
  \<^item> \<open>Kip_Io\<close>: \<open>io/mod.rs\<close>, \<open>mod.rs\<close>, the counters \<open>Sequence\<close> and \<open>Gen\<close>; \<open>Buf_Io\<close>: \<open>io/buf.rs\<close>.
  \<^item> \<open>Log\<close>: \<open>lsm/log.rs\<close>.
  \<^item> \<open>Block\<close>, \<open>Block_Builder\<close>, \<open>Block_Iter\<close>: \<open>lsm/table/ss_table/block.rs\<close>, \<open>block_iter.rs\<close>.
  \<^item> \<open>Bloom_Filter\<close>, \<open>Lru_Cache\<close>: \<open>utils/bloom_filter.rs\<close>, \<open>utils/lru_cache.rs\<close>.
  \<^item> \<open>Ss_Table\<close>, \<open>Ss_Table_Iter\<close>: \<open>lsm/table/ss_table/mod.rs\<close>, \<open>footer.rs\<close>, \<open>iter.rs\<close>.
  \<^item> \<open>Table_Scope\<close>: \<open>lsm/table/scope.rs\<close>; \<open>Table_Loader\<close>: \<open>lsm/table/mod.rs\<close>, \<open>meta.rs\<close>, \<open>loader.rs\<close>, \<open>btree_table\<close>.
  \<^item> \<open>Merging_Iter\<close>, \<open>Level_Iter\<close>: \<open>lsm/iterator\<close>.
  \<^item> \<open>Mem_Table\<close>: \<open>lsm/mem_table.rs\<close>.
  \<^item> \<open>Version\<close>, \<open>Version_Status\<close>, \<open>Version_Iter\<close>, \<open>Cleaner\<close>: \<open>lsm/version\<close>.
  \<^item> \<open>Compactor\<close> (definitions and sharding) and \<open>Compaction\<close> (what a round does to the data): \<open>lsm/compactor.rs\<close>, \<open>lsm/mod.rs\<close>.
  \<^item> \<open>Storage\<close>: \<open>lsm/storage.rs\<close>; \<open>Mvcc\<close>: \<open>lsm/mvcc.rs\<close>, transactions and their iterator.
  \<^item> \<open>Store_Open\<close>: the lock file of \<open>mod.rs\<close>, opening and recovery in \<open>lsm/storage.rs\<close>.
  \<^item> \<open>Server\<close>: \<open>server/server.rs\<close> and \<open>server/client.rs\<close> (below \<open>src/src\<close>).

  \<^bold>\<open>How state and effects are modelled.\<close> A struct is a record, an enum a datatype, a method a function that takes the state and
  returns it changed. Overflow in checked arithmetic (as in a debug build; it is modelled where sizes add up over the life of a
  store, as in the statistics and thresholds of a version), an index out of range, division by zero, a failed assertion and the use
  of freed memory are \<open>Panic\<close>. Code that may not return has type \<open>outcome option\<close>, where \<open>None\<close> is the run that never
  returns; the loops concerned are \<open>partial_function (option)\<close>, so no fuel is chosen anywhere in the model, and a theorem about them states that
  they return. The collecting loops of the iterator theorems (\<open>merging_collect\<close> and the like) take a number of steps; the theorems
  give it explicitly, one more than the number of pairs delivered. \<open>usize\<close> and \<open>u64\<close> are natural numbers with their bounds
  written out where they matter, \<open>i64\<close> is an integer with explicit wrap-around, 32 bit fields of file formats and the 64 bit
  arithmetic of hashing are words. The process-wide counters are arguments and results. A counter shared behind an \<open>Arc\<close> is a reference
  into a list of counters. The LRU cache is a heap of nodes with explicit allocation. A third-party crate is a record of
  functions, and what KipDB relies on is a locale about that record: \<open>int_encoding\<close>, \<open>mem_map\<close>, \<open>bincode_codec\<close> and others,
  each interpreted on a concrete instance. The channel to the compactor is a parameter of the store.

  \<^bold>\<open>Interfaces.\<close> \<open>kv_iter\<close> and \<open>kv_seek_iter\<close> are the traits \<open>Iter\<close> and \<open>SeekIter\<close>: an iterator has a rest, the pairs it will
  deliver. The merging iterator is verified once against them, and they are interpreted on tables, levels, versions and the
  sources of a transaction. \<open>map_store\<close> is what the store promises its clients, interpreted on \<open>KipStorage\<close>. \<open>rpc_link\<close> is what
  client and server rely on in the generated code and the transport between them: every request and every reply arrives,
  which excludes broken connections and messages larger than the transport accepts.

  \<^bold>\<open>What is shown.\<close>

  \<^item> Store and transactions: any sequence of \<open>set\<close>, \<open>get\<close> and \<open>remove\<close> answers as a map does; a flush that needs no
    major compaction changes no value (\<open>flush_correct\<close> lists its conditions); a transaction is a private map that starts as
    the store is when it begins, whatever others do meanwhile (\<open>transaction_snapshot\<close>), and its iterator with a lower bound reads
    its writes over that snapshot; a commit is all or nothing and is refused exactly on a conflict. A client of the server
    sees a map as long as the link between them works (\<open>client_refines_map\<close>).
  \<^item> Compaction: a round of major compaction that keeps its tables in order changes no lookup, a minor compaction below the
    threshold of level 0 puts the flushed pairs in front of everything older; both keep the store well formed. Sharding loses nothing.
  \<^item> Recovery: the log, the version log and the memory table come back from what was written, the first time the database
    is opened again and under the conditions the theorems state; what is lost otherwise is stated as theorems of its own. A store
    with a history in \<open>store_history\<close> (storable keys and non-empty values, flushes below the threshold of level 0, faithful
    snapshots) answers after its first crash as before (\<open>store_reopen\<close>). A damaged log is read up to the damage, or never finished
    if it ends inside a header (\<open>log_load_damaged_tail\<close>); a lock
    file that is held is tried four times and then reported. These theorems are about records that have reached the file, which is so with \<open>IoType::Direct\<close> and
    after a flush: \<open>buf_writer_refines_direct\<close> says when a buffered writer has done the same, \<open>buffered_writes_lost\<close> when not.
  \<^item> Tables: a table answers queries and iterates as the list of pairs it was built from, after a
    round trip through the file as well; the cache in front of the blocks is transparent; the Bloom filter
    has no false negatives.
  \<^item> Cleaner: in every interleaving of versions that come and go with messages that are delivered late, no
    table of a live version is deleted.

  The theorems about flaws (for example \<open>version_iter_misses_level_3\<close>, \<open>wal_overwritten_after_restart\<close>,
  \<open>second_restart_panics\<close>, \<open>crash_after_swap_loses_data\<close>) state what the code does where this is not what it means to do.
  Hypotheses such as \<open>well_placed\<close> and \<open>level_0_closed\<close> of the theorem on compaction mark the situations in which the code
  needs luck: the index 0 it uses when no table of the next level overlaps, and the tables of level 0 it selects.

  \<^bold>\<open>Not modelled.\<close> Failures of writes (those of creating the directory and of the lock file are parameters of opening),
  and paths; the locks and threads inside a component (an operation is one
  step; the order of operations of different tasks is free in \<open>Cleaner\<close> and \<open>Mvcc\<close>); the joined futures of the
  compactor run in order; \<open>serve\<close> and \<open>connect\<close>, which only hand over to the network library, and the generated code of
  the protocol; \<open>CommandData\<close>, which nothing uses; the wrappers around other storage engines (\<open>sled_storage.rs\<close>, \<open>rocksdb_storage.rs\<close>),
  the command line programs and the benchmarks.
\<close>

end
